(* ===== verification/JS_Prelude.thy ===== *)
theory JS_Prelude
  imports Main "HOL-Library.Word"
begin

text \<open>
  The prelude of the development: what the components share.  It holds the collections of rewrite
  rules the component proofs are carried by, the string operations of the language that the
  sources use (\<open>split\<close>, \<open>join\<close>, \<open>indexOf\<close>, \<open>substring\<close>, \<open>replace\<close>), and the
  objects of the language used as dictionaries: insertion-ordered association lists, whose laws are
  stated once as a locale and interpreted on the lists.

  A JavaScript string is a \<^typ>\<open>string\<close> here, a list of code units below 256.  The one component
  whose behaviour depends on larger code points, the UTF-8 codec, uses lists of numbers instead.
\<close>

named_theorems obj_simps \<open>what a property read gives after a write or a delete\<close>
named_theorems step_simps \<open>the field effects of the steps of a component\<close>
named_theorems inv_intros \<open>preservation of the components' invariants\<close>

section \<open>Strings\<close>

type_synonym code_units = string

text \<open>\<open>s.indexOf(c)\<close> for a one-character needle: \<open>None\<close> stands for -1.\<close>

fun index_of :: "'a \<Rightarrow> 'a list \<Rightarrow> nat option" where
  "index_of c [] = None"
| "index_of c (x # xs) = (if x = c then Some 0 else map_option Suc (index_of c xs))"

lemma index_of_None_iff [simp]: "index_of c xs = None \<longleftrightarrow> c \<notin> set xs"
  by (induction xs) auto

lemma index_of_append_fresh:
  "c \<notin> set xs \<Longrightarrow> index_of c (xs @ c # ys) = Some (length xs)"
  by (induction xs) auto

lemma index_of_SomeD:
  "index_of c xs = Some i \<Longrightarrow>
   i < length xs \<and> xs ! i = c \<and> c \<notin> set (take i xs) \<and> xs = take i xs @ c # drop (Suc i) xs"
  by (induction xs arbitrary: i) (auto split: if_splits)

text \<open>\<open>s.indexOf(p) === 0\<close>: the string starts with \<open>p\<close>.\<close>

fun starts_with :: "'a list \<Rightarrow> 'a list \<Rightarrow> bool" where
  "starts_with [] s = True"
| "starts_with (p # ps) [] = False"
| "starts_with (p # ps) (x # xs) = (p = x \<and> starts_with ps xs)"

lemma starts_with_iff: "starts_with p s \<longleftrightarrow> (\<exists>r. s = p @ r)"
  by (induction p s rule: starts_with.induct) auto

lemma starts_with_append [simp]: "starts_with p (p @ r)"
  by (auto simp: starts_with_iff)

text \<open>\<open>s.indexOf(p)\<close> for any needle, and \<open>s.replace(p, r)\<close> with a string pattern, which
  replaces the first occurrence only.\<close>

fun find_sub :: "'a list \<Rightarrow> 'a list \<Rightarrow> nat option" where
  "find_sub p [] = (if p = [] then Some 0 else None)"
| "find_sub p (x # xs) =
     (if starts_with p (x # xs) then Some 0 else map_option Suc (find_sub p xs))"

definition replace_first :: "'a list \<Rightarrow> 'a list \<Rightarrow> 'a list \<Rightarrow> 'a list" where
  "replace_first p r s =
     (case find_sub p s of None \<Rightarrow> s | Some i \<Rightarrow> take i s @ r @ drop (i + length p) s)"

lemma replace_first_prefix: "replace_first p r (p @ s) = r @ s"
proof (cases "p @ s")
  case Nil
  then show ?thesis by (simp add: replace_first_def)
next
  case (Cons x xs)
  then have "find_sub p (p @ s) = Some 0"
    by (metis find_sub.simps(2) starts_with_append)
  then show ?thesis by (simp add: replace_first_def)
qed

text \<open>\<open>s.replace(/p/g, r)\<close> for a fixed non-empty string \<open>p\<close>: every occurrence, left to right.\<close>

function replace_all :: "'a list \<Rightarrow> 'a list \<Rightarrow> 'a list \<Rightarrow> 'a list" where
  "replace_all p r [] = []"
| "replace_all p r (x # xs) =
     (if p \<noteq> [] \<and> starts_with p (x # xs) then r @ replace_all p r (drop (length p) (x # xs))
      else x # replace_all p r xs)"
  by pat_completeness auto
termination
  by (relation "measure (\<lambda>(p, r, s). length s)") auto

text \<open>\<open>s.split(c)\<close> for a one-character separator, and \<open>xs.join(sep)\<close>.\<close>

fun split_on :: "'a \<Rightarrow> 'a list \<Rightarrow> 'a list list" where
  "split_on c [] = [[]]"
| "split_on c (x # xs) =
     (if x = c then [] # split_on c xs
      else (case split_on c xs of [] \<Rightarrow> [[x]] | p # ps \<Rightarrow> (x # p) # ps))"

fun join :: "'a list \<Rightarrow> 'a list list \<Rightarrow> 'a list" where
  "join sep [] = []"
| "join sep [x] = x"
| "join sep (x # y # ys) = x @ sep @ join sep (y # ys)"

lemma split_on_not_Nil [simp]: "split_on c xs \<noteq> []"
  by (induction xs) (auto split: list.splits)

lemma join_Cons_nonempty: "ys \<noteq> [] \<Longrightarrow> join sep (x # ys) = x @ sep @ join sep ys"
  by (cases ys) auto

lemma join_split_on: "join [c] (split_on c xs) = xs"
proof (induction xs)
  case Nil
  then show ?case by simp
next
  case (Cons x xs)
  obtain p ps where s: "split_on c xs = p # ps"
    by (cases "split_on c xs") auto
  show ?case
    using Cons s by (cases ps) (auto simp: join_Cons_nonempty)
qed

lemma split_on_fresh: "c \<notin> set xs \<Longrightarrow> split_on c xs = [xs]"
  by (induction xs) auto

lemma split_on_append:
  "c \<notin> set xs \<Longrightarrow> split_on c (xs @ c # ys) = xs # split_on c ys"
  by (induction xs) auto

lemma split_on_join:
  "xs \<noteq> [] \<Longrightarrow> \<forall>x \<in> set xs. c \<notin> set x \<Longrightarrow> split_on c (join [c] xs) = xs"
  by (induction "[c]" xs rule: join.induct) (auto simp: split_on_fresh split_on_append)

lemma split_on_pieces: "p \<in> set (split_on c xs) \<Longrightarrow> c \<notin> set p"
proof (induction xs arbitrary: p)
  case Nil
  then show ?case by simp
next
  case (Cons x xs)
  show ?case
    using Cons by (cases "split_on c xs") (auto split: if_splits)
qed

lemma set_join: "x \<in> set (join sep xs) \<Longrightarrow> x \<in> set sep \<or> (\<exists>y \<in> set xs. x \<in> set y)"
  by (induction sep xs rule: join.induct) auto

lemma join_no_sep: "join [] xs = concat xs"
  by (induction "[] :: 'a list" xs rule: join.induct) auto

section \<open>Objects as insertion-ordered dictionaries\<close>

type_synonym ('k, 'v) obj = "('k \<times> 'v) list"

text \<open>Reading a property: \<open>None\<close> is \<open>undefined\<close> for an absent key.\<close>

fun oget :: "('k, 'v) obj \<Rightarrow> 'k \<Rightarrow> 'v option" where
  "oget [] k = None"
| "oget ((a, v) # o') k = (if a = k then Some v else oget o' k)"

text \<open>Writing keeps the place of a key that is there and appends a new one.\<close>

fun oset :: "('k, 'v) obj \<Rightarrow> 'k \<Rightarrow> 'v \<Rightarrow> ('k, 'v) obj" where
  "oset [] k v = [(k, v)]"
| "oset ((a, w) # o') k v = (if a = k then (a, v) # o' else (a, w) # oset o' k v)"

definition odel :: "('k, 'v) obj \<Rightarrow> 'k \<Rightarrow> ('k, 'v) obj" where
  "odel o' k = filter (\<lambda>(a, _). a \<noteq> k) o'"

definition okeys :: "('k, 'v) obj \<Rightarrow> 'k list" where
  "okeys o' = map fst o'"

definition owf :: "('k, 'v) obj \<Rightarrow> bool" where
  "owf o' \<longleftrightarrow> distinct (okeys o')"

text \<open>What the clients of an object rely on.\<close>

locale js_object =
  fixes empty :: "'o"
    and get :: "'o \<Rightarrow> 'k \<Rightarrow> 'v option"
    and set_prop :: "'o \<Rightarrow> 'k \<Rightarrow> 'v \<Rightarrow> 'o"
    and del_prop :: "'o \<Rightarrow> 'k \<Rightarrow> 'o"
    and keys :: "'o \<Rightarrow> 'k list"
    and wf_obj :: "'o \<Rightarrow> bool"
  assumes get_empty: "get empty k = None"
    and get_set: "get (set_prop m k v) k' = (if k' = k then Some v else get m k')"
    and get_del: "get (del_prop m k) k' = (if k' = k then None else get m k')"
    and keys_get: "k \<in> set (keys m) \<longleftrightarrow> get m k \<noteq> None"
    and wf_empty: "wf_obj empty"
    and wf_set: "wf_obj m \<Longrightarrow> wf_obj (set_prop m k v)"
    and wf_del: "wf_obj m \<Longrightarrow> wf_obj (del_prop m k)"
    and wf_distinct: "wf_obj m \<longleftrightarrow> distinct (keys m)"
begin

text \<open>Copying every property of a list of them, left to right: the last one wins.\<close>

definition put_all :: "('k \<times> 'v) list \<Rightarrow> 'o \<Rightarrow> 'o" where
  "put_all kvs m = fold (\<lambda>(k, v) acc. set_prop acc k v) kvs m"

lemma put_all_Nil: "put_all [] m = m"
  by (simp add: put_all_def)

lemma put_all_Cons: "put_all ((k, v) # kvs) m = put_all kvs (set_prop m k v)"
  by (simp add: put_all_def)

lemma get_put_all:
  "get (put_all kvs m) k = (case map_of (rev kvs) k of None \<Rightarrow> get m k | Some v \<Rightarrow> Some v)"
proof (induction kvs arbitrary: m)
  case Nil
  then show ?case by (simp add: put_all_Nil)
next
  case (Cons kv kvs)
  obtain a v where "kv = (a, v)" by force
  then show ?case
    by (simp add: put_all_Cons Cons.IH get_set map_add_def split: option.splits)
qed

lemma wf_put_all: "wf_obj m \<Longrightarrow> wf_obj (put_all kvs m)"
  by (induction kvs arbitrary: m) (auto simp: put_all_Nil put_all_Cons wf_set)

lemma keys_set_iff: "k' \<in> set (keys (set_prop m k v)) \<longleftrightarrow> k' = k \<or> k' \<in> set (keys m)"
  by (simp add: keys_get get_set)

lemma keys_del_iff: "k' \<in> set (keys (del_prop m k)) \<longleftrightarrow> k' \<noteq> k \<and> k' \<in> set (keys m)"
  by (simp add: keys_get get_del)

end

lemma oget_oset [simp, obj_simps]: "oget (oset m k v) k' = (if k' = k then Some v else oget m k')"
  by (induction m) auto

lemma oget_odel [simp, obj_simps]: "oget (odel m k) k' = (if k' = k then None else oget m k')"
  by (induction m) (auto simp: odel_def)

lemma okeys_oset: "okeys (oset m k v) = (if k \<in> set (okeys m) then okeys m else okeys m @ [k])"
  by (induction m) (force simp: okeys_def)+

lemma oget_okeys: "k \<in> set (okeys m) \<longleftrightarrow> oget m k \<noteq> None"
  by (induction m) (auto simp: okeys_def)

lemma okeys_odel: "okeys (odel m k) = filter (\<lambda>a. a \<noteq> k) (okeys m)"
  by (induction m) (auto simp: okeys_def odel_def)

interpretation od: js_object "[]" oget oset odel okeys owf
  by unfold_locales (auto simp: owf_def okeys_oset okeys_odel oget_okeys okeys_def [of "[]"])

lemmas [inv_intros] = od.wf_empty od.wf_set od.wf_del od.wf_put_all

lemma oget_map_of: "oget m k = map_of m k"
  by (induction m) auto

end
