(* ===== verification/Base64.thy ===== *)
theory Base64
  imports JS_Prelude
begin

unbundle bit_operations_syntax

text \<open>
  The raw-string conversions and the Base64 codec of \<open>src/base1/cockpit.js\<close>
  (\<open>array_from_raw_string\<close>, \<open>array_to_raw_string\<close>, \<open>uint6_to_b64\<close>, \<open>base64_encode\<close>,
  \<open>b64_to_uint6\<close>, \<open>base64_decode\<close>).  The accumulator \<open>uint24\<close> is a 32-bit word, as the bit
  operators of the language make it; the bytes are 8-bit words; characters are \<^typ>\<open>char\<close>.
  The branches for string input (\<open>window.btoa\<close>, \<open>window.atob\<close>) are browser calls and left out.
\<close>

type_synonym byte = "8 word"
type_synonym u32 = "32 word"

section \<open>Raw strings\<close>

text \<open>\<open>str.charCodeAt(i) & 0xFF\<close> for every code unit.\<close>

definition array_from_raw_string :: "string \<Rightarrow> byte list" where
  "array_from_raw_string str = map (\<lambda>c. word_of_nat (of_char c) AND 0xFF) str"

definition array_to_raw_string :: "byte list \<Rightarrow> string" where
  "array_to_raw_string data = map (\<lambda>b. char_of (unat b)) data"

section \<open>The codec\<close>

definition uint6_to_b64 :: "u32 \<Rightarrow> u32" where
  "uint6_to_b64 x =
     (if x < 26 then x + 65 else if x < 52 then x + 71 else if x < 62 then x - 4
      else if x = 62 then 43 else if x = 63 then 47 else 65)"

definition b64_to_uint6 :: "u32 \<Rightarrow> u32" where
  "b64_to_uint6 x =
     (if x > 64 \<and> x < 91 then x - 65 else if x > 96 \<and> x < 123 then x - 71
      else if x > 47 \<and> x < 58 then x + 4 else if x = 43 then 62 else if x = 47 then 63 else 0)"

text \<open>\<open>16 >>> mod3 & 24\<close>: the shift amount of byte \<open>mod3\<close> of a 24-bit group.\<close>

definition byte_shift :: "nat \<Rightarrow> nat" where
  "byte_shift mod3 = unat (drop_bit mod3 (16 :: u32) AND 24)"

definition char_unit :: "u32 \<Rightarrow> char" where
  "char_unit w = char_of (unat w)"

definition unit_char :: "char \<Rightarrow> u32" where
  "unit_char c = word_of_nat (of_char c)"

definition b64_group :: "u32 \<Rightarrow> string" where
  "b64_group uint24 =
     [char_unit (uint6_to_b64 (drop_bit 18 uint24 AND 63)),
      char_unit (uint6_to_b64 (drop_bit 12 uint24 AND 63)),
      char_unit (uint6_to_b64 (drop_bit 6 uint24 AND 63)),
      char_unit (uint6_to_b64 (uint24 AND 63))]"

text \<open>The loop of \<open>base64_encode\<close> from index \<open>i\<close>, over the bytes that are left.\<close>

fun encode_loop :: "nat \<Rightarrow> u32 \<Rightarrow> byte list \<Rightarrow> string" where
  "encode_loop i uint24 [] = []"
| "encode_loop i uint24 (d # ds) =
     (let mod3 = i mod 3; u = uint24 OR push_bit (byte_shift mod3) (ucast d)
      in if mod3 = 2 \<or> ds = [] then b64_group u @ encode_loop (Suc i) 0 ds
         else encode_loop (Suc i) u ds)"

text \<open>\<open>mod3\<close> keeps its last value, 2 when the loop body never ran.\<close>

definition base64_encode :: "byte list \<Rightarrow> string" where
  "base64_encode data =
     (let str = encode_loop 0 0 data;
          mod3 = (if data = [] then 2 else (length data - 1) mod 3)
      in take (length str - 2 + mod3) str @
         (if mod3 = 2 then '''' else if mod3 = 1 then ''='' else ''==''))"

text \<open>The scan for padding: at most three, and reading before the start of the string stops it.\<close>

fun count_padding :: "nat \<Rightarrow> string \<Rightarrow> nat" where
  "count_padding 0 rstr = 0"
| "count_padding (Suc n) [] = 0"
| "count_padding (Suc n) (c # cs) = (if c \<noteq> CHR ''='' then 0 else Suc (count_padding n cs))"

text \<open>The inner loop writes at most three bytes of a group, never past \<open>olen\<close>.\<close>

function put_bytes :: "nat \<Rightarrow> nat \<Rightarrow> u32 \<Rightarrow> byte list \<Rightarrow> byte list" where
  "put_bytes mod3 olen uint24 data =
     (if mod3 < 3 \<and> length data < olen
      then put_bytes (Suc mod3) olen uint24 (data @ [ucast (drop_bit (byte_shift mod3) uint24 AND 255)])
      else data)"
  by pat_completeness auto
termination
  by (relation "measure (\<lambda>(mod3, olen, u, data). 3 - mod3)") auto

declare put_bytes.simps [simp del]

fun decode_loop :: "nat \<Rightarrow> nat \<Rightarrow> u32 \<Rightarrow> string \<Rightarrow> byte list \<Rightarrow> byte list" where
  "decode_loop olen ii uint24 [] data = data"
| "decode_loop olen ii uint24 (c # cs) data =
     (let mod4 = ii mod 4; u = uint24 OR push_bit (18 - 6 * mod4) (b64_to_uint6 (unit_char c))
      in if mod4 = 3 \<or> cs = [] then decode_loop olen (Suc ii) 0 cs (put_bytes 0 olen u data)
         else decode_loop olen (Suc ii) u cs data)"

text \<open>\<open>new Array(olen)\<close> throws a RangeError for a negative length: \<open>None\<close>.\<close>

definition base64_decode :: "string \<Rightarrow> byte list option" where
  "base64_decode str =
     (let ilen = length str; eq = count_padding 3 (rev str);
          olen = int ((ilen * 3 + 1) div 4) - int eq
      in if olen < 0 then None else Some (decode_loop (nat olen) 0 0 str []))"

section \<open>The encoding of RFC 4648, as a reference\<close>

text \<open>The standard's table, the 24-bit number of three bytes and its four base-64 digits.\<close>

definition alphabet :: string where
  "alphabet = ''ABCDEFGHIJKLMNOPQRSTUVWXYZabcdefghijklmnopqrstuvwxyz0123456789+/''"

definition group24 :: "byte \<Rightarrow> byte \<Rightarrow> byte \<Rightarrow> nat" where
  "group24 a b c = unat a * 65536 + unat b * 256 + unat c"

definition sextets :: "nat \<Rightarrow> string" where
  "sextets n = map (\<lambda>k. alphabet ! (n div 64 ^ k mod 64)) [3, 2, 1, 0]"

fun base64_ref :: "byte list \<Rightarrow> string" where
  "base64_ref [] = ''''"
| "base64_ref [a] = take 2 (sextets (group24 a 0 0)) @ ''==''"
| "base64_ref [a, b] = take 3 (sextets (group24 a b 0)) @ ''=''"
| "base64_ref (a # b # c # ds) = sextets (group24 a b c) @ base64_ref ds"

text \<open>The words both directions of the codec pass through.\<close>

definition pack3 :: "byte \<Rightarrow> byte \<Rightarrow> byte \<Rightarrow> u32" where
  "pack3 a b c = push_bit 16 (ucast a) OR push_bit 8 (ucast b) OR ucast c"

definition unpack3 :: "u32 \<Rightarrow> byte list" where
  "unpack3 u = [ucast (drop_bit 16 u AND 255), ucast (drop_bit 8 u AND 255), ucast (u AND 255)]"

definition gather4 :: "string \<Rightarrow> u32" where
  "gather4 cs = push_bit 18 (b64_to_uint6 (unit_char (cs ! 0))) OR
     push_bit 12 (b64_to_uint6 (unit_char (cs ! 1))) OR
     push_bit 6 (b64_to_uint6 (unit_char (cs ! 2))) OR b64_to_uint6 (unit_char (cs ! 3))"

section \<open>Encoding\<close>

lemma byte_shift_simps [simp]:
  "byte_shift 0 = 16" "byte_shift (Suc 0) = 8" "byte_shift 2 = 0" "byte_shift (Suc (Suc 0)) = 0"
  by (simp_all add: byte_shift_def drop_bit_eq_div)


lemma bit_ucast_byte: "bit (ucast (a :: byte) :: u32) n \<Longrightarrow> n < 8"
  by (auto simp: bit_simps dest: bit_imp_le_length)

lemma unat_byte_less: "unat (x :: byte) < 256"
  using unsigned_less [of x, where ?'a = nat] by simp

lemma unat_pack3: "unat (pack3 a b c) = group24 a b c"
proof -
  have d2: "push_bit 8 (ucast b :: u32) AND ucast c = 0"
    by (auto simp: bit_eq_iff bit_simps dest: bit_imp_le_length)
  have d1: "push_bit 16 (ucast a :: u32) AND (push_bit 8 (ucast b) OR ucast c) = 0"
    by (auto simp: bit_eq_iff bit_simps dest: bit_imp_le_length)
  have "pack3 a b c = push_bit 16 (ucast a) + (push_bit 8 (ucast b) + ucast c)"
    unfolding pack3_def by (simp add: disjunctive_add_eq_or d1 d2)
  also have "unat \<dots> = group24 a b c"
    using unat_byte_less [of a] unat_byte_less [of b] unat_byte_less [of c]
    by (simp add: push_bit_eq_mult unat_word_ariths group24_def unsigned_ucast_eq take_bit_eq_mod)
  finally show ?thesis .
qed


lemma unat_sextet: "unat (drop_bit k u AND 63 :: u32) = unat u div 2 ^ k mod 64"
proof -
  have "drop_bit k u AND 63 = take_bit 6 (drop_bit k u)"
    by (simp add: take_bit_eq_mask mask_eq_decr_exp)
  then show ?thesis
    by (simp add: unsigned_take_bit_eq unat_drop_bit_eq take_bit_eq_mod [of _ "_ :: nat"]
        drop_bit_eq_div [of _ "_ :: nat"])
qed

lemma upt_64: "[0..<64] = [0,1,2,3,4,5,6,7,8,9,10,11,12,13,14,15,16,17,18,19,20,21,22,23,24,25,26,27,
   28,29,30,31,32,33,34,35,36,37,38,39,40,41,42,43,44,45,46,47,48,49,50,51,52,53,54,55,56,57,58,59,
   60,61,62,63]"
  by code_simp

lemma all_below_list_all: "list_all P [0..<n] \<Longrightarrow> i < n \<Longrightarrow> P i"
  by (simp add: list_all_iff)

lemma uint6_to_b64_alphabet:
  assumes "unat x < 64"
  shows "char_unit (uint6_to_b64 x) = alphabet ! unat x"
proof -
  have "list_all (\<lambda>i. char_unit (uint6_to_b64 (word_of_nat i)) = alphabet ! i) [0..<64]"
    unfolding upt_64 list.pred_inject
    by (simp add: char_unit_def uint6_to_b64_def alphabet_def char_of_eq_iff)
  from all_below_list_all [OF this assms] show ?thesis by simp
qed

lemma b64_to_uint6_alphabet:
  assumes "n < 64"
  shows "b64_to_uint6 (unit_char (alphabet ! n)) = word_of_nat n"
proof -
  have "list_all (\<lambda>i. b64_to_uint6 (unit_char (alphabet ! i)) = word_of_nat i) [0..<64]"
    unfolding upt_64 list.pred_inject
    by (simp add: unit_char_def b64_to_uint6_def alphabet_def)
  from all_below_list_all [OF this assms] show ?thesis .
qed

lemma alphabet_not_padding:
  assumes "n < 64"
  shows "alphabet ! n \<noteq> CHR ''=''"
proof -
  have "list_all (\<lambda>i. alphabet ! i \<noteq> CHR ''='') [0..<64]"
    unfolding upt_64 list.pred_inject by (simp add: alphabet_def)
  from all_below_list_all [OF this assms] show ?thesis .
qed

lemma b64_group_sextets: "b64_group u = sextets (unat u)"
proof -
  have "char_unit (uint6_to_b64 (drop_bit k u AND 63)) = alphabet ! (unat u div 2 ^ k mod 64)" for k
    using uint6_to_b64_alphabet [of "drop_bit k u AND 63"] by (simp add: unat_sextet)
  from this [of 18] this [of 12] this [of 6] this [of 0] show ?thesis
    by (simp add: b64_group_def sextets_def)
qed

lemma encode_loop_mod: "i mod 3 = j mod 3 \<Longrightarrow> encode_loop i u xs = encode_loop j u xs"
proof (induction xs arbitrary: i j u)
  case (Cons x xs)
  then have "Suc i mod 3 = Suc j mod 3" by (simp add: mod_Suc)
  then show ?case by (simp only: encode_loop.simps Let_def Cons.prems Cons.IH [of "Suc i" "Suc j"])
qed simp

lemma encode_loop_group:
  "encode_loop 0 0 [a] = b64_group (pack3 a 0 0)"
  "encode_loop 0 0 [a, b] = b64_group (pack3 a b 0)"
  "encode_loop 0 0 (a # b # c # ds) = b64_group (pack3 a b c) @ encode_loop 0 0 ds"
proof -
  have "encode_loop 0 0 ds = encode_loop (Suc (Suc (Suc 0))) 0 ds"
    by (rule encode_loop_mod) simp
  then show "encode_loop 0 0 (a # b # c # ds) = b64_group (pack3 a b c) @ encode_loop 0 0 ds"
    by (simp add: pack3_def or.assoc)
qed (simp_all add: pack3_def)

declare encode_loop.simps(2) [simp del]

lemma length_sextets [simp]: "length (sextets n) = 4"
  by (simp add: sextets_def)

lemma length_encode_loop: "length (encode_loop 0 0 xs) = 4 * ((length xs + 2) div 3)"
proof (induction xs rule: base64_ref.induct)
  case (4 a b c ds)
  have "(length (a # b # c # ds) + 2) div 3 = Suc ((length ds + 2) div 3)" by simp
  with 4 show ?case by (simp only: encode_loop_group) (simp add: b64_group_sextets)
qed (simp_all add: encode_loop_group b64_group_sextets)

lemma base64_encode_step:
  "base64_encode (a # b # c # ds) = sextets (group24 a b c) @ base64_encode ds"
proof (cases "ds = []")
  case True
  then show ?thesis
    by (simp add: base64_encode_def encode_loop_group b64_group_sextets unat_pack3
       )
next
  case False
  let ?str = "encode_loop 0 0 ds" and ?m = "(length ds - 1) mod 3"
  have len: "2 \<le> length ?str"
    using False by (cases ds) (simp_all add: length_encode_loop)
  have m: "(length (a # b # c # ds) - 1) mod 3 = ?m"
    using False by (cases ds) simp_all
  have l: "length (sextets (group24 a b c) @ ?str) - 2 + ?m = 4 + (length ?str - 2 + ?m)"
    using len by simp
  show ?thesis
    using False len
    unfolding base64_encode_def encode_loop_group b64_group_sextets unat_pack3 m Let_def l
    by (simp add: take_append)
qed

lemma base64_encode_eq_ref: "base64_encode data = base64_ref data"
proof (induction data rule: base64_ref.induct)
  case (4 a b c ds)
  then show ?case by (simp add: base64_encode_step)
qed (simp_all add: base64_encode_def encode_loop_group b64_group_sextets unat_pack3
      )

text \<open>C20: the shift-and-mask loop of \<open>base64_encode\<close> computes the encoding of RFC 4648, padding included,
  for every sequence of bytes.\<close>

theorem base64_encode_ref: "base64_encode data = base64_ref data"
  by (rule base64_encode_eq_ref)

section \<open>Decoding\<close>

lemma put_bytes_take: "put_bytes 0 olen u data = data @ take (olen - length data) (unpack3 u)"
proof -
  note p = put_bytes.simps [of 0] put_bytes.simps [of 1] put_bytes.simps [of 2] put_bytes.simps [of 3]
  show ?thesis
    by (simp add: p [simplified] unpack3_def take_Cons' numeral_2_eq_2 [symmetric]
        numeral_3_eq_3 [symmetric])
qed

lemma bit_byte_beyond: "8 \<le> n \<Longrightarrow> \<not> bit (x :: byte) n"
  by (auto dest: bit_imp_le_length)

lemma and_255: "u AND 255 = take_bit 8 (u :: u32)"
  by (simp add: take_bit_eq_mask mask_eq_decr_exp)

lemma unpack3_pack3: "unpack3 (pack3 a b c) = [a, b, c]"
proof -
  have 1: "ucast (drop_bit 16 (pack3 a b c) AND 255) = a"
    unfolding pack3_def and_255 by (rule bit_word_eqI) (auto simp: bit_simps bit_byte_beyond)
  have 2: "ucast (drop_bit 8 (pack3 a b c) AND 255) = b"
    unfolding pack3_def and_255 by (rule bit_word_eqI) (auto simp: bit_simps bit_byte_beyond)
  have 3: "ucast (pack3 a b c AND 255) = c"
    unfolding pack3_def and_255 by (rule bit_word_eqI) (auto simp: bit_simps bit_byte_beyond)
  from 1 2 3 show ?thesis by (simp add: unpack3_def)
qed

lemma decode_loop_group:
  assumes "ii mod 4 = 0"
  shows "decode_loop olen ii 0 (p # q # r # s # cs) data =
    decode_loop olen (Suc (Suc (Suc (Suc ii)))) 0 cs (put_bytes 0 olen (gather4 [p, q, r, s]) data)"
proof -
  have "Suc ii mod 4 = 1" "Suc (Suc ii) mod 4 = 2" "Suc (Suc (Suc ii)) mod 4 = 3"
    using assms by presburger+
  then show ?thesis
    using assms by (simp add: gather4_def or.assoc)
qed

lemma split_sextets:
  fixes u :: u32
  assumes "u < 2 ^ 24"
  shows "push_bit 18 (drop_bit 18 u AND 63) OR push_bit 12 (drop_bit 12 u AND 63) OR
    push_bit 6 (drop_bit 6 u AND 63) OR (u AND 63) = u"
proof (rule bit_word_eqI)
  fix n assume "n < LENGTH(32)"
  have m: "x AND 63 = take_bit 6 x" for x :: u32
    by (simp add: take_bit_eq_mask mask_eq_decr_exp)
  have "take_bit 24 u = u"
    using assms by (simp add: take_bit_eq_mod mod_word_less)
  then have u: "bit u n \<Longrightarrow> n < 24"
    by (metis bit_take_bit_iff)
  consider "n < 6" | "6 \<le> n" "n < 12" | "12 \<le> n" "n < 18" | "18 \<le> n" "n < 24" | "24 \<le> n"
    by linarith
  then show "bit (push_bit 18 (drop_bit 18 u AND 63) OR push_bit 12 (drop_bit 12 u AND 63) OR
      push_bit 6 (drop_bit 6 u AND 63) OR (u AND 63)) n = bit u n"
    unfolding m using u by cases (auto simp: bit_simps)
qed

lemma gather4_sextets:
  assumes "n < 2 ^ 24"
  shows "gather4 (sextets n) = word_of_nat n"
proof -
  let ?u = "word_of_nat n :: u32"
  have un: "unat ?u = n"
    using assms by (simp add: unat_of_nat)
  have d: "word_of_nat (n div 2 ^ k mod 64) = drop_bit k ?u AND 63" for k
    using arg_cong [OF unat_sextet [of k ?u], of "word_of_nat :: nat \<Rightarrow> u32"] un by simp
  have "?u < 2 ^ 24"
    using assms un by (simp add: word_less_nat_alt)
  from split_sextets [OF this] show ?thesis
    using d [of 18] d [of 12] d [of 6] d [of 0]
    by (simp add: gather4_def sextets_def b64_to_uint6_alphabet)
qed

lemma group24_less: "group24 a b c < 2 ^ 24"
  using unat_byte_less [of a] unat_byte_less [of b] unat_byte_less [of c] by (simp add: group24_def)

lemma gather4_group24: "gather4 (sextets (group24 a b c)) = pack3 a b c"
  using gather4_sextets [OF group24_less, of a b c] by (simp flip: unat_pack3)

lemma padding_value [simp]: "b64_to_uint6 (unit_char (CHR ''='')) = 0"
  by (simp add: b64_to_uint6_def unit_char_def)

lemma sextets_tail:
  "sextets (group24 a 0 0) = take 2 (sextets (group24 a 0 0)) @ [alphabet ! 0, alphabet ! 0]"
  "sextets (group24 a b 0) = take 3 (sextets (group24 a b 0)) @ [alphabet ! 0]"
  by (simp_all add: sextets_def group24_def)

lemma gather4_padded:
  "gather4 (take 2 (sextets (group24 a 0 0)) @ ''=='') = pack3 a 0 0"
  "gather4 (take 3 (sextets (group24 a b 0)) @ ''='') = pack3 a b 0"
proof -
  have A: "b64_to_uint6 (unit_char (alphabet ! 0)) = 0"
    using b64_to_uint6_alphabet [of 0] by simp
  obtain p q r s where s: "sextets (group24 a 0 0) = [p, q, r, s]"
    by (simp add: sextets_def)
  have "gather4 (take 2 (sextets (group24 a 0 0)) @ ''=='') = gather4 (sextets (group24 a 0 0))"
    using sextets_tail(1) [of a] A unfolding s by (simp add: gather4_def)
  then show "gather4 (take 2 (sextets (group24 a 0 0)) @ ''=='') = pack3 a 0 0"
    by (simp add: gather4_group24)
  obtain p q r s where s: "sextets (group24 a b 0) = [p, q, r, s]"
    by (simp add: sextets_def)
  have "gather4 (take 3 (sextets (group24 a b 0)) @ ''='') = gather4 (sextets (group24 a b 0))"
    using sextets_tail(2) [of a b] A unfolding s by (simp add: gather4_def)
  then show "gather4 (take 3 (sextets (group24 a b 0)) @ ''='') = pack3 a b 0"
    by (simp add: gather4_group24)
qed

lemma decode_loop_quad:
  assumes "ii mod 4 = 0" "length g = 4" "gather4 g = pack3 a b c"
  shows "decode_loop olen ii 0 (g @ cs) data =
    decode_loop olen (Suc (Suc (Suc (Suc ii)))) 0 cs (data @ take (olen - length data) [a, b, c])"
proof -
  obtain p q r s where g: "g = [p, q, r, s]"
    using assms(2) by (auto simp: length_Suc_conv numeral_eq_Suc)
  show ?thesis
    using decode_loop_group [OF assms(1), of olen p q r s cs data] assms(3)
    by (simp add: g put_bytes_take unpack3_pack3)
qed

lemma decode_loop_ref:
  assumes "ii mod 4 = 0" "olen = length data + length xs"
  shows "decode_loop olen ii 0 (base64_ref xs) data = data @ xs"
  using assms
proof (induction xs arbitrary: ii data rule: base64_ref.induct)
  case 1
  then show ?case by simp
next
  case (2 a)
  then show ?case
    using decode_loop_quad [OF 2(1) _ gather4_padded(1) [of a], of olen "[]" data] by simp
next
  case (3 a b)
  then show ?case
    using decode_loop_quad [OF 3(1) _ gather4_padded(2) [of a b], of olen "[]" data] by simp
next
  case (4 a b c ds)
  have "Suc (Suc (Suc (Suc ii))) mod 4 = 0" using 4(2) by presburger
  then have "decode_loop olen (Suc (Suc (Suc (Suc ii)))) 0 (base64_ref ds) (data @ [a, b, c]) =
      (data @ [a, b, c]) @ ds"
    by (rule 4(1)) (simp add: 4(3))
  then show ?case
    using 4(3) decode_loop_quad [OF 4(2) _ gather4_group24 [of a b c], of olen "base64_ref ds" data]
    by simp
qed


lemma count_padding_numeral [simp]:
  "count_padding n [] = 0"
  "count_padding 3 (c # cs) = (if c \<noteq> CHR ''='' then 0 else Suc (count_padding 2 cs))"
  "count_padding 2 (c # cs) = (if c \<noteq> CHR ''='' then 0 else Suc (count_padding (Suc 0) cs))"
  by (cases n) (simp_all add: numeral_3_eq_3 numeral_2_eq_2)

lemma count_padding_append:
  "n \<le> length xs \<Longrightarrow> count_padding n (xs @ ys) = count_padding n xs"
  by (induction n xs rule: count_padding.induct) auto

lemma sextets_not_padding: "c \<in> set (sextets n) \<Longrightarrow> c \<noteq> CHR ''=''"
  using alphabet_not_padding [of "n div _ mod 64"] alphabet_not_padding [of "n mod 64"]
  by (fastforce simp: sextets_def)

lemma count_padding_sextets: "count_padding m (rev (sextets n) @ ys) = 0"
  using sextets_not_padding [of _ n] by (cases m) (auto simp: sextets_def)

lemma length_base64_ref: "length (base64_ref xs) = 4 * ((length xs + 2) div 3)"
proof (induction xs rule: base64_ref.induct)
  case (4 a b c ds)
  have "(length (a # b # c # ds) + 2) div 3 = Suc ((length ds + 2) div 3)" by simp
  with 4 show ?case by (simp del: length_Cons)
qed simp_all

lemma count_padding_ref: "count_padding 3 (rev (base64_ref xs)) = (if xs = [] then 0 else 2 - (length xs - 1) mod 3)"
proof (induction xs rule: base64_ref.induct)
  case 1
  then show ?case by (simp)
next
  case (2 a)
  obtain p q r s where s: "sextets (group24 a 0 0) = [p, q, r, s]" by (simp add: sextets_def)
  then have "q \<noteq> CHR ''=''" using sextets_not_padding [of q "group24 a 0 0"] by simp
  then show ?case using s by (simp)
next
  case (3 a b)
  obtain p q r s where s: "sextets (group24 a b 0) = [p, q, r, s]" by (simp add: sextets_def)
  then have "r \<noteq> CHR ''=''" using sextets_not_padding [of r "group24 a b 0"] by simp
  then show ?case using s by (simp)
next
  case (4 a b c ds)
  show ?case
  proof (cases "ds = []")
    case True
    then show ?thesis using count_padding_sextets [of 3 "group24 a b c" "[]"] by simp
  next
    case False
    then have "1 \<le> (length ds + 2) div 3"
      by (cases ds) simp_all
    then have "3 \<le> length (rev (base64_ref ds))"
      by (simp add: length_base64_ref)
    moreover have "(length (a # b # c # ds) - 1) mod 3 = (length ds - 1) mod 3"
      using False by (cases ds) simp_all
    ultimately show ?thesis
      using 4 False by (simp add: count_padding_append)
  qed
qed

lemma decode_encode: "base64_decode (base64_encode data) = Some data"
proof -
  let ?str = "base64_ref data"
  have "int ((length ?str * 3 + 1) div 4) - int (count_padding 3 (rev ?str)) = int (length data)"
  proof (cases "data = []")
    case False
    then obtain n where n: "length data = Suc n" by (cases data) auto
    have l: "length ?str = 4 * ((n + 3) div 3)"
      by (simp add: length_base64_ref n)
    have c: "count_padding 3 (rev ?str) = 2 - n mod 3"
      using False by (simp add: count_padding_ref n)
    have "(4 * x * 3 + 1) div 4 = 3 * x" for x :: nat by presburger
    from this [of "(n + 3) div 3"] have "(length ?str * 3 + 1) div 4 = 3 * (n div 3) + 3"
      unfolding l by (simp add: div_add_self2)
    moreover have "n = 3 * (n div 3) + n mod 3" "n mod 3 < 3" by simp_all
    ultimately show ?thesis unfolding c n by linarith
  qed (simp)
  then show ?thesis
    using decode_loop_ref [of 0 "length data" "[]" data]
    by (simp add: base64_decode_def base64_encode_eq_ref)
qed


lemma count_padding_le: "count_padding n xs \<le> n \<and> count_padding n xs \<le> length xs"
  by (induction n xs rule: count_padding.induct) auto

text \<open>\<open>base64_decode\<close> throws (a negative array length) for exactly two strings, those of two or
  three padding characters and nothing else.\<close>

theorem base64_decode_error: "base64_decode str = None \<longleftrightarrow> str = ''=='' \<or> str = ''===''"
proof
  assume "base64_decode str = None"
  then have lt: "(length (rev str) * 3 + 1) div 4 < count_padding 3 (rev str)"
    by (simp add: base64_decode_def Let_def split: if_splits)
  have len: "length (rev str) = 2 \<or> length (rev str) = 3"
    using lt count_padding_le [of 3 "rev str"] by presburger
  have "rev str = ''=='' \<or> rev str = ''===''"
  proof (cases "rev str")
    case (Cons a as)
    then show ?thesis
      using lt len by (cases as; cases "tl as") (auto split: if_splits)
  qed (use len in simp)
  then show "str = ''=='' \<or> str = ''===''"
    by (auto simp: rev_swap)
qed (auto simp: base64_decode_def)
end
