(* ===== verification/JS_Value.thy ===== *)
theory JS_Value
  imports JS_Prelude
begin

text \<open>
  The dynamic values of the language that travel through the components: options objects, control
  messages, D-Bus payloads.  Numbers are integers (the sources put only integers into messages);
  the components that compute with fractions use rationals of their own.  The type tests, the
  truthiness of a value and \<open>extend\<close> are those of \<open>src/base1/cockpit.js\<close>.
\<close>

datatype js =
    JUndef
  | JNull
  | JBool bool
  | JNum int
  | JStr string
  | JArr "js list"
  | JObj "(string \<times> js) list"

type_synonym options = "(string, js) obj"

fun truthy :: "js \<Rightarrow> bool" where
  "truthy JUndef = False"
| "truthy JNull = False"
| "truthy (JBool b) = b"
| "truthy (JNum n) = (n \<noteq> 0)"
| "truthy (JStr s) = (s \<noteq> [])"
| "truthy (JArr xs) = True"
| "truthy (JObj kvs) = True"

text \<open>\<open>options.k\<close> of an options object, and \<open>v.k\<close> of any value (only objects have properties here).\<close>

definition opt :: "options \<Rightarrow> string \<Rightarrow> js" where
  "opt m k = (case oget m k of None \<Rightarrow> JUndef | Some v \<Rightarrow> v)"

definition fld :: "js \<Rightarrow> string \<Rightarrow> js" where
  "fld v k = (case v of JObj m \<Rightarrow> opt m k | _ \<Rightarrow> JUndef)"

lemma opt_oset [simp, obj_simps]: "opt (oset m k v) k' = (if k' = k then v else opt m k')"
  by (simp add: opt_def)

lemma opt_odel [simp, obj_simps]: "opt (odel m k) k' = (if k' = k then JUndef else opt m k')"
  by (simp add: opt_def)

lemma opt_Nil [simp]: "opt [] k = JUndef"
  by (simp add: opt_def)

lemma opt_Cons [simp]: "opt ((a, v) # m) k = (if a = k then v else opt m k)"
  by (simp add: opt_def)

lemma fld_JObj [simp]: "fld (JObj m) k = opt m k"
  by (simp add: fld_def)

section \<open>Type tests and searching\<close>

fun in_array :: "'a list \<Rightarrow> 'a \<Rightarrow> bool" where
  "in_array [] val = False"
| "in_array (x # xs) val = (if val = x then True else in_array xs val)"

lemma in_array_iff: "in_array xs v \<longleftrightarrow> v \<in> set xs"
  by (induction xs) auto

fun is_array :: "js \<Rightarrow> bool" where
  "is_array (JArr _) = True"
| "is_array _ = False"

text \<open>\<open>x !== null && typeof x === 'object'\<close>: arrays are objects too.\<close>

fun is_object :: "js \<Rightarrow> bool" where
  "is_object (JArr _) = True"
| "is_object (JObj _) = True"
| "is_object _ = False"

fun is_plain_object :: "js \<Rightarrow> bool" where
  "is_plain_object (JObj _) = True"
| "is_plain_object _ = False"

section \<open>extend\<close>

text \<open>\<open>extend(to, from, ...)\<close>: a falsy \<open>from\<close> is skipped, an undefined property is not copied.\<close>

definition extend1 :: "options \<Rightarrow> js \<Rightarrow> options" where
  "extend1 to from =
     (if truthy from then
        (case from of
           JObj kvs \<Rightarrow> fold (\<lambda>(k, v) acc. if v \<noteq> JUndef then oset acc k v else acc) kvs to
         | _ \<Rightarrow> to)
      else to)"

definition extend :: "options \<Rightarrow> js list \<Rightarrow> options" where
  "extend to froms = fold (\<lambda>from acc. extend1 acc from) froms to"

definition defined_props :: "js \<Rightarrow> (string \<times> js) list" where
  "defined_props from =
     (case from of JObj kvs \<Rightarrow> filter (\<lambda>(k, v). v \<noteq> JUndef) kvs | _ \<Rightarrow> [])"

lemma fold_oset_filter:
  "fold (\<lambda>(k, v) acc. if P v then oset acc k v else acc) kvs m =
   od.put_all (filter (\<lambda>(k, v). P v) kvs) m"
proof (induction kvs arbitrary: m)
  case Nil
  then show ?case by (simp add: od.put_all_Nil)
next
  case (Cons kv kvs)
  then show ?case by (cases kv) (simp add: od.put_all_Cons)
qed

lemma extend1_put_all: "extend1 to from = od.put_all (defined_props from) to"
  by (cases "from") (auto simp: extend1_def defined_props_def fold_oset_filter od.put_all_Nil)

lemma extend_Nil [simp]: "extend to [] = to"
  by (simp add: extend_def)

lemma extend_Cons: "extend to (x # xs) = extend (extend1 to x) xs"
  by (simp add: extend_def)

lemma extend_put_all: "extend to froms = od.put_all (concat (map defined_props froms)) to"
proof (induction froms arbitrary: to)
  case Nil
  then show ?case by (simp add: od.put_all_Nil)
next
  case (Cons x xs)
  then show ?case
    by (simp add: extend_Cons extend1_put_all od.put_all_def)
qed

lemma oget_extend:
  "oget (extend to froms) k =
   (case map_of (rev (concat (map defined_props froms))) k of None \<Rightarrow> oget to k | Some v \<Rightarrow> Some v)"
  by (simp add: extend_put_all od.get_put_all)

lemma owf_extend [inv_intros]: "owf to \<Longrightarrow> owf (extend to froms)"
  by (simp add: extend_put_all od.wf_put_all)

lemma opt_extend_absent:
  assumes "\<And>from. from \<in> set froms \<Longrightarrow> fld from k = JUndef"
    and "\<And>m. JObj m \<in> set froms \<Longrightarrow> owf m"
  shows "opt (extend to froms) k = opt to k"
proof -
  have "k \<notin> fst ` set (defined_props x)" if x: "x \<in> set froms" for x
  proof (cases x)
    case (JObj m)
    have "v = JUndef" if "(k, v) \<in> set m" for v
    proof -
      have "map_of m k = Some v"
        using assms(2) [of m] x that JObj by (simp add: owf_def okeys_def)
      then show ?thesis
        using assms(1) [OF x] JObj by (simp add: opt_def oget_map_of)
    qed
    then show ?thesis by (auto simp: JObj defined_props_def)
  qed (auto simp: defined_props_def)
  then have "map_of (rev (concat (map defined_props froms))) k = None"
    by (fastforce simp: map_of_eq_None_iff)
  then show ?thesis by (simp add: opt_def oget_extend)
qed

text \<open>Extending with one proper object: its defined properties win.\<close>

lemma opt_fold_oset:
  "owf m \<Longrightarrow> opt (fold (\<lambda>(k, v) acc. if v \<noteq> JUndef then oset acc k v else acc) m to) k =
     (if opt m k = JUndef then opt to k else opt m k)"
proof (induction m arbitrary: to)
  case (Cons kv m)
  obtain a v where kv: "kv = (a, v)" by force
  have "owf m" "a \<notin> set (okeys m)"
    using Cons.prems by (auto simp: kv owf_def okeys_def)
  then have "opt m a = JUndef"
    by (auto simp: opt_def oget_map_of okeys_def map_of_eq_None_iff split: option.splits dest: map_of_SomeD)
       (metis fst_conv image_eqI map_of_SomeD)
  then show ?case
    using Cons.IH [OF \<open>owf m\<close>] by (auto simp: kv)
qed simp

lemma opt_extend_obj:
  "owf m \<Longrightarrow> opt (extend to [JObj m]) k = (if opt m k = JUndef then opt to k else opt m k)"
  by (simp add: extend_def extend1_def opt_fold_oset)

section \<open>Decimal numerals\<close>

text \<open>\<open>String(n)\<close> of a non-negative integer, and the value of a decimal numeral.\<close>

fun nat_str :: "nat \<Rightarrow> string" where
  "nat_str n = (if n < 10 then [char_of (48 + n)] else nat_str (n div 10) @ [char_of (48 + n mod 10)])"

declare nat_str.simps [simp del]

definition int_str :: "int \<Rightarrow> string" where
  "int_str i = (if i < 0 then CHR ''-'' # nat_str (nat (- i)) else nat_str (nat i))"

definition is_digit :: "char \<Rightarrow> bool" where
  "is_digit c \<longleftrightarrow> 48 \<le> (of_char c :: nat) \<and> (of_char c :: nat) \<le> 57"

definition digit_val :: "char \<Rightarrow> nat" where
  "digit_val c = of_char c - 48"

definition digits_val :: "string \<Rightarrow> nat" where
  "digits_val s = foldl (\<lambda>acc c. 10 * acc + digit_val c) 0 s"

lemma digits_val_snoc: "digits_val (s @ [c]) = 10 * digits_val s + digit_val c"
  by (simp add: digits_val_def)

lemma digit_char: "n < 10 \<Longrightarrow> is_digit (char_of (48 + n)) \<and> digit_val (char_of (48 + n)) = n"
  by (simp add: is_digit_def digit_val_def take_bit_eq_mod)

lemma nat_str_digits: "list_all is_digit (nat_str n) \<and> nat_str n \<noteq> [] \<and> digits_val (nat_str n) = n"
proof (induction n rule: nat_str.induct)
  case (1 n)
  show ?case
  proof (cases "n < 10")
    case True
    then show ?thesis
      using digit_char [OF True] by (subst (1 2 3) nat_str.simps) (simp add: digits_val_def)
  next
    case False
    have d: "n mod 10 < 10" by simp
    from 1 [OF False] digit_char [OF d] False show ?thesis
      by (subst (1 2 3) nat_str.simps) (simp add: digits_val_snoc)
  qed
qed

lemma nat_str_inj: "nat_str m = nat_str n \<longleftrightarrow> m = n"
  by (metis nat_str_digits)

lemma nat_str_not_Nil [simp]: "nat_str n \<noteq> []"
  using nat_str_digits by blast

section \<open>Conversion to text and access by key\<close>

text \<open>\<open>String(v)\<close>.\<close>

fun to_str :: "js \<Rightarrow> string" where
  "to_str JUndef = ''undefined''"
| "to_str JNull = ''null''"
| "to_str (JBool b) = (if b then ''true'' else ''false'')"
| "to_str (JNum i) = int_str i"
| "to_str (JStr s) = s"
| "to_str (JArr xs) = join '','' (map (\<lambda>x. if x = JUndef \<or> x = JNull then '''' else to_str x) xs)"
| "to_str (JObj kvs) = ''[object Object]''"

text \<open>\<open>data[key]\<close>.\<close>

definition get_prop :: "js \<Rightarrow> js \<Rightarrow> js" where
  "get_prop data key =
     (case data of
        JObj kvs \<Rightarrow> (case key of JStr s \<Rightarrow> opt kvs s | JNum i \<Rightarrow> opt kvs (int_str i) | _ \<Rightarrow> JUndef)
      | JArr xs \<Rightarrow> (case key of
            JNum i \<Rightarrow> if 0 \<le> i \<and> nat i < length xs then xs ! nat i else JUndef
          | JStr s \<Rightarrow> (case find (\<lambda>i. nat_str i = s) [0..<length xs] of None \<Rightarrow> JUndef | Some i \<Rightarrow> xs ! i)
          | _ \<Rightarrow> JUndef)
      | _ \<Rightarrow> JUndef)"

section \<open>White space and numbers in a text\<close>

definition white :: "char \<Rightarrow> bool" where
  "white c \<longleftrightarrow> (of_char c :: nat) \<in> {9, 10, 11, 12, 13, 32, 160}"

text \<open>\<open>trim\<close> takes the white space of the language off both ends.\<close>

definition trim :: "string \<Rightarrow> string" where
  "trim s = rev (dropWhile white (rev (dropWhile white s)))"

text \<open>\<open>parseInt(s, 10)\<close>: leading white space, a sign, and the digits that follow; \<open>None\<close> is \<open>NaN\<close>.\<close>

definition parse_int :: "string \<Rightarrow> int option" where
  "parse_int s =
     (let s = dropWhile white s;
          (neg, s) = (case s of c # r \<Rightarrow> if c = CHR ''-'' then (True, r) else if c = CHR ''+'' then (False, r) else (False, s) | [] \<Rightarrow> (False, s));
          ds = takeWhile is_digit s
      in if ds = [] then None else Some (if neg then - int (digits_val ds) else int (digits_val ds)))"

end
