(* ===== verification/Wire.thy ===== *)
theory Wire
  imports Base64 JS_Value
begin

text \<open>
  What a message looks like on the socket: joining buffers (\<open>join_data\<close>), finding the channel of a
  message (\<open>parse_channel\<close>), putting a channel in front of a payload (the two branches of
  \<open>send_message\<close>) and taking it off again (\<open>dispatch_data\<close>); and where the socket is
  (\<open>calculate_application\<close>, \<open>calculate_url\<close>).  All of \<open>src/base1/cockpit.js\<close>.
\<close>

datatype wire = Text string | Binary "byte list"

text \<open>A payload is a string, a typed array, or a plain array of bytes.\<close>

datatype payload = PStr string | PBytes "byte list" | PArr "byte list"

abbreviation newline :: char where
  "newline \<equiv> CHR 0x0A"

section \<open>join_data\<close>

text \<open>The text case: \<open>buffers.join("")\<close>.\<close>

definition join_text :: "string list \<Rightarrow> string" where
  "join_text buffers = join '''' buffers"

text \<open>The binary case with typed arrays: \<open>data.set(buffers[i], j)\<close> into a zeroed array.\<close>

fun join_set_loop :: "byte list \<Rightarrow> nat \<Rightarrow> byte list list \<Rightarrow> byte list" where
  "join_set_loop data j [] = data"
| "join_set_loop data j (b # bs) =
     join_set_loop (take j data @ b @ drop (j + length b) data) (j + length b) bs"

definition join_set :: "byte list list \<Rightarrow> byte list" where
  "join_set buffers = join_set_loop (replicate (sum_list (map length buffers)) 0) 0 buffers"

text \<open>The binary case without them: \<open>data[i + j] = buffers[i][k]\<close> into an array of holes.\<close>

definition arr_put :: "'a option list \<Rightarrow> nat \<Rightarrow> 'a \<Rightarrow> 'a option list" where
  "arr_put data n v =
     (if n < length data then data[n := Some v]
      else data @ replicate (n - length data) None @ [Some v])"

fun join_fallback_loop :: "byte option list \<Rightarrow> nat \<Rightarrow> nat \<Rightarrow> byte list list \<Rightarrow> byte option list" where
  "join_fallback_loop data i j [] = data"
| "join_fallback_loop data i j (b # bs) =
     join_fallback_loop (fold (\<lambda>x d. arr_put d (i + j) x) b data) (Suc i) (j + length b) bs"

definition join_fallback :: "byte list list \<Rightarrow> byte option list" where
  "join_fallback buffers =
     join_fallback_loop (replicate (sum_list (map length buffers)) None) 0 0 buffers"

text \<open>\<open>join_data(buffers, true)\<close>: the branch the browser's \<open>Uint8Array\<close> decides.\<close>

definition join_data_binary :: "bool \<Rightarrow> byte list list \<Rightarrow> byte option list" where
  "join_data_binary typed_arrays buffers =
     (if typed_arrays then map Some (join_set buffers) else join_fallback buffers)"

section \<open>parse_channel\<close>

definition parse_channel :: "wire \<Rightarrow> string option" where
  "parse_channel data =
     (case data of
        Binary binary \<Rightarrow>
          (case index_of 10 binary of
             None \<Rightarrow> None
           | Some pos \<Rightarrow> if pos = 0 then None else Some (array_to_raw_string (take pos binary)))
      | Text str \<Rightarrow>
          (case index_of newline str of None \<Rightarrow> None | Some pos \<Rightarrow> Some (take pos str)))"

section \<open>Framing\<close>

text \<open>
  \<open>send_message\<close>: \<open>payload.byteLength || is_array(payload)\<close> chooses the binary frame, so an empty
  typed array goes out as text.
\<close>

definition frame :: "payload \<Rightarrow> string \<Rightarrow> wire" where
  "frame payload channel =
     (case payload of
        PStr s \<Rightarrow> Text (channel @ [newline] @ s)
      | PBytes b \<Rightarrow>
          if b \<noteq> [] then Binary (join_set [array_from_raw_string channel, [10], b])
          else Text (channel @ [newline])
      | PArr b \<Rightarrow> Binary (join_set [array_from_raw_string channel, [10], b]))"

text \<open>\<open>dispatch_data\<close>: the payload starts after the channel and the newline.\<close>

definition wire_payload :: "wire \<Rightarrow> string \<Rightarrow> payload" where
  "wire_payload message channel =
     (case message of
        Binary b \<Rightarrow> PBytes (drop (length channel + 1) b)
      | Text s \<Rightarrow> PStr (drop (length channel + 1) s))"

section \<open>The address of the socket\<close>

text \<open>
  \<open>pathname\<close> and \<open>url_root\<close> are what the window (or the mock of the tests) says; an unset or
  empty \<open>url_root\<close> is the empty string.
\<close>

definition calculate_application :: "string \<Rightarrow> string \<Rightarrow> string" where
  "calculate_application pathname url_root =
     (let path = (if pathname = [] then ''/'' else pathname);
          path = (if url_root \<noteq> [] \<and> starts_with (''/'' @ url_root) path
                  then (let p = replace_first (''/'' @ url_root) '''' path in if p = [] then ''/'' else p)
                  else path);
          path = (if \<not> starts_with ''/cockpit/'' path \<and> \<not> starts_with ''/cockpit+'' path then
                    (if starts_with ''/='' path then ''/cockpit+'' @ split_on (CHR ''/'') path ! 1
                     else ''/cockpit'')
                  else path)
      in split_on (CHR ''/'') path ! 1)"

definition calculate_url :: "string \<Rightarrow> string \<Rightarrow> string \<Rightarrow> string \<Rightarrow> string \<Rightarrow> string option" where
  "calculate_url suffix window_loc host pathname url_root =
     (let suffix = (if suffix = [] then ''socket'' else suffix);
          prefix = calculate_application pathname url_root;
          prefix = (if url_root \<noteq> [] then url_root @ ''/'' @ prefix else prefix)
      in if starts_with ''http:'' window_loc then Some (''ws://'' @ host @ ''/'' @ prefix @ ''/'' @ suffix)
         else if starts_with ''https:'' window_loc then Some (''wss://'' @ host @ ''/'' @ prefix @ ''/'' @ suffix)
         else None)"

section \<open>Lemmas on joining\<close>

lemma join_text_concat: "join_text bs = concat bs"
  by (simp add: join_text_def join_no_sep)

lemma join_set_loop_concat:
  "length data = length pre + sum_list (map length bs) \<Longrightarrow> take (length pre) data = pre \<Longrightarrow>
   join_set_loop data (length pre) bs = pre @ concat bs"
proof (induction bs arbitrary: data pre)
  case Nil
  then show ?case by simp
next
  case (Cons b bs)
  let ?d = "pre @ b @ drop (length pre + length b) data"
  have "join_set_loop ?d (length (pre @ b)) bs = (pre @ b) @ concat bs"
    by (rule Cons.IH) (simp_all add: Cons.prems(1))
  then show ?case by (simp add: Cons.prems(2))
qed

lemma join_set_concat: "join_set bs = concat bs"
  unfolding join_set_def
  using join_set_loop_concat [of "replicate (sum_list (map length bs)) 0" "[]" bs] by simp

lemma fold_arr_put_same:
  "b \<noteq> [] \<Longrightarrow> fold (\<lambda>x d. arr_put d 0 x) b (y # ys) = Some (last b) # ys"
  by (induction b arbitrary: y) (auto simp: arr_put_def)

text \<open>with typed arrays, joining buffers is concatenation, byte for byte and in order.\<close>

theorem join_data_typed: "join_data_binary True buffers = map Some (concat buffers)"
  by (simp add: join_data_binary_def join_set_concat)

text \<open>without typed arrays the loop writes every byte of a buffer to the same place: joining one
  buffer of two or more bytes keeps its last byte and leaves holes, where the joined data was meant.\<close>

theorem join_data_fallback_loses:
  assumes "2 \<le> length b"
  shows "join_data_binary False [b] = Some (last b) # replicate (length b - 1) None \<and>
    join_data_binary False [b] \<noteq> map Some (concat [b])"
proof -
  obtain x y ys where b: "b = x # y # ys"
    using assms by (auto simp: Suc_le_length_iff numeral_2_eq_2)
  have eq: "join_data_binary False [b] = Some (last b) # replicate (length b - 1) None"
    using fold_arr_put_same [of b None "replicate (length b - 1) None"]
    by (simp add: join_data_binary_def join_fallback_def b)
  moreover have "join_data_binary False [b] \<noteq> map Some (concat [b])"
    unfolding eq by (simp add: b)
  ultimately show ?thesis by blast
qed

theorem join_data_fallback_loses_witness:
  "join_data_binary False [[1, 2]] = [Some 2, None] \<and>
   join_data_binary False [[1, 2]] \<noteq> map Some (concat [[1, 2]])"
  using join_data_fallback_loses [of "[1, 2]"] by simp

section \<open>Lemmas on framing\<close>

lemma raw_string_roundtrip: "array_to_raw_string (array_from_raw_string s) = s"
proof -
  have "char_of (unat (word_of_nat (of_char c) AND 0xFF :: byte)) = c" for c
  proof -
    have "(0xFF :: byte) = - 1" by simp
    then have "word_of_nat (of_char c) AND 0xFF = (word_of_nat (of_char c) :: byte)"
      by (metis and.right_neutral)
    moreover have "unat (word_of_nat (of_char c) :: byte) = of_char c"
      by (simp add: unat_of_nat)
    ultimately show ?thesis by simp
  qed
  then show ?thesis
    by (simp add: array_to_raw_string_def array_from_raw_string_def o_def)
qed

lemma raw_string_length [simp]: "length (array_from_raw_string s) = length s"
  by (simp add: array_from_raw_string_def)

lemma newline_raw: "newline \<notin> set s \<Longrightarrow> 10 \<notin> set (array_from_raw_string s)"
proof
  assume s: "newline \<notin> set s" and "10 \<in> set (array_from_raw_string s)"
  then have "char_of (unat (10 :: byte)) \<in> set (array_to_raw_string (array_from_raw_string s))"
    unfolding array_to_raw_string_def by (metis (mono_tags, lifting) imageI list.set_map)
  moreover have "char_of (unat (10 :: byte)) = newline" by (simp add: char_of_eq_iff)
  ultimately show False using s by (simp add: raw_string_roundtrip)
qed

text \<open>What the other side gets: a plain array arrives as a typed one, an empty typed array as text.\<close>

definition received :: "payload \<Rightarrow> payload" where
  "received p = (case p of PStr s \<Rightarrow> PStr s | PArr b \<Rightarrow> PBytes b
                 | PBytes b \<Rightarrow> if b = [] then PStr [] else PBytes b)"

lemma frame_binary:
  assumes "newline \<notin> set channel" "channel \<noteq> []"
  shows "parse_channel (Binary (join_set [array_from_raw_string channel, [10], b])) = Some channel"
  using index_of_append_fresh [OF newline_raw [OF assms(1)], of b] assms(2)
  by (simp add: parse_channel_def join_set_concat raw_string_roundtrip)

lemma frame_parse:
  assumes "newline \<notin> set channel" and "channel \<noteq> [] \<or> (\<exists>s. payload = PStr s)"
  shows "parse_channel (frame payload channel) = Some channel \<and>
    wire_payload (frame payload channel) channel = received payload"
proof (cases payload)
  case (PStr s)
  then show ?thesis
    using index_of_append_fresh [OF assms(1), of s]
    by (simp add: frame_def parse_channel_def wire_payload_def received_def)
next
  case (PBytes b)
  then show ?thesis
    using assms frame_binary [OF assms(1), of b] index_of_append_fresh [OF assms(1), of "[]"]
    by (auto simp: frame_def wire_payload_def received_def join_set_concat parse_channel_def)
next
  case (PArr b)
  then show ?thesis
    using assms frame_binary [OF assms(1), of b]
    by (auto simp: frame_def wire_payload_def received_def join_set_concat)
qed

text \<open>C23: a framed message is recognised: the channel that \<open>send_message\<close> put in front is the one
  \<open>parse_channel\<close> finds, and the payload behind it is the payload sent.  (Channel names have no
  newline; the control channel, whose name is empty, carries strings only.)\<close>

theorem frame_roundtrip:
  assumes "newline \<notin> set channel" and "channel \<noteq> [] \<or> (\<exists>s. payload = PStr s)"
  shows "parse_channel (frame payload channel) = Some channel \<and>
    wire_payload (frame payload channel) channel = received payload"
  by (rule frame_parse [OF assms])

theorem frame_roundtrip_witness:
  "parse_channel (frame (PBytes [1, 10, 2]) ''a:4'') = Some ''a:4'' \<and>
   wire_payload (frame (PBytes [1, 10, 2]) ''a:4'') ''a:4'' = received (PBytes [1, 10, 2])"
  using frame_roundtrip [of "''a:4''" "PBytes [1, 10, 2]"] by simp

section \<open>Lemmas on the address\<close>

lemma split_on_second: "split_on c (c # s) ! 1 = hd (split_on c s)"
  by (cases "split_on c s") auto

lemma hd_split_on: "hd (split_on c s) = takeWhile (\<lambda>x. x \<noteq> c) s"
proof (induction s)
  case (Cons x s)
  then show ?case by (cases "split_on c s") auto
qed simp

lemma split_on_second_takeWhile: "split_on c (c # s) ! 1 = takeWhile (\<lambda>x. x \<noteq> c) s"
  by (simp only: split_on_second hd_split_on)

text \<open>the application name always is \<open>cockpit\<close> or starts with \<open>cockpit+\<close>, and never contains a
  slash, whatever the address of the page is: it can be used as a path segment and as the prefix of
  storage keys.\<close>

theorem calculate_application_shape:
  "(calculate_application pathname url_root = ''cockpit'' \<or>
    starts_with ''cockpit+'' (calculate_application pathname url_root)) \<and>
   CHR ''/'' \<notin> set (calculate_application pathname url_root)"
proof -
  have pieces: "CHR ''/'' \<notin> set (takeWhile (\<lambda>x. x \<noteq> CHR ''/'') s)" for s
    by (auto dest: set_takeWhileD)
  have known: "(r = ''cockpit'' \<or> starts_with ''cockpit+'' r) \<and> CHR ''/'' \<notin> set r"
    if "starts_with ''/cockpit/'' p \<or> starts_with ''/cockpit+'' p \<or> p = ''/cockpit''"
      "r = split_on (CHR ''/'') p ! 1" for p r
  proof -
    from that(1) consider s where "p = CHR ''/'' # ''cockpit/'' @ s"
      | s where "p = CHR ''/'' # ''cockpit+'' @ s" | "p = CHR ''/'' # ''cockpit''"
      unfolding starts_with_iff by fastforce
    then show ?thesis
      unfolding that(2) by cases (simp_all only: split_on_second_takeWhile, auto dest: set_takeWhileD)
  qed
  show ?thesis
    unfolding calculate_application_def Let_def
    by (intro known [where p = "if _ then _ else _"]) auto
qed

end
