(* ===== verification/JSON_Codec.thy ===== *)
theory JSON_Codec
  imports JS_Value
begin

text \<open>
  \<open>JSON.stringify\<close> and \<open>JSON.parse\<close> of the language, as the sources use them: on values whose
  numbers are integers and whose strings have code units below 256.  A syntax error, an exception
  in the language, is \<open>None\<close>; so is a number with a fraction or an exponent, which is outside
  the fragment.  The grammar runs on fuel, two units for each character of the text; the
  round trip shows that this is enough for every printed value.  What the transport relies on, that a printed value reads back, is the locale
  \<open>json_codec\<close>, interpreted here on the two functions.
\<close>

section \<open>JSON.stringify\<close>

definition hex_digit :: "nat \<Rightarrow> char" where
  "hex_digit n = (if n < 10 then char_of (48 + n) else char_of (87 + n))"

definition escape_char :: "char \<Rightarrow> string" where
  "escape_char c =
     (let n = (of_char c :: nat) in
      if n = 34 then [CHR 0x5C, CHR 0x22]
      else if n = 92 then [CHR 0x5C, CHR 0x5C]
      else if n = 8 then [CHR 0x5C, CHR ''b'']
      else if n = 9 then [CHR 0x5C, CHR ''t'']
      else if n = 10 then [CHR 0x5C, CHR ''n'']
      else if n = 12 then [CHR 0x5C, CHR ''f'']
      else if n = 13 then [CHR 0x5C, CHR ''r'']
      else if n < 32 then [CHR 0x5C, CHR ''u'', CHR ''0'', CHR ''0'', hex_digit (n div 16), hex_digit (n mod 16)]
      else [c])"

definition quote :: "string \<Rightarrow> string" where
  "quote s = CHR 0x22 # concat (map escape_char s) @ [CHR 0x22]"

fun stringify :: "js \<Rightarrow> string option" where
  "stringify JUndef = None"
| "stringify JNull = Some ''null''"
| "stringify (JBool b) = Some (if b then ''true'' else ''false'')"
| "stringify (JNum i) = Some (int_str i)"
| "stringify (JStr s) = Some (quote s)"
| "stringify (JArr xs) =
     Some (''['' @ join '','' (map (\<lambda>x. case stringify x of None \<Rightarrow> ''null'' | Some t \<Rightarrow> t) xs) @ '']'')"
| "stringify (JObj kvs) =
     Some (''{'' @ join '','' (concat (map (\<lambda>(k, v). case stringify v of
        None \<Rightarrow> [] | Some t \<Rightarrow> [quote k @ '':'' @ t]) kvs)) @ ''}'')"

section \<open>JSON.parse\<close>

definition is_ws :: "char \<Rightarrow> bool" where
  "is_ws c \<longleftrightarrow> c = CHR '' '' \<or> c = CHR 0x09 \<or> c = CHR 0x0A \<or> c = CHR 0x0D"

definition skip_ws :: "string \<Rightarrow> string" where
  "skip_ws s = dropWhile is_ws s"

definition hex_val :: "char \<Rightarrow> nat option" where
  "hex_val c =
     (let n = (of_char c :: nat) in
      if 48 \<le> n \<and> n \<le> 57 then Some (n - 48)
      else if 97 \<le> n \<and> n \<le> 102 then Some (n - 87)
      else if 65 \<le> n \<and> n \<le> 70 then Some (n - 55)
      else None)"

definition unescape :: "char \<Rightarrow> char option" where
  "unescape c =
     (if c = CHR 0x22 \<or> c = CHR 0x5C \<or> c = CHR ''/'' then Some c
      else if c = CHR ''b'' then Some (CHR 0x08)
      else if c = CHR ''t'' then Some (CHR 0x09)
      else if c = CHR ''n'' then Some (CHR 0x0A)
      else if c = CHR ''f'' then Some (CHR 0x0C)
      else if c = CHR ''r'' then Some (CHR 0x0D)
      else None)"

text \<open>The four digits of \<open>\u\<close>; a code unit above 255 is outside the fragment.\<close>

definition unescape_u :: "char \<Rightarrow> char \<Rightarrow> char \<Rightarrow> char \<Rightarrow> char option" where
  "unescape_u a b c d =
     (case (hex_val a, hex_val b, hex_val c, hex_val d) of
        (Some 0, Some 0, Some x, Some y) \<Rightarrow> Some (char_of (16 * x + y))
      | _ \<Rightarrow> None)"

text \<open>After the opening quote.\<close>

fun parse_chars :: "string \<Rightarrow> (string \<times> string) option" where
  "parse_chars [] = None"
| "parse_chars [c] = (if c = CHR 0x22 then Some ([], []) else None)"
| "parse_chars (c # e # cs) =
     (if c = CHR 0x22 then Some ([], e # cs)
      else if c = CHR 0x5C then
        (if e = CHR ''u'' then
           (case cs of
              h1 # h2 # h3 # h4 # cs' \<Rightarrow>
                (case unescape_u h1 h2 h3 h4 of
                   None \<Rightarrow> None
                 | Some x \<Rightarrow> map_option (\<lambda>(s, r). (x # s, r)) (parse_chars cs'))
            | _ \<Rightarrow> None)
         else (case unescape e of
                 None \<Rightarrow> None
               | Some x \<Rightarrow> map_option (\<lambda>(s, r). (x # s, r)) (parse_chars cs)))
      else if (of_char c :: nat) < 32 then None
      else map_option (\<lambda>(s, r). (c # s, r)) (parse_chars (e # cs)))"

definition ends_number :: "string \<Rightarrow> bool" where
  "ends_number r \<longleftrightarrow> (case r of [] \<Rightarrow> True | c # _ \<Rightarrow>
     \<not> is_digit c \<and> c \<noteq> CHR ''.'' \<and> c \<noteq> CHR ''e'' \<and> c \<noteq> CHR ''E'')"

definition parse_digits :: "string \<Rightarrow> (nat \<times> string) option" where
  "parse_digits s =
     (let ds = takeWhile is_digit s; r = dropWhile is_digit s in
      if ds = [] \<or> (hd ds = CHR ''0'' \<and> length ds > 1) \<or> \<not> ends_number r then None
      else Some (digits_val ds, r))"

definition parse_number :: "string \<Rightarrow> (js \<times> string) option" where
  "parse_number s =
     (case s of
        [] \<Rightarrow> None
      | c # cs \<Rightarrow>
          if c = CHR ''-'' then map_option (\<lambda>(n, r). (JNum (- int n), r)) (parse_digits cs)
          else map_option (\<lambda>(n, r). (JNum (int n), r)) (parse_digits s))"

text \<open>The grammar, with fuel.\<close>

fun parse_value :: "nat \<Rightarrow> string \<Rightarrow> (js \<times> string) option"
  and parse_elems :: "nat \<Rightarrow> string \<Rightarrow> (js list \<times> string) option"
  and parse_members :: "nat \<Rightarrow> string \<Rightarrow> ((string \<times> js) list \<times> string) option" where
  "parse_value 0 s = None"
| "parse_value (Suc n) s =
     (case skip_ws s of
        [] \<Rightarrow> None
      | c # cs \<Rightarrow>
          if c = CHR 0x22 then map_option (\<lambda>(t, r). (JStr t, r)) (parse_chars cs)
          else if c = CHR ''['' then
            (if starts_with '']'' (skip_ws cs) then Some (JArr [], tl (skip_ws cs))
             else map_option (\<lambda>(xs, r). (JArr xs, r)) (parse_elems n cs))
          else if c = CHR ''{'' then
            (if starts_with ''}'' (skip_ws cs) then Some (JObj [], tl (skip_ws cs))
             else map_option (\<lambda>(kvs, r). (JObj (fold (\<lambda>(k, v) m. oset m k v) kvs []), r)) (parse_members n cs))
          else if starts_with ''null'' (c # cs) then Some (JNull, drop 3 cs)
          else if starts_with ''true'' (c # cs) then Some (JBool True, drop 3 cs)
          else if starts_with ''false'' (c # cs) then Some (JBool False, drop 4 cs)
          else parse_number (c # cs))"
| "parse_elems 0 s = None"
| "parse_elems (Suc n) s =
     (case parse_value n s of
        None \<Rightarrow> None
      | Some (v, r) \<Rightarrow>
          (case skip_ws r of
             [] \<Rightarrow> None
           | c # r' \<Rightarrow>
               if c = CHR '','' then map_option (\<lambda>(vs, r''). (v # vs, r'')) (parse_elems n r')
               else if c = CHR '']'' then Some ([v], r')
               else None))"
| "parse_members 0 s = None"
| "parse_members (Suc n) s =
     (case skip_ws s of
        [] \<Rightarrow> None
      | q # cs \<Rightarrow>
          if q \<noteq> CHR 0x22 then None
          else (case parse_chars cs of
             None \<Rightarrow> None
           | Some (k, r) \<Rightarrow>
               if \<not> starts_with '':'' (skip_ws r) then None
               else (case parse_value n (tl (skip_ws r)) of
                  None \<Rightarrow> None
                | Some (v, r') \<Rightarrow>
                    (case skip_ws r' of
                       [] \<Rightarrow> None
                     | c # r'' \<Rightarrow>
                         if c = CHR '','' then map_option (\<lambda>(kvs, s'). ((k, v) # kvs, s')) (parse_members n r'')
                         else if c = CHR ''}'' then Some ([(k, v)], r'')
                         else None))))"

definition json_parse :: "string \<Rightarrow> js option" where
  "json_parse s =
     (case parse_value (2 * length s + 1) s of
        None \<Rightarrow> None
      | Some (v, r) \<Rightarrow> if skip_ws r = [] then Some v else None)"

section \<open>Strings read back\<close>

lemma parse_chars_quote [simp]: "parse_chars (CHR 0x22 # r) = Some ([], r)"
  by (cases r) simp_all

lemma parse_chars_plain:
  "c \<noteq> CHR 0x22 \<Longrightarrow> c \<noteq> CHR 0x5C \<Longrightarrow> 32 \<le> (of_char c :: nat) \<Longrightarrow>
   parse_chars (c # cs) = map_option (\<lambda>(s, r). (c # s, r)) (parse_chars cs)"
  by (cases cs) simp_all

lemma hex_val_digit: "n < 16 \<Longrightarrow> hex_val (hex_digit n) = Some n"
  by (simp add: hex_val_def hex_digit_def Let_def take_bit_eq_mod)

lemma unescape_u_hex: "n < 256 \<Longrightarrow> unescape_u (CHR ''0'') (CHR ''0'') (hex_digit (n div 16)) (hex_digit (n mod 16)) = Some (char_of n)"
  using hex_val_digit [of "n div 16"] hex_val_digit [of "n mod 16"]
  by (simp add: unescape_u_def hex_val_def Let_def)

lemma control_char_iff:
  "c = CHR 0x08 \<longleftrightarrow> (of_char c :: nat) = 8" "c = CHR 0x09 \<longleftrightarrow> (of_char c :: nat) = 9"
  "c = CHR 0x0A \<longleftrightarrow> (of_char c :: nat) = 10" "c = CHR 0x0C \<longleftrightarrow> (of_char c :: nat) = 12"
  "c = CHR 0x0D \<longleftrightarrow> (of_char c :: nat) = 13" "c = CHR 0x22 \<longleftrightarrow> (of_char c :: nat) = 34"
  "c = CHR 0x5C \<longleftrightarrow> (of_char c :: nat) = 92"
  by (simp_all flip: of_char_eq_iff [where 'a = nat])

lemma parse_chars_escape:
  "parse_chars (escape_char c @ cs) = map_option (\<lambda>(s, r). (c # s, r)) (parse_chars cs)"
proof -
  consider "c = CHR 0x22" | "c = CHR 0x5C" | "c = CHR 0x08" | "c = CHR 0x09" | "c = CHR 0x0A"
    | "c = CHR 0x0C" | "c = CHR 0x0D"
    | (ctl) "(of_char c :: nat) < 32" "(of_char c :: nat) \<notin> {8, 9, 10, 12, 13}"
    | (plain) "32 \<le> (of_char c :: nat)" "c \<noteq> CHR 0x22" "c \<noteq> CHR 0x5C"
    unfolding control_char_iff by (cases "(of_char c :: nat) < 32") auto
  then show ?thesis
  proof cases
    case ctl
    then have "escape_char c = [CHR 0x5C, CHR ''u'', CHR ''0'', CHR ''0'',
        hex_digit (of_char c div 16), hex_digit (of_char c mod 16)]"
      by (auto simp: escape_char_def Let_def)
    then show ?thesis
      using unescape_u_hex [of "of_char c"] ctl(1) by simp
  next
    case plain
    then have "escape_char c = [c]"
      by (auto simp: escape_char_def Let_def control_char_iff)
    then show ?thesis
      using plain parse_chars_plain [of c cs] by simp
  qed (simp_all add: escape_char_def unescape_def)
qed

lemma parse_chars_quoted: "parse_chars (concat (map escape_char s) @ CHR 0x22 # r) = Some (s, r)"
  by (induction s) (simp_all add: parse_chars_escape)

section \<open>Numbers read back\<close>

lemma nat_str_lead: "hd (nat_str n) = CHR ''0'' \<Longrightarrow> n = 0"
proof (induction n rule: nat_str.induct)
  case (1 n)
  show ?case
  proof (cases "n < 10")
    case True
    then show ?thesis
      using 1(2) digit_char [OF True] by (subst (asm) nat_str.simps) (simp add: digit_val_def)
  next
    case False
    then have "hd (nat_str n) = hd (nat_str (n div 10))"
      by (subst nat_str.simps) simp
    then show ?thesis using 1 False by simp
  qed
qed

lemma parse_digits_nat_str:
  assumes "ends_number r"
  shows "parse_digits (nat_str n @ r) = Some (n, r)"
proof -
  have d: "list_all is_digit (nat_str n)" "digits_val (nat_str n) = n"
    using nat_str_digits by auto
  have "takeWhile is_digit (nat_str n @ r) = nat_str n" "dropWhile is_digit (nat_str n @ r) = r"
    using assms d(1)
    by (auto simp: list_all_iff ends_number_def takeWhile_append dropWhile_append takeWhile_eq_all_conv
        dropWhile_eq_Nil_conv split: list.splits)
  moreover have "length (nat_str n) = 1" if "hd (nat_str n) = CHR ''0''"
    using nat_str_lead [OF that] by (simp add: nat_str.simps)
  ultimately show ?thesis
    using assms d(2) by (auto simp: parse_digits_def Let_def)
qed

lemma nat_str_hd_digit: "is_digit (hd (nat_str n))"
  using nat_str_digits [of n] by (cases "nat_str n") auto

lemma parse_number_int_str:
  assumes "ends_number r"
  shows "parse_number (int_str i @ r) = Some (JNum i, r)"
proof (cases "i < 0")
  case True
  then show ?thesis
    using assms by (simp add: parse_number_def int_str_def parse_digits_nat_str)
next
  case False
  obtain c cs where c: "nat_str (nat i) = c # cs"
    by (cases "nat_str (nat i)") auto
  have "c \<noteq> CHR ''-''"
    using nat_str_hd_digit [of "nat i"] c by (auto simp: is_digit_def)
  then show ?thesis
    using False assms parse_digits_nat_str [of r "nat i"] c
    by (simp add: parse_number_def int_str_def)
qed

section \<open>Values read back\<close>

fun wf_json :: "js \<Rightarrow> bool" where
  "wf_json JUndef = False"
| "wf_json (JArr xs) = list_all wf_json xs"
| "wf_json (JObj kvs) = (owf kvs \<and> list_all (\<lambda>(k, v). wf_json v) kvs)"
| "wf_json _ = True"

definition jtxt :: "js \<Rightarrow> string" where
  "jtxt v = (case stringify v of None \<Rightarrow> ''null'' | Some t \<Rightarrow> t)"

lemma wf_json_stringify: "wf_json v \<Longrightarrow> stringify v = Some (jtxt v)"
  by (cases v) (simp_all add: jtxt_def)

definition member_jtxt :: "string \<times> js \<Rightarrow> string" where
  "member_jtxt kv = quote (fst kv) @ '':'' @ jtxt (snd kv)"

lemma jtxt_JArr: "jtxt (JArr xs) = ''['' @ join '','' (map jtxt xs) @ '']''"
  by (simp add: jtxt_def [abs_def])

lemma jtxt_JObj:
  assumes "list_all (\<lambda>(k, v). wf_json v) kvs"
  shows "jtxt (JObj kvs) = ''{'' @ join '','' (map member_jtxt kvs) @ ''}''"
proof -
  have "concat (map (\<lambda>(k, v). case stringify v of None \<Rightarrow> [] | Some t \<Rightarrow> [quote k @ '':'' @ t]) kvs) =
      map member_jtxt kvs"
    using assms by (induction kvs) (auto simp: wf_json_stringify member_jtxt_def)
  then show ?thesis by (simp add: jtxt_def)
qed

lemma number_start_plain:
  assumes "is_digit c \<or> c = CHR ''-''"
  shows "\<not> is_ws c" "c \<noteq> CHR 0x22" "c \<noteq> CHR ''[''" "c \<noteq> CHR '']''" "c \<noteq> CHR ''{''" "c \<noteq> CHR ''}''"
    "c \<noteq> CHR ''n''" "c \<noteq> CHR ''t''" "c \<noteq> CHR ''f''"
  using assms by (auto simp: is_digit_def is_ws_def)

lemma int_str_Cons: "\<exists>c cs. int_str i = c # cs \<and> (is_digit c \<or> c = CHR ''-'')"
  using nat_str_hd_digit [of "nat i"] nat_str_not_Nil [of "nat i"]
  by (cases "nat_str (nat i)") (auto simp: int_str_def)

lemma jtxt_first:
  "\<exists>c cs. jtxt v = c # cs \<and> \<not> is_ws c \<and> c \<noteq> CHR '']'' \<and> c \<noteq> CHR ''}''"
proof (cases v)
  case (JNum i)
  then show ?thesis
    using int_str_Cons [of i] number_start_plain by (fastforce simp: jtxt_def)
qed (auto simp: jtxt_def is_ws_def quote_def)

lemma skip_ws_plain [simp]: "\<not> is_ws c \<Longrightarrow> skip_ws (c # cs) = c # cs"
  by (simp add: skip_ws_def)

lemma skip_ws_jtxt: "skip_ws (jtxt v @ r) = jtxt v @ r"
  using jtxt_first [of v] by auto

lemma parse_value_num:
  assumes "ends_number r"
  shows "parse_value (Suc n) (int_str i @ r) = Some (JNum i, r)"
proof -
  obtain c cs where c: "int_str i = c # cs" "is_digit c \<or> c = CHR ''-''"
    using int_str_Cons by blast
  note plain = number_start_plain [OF c(2)]
  show ?thesis
    using parse_number_int_str [OF assms, of i] plain by (simp add: c(1))
qed

lemma ends_number_punct [simp]:
  "ends_number (CHR '','' # r)" "ends_number (CHR '']'' # r)" "ends_number (CHR ''}'' # r)"
  by (simp_all add: ends_number_def is_digit_def)

lemma not_ws_punct [simp]: "\<not> is_ws (CHR '','')" "\<not> is_ws (CHR '']'')" "\<not> is_ws (CHR ''}'')"
  "\<not> is_ws (CHR ''['')" "\<not> is_ws (CHR ''{'')" "\<not> is_ws (CHR '':'')" "\<not> is_ws (CHR 0x22)"
  by (simp_all add: is_ws_def)

definition reads_back :: "js \<Rightarrow> bool" where
  "reads_back v \<longleftrightarrow> (\<forall>n r. ends_number r \<longrightarrow> 2 * length (jtxt v) + 1 \<le> n \<longrightarrow>
     parse_value n (jtxt v @ r) = Some (v, r))"

lemma reads_backD:
  "reads_back v \<Longrightarrow> ends_number r \<Longrightarrow> 2 * length (jtxt v) + 1 \<le> n \<Longrightarrow>
   parse_value n (jtxt v @ r) = Some (v, r)"
  by (simp add: reads_back_def)

lemma reads_backI:
  assumes "\<And>n r. ends_number r \<Longrightarrow> parse_value (Suc n) (jtxt v @ r) = Some (v, r)"
  shows "reads_back v"
  unfolding reads_back_def
proof (intro allI impI)
  fix n r assume "ends_number r" "2 * length (jtxt v) + 1 \<le> n"
  then show "parse_value n (jtxt v @ r) = Some (v, r)"
    using assms by (cases n) auto
qed

lemma parse_elems_jtxt:
  assumes "xs \<noteq> []" "\<And>x. x \<in> set xs \<Longrightarrow> reads_back x"
    and "2 * length (join '','' (map jtxt xs)) + 2 \<le> n"
  shows "parse_elems n (join '','' (map jtxt xs) @ '']'' @ r) = Some (xs, r)"
  using assms
proof (induction xs arbitrary: n)
  case (Cons x xs)
  obtain m where n: "n = Suc m" using Cons.prems(3) by (cases n) auto
  show ?case
  proof (cases "xs = []")
    case True
    have "parse_value m (jtxt x @ '']'' @ r) = Some (x, '']'' @ r)"
      by (rule reads_backD) (use Cons.prems True n in auto)
    then show ?thesis using True n by simp
  next
    case False
    let ?t = "join '','' (map jtxt xs)"
    have j: "join '','' (map jtxt (x # xs)) = jtxt x @ '','' @ ?t"
      using False by (simp add: join_Cons_nonempty)
    have "parse_value m (jtxt x @ '','' @ ?t @ '']'' @ r) = Some (x, '','' @ ?t @ '']'' @ r)"
      by (rule reads_backD) (use Cons.prems j n in auto)
    moreover have "parse_elems m (?t @ '']'' @ r) = Some (xs, r)"
      by (rule Cons.IH) (use Cons.prems False j n in auto)
    ultimately show ?thesis unfolding j n by simp
  qed
qed simp

lemma parse_members_jtxt:
  assumes "kvs \<noteq> []" "\<And>k v. (k, v) \<in> set kvs \<Longrightarrow> reads_back v"
    and "2 * length (join '','' (map member_jtxt kvs)) + 2 \<le> n"
  shows "parse_members n (join '','' (map member_jtxt kvs) @ ''}'' @ r) = Some (kvs, r)"
  using assms
proof (induction kvs arbitrary: n)
  case (Cons kv kvs)
  obtain k v where kv: "kv = (k, v)" by force
  obtain m where n: "n = Suc m" using Cons.prems(3) by (cases n) auto
  have key: "parse_chars (concat (map escape_char k) @ CHR 0x22 # s) = Some (k, s)" for s
    by (rule parse_chars_quoted)
  show ?case
  proof (cases "kvs = []")
    case True
    have "parse_value m (jtxt v @ ''}'' @ r) = Some (v, ''}'' @ r)"
      by (rule reads_backD) (use Cons.prems True n kv in \<open>auto simp: member_jtxt_def\<close>)
    then show ?thesis using True n kv key by (simp add: member_jtxt_def quote_def)
  next
    case False
    let ?t = "join '','' (map member_jtxt kvs)"
    have j: "join '','' (map member_jtxt (kv # kvs)) = member_jtxt kv @ '','' @ ?t"
      using False by (simp add: join_Cons_nonempty)
    have le: "2 * length (jtxt v) + 1 \<le> m"
      using Cons.prems(3) unfolding j n by (simp add: kv member_jtxt_def)
    have "parse_value m (jtxt v @ '','' @ ?t @ ''}'' @ r) = Some (v, '','' @ ?t @ ''}'' @ r)"
      by (rule reads_backD) (use Cons.prems kv le in auto)
    moreover have "parse_members m (?t @ ''}'' @ r) = Some (kvs, r)"
      by (rule Cons.IH) (use Cons.prems False j n in auto)
    ultimately show ?thesis unfolding j n by (simp add: kv key member_jtxt_def quote_def)
  qed
qed simp

lemma join_first: "xs \<noteq> [] \<Longrightarrow> \<exists>r. join sep xs = hd xs @ r"
  by (cases xs) (auto simp: join_Cons_nonempty neq_Nil_conv, metis append_Nil2 join.simps(2) join_Cons_nonempty)

lemma fold_oset_distinct:
  assumes "distinct (okeys m @ map fst kvs)"
  shows "fold (\<lambda>(k, v) m. oset m k v) kvs m = m @ kvs"
  using assms
proof (induction kvs arbitrary: m)
  case (Cons kv kvs)
  obtain k v where kv: "kv = (k, v)" by force
  have "oset m k v = m @ [(k, v)]"
    using Cons.prems kv by (induction m) (auto simp: okeys_def)
  then show ?case using Cons kv by (simp add: okeys_def)
qed simp

lemma wf_json_reads_back: "wf_json v \<Longrightarrow> reads_back v"
proof (induction v)
  case (JNum i)
  show ?case by (rule reads_backI) (simp add: jtxt_def parse_value_num del: parse_value.simps)
next
  case (JStr s)
  show ?case by (rule reads_backI) (simp add: jtxt_def quote_def parse_chars_quoted)
next
  case (JArr xs)
  show ?case unfolding reads_back_def
  proof (intro allI impI)
    fix n r
    assume "ends_number r" and le: "2 * length (jtxt (JArr xs)) + 1 \<le> n"
    then obtain m where n: "n = Suc m" by (cases n) auto
    show "parse_value n (jtxt (JArr xs) @ r) = Some (JArr xs, r)"
    proof (cases "xs = []")
      case False
      obtain c cs where c: "join '','' (map jtxt xs) = c # cs" "\<not> is_ws c" "c \<noteq> CHR '']''"
        using join_first [of "map jtxt xs" "'',''"] jtxt_first [of "hd xs"] False
        by (fastforce simp: hd_map)
      have "parse_elems m (join '','' (map jtxt xs) @ '']'' @ r) = Some (xs, r)"
        by (rule parse_elems_jtxt) (use JArr le n False in \<open>auto simp: jtxt_JArr list_all_iff\<close>)
      then show ?thesis using n c by (simp add: jtxt_JArr)
    qed (simp add: n jtxt_JArr)
  qed
next
  case (JObj kvs)
  then have w: "list_all (\<lambda>(k, v). wf_json v) kvs" and d: "distinct (map fst kvs)"
    by (simp_all add: owf_def okeys_def)
  show ?case unfolding reads_back_def
  proof (intro allI impI)
    fix n r
    assume "ends_number r" and le: "2 * length (jtxt (JObj kvs)) + 1 \<le> n"
    then obtain m where n: "n = Suc m" by (cases n) auto
    show "parse_value n (jtxt (JObj kvs) @ r) = Some (JObj kvs, r)"
    proof (cases "kvs = []")
      case False
      obtain cs where c: "join '','' (map member_jtxt kvs) = CHR 0x22 # cs"
        using join_first [of "map member_jtxt kvs" "'',''"] False
        by (auto simp: hd_map member_jtxt_def quote_def)
      have rb: "reads_back v" if "(k, v) \<in> set kvs" for k v
        using JObj.IH [OF that, of v] w that by (auto simp: list_all_iff)
      have "parse_members m (join '','' (map member_jtxt kvs) @ ''}'' @ r) = Some (kvs, r)"
        by (rule parse_members_jtxt) (use rb le n False w in \<open>auto simp: jtxt_JObj\<close>)
      then show ?thesis
        using n c fold_oset_distinct [of "[]" kvs] d by (simp add: jtxt_JObj [OF w] okeys_def)
    qed (simp add: n jtxt_def)
  qed
next
  case JNull
  show ?case by (rule reads_backI) (simp add: jtxt_def is_ws_def)
next
  case (JBool b)
  show ?case by (rule reads_backI) (simp add: jtxt_def is_ws_def)
qed simp

lemma json_roundtrip: "wf_json v \<Longrightarrow> json_parse (jtxt v) = Some v"
  using reads_backD [OF wf_json_reads_back, of v "[]" "2 * length (jtxt v) + 1"]
  by (simp add: json_parse_def ends_number_def skip_ws_def)

section \<open>The codec as an interface\<close>

locale json_codec =
  fixes print :: "js \<Rightarrow> string"
    and parse :: "string \<Rightarrow> js option"
    and wf :: "js \<Rightarrow> bool"
  assumes parse_print: "wf v \<Longrightarrow> parse (print v) = Some v"
begin

lemma print_inj: "wf v \<Longrightarrow> wf w \<Longrightarrow> print v = print w \<longleftrightarrow> v = w"
  by (metis option.inject parse_print)

end

interpretation jc: json_codec jtxt json_parse wf_json
  by unfold_locales (rule json_roundtrip)

section \<open>Everything read is a value of the language\<close>

lemma owf_fold_oset: "owf m \<Longrightarrow> owf (fold (\<lambda>(k, v) m. oset m k v) kvs m)"
  by (induction kvs arbitrary: m) (auto simp: od.wf_set)

lemma wf_fold_oset:
  "list_all (\<lambda>(k, v). wf_json v) m \<Longrightarrow> list_all (\<lambda>(k, v). wf_json v) kvs \<Longrightarrow>
   list_all (\<lambda>(k, v). wf_json v) (fold (\<lambda>(k, v) m. oset m k v) kvs m)"
proof (induction kvs arbitrary: m)
  case (Cons kv kvs)
  have "list_all (\<lambda>(k, v). wf_json v) (oset m k v)" if "wf_json v" for k v
    using Cons.prems(1) that by (induction m) auto
  then show ?case
    using Cons by (cases kv) simp
qed simp

lemma parse_number_wf: "parse_number s = Some (v, r) \<Longrightarrow> wf_json v"
  by (auto simp: parse_number_def split: list.splits if_splits)

lemma parse_wf:
  "(\<forall>s v r. parse_value n s = Some (v, r) \<longrightarrow> wf_json v) \<and> (\<forall>s vs r. parse_elems n s = Some (vs, r) \<longrightarrow> list_all wf_json vs) \<and>
   (\<forall>s kvs r. parse_members n s = Some (kvs, r) \<longrightarrow> list_all (\<lambda>(k, v). wf_json v) kvs)"
proof (induction n)
  case (Suc n)
  note vals = Suc [THEN conjunct1, rule_format] and elems = Suc [THEN conjunct2, THEN conjunct1, rule_format]
    and members = Suc [THEN conjunct2, THEN conjunct2, rule_format]
  have "wf_json v" if p: "parse_value (Suc n) s = Some (v, r)" for s v r
  proof -
    obtain c cs where c: "skip_ws s = c # cs"
      using p by (cases "skip_ws s") simp_all
    consider (str) "c = CHR 0x22" | (arr) "c = CHR ''[''" | (obj) "c = CHR ''{''"
      | (other) "c \<noteq> CHR 0x22" "c \<noteq> CHR ''[''" "c \<noteq> CHR ''{''"
      by blast
    then show ?thesis
    proof cases
      case obj
      have "wf_json (JObj (fold (\<lambda>(k, v) m. oset m k v) kvs []))" if "list_all (\<lambda>(k, v). wf_json v) kvs" for kvs
        using that owf_fold_oset [of "[]" kvs] wf_fold_oset [of "[]" kvs] by (simp add: owf_def okeys_def)
      then show ?thesis
        using p members by (auto simp: c obj owf_def okeys_def split: if_splits simp del: wf_json.simps(3)) (simp_all add: owf_def okeys_def)
    next
      case other
      show ?thesis
        using p by (simp add: c other parse_number_wf split: if_splits) auto
    qed (use p elems in \<open>auto simp: c split: if_splits\<close>)
  qed
  moreover have "list_all wf_json vs" if "parse_elems (Suc n) s = Some (vs, r)" for s vs r
    using that vals elems by (auto split: option.splits list.splits if_splits prod.splits)
  moreover have "list_all (\<lambda>(k, v). wf_json v) kvs" if "parse_members (Suc n) s = Some (kvs, r)" for s kvs r
    using that vals members by (auto split: option.splits list.splits if_splits prod.splits)
  ultimately show ?case by blast
qed simp

lemma json_parse_wf: "json_parse s = Some v \<Longrightarrow> wf_json v"
  using parse_wf [THEN conjunct1, rule_format, of "2 * length s + 1" s]
  by (auto simp: json_parse_def simp del: parse_value.simps split: option.splits if_splits)

end
