(* ===== verification/Transport.thy ===== *)
theory Transport
  imports Wire JSON_Codec
begin

text \<open>
  The transport and the channels of \<open>src/base1/cockpit.js\<close>: \<open>ParentWebSocket\<close>, \<open>Transport\<close>,
  \<open>ensure_transport\<close>, \<open>Channel\<close> and the public \<open>cockpit.transport\<close>.

  The two kinds of objects refer to each other (a transport calls the channels registered with it, a
  channel sends through its transport), so the state is one store: a list of transports, a list of
  channels, the module's variables and a log of everything that leaves the module, in order: frames
  handed to the socket, events dispatched on channels, warnings, exceptions.  Handlers of other code
  are the readers of that log; what they call in answer is the next operation on the store.
\<close>

section \<open>State\<close>

text \<open>The socket: a real one, the parent frame, or the stand-in \<open>{ close: function() { } }\<close>.\<close>

datatype socket = RealWS | ParentWS | DummyWS

datatype queue_item = QControl options | QPayload payload

text \<open>The deferred of \<open>Channel.wait\<close>.\<close>

datatype waiting = NotWaiting | Waiting | Resolved options | Rejected options

record chan =
  c_options :: options
  c_transport :: "nat option"
  c_ready :: "options option"
  c_closed :: "options option"
  c_waiting :: waiting
  c_received_done :: bool
  c_sent_done :: bool
  c_id :: "string option"
  c_binary :: bool
  c_queue :: "queue_item list"
  c_valid :: bool

text \<open>
  What waits for the transport's \<open>ready\<close> event: the constructor of a channel, or a control message; that of
  \<open>cockpit.logout\<close> reloads the page when it cannot be sent.
\<close>

datatype ready_callback = OpenChannel nat | SendControl bool options

record transport =
  t_ws :: "socket option"
  t_health_timer :: bool
  t_timer_running :: bool
  t_ignore_health_check :: js
  t_got_message :: bool
  t_last_channel :: nat
  t_channel_seed :: string
  t_control_cbs :: "(string, nat) obj"
  t_message_cbs :: "(string, nat) obj"
  t_waiting_for_init :: bool
  t_ready :: bool
  t_ready_callbacks :: "ready_callback list"

datatype effect =
    WsSend wire
  | WsClose
  | PostParent wire
  | PostParentClose
  | Reload
  | Warning string
  | Exception string
  | TransportReady nat
  | Hint options
  | InitOptions options
  | ChanReady nat options
  | ChanControl nat options
  | ChanMessage nat payload
  | ChanClose nat options

type_synonym msg_filter = "wire \<Rightarrow> string \<Rightarrow> js \<Rightarrow> bool"

record world =
  w_transports :: "transport list"
  w_default :: "nat option"
  w_chans :: "chan list"
  w_default_host :: js
  w_expect_disconnect :: bool
  w_reload_after_disconnect :: bool
  w_incoming_filters :: "msg_filter list"
  w_outgoing_filters :: "msg_filter list"
  w_log :: "effect list"

definition init_world :: world where
  "init_world = \<lparr>w_transports = [], w_default = None, w_chans = [], w_default_host = JNull,
     w_expect_disconnect = False, w_reload_after_disconnect = False, w_incoming_filters = [],
     w_outgoing_filters = [], w_log = []\<rparr>"

definition emit :: "effect \<Rightarrow> world \<Rightarrow> world" where
  "emit e w = w\<lparr>w_log := w_log w @ [e]\<rparr>"

definition upd_t :: "nat \<Rightarrow> (transport \<Rightarrow> transport) \<Rightarrow> world \<Rightarrow> world" where
  "upd_t t f w = w\<lparr>w_transports := (w_transports w)[t := f (w_transports w ! t)]\<rparr>"

definition upd_c :: "nat \<Rightarrow> (chan \<Rightarrow> chan) \<Rightarrow> world \<Rightarrow> world" where
  "upd_c c f w = w\<lparr>w_chans := (w_chans w)[c := f (w_chans w ! c)]\<rparr>"

abbreviation tr :: "world \<Rightarrow> nat \<Rightarrow> transport" where
  "tr w t \<equiv> w_transports w ! t"

abbreviation ch :: "world \<Rightarrow> nat \<Rightarrow> chan" where
  "ch w c \<equiv> w_chans w ! c"

section \<open>Sending\<close>

text \<open>Every filter sees the frame; the first that answers \<open>false\<close> drops it.\<close>

definition filters_pass :: "msg_filter list \<Rightarrow> wire \<Rightarrow> string \<Rightarrow> js \<Rightarrow> bool" where
  "filters_pass fs data channel control = list_all (\<lambda>f. f data channel control) fs"

text \<open>\<open>ws.send(data)\<close>; the stand-in socket has no such method.\<close>

definition ws_send :: "socket \<Rightarrow> wire \<Rightarrow> effect" where
  "ws_send s data =
     (case s of RealWS \<Rightarrow> WsSend data | ParentWS \<Rightarrow> PostParent data
      | DummyWS \<Rightarrow> Exception ''ws.send is not a function'')"

definition send_data :: "nat \<Rightarrow> wire \<Rightarrow> string \<Rightarrow> js \<Rightarrow> world \<Rightarrow> world \<times> bool" where
  "send_data t data channel control w =
     (case t_ws (tr w t) of
        None \<Rightarrow> (emit (Warning ''transport closed, dropped message'') w, False)
      | Some s \<Rightarrow>
          if \<not> filters_pass (w_outgoing_filters w) data channel control then (w, False)
          else (emit (ws_send s data) w, True))"

definition send_message :: "nat \<Rightarrow> payload \<Rightarrow> string \<Rightarrow> js \<Rightarrow> world \<Rightarrow> world \<times> bool" where
  "send_message t payload channel control w = send_data t (frame payload channel) channel control w"

text \<open>Returns nothing (falsy) when the message is swallowed.\<close>

definition send_control :: "nat \<Rightarrow> options \<Rightarrow> world \<Rightarrow> world \<times> bool" where
  "send_control t data w =
     (if t_ws (tr w t) = None \<and> (opt data ''command'' = JStr ''close'' \<or> opt data ''command'' = JStr ''kill'')
      then (w, False)
      else if t_health_timer (tr w t) \<and> opt data ''command'' = JStr ''hint'' \<and>
        opt data ''hint'' = JStr ''ignore_transport_health_check''
      then (upd_t t (\<lambda>x. x\<lparr>t_ignore_health_check := opt data ''data''\<rparr>) w, False)
      else send_message t (PStr (jtxt (JObj data))) '''' (JObj data) w)"

section \<open>Registration\<close>

definition next_channel :: "nat \<Rightarrow> world \<Rightarrow> world \<times> string" where
  "next_channel t w =
     (let n = Suc (t_last_channel (tr w t))
      in (upd_t t (\<lambda>x. x\<lparr>t_last_channel := n\<rparr>) w, t_channel_seed (tr w t) @ nat_str n))"

definition register :: "nat \<Rightarrow> string \<Rightarrow> nat \<Rightarrow> world \<Rightarrow> world" where
  "register t channel c w =
     upd_t t (\<lambda>x. x\<lparr>t_control_cbs := oset (t_control_cbs x) channel c,
                    t_message_cbs := oset (t_message_cbs x) channel c\<rparr>) w"

definition unregister :: "nat \<Rightarrow> string \<Rightarrow> world \<Rightarrow> world" where
  "unregister t channel w =
     upd_t t (\<lambda>x. x\<lparr>t_control_cbs := odel (t_control_cbs x) channel,
                    t_message_cbs := odel (t_message_cbs x) channel\<rparr>) w"

section \<open>Channels\<close>

text \<open>\<open>String(payload)\<close> of a typed array or an array lists the numbers.\<close>

definition payload_str :: "payload \<Rightarrow> string" where
  "payload_str p =
     (case p of PStr s \<Rightarrow> s
      | PBytes b \<Rightarrow> join '','' (map (\<lambda>x. nat_str (unat x)) b)
      | PArr b \<Rightarrow> join '','' (map (\<lambda>x. nat_str (unat x)) b))"

definition send_payload :: "nat \<Rightarrow> payload \<Rightarrow> world \<Rightarrow> world" where
  "send_payload c payload w =
     (let p = (if c_binary (ch w c) then payload else PStr (payload_str payload))
      in case (c_transport (ch w c), c_id (ch w c)) of
           (Some t, Some channel) \<Rightarrow> fst (send_message t p channel JUndef w)
         | _ \<Rightarrow> w)"

text \<open>\<open>options["channel"] = id\<close>: \<open>null\<close> before the channel has one.\<close>

definition id_value :: "chan \<Rightarrow> js" where
  "id_value x = (case c_id x of None \<Rightarrow> JNull | Some s \<Rightarrow> JStr s)"

definition on_close :: "nat \<Rightarrow> options \<Rightarrow> world \<Rightarrow> world" where
  "on_close c data w =
     (let w = upd_c c (\<lambda>x. x\<lparr>c_closed := Some data, c_valid := False\<rparr>) w;
          w = (case (c_transport (ch w c), c_id (ch w c)) of
                 (Some t, Some channel) \<Rightarrow> if channel \<noteq> [] then unregister t channel w else w
               | _ \<Rightarrow> w);
          w = (if truthy (opt data ''message'') then emit (Warning (to_str (opt data ''message''))) w else w);
          w = emit (ChanClose c data) w
      in upd_c c (\<lambda>x. if c_waiting x = Waiting then x\<lparr>c_waiting := Rejected data\<rparr> else x) w)"

definition chan_close :: "nat \<Rightarrow> options \<Rightarrow> world \<Rightarrow> world" where
  "chan_close c options w =
     (if c_closed (ch w c) \<noteq> None then w
      else
        let options = oset (oset options ''command'' (JStr ''close'')) ''channel'' (id_value (ch w c));
            w = (case c_transport (ch w c) of
                   None \<Rightarrow> upd_c c (\<lambda>x. x\<lparr>c_queue := c_queue x @ [QControl options]\<rparr>) w
                 | Some t \<Rightarrow> fst (send_control t options w))
        in on_close c options w)"

definition on_message :: "nat \<Rightarrow> payload \<Rightarrow> world \<Rightarrow> world" where
  "on_message c payload w =
     (if c_received_done (ch w c)
      then chan_close c [(''problem'', JStr ''protocol-error'')]
             (emit (Warning ''received message after done'') w)
      else emit (ChanMessage c payload) w)"

definition on_ready :: "nat \<Rightarrow> options \<Rightarrow> world \<Rightarrow> world" where
  "on_ready c data w =
     upd_c c (\<lambda>x. if c_waiting x = Waiting then x\<lparr>c_waiting := Resolved data\<rparr> else x)
       (emit (ChanReady c data) (upd_c c (\<lambda>x. x\<lparr>c_ready := Some data\<rparr>) w))"

definition on_control :: "nat \<Rightarrow> options \<Rightarrow> world \<Rightarrow> world" where
  "on_control c data w =
     (if opt data ''command'' = JStr ''close'' then on_close c data w
      else
        let w = (if opt data ''command'' = JStr ''ready'' then on_ready c data w else w);
            finished = (opt data ''command'' = JStr ''done'')
        in if finished \<and> c_received_done (ch w c)
           then chan_close c [(''problem'', JStr ''protocol-error'')]
                  (emit (Warning ''received two done commands on channel'') w)
           else emit (ChanControl c data)
                  (if finished then upd_c c (\<lambda>x. x\<lparr>c_received_done := True\<rparr>) w else w))"

definition drain_item :: "nat \<Rightarrow> nat \<Rightarrow> string \<Rightarrow> queue_item \<Rightarrow> world \<Rightarrow> world" where
  "drain_item t c channel item w =
     (case item of
        QControl options \<Rightarrow> fst (send_control t (oset options ''channel'' (JStr channel)) w)
      | QPayload p \<Rightarrow> send_payload c p w)"

text \<open>The open command of a channel.\<close>

definition open_command :: "chan \<Rightarrow> string \<Rightarrow> js \<Rightarrow> options" where
  "open_command x channel default_host =
     (let command = oset (oset (c_options x) ''command'' (JStr ''open'')) ''channel'' (JStr channel);
          command = (if \<not> truthy (opt command ''host'') \<and> truthy default_host
                     then oset command ''host'' default_host else command)
      in if c_binary x then oset command ''binary'' (JStr ''raw'') else odel command ''binary'')"

text \<open>The callback the constructor gives to \<open>ensure_transport\<close>.\<close>

definition on_transport :: "nat \<Rightarrow> nat \<Rightarrow> world \<Rightarrow> world" where
  "on_transport c t w =
     (let w = upd_c c (\<lambda>x. x\<lparr>c_transport := Some t\<rparr>) w
      in if c_closed (ch w c) \<noteq> None then w
         else
           let (w, channel) = next_channel t w;
               w = upd_c c (\<lambda>x. x\<lparr>c_id := Some channel\<rparr>) w;
               w = register t channel c w;
               w = fst (send_control t (open_command (ch w c) channel (w_default_host w)) w);
               w = fold (drain_item t c channel) (c_queue (ch w c)) w
           in upd_c c (\<lambda>x. x\<lparr>c_queue := []\<rparr>) w)"

definition chan_send :: "nat \<Rightarrow> payload \<Rightarrow> world \<Rightarrow> world" where
  "chan_send c message w =
     (if c_closed (ch w c) \<noteq> None then emit (Warning ''sending message on closed channel'') w
      else if c_sent_done (ch w c) then emit (Warning ''sending message after done'') w
      else if c_transport (ch w c) = None
      then upd_c c (\<lambda>x. x\<lparr>c_queue := c_queue x @ [QPayload message]\<rparr>) w
      else send_payload c message w)"

definition chan_control :: "nat \<Rightarrow> options \<Rightarrow> world \<Rightarrow> world" where
  "chan_control c options w =
     (let options = (if \<not> truthy (opt options ''command'')
                     then oset options ''command'' (JStr ''options'') else options);
          w = (if opt options ''command'' = JStr ''done''
               then upd_c c (\<lambda>x. x\<lparr>c_sent_done := True\<rparr>) w else w);
          options = oset options ''channel'' (id_value (ch w c))
      in case c_transport (ch w c) of
           None \<Rightarrow> upd_c c (\<lambda>x. x\<lparr>c_queue := c_queue x @ [QControl options]\<rparr>) w
         | Some t \<Rightarrow> fst (send_control t options w))"

definition chan_wait :: "nat \<Rightarrow> world \<Rightarrow> world" where
  "chan_wait c w =
     upd_c c (\<lambda>x. if c_waiting x \<noteq> NotWaiting then x
        else x\<lparr>c_waiting := (case c_closed x of
            Some closed \<Rightarrow> Rejected closed
          | None \<Rightarrow> (case c_ready x of Some rdy \<Rightarrow> Resolved rdy | None \<Rightarrow> Waiting))\<rparr>) w"

section \<open>The transport\<close>

definition control_or_reload :: "nat \<Rightarrow> bool \<Rightarrow> options \<Rightarrow> world \<Rightarrow> world" where
  "control_or_reload t reload options w =
     (case send_control t options w of (w', sent) \<Rightarrow> if reload \<and> \<not> sent then emit Reload w' else w')"

definition run_callback :: "nat \<Rightarrow> ready_callback \<Rightarrow> world \<Rightarrow> world" where
  "run_callback t cb w =
     (case cb of OpenChannel c \<Rightarrow> on_transport c t w | SendControl reload options \<Rightarrow> control_or_reload t reload options w)"

definition ready_for_channels :: "nat \<Rightarrow> world \<Rightarrow> world" where
  "ready_for_channels t w =
     (if t_ready (tr w t) then w
      else fold (run_callback t) (t_ready_callbacks (tr w t))
             (emit (TransportReady t) (upd_t t (\<lambda>x. x\<lparr>t_ready := True\<rparr>) w)))"

text \<open>\<open>for (var chan in control_cbs) control_cbs[chan].apply(...)\<close>: a key deleted meanwhile is not visited.\<close>

definition call_control :: "nat \<Rightarrow> options \<Rightarrow> string \<Rightarrow> world \<Rightarrow> world" where
  "call_control t data channel w =
     (case oget (t_control_cbs (tr w t)) channel of None \<Rightarrow> w | Some c \<Rightarrow> on_control c data w)"

definition broadcast :: "nat \<Rightarrow> options \<Rightarrow> world \<Rightarrow> world" where
  "broadcast t data w = fold (call_control t data) (okeys (t_control_cbs (tr w t))) w"

text \<open>The part of \<open>Transport.close\<close> after the socket is gone.\<close>

definition close_rest :: "nat \<Rightarrow> options \<Rightarrow> world \<Rightarrow> world" where
  "close_rest t options w =
     (if w_expect_disconnect w then w
      else broadcast t options (ready_for_channels t w))"

abbreviation drop_socket :: "nat \<Rightarrow> world \<Rightarrow> world" where
  "drop_socket t \<equiv> upd_t t (\<lambda>x. x\<lparr>t_ws := None, t_timer_running := False\<rparr>)"

abbreviation disconnected :: options where
  "disconnected \<equiv> [(''problem'', JStr ''disconnected''), (''command'', JStr ''close'')]"

text \<open>\<open>ws.onclose\<close>; the nested \<open>self.close()\<close> finds no socket.\<close>

definition ws_onclose :: "nat \<Rightarrow> world \<Rightarrow> world" where
  "ws_onclose t w =
     (let w = drop_socket t w;
          w = (if w_reload_after_disconnect w then emit Reload (w\<lparr>w_expect_disconnect := True\<rparr>) else w)
      in close_rest t disconnected w)"

text \<open>\<open>Transport.close\<close>.  The parent socket calls \<open>onclose\<close> before its \<open>close\<close> returns; a real one later.\<close>

definition transport_close :: "nat \<Rightarrow> options option \<Rightarrow> world \<Rightarrow> world" where
  "transport_close t options w =
     (let data = (case options of None \<Rightarrow> disconnected
                  | Some o' \<Rightarrow> oset o' ''command'' (JStr ''close''));
          ows = t_ws (tr w t);
          w = drop_socket t w;
          w = (case ows of
                 None \<Rightarrow> w
               | Some RealWS \<Rightarrow> emit WsClose w
               | Some ParentWS \<Rightarrow> ws_onclose t (emit PostParentClose w)
               | Some DummyWS \<Rightarrow> w)
      in close_rest t data w)"

definition process_init :: "nat \<Rightarrow> options \<Rightarrow> world \<Rightarrow> world" where
  "process_init t options w =
     (if truthy (opt options ''problem'')
      then transport_close t (Some [(''problem'', opt options ''problem'')]) w
      else if opt options ''version'' \<noteq> JNum 1
      then transport_close t (Some [(''problem'', JStr ''not-supported'')]) w
      else
        let w = (if truthy (opt options ''channel-seed'')
                 then upd_t t (\<lambda>x. x\<lparr>t_channel_seed := to_str (opt options ''channel-seed'')\<rparr>) w else w);
            w = (if truthy (opt options ''host'') then w\<lparr>w_default_host := opt options ''host''\<rparr> else w);
            w = emit (InitOptions options) w
        in if t_waiting_for_init (tr w t)
           then ready_for_channels t (upd_t t (\<lambda>x. x\<lparr>t_waiting_for_init := False\<rparr>) w)
           else w)"

definition process_control :: "nat \<Rightarrow> options \<Rightarrow> world \<Rightarrow> world" where
  "process_control t data w =
     (if opt data ''command'' = JStr ''init'' then process_init t data w
      else if t_waiting_for_init (tr w t) then
        let w = upd_t t (\<lambda>x. x\<lparr>t_waiting_for_init := False\<rparr>) w
        in if opt data ''command'' \<noteq> JStr ''close'' \<or> truthy (opt data ''channel'')
           then transport_close t (Some [(''problem'', JStr ''protocol-error'')]) w
           else transport_close t (Some data) w
      else if opt data ''command'' = JStr ''ping'' then w
      else if opt data ''command'' = JStr ''hint'' then emit (Hint data) w
      else if opt data ''channel'' \<noteq> JUndef then call_control t data (to_str (opt data ''channel'')) w
      else w)"

definition process_message :: "nat \<Rightarrow> string \<Rightarrow> payload \<Rightarrow> world \<Rightarrow> world" where
  "process_message t channel payload w =
     (case oget (t_message_cbs (tr w t)) channel of None \<Rightarrow> w | Some c \<Rightarrow> on_message c payload w)"

text \<open>
  \<open>process_control\<close> on what \<open>JSON.parse\<close> gave: \<open>null\<close> has no properties to read, the other values that
  are no objects have none of those that are read.
\<close>

definition process_value :: "nat \<Rightarrow> js \<Rightarrow> world \<Rightarrow> world" where
  "process_value t v w =
     (case v of JNull \<Rightarrow> emit (Exception ''TypeError'') w
      | JObj control \<Rightarrow> process_control t control w
      | _ \<Rightarrow> process_control t [] w)"

text \<open>\<open>ws.onmessage\<close>, also \<open>dispatch_data\<close>.\<close>

definition dispatch_data :: "nat \<Rightarrow> wire \<Rightarrow> world \<Rightarrow> world" where
  "dispatch_data t message w =
     (let w = upd_t t (\<lambda>x. x\<lparr>t_got_message := True\<rparr>) w
      in case parse_channel message of
           None \<Rightarrow> w
         | Some channel \<Rightarrow>
             let payload = wire_payload message channel
             in if channel = [] then
                  (case json_parse (payload_str payload) of
                     None \<Rightarrow> emit (Exception ''SyntaxError'') w
                   | Some control \<Rightarrow>
                       if filters_pass (w_incoming_filters w) message channel control
                       then process_value t control w else w)
                else if filters_pass (w_incoming_filters w) message channel JUndef
                then process_message t channel payload w else w)"

definition ws_onopen :: "nat \<Rightarrow> world \<Rightarrow> world" where
  "ws_onopen t w =
     (case t_ws (tr w t) of
        None \<Rightarrow> w
      | Some s \<Rightarrow> emit (ws_send s (Text (newline # ''{ '' @ quote ''command'' @ '': '' @ quote ''init'' @
            '', '' @ quote ''version'' @ '': 1 }''))) w)"

text \<open>The interval timer of 30 seconds.\<close>

definition check_health :: "nat \<Rightarrow> world \<Rightarrow> world" where
  "check_health t w =
     (if \<not> t_timer_running (tr w t) then w
      else
        let w = (if \<not> t_got_message (tr w t) then
                   (if truthy (t_ignore_health_check (tr w t)) then w
                    else transport_close t (Some [(''problem'', JStr ''timeout'')]) w)
                 else w)
        in upd_t t (\<lambda>x. x\<lparr>t_got_message := False\<rparr>) w)"

text \<open>The 50 ms timeout of a transport without a socket.\<close>

definition no_socket_timeout :: "nat \<Rightarrow> world \<Rightarrow> world" where
  "no_socket_timeout t w = transport_close t (Some [(''problem'', JStr ''no-cockpit'')]) w"

definition new_transport :: "socket \<Rightarrow> transport" where
  "new_transport s = \<lparr>t_ws = Some s, t_health_timer = (s \<noteq> ParentWS), t_timer_running = (s \<noteq> ParentWS),
     t_ignore_health_check = JBool False, t_got_message = False, t_last_channel = 0, t_channel_seed = '''', t_control_cbs = [],
     t_message_cbs = [], t_waiting_for_init = True, t_ready = False, t_ready_callbacks = []\<rparr>"

text \<open>\<open>ensure_transport\<close>; which socket the constructor finds is the browser's choice.\<close>

definition ensure_transport :: "socket \<Rightarrow> ready_callback \<Rightarrow> world \<Rightarrow> world" where
  "ensure_transport s cb w =
     (let (w, t) = (case w_default w of
                      Some t \<Rightarrow> (w, t)
                    | None \<Rightarrow> (w\<lparr>w_transports := w_transports w @ [new_transport s],
                               w_default := Some (length (w_transports w))\<rparr>,
                             length (w_transports w)))
      in if t_ready (tr w t) then run_callback t cb w
         else upd_t t (\<lambda>x. x\<lparr>t_ready_callbacks := t_ready_callbacks x @ [cb]\<rparr>) w)"

definition new_chan :: "options \<Rightarrow> chan" where
  "new_chan options = \<lparr>c_options = options, c_transport = None, c_ready = None, c_closed = None,
     c_waiting = NotWaiting, c_received_done = False, c_sent_done = False, c_id = None,
     c_binary = (opt options ''binary'' = JBool True), c_queue = [], c_valid = True\<rparr>"

definition channel_open :: "socket \<Rightarrow> options \<Rightarrow> world \<Rightarrow> world" where
  "channel_open s options w =
     ensure_transport s (OpenChannel (length (w_chans w))) (w\<lparr>w_chans := w_chans w @ [new_chan options]\<rparr>)"

section \<open>cockpit.transport\<close>

text \<open>
  \<open>send_data(message)\<close> with nothing but the message: when there are filters, the channel and the control
  object they are shown are read off the message first.
\<close>

definition inject_out :: "nat \<Rightarrow> wire \<Rightarrow> world \<Rightarrow> world" where
  "inject_out t message w =
     (if t_ws (tr w t) = None \<or> w_outgoing_filters w = [] then fst (send_data t message '''' JUndef w)
      else
        let channel = (case parse_channel message of None \<Rightarrow> '''' | Some s \<Rightarrow> s)
        in if channel \<noteq> [] then fst (send_data t message channel JUndef w)
           else case (case message of Text s \<Rightarrow> json_parse s | Binary _ \<Rightarrow> None) of
                  None \<Rightarrow> emit (Exception ''SyntaxError'') w
                | Some control \<Rightarrow> fst (send_data t message '''' control w))"

definition inject :: "wire \<Rightarrow> bool \<Rightarrow> world \<Rightarrow> world" where
  "inject message out w =
     (case w_default w of
        None \<Rightarrow> w
      | Some t \<Rightarrow> if out then inject_out t message w else dispatch_data t message w)"

definition add_filter :: "msg_filter \<Rightarrow> bool \<Rightarrow> world \<Rightarrow> world" where
  "add_filter f out w =
     (if out then w\<lparr>w_outgoing_filters := w_outgoing_filters w @ [f]\<rparr>
      else w\<lparr>w_incoming_filters := w_incoming_filters w @ [f]\<rparr>)"

definition public_close :: "string option \<Rightarrow> world \<Rightarrow> world" where
  "public_close problem w =
     (let w = (case w_default w of
                 None \<Rightarrow> w
               | Some t \<Rightarrow> transport_close t
                   (case problem of None \<Rightarrow> None | Some p \<Rightarrow> if p = [] then None else Some [(''problem'', JStr p)]) w)
      in w\<lparr>w_default := None\<rparr>)"

definition public_control :: "socket \<Rightarrow> string \<Rightarrow> options \<Rightarrow> world \<Rightarrow> world" where
  "public_control s command options w =
     ensure_transport s (SendControl False (oset (JS_Value.extend [] [JObj options]) ''command'' (JStr command))) w"

definition kill :: "socket \<Rightarrow> string \<Rightarrow> string \<Rightarrow> world \<Rightarrow> world" where
  "kill s host grp w =
     public_control s ''kill''
       ((if host \<noteq> [] then [(''host'', JStr host)] else []) @
        (if grp \<noteq> [] then [(''group'', JStr grp)] else [])) w"

text \<open>
  What \<open>cockpit.logout\<close> and \<open>cockpit.drop_privileges\<close> do with the transport; any argument of \<open>logout\<close> but
  \<open>false\<close> asks for a reload.
\<close>

definition logout_transport :: "socket \<Rightarrow> js \<Rightarrow> world \<Rightarrow> world" where
  "logout_transport s reload w =
     ensure_transport s (SendControl True [(''command'', JStr ''logout''), (''disconnect'', JBool True)])
       (if reload \<noteq> JBool False then w\<lparr>w_reload_after_disconnect := True\<rparr> else w)"

definition drop_privileges :: "socket \<Rightarrow> world \<Rightarrow> world" where
  "drop_privileges s w =
     ensure_transport s (SendControl False [(''command'', JStr ''logout''), (''disconnect'', JBool False)]) w"

text \<open>\<open>cockpit.hint\<close>: the options may be an object, a host name or missing; a null host has no properties.\<close>

definition hint :: "socket \<Rightarrow> string \<Rightarrow> js \<Rightarrow> world \<Rightarrow> world" where
  "hint s name options w =
     (if w_default w = None then w
      else
        let options = (if truthy options then options else w_default_host w)
        in case options of
             JStr host \<Rightarrow> public_control s ''hint'' [(''host'', JStr host), (''hint'', JStr name)] w
           | JObj kvs \<Rightarrow> public_control s ''hint'' (oset kvs ''hint'' (JStr name)) w
           | _ \<Rightarrow> emit (Exception ''TypeError'') w)"

end
