(* ===== verification/Channel_Lifecycle.thy ===== *)
theory Channel_Lifecycle
  imports Transport
begin

text \<open>
  The life of a channel, over every sequence of operations on the store of \<open>Transport\<close>: the step
  relation, the invariant that ties the registrations of the transports to the channels, and what
  follows from it: a channel is closed at most once and nothing is dispatched on it afterwards; a
  transport that closes closes all its channels; what was queued while waiting for the transport goes
  out as if it had been sent directly.
\<close>

section \<open>Steps\<close>

datatype op =
    OpOpen socket options
  | OpSend nat payload
  | OpControl nat options
  | OpWait nat
  | OpClose nat options
  | OpReceive nat wire
  | OpSocketOpen nat
  | OpSocketClosed nat
  | OpHealth nat
  | OpNoSocket nat
  | OpUnload
  | OpBeforeUnload
  | OpInject wire bool
  | OpFilter msg_filter bool
  | OpPublicClose "string option"
  | OpPublicControl socket string options
  | OpKill socket string string
  | OpHint socket string js
  | OpLogout socket js
  | OpDropPrivileges socket

text \<open>The \<open>unload\<close> listener: \<open>default_transport.close()\<close>.\<close>

definition on_unload :: "world \<Rightarrow> world" where
  "on_unload w = (case w_default w of None \<Rightarrow> w | Some t \<Rightarrow> transport_close t None w)"

fun exec :: "op \<Rightarrow> world \<Rightarrow> world" where
  "exec (OpOpen s options) = channel_open s options"
| "exec (OpSend c p) = chan_send c p"
| "exec (OpControl c options) = chan_control c options"
| "exec (OpWait c) = chan_wait c"
| "exec (OpClose c options) = chan_close c options"
| "exec (OpReceive t m) = dispatch_data t m"
| "exec (OpSocketOpen t) = ws_onopen t"
| "exec (OpSocketClosed t) = ws_onclose t"
| "exec (OpHealth t) = check_health t"
| "exec (OpNoSocket t) = no_socket_timeout t"
| "exec OpUnload = on_unload"
| "exec OpBeforeUnload = (\<lambda>w. w\<lparr>w_expect_disconnect := True\<rparr>)"
| "exec (OpInject m out) = inject m out"
| "exec (OpFilter f out) = add_filter f out"
| "exec (OpPublicClose p) = public_close p"
| "exec (OpPublicControl s c options) = public_control s c options"
| "exec (OpKill s h g) = kill s h g"
| "exec (OpHint s n v) = hint s n v"
| "exec (OpLogout s reload) = logout_transport s reload"
| "exec (OpDropPrivileges s) = drop_privileges s"

text \<open>An operation is called on a channel or a transport that exists.\<close>

fun enabled :: "op \<Rightarrow> world \<Rightarrow> bool" where
  "enabled (OpSend c _) w = (c < length (w_chans w))"
| "enabled (OpControl c _) w = (c < length (w_chans w))"
| "enabled (OpWait c) w = (c < length (w_chans w))"
| "enabled (OpClose c _) w = (c < length (w_chans w))"
| "enabled (OpReceive t _) w = (t < length (w_transports w))"
| "enabled (OpSocketOpen t) w = (t < length (w_transports w))"
| "enabled (OpSocketClosed t) w = (t < length (w_transports w))"
| "enabled (OpHealth t) w = (t < length (w_transports w))"
| "enabled (OpNoSocket t) w = (t < length (w_transports w))"
| "enabled _ w = True"

inductive step :: "world \<Rightarrow> world \<Rightarrow> bool" where
  exec: "enabled oper w \<Longrightarrow> step w (exec oper w)"

inductive_cases stepE: "step w w'"

inductive reachable :: "world \<Rightarrow> bool" where
  start: "reachable init_world"
| further: "reachable w \<Longrightarrow> step w w' \<Longrightarrow> reachable w'"

text \<open>Executable runs, for concrete sequences.\<close>

fun run :: "op list \<Rightarrow> world \<Rightarrow> world option" where
  "run [] w = Some w"
| "run (x # xs) w = (if enabled x w then run xs (exec x w) else None)"

lemma reachable_run: "run xs w = Some w' \<Longrightarrow> reachable w \<Longrightarrow> reachable w'"
  by (induction xs arbitrary: w) (auto split: if_splits intro: further step.exec)

section \<open>What the invariant sees\<close>

fun event_chan :: "effect \<Rightarrow> nat option" where
  "event_chan (ChanReady c _) = Some c"
| "event_chan (ChanControl c _) = Some c"
| "event_chan (ChanMessage c _) = Some c"
| "event_chan (ChanClose c _) = Some c"
| "event_chan _ = None"

fun is_close :: "effect \<Rightarrow> bool" where
  "is_close (ChanClose _ _) = True"
| "is_close _ = False"

definition chan_log :: "nat \<Rightarrow> world \<Rightarrow> effect list" where
  "chan_log c w = filter (\<lambda>e. event_chan e = Some c) (w_log w)"

text \<open>The registrations of a transport and the lifecycle fields of a channel.\<close>

definition core_t :: "transport \<Rightarrow> (string, nat) obj \<times> (string, nat) obj \<times> bool \<times> ready_callback list" where
  "core_t x = (t_control_cbs x, t_message_cbs x, t_ready x, t_ready_callbacks x)"

definition core_c :: "chan \<Rightarrow> string option \<times> nat option \<times> options option" where
  "core_c x = (c_id x, c_transport x, c_closed x)"

definition same_core :: "world \<Rightarrow> world \<Rightarrow> bool" where
  "same_core w' w \<longleftrightarrow>
     map core_t (w_transports w') = map core_t (w_transports w) \<and>
     map core_c (w_chans w') = map core_c (w_chans w) \<and>
     w_default w' = w_default w \<and> (\<forall>c. chan_log c w' = chan_log c w)"

lemma same_core_refl [simp]: "same_core w w"
  by (simp add: same_core_def)

lemma same_core_trans: "same_core w3 w2 \<Longrightarrow> same_core w2 w1 \<Longrightarrow> same_core w3 w1"
  by (simp add: same_core_def)

lemma same_core_emit: "event_chan e = None \<Longrightarrow> same_core (emit e w) w"
  by (simp add: same_core_def emit_def chan_log_def)

lemma map_update_same: "f (g (xs ! i)) = f (xs ! i) \<Longrightarrow> map f (xs[i := g (xs ! i)]) = map f xs"
  by (metis list_update_id map_update)

lemma same_core_upd_t: "(\<And>x. core_t (f x) = core_t x) \<Longrightarrow> same_core (upd_t t f w) w"
  by (simp add: same_core_def upd_t_def chan_log_def map_update_same)

lemma same_core_upd_c: "(\<And>x. core_c (f x) = core_c x) \<Longrightarrow> same_core (upd_c c f w) w"
  by (simp add: same_core_def upd_c_def chan_log_def map_update_same)

lemma same_core_vars:
  "same_core (w\<lparr>w_expect_disconnect := a\<rparr>) w" "same_core (w\<lparr>w_default_host := h\<rparr>) w"
  "same_core (w\<lparr>w_reload_after_disconnect := b\<rparr>) w"
  "same_core (w\<lparr>w_incoming_filters := i\<rparr>) w" "same_core (w\<lparr>w_outgoing_filters := i\<rparr>) w"
  by (simp_all add: same_core_def chan_log_def)

lemma event_chan_ws_send [simp]: "event_chan (ws_send s d) = None"
  by (simp add: ws_send_def split: socket.split)

lemma same_core_send_data: "same_core (fst (send_data t d channel control w)) w"
  by (auto simp: send_data_def same_core_emit split: option.split)

lemma same_core_send_control: "same_core (fst (send_control t d w)) w"
  by (auto simp: send_control_def send_message_def same_core_send_data core_t_def intro!: same_core_upd_t)

lemma same_core_control_or_reload: "same_core (control_or_reload t r d w) w"
  using same_core_send_control [of t d w]
  by (auto simp: control_or_reload_def split: prod.split intro: same_core_trans [OF same_core_emit])

lemma same_core_send_payload: "same_core (send_payload c p w) w"
  by (auto simp: send_payload_def send_message_def same_core_send_data Let_def split: option.split)

lemma same_core_drain: "same_core (fold (drain_item t c channel) q w) w"
proof (induction q arbitrary: w)
  case (Cons x q)
  have "same_core (drain_item t c channel x w) w"
    by (auto simp: drain_item_def same_core_send_control same_core_send_payload split: queue_item.split)
  with Cons.IH show ?case by (auto intro: same_core_trans)
qed simp

lemmas same_core_intros = same_core_emit same_core_upd_t same_core_upd_c same_core_send_data
  same_core_send_control same_core_send_payload same_core_drain same_core_vars

text \<open>Reading through a core.\<close>

lemma map_eq_nth: "map f xs = map f ys \<Longrightarrow> i < length ys \<Longrightarrow> f (xs ! i) = f (ys ! i)"
  by (metis map_eq_imp_length_eq nth_map)

lemma same_core_sizes:
  assumes "same_core w' w"
  shows "length (w_transports w') = length (w_transports w)" "length (w_chans w') = length (w_chans w)"
    "w_default w' = w_default w" "chan_log c w' = chan_log c w"
  using assms by (auto simp: same_core_def dest: map_eq_imp_length_eq)

lemma same_core_t:
  assumes "same_core w' w" "t < length (w_transports w)"
  shows "t_control_cbs (tr w' t) = t_control_cbs (tr w t)" "t_message_cbs (tr w' t) = t_message_cbs (tr w t)"
    "t_ready (tr w' t) = t_ready (tr w t)" "t_ready_callbacks (tr w' t) = t_ready_callbacks (tr w t)"
proof -
  have "core_t (tr w' t) = core_t (tr w t)"
    using assms by (intro map_eq_nth) (simp_all add: same_core_def)
  then show "t_control_cbs (tr w' t) = t_control_cbs (tr w t)" "t_message_cbs (tr w' t) = t_message_cbs (tr w t)"
    "t_ready (tr w' t) = t_ready (tr w t)" "t_ready_callbacks (tr w' t) = t_ready_callbacks (tr w t)"
    by (simp_all add: core_t_def)
qed

lemma same_core_c:
  assumes "same_core w' w" "c < length (w_chans w)"
  shows "c_id (ch w' c) = c_id (ch w c)" "c_transport (ch w' c) = c_transport (ch w c)"
    "c_closed (ch w' c) = c_closed (ch w c)"
proof -
  have "core_c (ch w' c) = core_c (ch w c)"
    using assms by (intro map_eq_nth) (simp_all add: same_core_def)
  then show "c_id (ch w' c) = c_id (ch w c)" "c_transport (ch w' c) = c_transport (ch w c)"
    "c_closed (ch w' c) = c_closed (ch w c)"
    by (simp_all add: core_c_def)
qed

section \<open>The store\<close>

lemma upd_t_sel [simp, step_simps]:
  "length (w_transports (upd_t t f w)) = length (w_transports w)"
  "w_transports (upd_t t f w) ! t' = (if t' = t \<and> t < length (w_transports w) then f (tr w t) else tr w t')"
  "w_chans (upd_t t f w) = w_chans w" "w_default (upd_t t f w) = w_default w"
  "w_log (upd_t t f w) = w_log w" "w_expect_disconnect (upd_t t f w) = w_expect_disconnect w"
  "w_outgoing_filters (upd_t t f w) = w_outgoing_filters w" "w_default_host (upd_t t f w) = w_default_host w"
  "w_reload_after_disconnect (upd_t t f w) = w_reload_after_disconnect w"
  "w_incoming_filters (upd_t t f w) = w_incoming_filters w"
  by (auto simp: upd_t_def nth_list_update list_update_beyond not_less)

lemma upd_c_sel [simp, step_simps]:
  "length (w_chans (upd_c c f w)) = length (w_chans w)"
  "w_chans (upd_c c f w) ! c' = (if c' = c \<and> c < length (w_chans w) then f (ch w c) else ch w c')"
  "w_transports (upd_c c f w) = w_transports w" "w_default (upd_c c f w) = w_default w"
  "w_log (upd_c c f w) = w_log w" "w_expect_disconnect (upd_c c f w) = w_expect_disconnect w"
  "w_outgoing_filters (upd_c c f w) = w_outgoing_filters w" "w_default_host (upd_c c f w) = w_default_host w"
  "w_reload_after_disconnect (upd_c c f w) = w_reload_after_disconnect w"
  "w_incoming_filters (upd_c c f w) = w_incoming_filters w"
  by (auto simp: upd_c_def nth_list_update list_update_beyond not_less)

lemma emit_sel [simp, step_simps]:
  "w_transports (emit e w) = w_transports w" "w_chans (emit e w) = w_chans w"
  "w_default (emit e w) = w_default w" "w_log (emit e w) = w_log w @ [e]"
  "w_expect_disconnect (emit e w) = w_expect_disconnect w"
  "w_outgoing_filters (emit e w) = w_outgoing_filters w" "w_default_host (emit e w) = w_default_host w"
  "w_reload_after_disconnect (emit e w) = w_reload_after_disconnect w"
  "w_incoming_filters (emit e w) = w_incoming_filters w"
  by (simp_all add: emit_def)

lemma chan_log_emit [simp]:
  "chan_log c (emit e w) = chan_log c w @ (if event_chan e = Some c then [e] else [])"
  by (simp add: chan_log_def)

lemma chan_log_upd [simp]: "chan_log c (upd_t t f w) = chan_log c w" "chan_log c (upd_c c' g w) = chan_log c w"
  by (simp_all add: chan_log_def)

lemma chan_log_vars [simp]:
  "chan_log c (w\<lparr>w_transports := ts\<rparr>) = chan_log c w" "chan_log c (w\<lparr>w_chans := cs\<rparr>) = chan_log c w"
  "chan_log c (w\<lparr>w_default := d\<rparr>) = chan_log c w"
  by (simp_all add: chan_log_def)

section \<open>The invariant\<close>

definition registered_ok :: "world \<Rightarrow> nat \<Rightarrow> string \<Rightarrow> nat \<Rightarrow> bool" where
  "registered_ok w t k c \<longleftrightarrow>
     c < length (w_chans w) \<and> c_id (ch w c) = Some k \<and> k \<noteq> [] \<and> c_transport (ch w c) = Some t \<and>
     c_closed (ch w c) = None"

definition reg_ok :: "world \<Rightarrow> bool" where
  "reg_ok w \<longleftrightarrow> (\<forall>t < length (w_transports w).
     t_message_cbs (tr w t) = t_control_cbs (tr w t) \<and> owf (t_control_cbs (tr w t)) \<and>
     (\<not> t_ready (tr w t) \<longrightarrow> t_control_cbs (tr w t) = []) \<and>
     (\<forall>k c. oget (t_control_cbs (tr w t)) k = Some c \<longrightarrow> registered_ok w t k c))"

fun opens :: "ready_callback list \<Rightarrow> nat list" where
  "opens [] = []"
| "opens (OpenChannel c # cbs) = c # opens cbs"
| "opens (SendControl _ _ # cbs) = opens cbs"

lemma opens_append [simp]: "opens (xs @ ys) = opens xs @ opens ys"
  by (induction xs rule: opens.induct) auto

definition pending :: "world \<Rightarrow> nat \<Rightarrow> nat list" where
  "pending w t =
     (if t < length (w_transports w) \<and> \<not> t_ready (tr w t) then opens (t_ready_callbacks (tr w t)) else [])"

text \<open>Channels that wait for a transport: one entry each, not started.\<close>

definition wait_ok :: "world \<Rightarrow> bool" where
  "wait_ok w \<longleftrightarrow>
     (\<forall>t. distinct (pending w t) \<and>
       (\<forall>c \<in> set (pending w t). c < length (w_chans w) \<and> c_transport (ch w c) = None)) \<and>
     (\<forall>t t' c. c \<in> set (pending w t) \<longrightarrow> c \<in> set (pending w t') \<longrightarrow> t = t')"

definition life_ok :: "options option \<Rightarrow> nat \<Rightarrow> effect list \<Rightarrow> bool" where
  "life_ok closed c es \<longleftrightarrow>
     (case closed of None \<Rightarrow> \<not> list_ex is_close es
      | Some d \<Rightarrow> es \<noteq> [] \<and> last es = ChanClose c d \<and> \<not> list_ex is_close (butlast es))"

definition log_ok :: "world \<Rightarrow> bool" where
  "log_ok w \<longleftrightarrow>
     (\<forall>c. if c < length (w_chans w) then life_ok (c_closed (ch w c)) c (chan_log c w) else chan_log c w = [])"

definition default_ok :: "world \<Rightarrow> bool" where
  "default_ok w \<longleftrightarrow> (\<forall>t. w_default w = Some t \<longrightarrow> t < length (w_transports w))"

definition winv :: "world \<Rightarrow> bool" where
  "winv w \<longleftrightarrow> reg_ok w \<and> wait_ok w \<and> log_ok w \<and> default_ok w"

text \<open>Channels taken off the waiting list that are about to get their transport.\<close>

definition starting :: "nat list \<Rightarrow> world \<Rightarrow> bool" where
  "starting cs w \<longleftrightarrow> distinct cs \<and>
     (\<forall>c \<in> set cs. c < length (w_chans w) \<and> c_transport (ch w c) = None \<and> (\<forall>t. c \<notin> set (pending w t)))"

lemma winv_life: "winv w \<Longrightarrow> c < length (w_chans w) \<Longrightarrow> life_ok (c_closed (ch w c)) c (chan_log c w)"
  unfolding winv_def log_ok_def by metis

lemma winv_open_life:
  "winv w \<Longrightarrow> c < length (w_chans w) \<Longrightarrow> c_closed (ch w c) = None \<Longrightarrow> life_ok None c (chan_log c w)"
  by (metis winv_life)

lemma winv_no_log: "winv w \<Longrightarrow> \<not> c < length (w_chans w) \<Longrightarrow> chan_log c w = []"
  unfolding winv_def log_ok_def by metis

lemma life_ok_snoc:
  "life_ok None c es \<Longrightarrow> \<not> is_close e \<Longrightarrow> life_ok None c (es @ [e])"
  "life_ok None c es \<Longrightarrow> life_ok (Some d) c (es @ [ChanClose c d])"
  by (auto simp: life_ok_def)

lemma same_core_pending: "same_core w' w \<Longrightarrow> pending w' t = pending w t"
  by (auto simp: pending_def same_core_sizes same_core_t)

lemma same_core_registered:
  "same_core w' w \<Longrightarrow> registered_ok w t k c \<Longrightarrow> registered_ok w' t k c"
  by (auto simp: registered_ok_def same_core_sizes same_core_c)

lemma same_core_reg: "same_core w' w \<Longrightarrow> reg_ok w \<Longrightarrow> reg_ok w'"
  unfolding reg_ok_def by (auto simp: same_core_sizes same_core_t intro: same_core_registered)

lemma same_core_wait: "same_core w' w \<Longrightarrow> wait_ok w \<Longrightarrow> wait_ok w'"
  unfolding wait_ok_def by (simp add: same_core_sizes same_core_c same_core_pending)

lemma same_core_log: "same_core w' w \<Longrightarrow> log_ok w \<Longrightarrow> log_ok w'"
  unfolding log_ok_def by (simp add: same_core_sizes same_core_c)

lemma winv_same_core: "same_core w' w \<Longrightarrow> winv w \<Longrightarrow> winv w'"
  unfolding winv_def default_ok_def
  using same_core_reg same_core_wait same_core_log by (simp add: same_core_sizes)

lemma starting_same_core: "same_core w' w \<Longrightarrow> starting cs w \<Longrightarrow> starting cs w'"
  unfolding starting_def by (simp add: same_core_sizes same_core_c same_core_pending)

section \<open>Operations of a channel keep it\<close>

definition detach :: "nat \<Rightarrow> world \<Rightarrow> world" where
  "detach c w =
     (case (c_transport (ch w c), c_id (ch w c)) of
        (Some t, Some k) \<Rightarrow> if k \<noteq> [] then unregister t k w else w
      | _ \<Rightarrow> w)"

lemma detach_sel [simp]:
  "length (w_transports (detach c w)) = length (w_transports w)" "w_chans (detach c w) = w_chans w"
  "w_default (detach c w) = w_default w" "chan_log c' (detach c w) = chan_log c' w"
  "t_ready (w_transports (detach c w) ! t) = t_ready (tr w t)"
  "t_ready_callbacks (w_transports (detach c w) ! t) = t_ready_callbacks (tr w t)"
  "w_log (detach c w) = w_log w"
  "w_expect_disconnect (detach c w) = w_expect_disconnect w"
  by (auto simp: detach_def unregister_def split: option.split)

lemma pending_detach [simp]: "pending (detach c w) t = pending w t"
  by (simp add: pending_def)

lemma detach_cbs:
  assumes "t < length (w_transports w)" "reg_ok w"
  shows "t_message_cbs (w_transports (detach c w) ! t) = t_control_cbs (w_transports (detach c w) ! t)"
    "owf (t_control_cbs (w_transports (detach c w) ! t))"
    "t_control_cbs (tr w t) = [] \<Longrightarrow> t_control_cbs (w_transports (detach c w) ! t) = []"
    "oget (t_control_cbs (w_transports (detach c w) ! t)) k = Some c' \<Longrightarrow>
       oget (t_control_cbs (tr w t)) k = Some c' \<and>
       \<not> (k \<noteq> [] \<and> c_id (ch w c) = Some k \<and> c_transport (ch w c) = Some t)"
  using assms
  by (auto simp: detach_def unregister_def reg_ok_def odel_def [of "[]"] intro: inv_intros
      split: option.splits if_splits)

definition mark_closed :: "nat \<Rightarrow> options \<Rightarrow> world \<Rightarrow> world" where
  "mark_closed c d w =
     detach c (emit (ChanClose c d) (upd_c c (\<lambda>x. x\<lparr>c_closed := Some d, c_valid := False\<rparr>) w))"

lemma detach_emit: "detach c (emit e w) = emit e (detach c w)"
  by (auto simp: detach_def unregister_def upd_t_def emit_def split: option.split)

lemma on_close_core: "same_core (on_close c d w) (mark_closed c d w)"
proof -
  let ?w = "detach c (upd_c c (\<lambda>x. x\<lparr>c_closed := Some d, c_valid := False\<rparr>) w)"
  let ?v = "if truthy (opt d ''message'') then emit (Warning (to_str (opt d ''message''))) ?w else ?w"
  have eq: "on_close c d w =
    upd_c c (\<lambda>x. if c_waiting x = Waiting then x\<lparr>c_waiting := Rejected d\<rparr> else x) (emit (ChanClose c d) ?v)"
    by (simp only: on_close_def detach_def Let_def)
  have s1: "same_core (emit (ChanClose c d) ?v) (emit (ChanClose c d) ?w)"
    by (simp add: same_core_def)
  have s2: "same_core (upd_c c (\<lambda>x. if c_waiting x = Waiting then x\<lparr>c_waiting := Rejected d\<rparr> else x) u) u" for u
    by (rule same_core_upd_c) (simp add: core_c_def)
  show ?thesis
    unfolding eq mark_closed_def detach_emit by (rule same_core_trans [OF s2 s1])
qed

lemma reg_ok_mark_closed:
  assumes "reg_ok w" "c < length (w_chans w)"
  shows "reg_ok (mark_closed c d w)"
proof -
  let ?w = "emit (ChanClose c d) (upd_c c (\<lambda>x. x\<lparr>c_closed := Some d, c_valid := False\<rparr>) w)"
  have pre: "registered_ok w t k c'" if "t < length (w_transports w)"
    "oget (t_control_cbs (tr w t)) k = Some c'" for t k c'
    using assms(1) that by (auto simp: reg_ok_def)
  have gone: "c' \<noteq> c" if t: "t < length (w_transports w)"
    and get: "oget (t_control_cbs (w_transports (detach c w) ! t)) k = Some c'" for t k c'
    using detach_cbs(4) [OF t assms(1) get] pre [OF t, of k c'] by (auto simp: registered_ok_def)
  have cbs: "t_control_cbs (w_transports (detach c ?w) ! t) = t_control_cbs (w_transports (detach c w) ! t)"
    "t_message_cbs (w_transports (detach c ?w) ! t) = t_message_cbs (w_transports (detach c w) ! t)" for t
    by (auto simp: detach_def unregister_def split: option.split)
  have "registered_ok (detach c ?w) t k c'" if t: "t < length (w_transports w)"
    and get: "oget (t_control_cbs (w_transports (detach c w) ! t)) k = Some c'" for t k c'
    using gone [OF t get] detach_cbs(4) [OF t assms(1) get] pre [OF t, of k c'] by (simp add: registered_ok_def)
  then show ?thesis
    unfolding mark_closed_def using detach_cbs [OF _ assms(1)] assms(1)
    by (simp add: reg_ok_def cbs)
qed

lemma on_close_inv [inv_intros]:
  assumes "winv w" "c < length (w_chans w)" "c_closed (ch w c) = None"
  shows "winv (on_close c d w)"
proof -
  have p: "pending (mark_closed c d w) t = pending w t" for t
    by (simp add: mark_closed_def) (simp add: pending_def)
  have "wait_ok (mark_closed c d w)"
    using assms(1) unfolding winv_def wait_ok_def p by (auto simp: mark_closed_def)
  moreover have "log_ok (mark_closed c d w)"
    using assms winv_life [OF assms(1)] winv_no_log [OF assms(1)] life_ok_snoc(2) [OF winv_open_life [OF assms]]
    by (auto simp: log_ok_def mark_closed_def)
  moreover have "default_ok (mark_closed c d w)"
    using assms(1) by (simp add: winv_def default_ok_def mark_closed_def)
  ultimately have "winv (mark_closed c d w)"
    using assms reg_ok_mark_closed by (simp add: winv_def)
  then show ?thesis
    by (rule winv_same_core [OF on_close_core])
qed

lemma chan_event_inv:
  assumes "winv w" "event_chan e = Some c" "\<not> is_close e" "c < length (w_chans w)" "c_closed (ch w c) = None"
  shows "winv (emit e w)"
proof -
  have "pending (emit e w) t = pending w t" for t by (simp add: pending_def)
  then have "reg_ok (emit e w)" "wait_ok (emit e w)" "default_ok (emit e w)"
    using assms(1) by (auto simp: winv_def reg_ok_def registered_ok_def wait_ok_def default_ok_def)
  moreover have "life_ok (c_closed (ch w c')) c' (chan_log c' (emit e w))" if "c' < length (w_chans w)" for c'
    using assms winv_life [OF assms(1) that] life_ok_snoc(1) [OF winv_open_life [OF assms(1,4,5)] assms(3)]
    by auto
  then have "log_ok (emit e w)"
    using assms winv_no_log [OF assms(1)] by (auto simp: log_ok_def)
  ultimately show ?thesis by (simp add: winv_def)
qed

lemma chan_close_inv [inv_intros]:
  assumes "winv w" "c < length (w_chans w)"
  shows "winv (chan_close c options w)"
proof (cases "c_closed (ch w c)")
  case None
  let ?o = "oset (oset options ''command'' (JStr ''close'')) ''channel'' (id_value (ch w c))"
  let ?w = "case c_transport (ch w c) of
      None \<Rightarrow> upd_c c (\<lambda>x. x\<lparr>c_queue := c_queue x @ [QControl ?o]\<rparr>) w
    | Some t \<Rightarrow> fst (send_control t ?o w)"
  have s: "same_core ?w w"
    by (auto intro!: same_core_intros simp: core_c_def split: option.split)
  have "winv (on_close c ?o ?w)"
    using s assms None winv_same_core [OF s] by (intro on_close_inv) (auto simp: same_core_sizes same_core_c)
  then show ?thesis using None by (simp add: chan_close_def Let_def)
qed (use assms in \<open>simp add: chan_close_def\<close>)

lemma on_message_inv [inv_intros]:
  assumes "winv w" "c < length (w_chans w)" "c_closed (ch w c) = None"
  shows "winv (on_message c p w)"
  using assms winv_same_core [OF same_core_emit assms(1)]
  by (simp add: on_message_def chan_close_inv chan_event_inv)

lemma on_ready_inv [inv_intros]:
  assumes "winv w" "c < length (w_chans w)" "c_closed (ch w c) = None"
  shows "winv (on_ready c d w)" "c_closed (ch (on_ready c d w) c) = None"
    "length (w_chans (on_ready c d w)) = length (w_chans w)"
proof -
  have "winv (upd_c c (\<lambda>x. x\<lparr>c_ready := Some d\<rparr>) w)"
    by (rule winv_same_core [OF same_core_upd_c assms(1)]) (simp add: core_c_def)
  then have "winv (emit (ChanReady c d) (upd_c c (\<lambda>x. x\<lparr>c_ready := Some d\<rparr>) w))"
    by (rule chan_event_inv [where c = c]) (use assms in simp_all)
  then show "winv (on_ready c d w)"
    unfolding on_ready_def by (rule winv_same_core [rotated]) (simp add: same_core_upd_c core_c_def)
qed (use assms in \<open>auto simp: on_ready_def\<close>)

lemma on_control_inv [inv_intros]:
  assumes "winv w" "c < length (w_chans w)" "c_closed (ch w c) = None"
  shows "winv (on_control c d w)"
proof -
  define v where "v = (if opt d ''command'' = JStr ''ready'' then on_ready c d w else w)"
  have v: "winv v" "c < length (w_chans v)" "c_closed (ch v c) = None"
    using assms on_ready_inv [OF assms] by (auto simp: v_def)
  have "winv (upd_c c (\<lambda>x. x\<lparr>c_received_done := True\<rparr>) v)"
    by (rule winv_same_core [OF same_core_upd_c v(1)]) (simp add: core_c_def)
  then show ?thesis
    unfolding on_control_def Let_def v_def [symmetric]
    using v assms winv_same_core [OF same_core_emit v(1)]
    by (simp add: on_close_inv chan_close_inv chan_event_inv)
qed

section \<open>Operations of a transport keep it\<close>

definition attach :: "nat \<Rightarrow> nat \<Rightarrow> string \<Rightarrow> world \<Rightarrow> world" where
  "attach c t k w = register t k c (upd_c c (\<lambda>x. x\<lparr>c_transport := Some t, c_id := Some k\<rparr>) w)"

definition next_id :: "transport \<Rightarrow> string" where
  "next_id x = t_channel_seed x @ nat_str (Suc (t_last_channel x))"

lemma next_id_nonempty [simp]: "next_id x \<noteq> []"
  by (simp add: next_id_def)

lemma upd_c_upd_c: "upd_c c g (upd_c c f w) = upd_c c (g \<circ> f) w"
  by (cases "c < length (w_chans w)") (simp_all add: upd_c_def list_update_beyond)

lemma upd_t_upd_c: "upd_c c f (upd_t t g w) = upd_t t g (upd_c c f w)"
  by (simp add: upd_c_def upd_t_def)

lemma upd_t_upd_t: "upd_t t g (upd_t t f w) = upd_t t (g \<circ> f) w"
  by (cases "t < length (w_transports w)") (simp_all add: upd_t_def list_update_beyond)

text \<open>Sending touches no channel and no registration.\<close>

lemma send_data_sel [simp]:
  "w_chans (fst (send_data t d channel control w)) = w_chans w"
  "w_transports (fst (send_data t d channel control w)) = w_transports w"
  "w_default_host (fst (send_data t d channel control w)) = w_default_host w"
  "w_outgoing_filters (fst (send_data t d channel control w)) = w_outgoing_filters w"
  "w_expect_disconnect (fst (send_data t d channel control w)) = w_expect_disconnect w"
  by (simp_all add: send_data_def split: option.split)

lemma send_control_sel [simp]:
  "w_chans (fst (send_control t d w)) = w_chans w"
  "length (w_transports (fst (send_control t d w))) = length (w_transports w)"
  "t_ws (w_transports (fst (send_control t d w)) ! t') = t_ws (tr w t')"
  "t_channel_seed (w_transports (fst (send_control t d w)) ! t') = t_channel_seed (tr w t')"
  "t_last_channel (w_transports (fst (send_control t d w)) ! t') = t_last_channel (tr w t')"
  "w_default_host (fst (send_control t d w)) = w_default_host w"
  "w_outgoing_filters (fst (send_control t d w)) = w_outgoing_filters w"
  "w_expect_disconnect (fst (send_control t d w)) = w_expect_disconnect w"
  by (simp_all add: send_control_def send_message_def)

lemma control_or_reload_sel [simp]:
  "w_chans (control_or_reload t r d w) = w_chans w"
  "w_transports (control_or_reload t r d w) = w_transports (fst (send_control t d w))"
  "w_default_host (control_or_reload t r d w) = w_default_host w"
  "w_outgoing_filters (control_or_reload t r d w) = w_outgoing_filters w"
proof -
  have *: "control_or_reload t r d w = fst (send_control t d w) \<or> control_or_reload t r d w = emit Reload (fst (send_control t d w))"
    by (simp add: control_or_reload_def split: prod.split)
  from * show "w_chans (control_or_reload t r d w) = w_chans w" "w_default_host (control_or_reload t r d w) = w_default_host w"
    "w_transports (control_or_reload t r d w) = w_transports (fst (send_control t d w))"
    "w_outgoing_filters (control_or_reload t r d w) = w_outgoing_filters w" by auto
qed

lemma send_payload_sel [simp]:
  "w_chans (send_payload c p w) = w_chans w" "w_transports (send_payload c p w) = w_transports w"
  "w_default_host (send_payload c p w) = w_default_host w"
  "w_outgoing_filters (send_payload c p w) = w_outgoing_filters w"
  "w_expect_disconnect (send_payload c p w) = w_expect_disconnect w"
  by (simp_all add: send_payload_def send_message_def Let_def split: option.split)

lemma drain_sel [simp]:
  "w_chans (fold (drain_item t c k) q w) = w_chans w"
  "length (w_transports (fold (drain_item t c k) q w)) = length (w_transports w)"
  "t_ws (w_transports (fold (drain_item t c k) q w) ! t') = t_ws (tr w t')"
  "t_channel_seed (w_transports (fold (drain_item t c k) q w) ! t') = t_channel_seed (tr w t')"
  "t_last_channel (w_transports (fold (drain_item t c k) q w) ! t') = t_last_channel (tr w t')"
  "w_expect_disconnect (fold (drain_item t c k) q w) = w_expect_disconnect w"
  by (induction q arbitrary: w) (simp_all add: drain_item_def split: queue_item.split)

lemma on_transport_closed:
  "c < length (w_chans w) \<Longrightarrow> c_closed (ch w c) \<noteq> None \<Longrightarrow>
   on_transport c t w = upd_c c (\<lambda>x. x\<lparr>c_transport := Some t\<rparr>) w"
  by (simp add: on_transport_def)

text \<open>The store when the open command is about to be sent.\<close>

definition opened :: "nat \<Rightarrow> nat \<Rightarrow> world \<Rightarrow> world" where
  "opened c t w = attach c t (next_id (tr w t)) (upd_t t (\<lambda>x. x\<lparr>t_last_channel := Suc (t_last_channel x)\<rparr>) w)"

lemma on_transport_open:
  assumes "c < length (w_chans w)" "c_closed (ch w c) = None" "t < length (w_transports w)"
  shows "on_transport c t w =
    upd_c c (\<lambda>x. x\<lparr>c_queue := []\<rparr>)
      (fold (drain_item t c (next_id (tr w t))) (c_queue (ch w c))
        (fst (send_control t (open_command (ch w c) (next_id (tr w t)) (w_default_host w)) (opened c t w))))"
proof -
  let ?k = "next_id (tr w t)"
  let ?v = "upd_c c (\<lambda>x. x\<lparr>c_transport := Some t\<rparr>) w"
  have nx: "next_channel t ?v = (upd_t t (\<lambda>x. x\<lparr>t_last_channel := Suc (t_last_channel x)\<rparr>) ?v, ?k)"
    using assms by (simp add: next_channel_def next_id_def Let_def upd_t_def)
  have op: "register t ?k c (upd_c c (\<lambda>x. x\<lparr>c_id := Some ?k\<rparr>) (fst (next_channel t ?v))) = opened c t w"
    by (simp add: nx opened_def attach_def upd_t_upd_c [symmetric] upd_c_upd_c o_def)
  have q: "c_queue (ch (fst (send_control t d (opened c t w))) c) = c_queue (ch w c)" for d
    using assms by (simp add: opened_def attach_def register_def)
  have oc: "open_command (ch (opened c t w) c) = open_command (ch w c)" "w_default_host (opened c t w) = w_default_host w"
    using assms by (auto simp: opened_def attach_def register_def open_command_def fun_eq_iff)
  show ?thesis
    unfolding on_transport_def Let_def using assms op q oc by (simp add: nx)
qed

lemma on_transport_core:
  assumes "c < length (w_chans w)" "c_closed (ch w c) = None" "t < length (w_transports w)"
  shows "same_core (on_transport c t w) (attach c t (next_id (tr w t)) w)"
proof -
  have "same_core (opened c t w) (attach c t (next_id (tr w t)) w)"
    unfolding opened_def attach_def register_def upd_t_upd_t upd_t_upd_c
    by (auto simp: same_core_def upd_t_def upd_c_def core_t_def chan_log_def map_update o_def)
  moreover have "same_core (on_transport c t w) (opened c t w)"
    unfolding on_transport_open [OF assms]
    by (rule same_core_trans [OF same_core_upd_c same_core_trans [OF same_core_drain same_core_send_control]])
       (simp add: core_c_def)
  ultimately show ?thesis by (rule same_core_trans [rotated])
qed

lemma reg_ok_attach:
  assumes "reg_ok w" "c < length (w_chans w)" "c_transport (ch w c) = None" "c_closed (ch w c) = None"
    "t_ready (tr w t)" "k \<noteq> []" "t < length (w_transports w)"
  shows "reg_ok (attach c t k w)"
proof -
  have old: "registered_ok (attach c t k w) t' k' c'"
    if "t' < length (w_transports w)" "oget (t_control_cbs (tr w t')) k' = Some c'" for t' k' c'
  proof -
    have "registered_ok w t' k' c'" using assms(1) that by (auto simp: reg_ok_def)
    moreover from this have "c' \<noteq> c" using assms(3) by (auto simp: registered_ok_def)
    ultimately show ?thesis by (simp add: registered_ok_def attach_def register_def)
  qed
  have "registered_ok (attach c t k w) t k c"
    using assms by (simp add: registered_ok_def attach_def register_def)
  then show ?thesis
    using assms old by (auto simp: reg_ok_def attach_def register_def intro: inv_intros)
qed

lemma on_transport_inv:
  assumes "winv w" "starting (c # cs) w" "t_ready (tr w t)" "t < length (w_transports w)"
  shows "winv (on_transport c t w) \<and> starting cs (on_transport c t w)"
proof -
  have c: "c < length (w_chans w)" "c_transport (ch w c) = None" "c \<notin> set cs" "\<And>t'. c \<notin> set (pending w t')"
    and cs: "\<And>c'. c' \<in> set cs \<Longrightarrow> c' < length (w_chans w) \<and> c_transport (ch w c') = None \<and> (\<forall>t. c' \<notin> set (pending w t))"
    and d: "distinct cs"
    using assms(2) by (auto simp: starting_def)
  have other: "wait_ok v \<and> starting cs v"
    if v: "\<And>t'. pending v t' = pending w t'" "length (w_chans v) = length (w_chans w)"
      "\<And>c'. c' \<noteq> c \<Longrightarrow> ch v c' = ch w c'" for v
  proof -
    have "ch v c' = ch w c'" if "c' \<in> set (pending w t')" for c' t'
      using that c(4) by (metis v(3))
    then have "wait_ok v" using assms(1) by (simp add: wait_ok_def winv_def v(1,2))
    moreover have "ch v c' = ch w c'" if "c' \<in> set cs" for c'
      using that c(3) by (metis v(3))
    then have "starting cs v" using cs d by (simp add: starting_def v(1,2))
    ultimately show ?thesis ..
  qed
  show ?thesis
  proof (cases "c_closed (ch w c)")
    case None
    let ?v = "attach c t (next_id (tr w t)) w"
    have "wait_ok ?v \<and> starting cs ?v"
      by (rule other) (auto simp: attach_def register_def pending_def)
    moreover have "reg_ok ?v"
      using assms c None by (intro reg_ok_attach) (simp_all add: winv_def)
    moreover have "log_ok ?v" "default_ok ?v"
      using assms(1) by (auto simp: winv_def log_ok_def default_ok_def attach_def register_def)
    ultimately have "winv ?v" "starting cs ?v" by (simp_all add: winv_def)
    then show ?thesis
      using on_transport_core [OF c(1) None assms(4)] winv_same_core starting_same_core by blast
  next
    case (Some d)
    let ?v = "upd_c c (\<lambda>x. x\<lparr>c_transport := Some t\<rparr>) w"
    have "wait_ok ?v \<and> starting cs ?v"
      by (rule other) (auto simp: pending_def)
    moreover have "reg_ok ?v"
      using assms(1) Some by (auto simp: winv_def reg_ok_def registered_ok_def)
    moreover have "log_ok ?v" "default_ok ?v"
      using assms(1) by (auto simp: winv_def log_ok_def default_ok_def)
    ultimately show ?thesis
      using on_transport_closed [OF c(1), of t] Some by (simp add: winv_def)
  qed
qed

text \<open>No operation below adds or removes a transport or a channel.\<close>

definition same_size :: "world \<Rightarrow> world \<Rightarrow> bool" where
  "same_size w' w \<longleftrightarrow> length (w_transports w') = length (w_transports w) \<and>
     length (w_chans w') = length (w_chans w) \<and> (\<forall>t. t_ready (tr w t) \<longrightarrow> t_ready (tr w' t))"

lemma same_size_refl [simp]: "same_size w w"
  by (simp add: same_size_def)

lemma same_size_trans: "same_size w3 w2 \<Longrightarrow> same_size w2 w1 \<Longrightarrow> same_size w3 w1"
  by (simp add: same_size_def)

lemma same_size_fold: "(\<And>x w. same_size (f x w) w) \<Longrightarrow> same_size (fold f xs w) w"
  by (induction xs arbitrary: w) (auto intro: same_size_trans)

lemma same_size_base:
  "same_size (emit e w) w" "same_size (upd_c c g w) w"
  "(\<And>x. t_ready x \<Longrightarrow> t_ready (f x)) \<Longrightarrow> same_size (upd_t t f w) w" "same_size (detach c w) w"
  "same_size (w\<lparr>w_expect_disconnect := a\<rparr>) w" "same_size (w\<lparr>w_default_host := h\<rparr>) w"
  by (auto simp: same_size_def)

lemma same_size_send:
  "same_size (fst (send_data t m channel control w)) w" "same_size (fst (send_control t d w)) w"
  "same_size (send_payload c p w) w" "same_size (drain_item t c k x w) w"
proof -
  show *: "same_size (fst (send_control t d w)) w" for t d
    by (auto simp: send_control_def send_message_def send_data_def same_size_base split: option.split)
  show "same_size (drain_item t c k x w) w"
    by (cases x) (simp add: drain_item_def *, simp add: drain_item_def same_size_def)
qed (simp_all add: same_size_def)

lemma same_size_on_close: "same_size (on_close c d w) w"
  unfolding on_close_def Let_def detach_def [symmetric]
  by (auto simp: same_size_def detach_def unregister_def split: option.split)

lemma same_size_chan_close: "same_size (chan_close c d w) w"
  unfolding chan_close_def Let_def
  by (auto intro: same_size_trans [OF same_size_on_close] simp: same_size_send same_size_base split: option.split)

lemma same_size_on_message: "same_size (on_message c p w) w"
  by (auto simp: on_message_def same_size_base intro: same_size_trans [OF same_size_chan_close])

lemma same_size_on_ready: "same_size (on_ready c d w) w"
  by (simp add: on_ready_def same_size_def)

lemma same_size_on_control: "same_size (on_control c d w) w"
proof -
  have "same_size (if opt d ''command'' = JStr ''ready'' then on_ready c d w else w) w"
    by (simp add: same_size_on_ready)
  then show ?thesis
    unfolding on_control_def Let_def
    by (auto simp: same_size_on_close intro: same_size_trans same_size_base same_size_chan_close)
qed

lemma same_size_on_transport: "same_size (on_transport c t w) w"
  unfolding on_transport_def Let_def next_channel_def register_def case_prod_conv
  by (auto intro!: same_size_base same_size_send same_size_fold
      same_size_trans [OF same_size_base(2)] same_size_trans [OF same_size_fold]
      same_size_trans [OF same_size_send(2)] same_size_trans [OF same_size_base(3)])

lemma same_size_control_or_reload: "same_size (control_or_reload t r d w) w"
  using same_size_send(2) [of t d w]
  by (auto simp: control_or_reload_def split: prod.split intro: same_size_trans [OF same_size_base(1)])

lemma same_size_run_callback: "same_size (run_callback t cb w) w"
  by (simp add: run_callback_def same_size_on_transport same_size_control_or_reload split: ready_callback.split)

lemma same_size_call_control: "same_size (call_control t d k w) w"
  by (simp add: call_control_def same_size_on_control split: option.split)

lemma same_size_ready_for_channels: "same_size (ready_for_channels t w) w"
  unfolding ready_for_channels_def
  by (auto intro!: same_size_trans [OF same_size_fold] same_size_run_callback same_size_trans [OF same_size_base(1)] same_size_base)

lemma same_size_close_rest: "same_size (close_rest t d w) w"
  unfolding close_rest_def broadcast_def
  by (auto intro!: same_size_trans [OF same_size_fold] same_size_call_control same_size_ready_for_channels)

lemma run_callbacks_inv:
  "winv w \<Longrightarrow> starting (opens cbs) w \<Longrightarrow> t_ready (tr w t) \<Longrightarrow> t < length (w_transports w) \<Longrightarrow>
   winv (fold (run_callback t) cbs w)"
proof (induction cbs arbitrary: w)
  case (Cons cb cbs)
  let ?w = "run_callback t cb w"
  have "winv ?w \<and> starting (opens cbs) ?w"
  proof (cases cb)
    case (OpenChannel c)
    then show ?thesis using on_transport_inv Cons.prems by (simp add: run_callback_def)
  next
    case (SendControl r d)
    then show ?thesis
      using winv_same_core [OF same_core_control_or_reload] starting_same_core [OF same_core_control_or_reload] Cons.prems
      by (simp add: run_callback_def)
  qed
  moreover have "t_ready (tr ?w t)" "t < length (w_transports ?w)"
    using same_size_run_callback [of t cb w] Cons.prems by (auto simp: same_size_def)
  ultimately show ?case using Cons.IH by simp
qed simp

lemma ready_for_channels_inv [inv_intros]:
  assumes "winv w" "t < length (w_transports w)"
  shows "winv (ready_for_channels t w)"
proof (cases "t_ready (tr w t)")
  case False
  let ?w = "emit (TransportReady t) (upd_t t (\<lambda>x. x\<lparr>t_ready := True\<rparr>) w)"
  have p: "pending ?w t' = (if t' = t then [] else pending w t')" for t'
    using assms by (simp add: pending_def)
  have "reg_ok ?w" "log_ok ?w" "default_ok ?w"
    using assms by (auto simp: winv_def reg_ok_def registered_ok_def log_ok_def default_ok_def)
  moreover have "wait_ok ?w"
    using assms(1) unfolding winv_def wait_ok_def p by auto
  moreover have "starting (opens (t_ready_callbacks (tr w t))) ?w"
  proof -
    have eq: "opens (t_ready_callbacks (tr w t)) = pending w t"
      using assms(2) False by (simp add: pending_def)
    show ?thesis unfolding eq starting_def p using assms(1) by (auto simp: winv_def wait_ok_def)
  qed
  ultimately show ?thesis
    using False assms run_callbacks_inv [of ?w _ t] by (simp add: ready_for_channels_def winv_def)
qed (use assms in \<open>simp add: ready_for_channels_def\<close>)

lemma winv_registered:
  "winv w \<Longrightarrow> t < length (w_transports w) \<Longrightarrow> oget (t_control_cbs (tr w t)) k = Some c \<Longrightarrow> registered_ok w t k c"
  by (auto simp: winv_def reg_ok_def)

lemma call_control_inv [inv_intros]:
  "winv w \<Longrightarrow> t < length (w_transports w) \<Longrightarrow> winv (call_control t d k w)"
  unfolding call_control_def using winv_registered [of w t k]
  by (auto simp: registered_ok_def split: option.split intro: on_control_inv)

lemma broadcast_fold_inv:
  "winv w \<Longrightarrow> t < length (w_transports w) \<Longrightarrow> winv (fold (call_control t d) ks w)"
proof (induction ks arbitrary: w)
  case (Cons k ks)
  then show ?case
    using call_control_inv same_size_call_control [of t d k w] by (simp add: same_size_def)
qed simp

lemma close_rest_inv [inv_intros]:
  assumes "winv w" "t < length (w_transports w)"
  shows "winv (close_rest t d w)"
  using assms same_size_ready_for_channels [of t w]
  by (auto simp: close_rest_def broadcast_def same_size_def intro!: broadcast_fold_inv ready_for_channels_inv)

lemma drop_socket_core: "same_core (drop_socket t w) w"
  by (rule same_core_upd_t) (simp add: core_t_def)

lemma same_core_keeps:
  "same_core w' w \<Longrightarrow> winv w \<Longrightarrow> t < length (w_transports w) \<Longrightarrow> winv w' \<and> t < length (w_transports w')"
  by (simp add: winv_same_core same_core_sizes)

lemma ws_onclose_inv [inv_intros]:
  assumes "winv w" "t < length (w_transports w)"
  shows "winv (ws_onclose t w)" "length (w_transports (ws_onclose t w)) = length (w_transports w)"
proof -
  let ?w = "drop_socket t w"
  let ?v = "if w_reload_after_disconnect ?w then emit Reload (?w\<lparr>w_expect_disconnect := True\<rparr>) else ?w"
  have "same_core ?v ?w"
    by (auto intro: same_core_trans [OF same_core_emit] same_core_vars)
  then have "same_core ?v w" by (rule same_core_trans [OF _ drop_socket_core])
  then have "winv ?v \<and> t < length (w_transports ?v)" using assms by (rule same_core_keeps)
  then show "winv (ws_onclose t w)" unfolding ws_onclose_def Let_def by (blast intro: close_rest_inv)
  have "length (w_transports ?v) = length (w_transports w)" by simp
  then show "length (w_transports (ws_onclose t w)) = length (w_transports w)"
    using same_size_close_rest [of t _ ?v] unfolding ws_onclose_def Let_def by (simp add: same_size_def)
qed

lemma transport_close_inv [inv_intros]:
  assumes "winv w" "t < length (w_transports w)"
  shows "winv (transport_close t options w)"
proof -
  let ?w = "drop_socket t w"
  have d: "winv ?w" "t < length (w_transports ?w)"
    using same_core_keeps [OF drop_socket_core assms] by blast+
  have e: "winv (emit e ?w) \<and> t < length (w_transports (emit e ?w))" if "event_chan e = None" for e
    by (rule same_core_keeps [OF same_core_emit [OF that] d])
  let ?v = "case t_ws (tr w t) of None \<Rightarrow> ?w | Some RealWS \<Rightarrow> emit WsClose ?w
    | Some ParentWS \<Rightarrow> ws_onclose t (emit PostParentClose ?w) | Some DummyWS \<Rightarrow> ?w"
  have "winv ?v \<and> t < length (w_transports ?v)"
    using d e [of WsClose] e [of PostParentClose] ws_onclose_inv [of "emit PostParentClose ?w" t]
    by (auto split: option.split socket.split)
  then show ?thesis unfolding transport_close_def Let_def by (blast intro: close_rest_inv)
qed

lemma process_init_inv [inv_intros]:
  assumes "winv w" "t < length (w_transports w)"
  shows "winv (process_init t options w)"
proof -
  let ?a = "if truthy (opt options ''channel-seed'')
    then upd_t t (\<lambda>x. x\<lparr>t_channel_seed := to_str (opt options ''channel-seed'')\<rparr>) w else w"
  let ?b = "if truthy (opt options ''host'') then ?a\<lparr>w_default_host := opt options ''host''\<rparr> else ?a"
  let ?c = "emit (InitOptions options) ?b"
  let ?d = "upd_t t (\<lambda>x. x\<lparr>t_waiting_for_init := False\<rparr>) ?c"
  have a: "same_core ?a w" by (auto intro!: same_core_upd_t simp: core_t_def)
  have "same_core ?b ?a" by (auto intro: same_core_vars)
  from same_core_trans [OF this a] have "same_core ?c w"
    by (rule same_core_trans [OF same_core_emit, rotated]) simp
  then have "same_core ?c w" "same_core ?d w"
    by (auto intro: same_core_trans [OF same_core_upd_t] simp: core_t_def)
  then have "winv ?c" "winv ?d \<and> t < length (w_transports ?d)"
    using assms same_core_keeps by blast+
  then have "winv (if t_waiting_for_init (tr ?c t) then ready_for_channels t ?d else ?c)"
    by (auto intro: ready_for_channels_inv)
  then show ?thesis
    unfolding process_init_def Let_def using assms transport_close_inv by simp
qed

lemma process_control_inv [inv_intros]:
  assumes "winv w" "t < length (w_transports w)"
  shows "winv (process_control t d w)"
proof -
  let ?w = "upd_t t (\<lambda>x. x\<lparr>t_waiting_for_init := False\<rparr>) w"
  have "winv ?w" "t < length (w_transports ?w)"
    using assms winv_same_core [OF same_core_upd_t assms(1)] by (simp_all add: core_t_def)
  then have "winv (transport_close t options ?w)" for options
    by (rule transport_close_inv)
  moreover have "winv (emit (Hint d) w)" by (rule winv_same_core [OF same_core_emit assms(1)]) simp
  ultimately show ?thesis
    using assms by (simp add: process_control_def process_init_inv call_control_inv Let_def)
qed

lemma process_message_inv [inv_intros]:
  assumes "winv w" "t < length (w_transports w)"
  shows "winv (process_message t k p w)"
proof -
  have "t_message_cbs (tr w t) = t_control_cbs (tr w t)" using assms by (simp add: winv_def reg_ok_def)
  then show ?thesis
    unfolding process_message_def using assms winv_registered [OF assms, of k]
    by (auto simp: registered_ok_def split: option.split intro: on_message_inv)
qed

lemma dispatch_data_inv [inv_intros]:
  assumes "winv w" "t < length (w_transports w)"
  shows "winv (dispatch_data t message w)"
proof -
  let ?w = "upd_t t (\<lambda>x. x\<lparr>t_got_message := True\<rparr>) w"
  have w: "winv ?w" "t < length (w_transports ?w)"
    using assms winv_same_core [OF same_core_upd_t assms(1)] by (simp_all add: core_t_def)
  have x: "winv (emit (Exception s) ?w)" for s by (rule winv_same_core [OF same_core_emit w(1)]) simp
  have "winv (process_value t v ?w)" for v
    unfolding process_value_def using process_control_inv [OF w] x by (simp split: js.split)
  then show ?thesis
    unfolding dispatch_data_def Let_def using w x process_message_inv [OF w] by (simp split: option.split)
qed

lemma check_health_inv [inv_intros]:
  assumes "winv w" "t < length (w_transports w)"
  shows "winv (check_health t w)"
proof -
  have "winv (upd_t t (\<lambda>x. x\<lparr>t_got_message := False\<rparr>) v)" if "winv v" for v
    by (rule winv_same_core [OF same_core_upd_t that]) (simp add: core_t_def)
  then show ?thesis
    using assms transport_close_inv by (simp add: check_health_def Let_def)
qed

lemma new_transport_inv:
  assumes "winv w"
  shows "winv (w\<lparr>w_transports := w_transports w @ [new_transport s], w_default := Some (length (w_transports w))\<rparr>)"
    (is "winv ?w")
proof -
  have p: "pending ?w t = pending w t" for t
    by (auto simp: pending_def nth_append new_transport_def less_Suc_eq)
  have "reg_ok ?w"
    using assms od.wf_empty by (auto simp: winv_def reg_ok_def registered_ok_def nth_append new_transport_def less_Suc_eq)
  moreover have "wait_ok ?w"
    using assms unfolding winv_def wait_ok_def p by simp
  moreover have "log_ok ?w" "default_ok ?w"
    using assms by (simp_all add: winv_def log_ok_def default_ok_def)
  ultimately show ?thesis by (simp add: winv_def)
qed

text \<open>Waiting for a transport that is not ready.\<close>

lemma wait_inv:
  assumes "winv w" "starting (opens [cb]) w" "t < length (w_transports w)" "\<not> t_ready (tr w t)"
  shows "winv (upd_t t (\<lambda>x. x\<lparr>t_ready_callbacks := t_ready_callbacks x @ [cb]\<rparr>) w)" (is "winv ?w")
proof -
  have p: "pending ?w t' = (if t' = t then pending w t @ opens [cb] else pending w t')" for t'
    using assms by (simp add: pending_def)
  have "wait_ok ?w"
  proof (cases cb)
    case (OpenChannel c)
    then have "c < length (w_chans w)" "c_transport (ch w c) = None" "\<And>t'. c \<notin> set (pending w t')"
      using assms(2) by (simp_all add: starting_def)
    with assms(1) OpenChannel show ?thesis unfolding winv_def wait_ok_def p by auto
  next
    case (SendControl r d)
    with assms(1) show ?thesis unfolding winv_def wait_ok_def p by auto
  qed
  moreover have "reg_ok ?w" "log_ok ?w" "default_ok ?w"
    using assms(1) by (auto simp: winv_def reg_ok_def registered_ok_def log_ok_def default_ok_def)
  ultimately show ?thesis by (simp add: winv_def)
qed

lemma ensure_transport_inv [inv_intros]:
  assumes "winv w" "starting (opens [cb]) w"
  shows "winv (ensure_transport s cb w)"
proof -
  have use: "winv (if t_ready (tr v t) then run_callback t cb v
      else upd_t t (\<lambda>x. x\<lparr>t_ready_callbacks := t_ready_callbacks x @ [cb]\<rparr>) v)"
    if "winv v" "starting (opens [cb]) v" "t < length (w_transports v)" for v t
    using that wait_inv [OF that] run_callbacks_inv [OF that(1,2) _ that(3)] by simp
  show ?thesis
  proof (cases "w_default w")
    case None
    let ?v = "w\<lparr>w_transports := w_transports w @ [new_transport s], w_default := Some (length (w_transports w))\<rparr>"
    have "pending ?v t = pending w t" for t
      by (auto simp: pending_def nth_append new_transport_def less_Suc_eq)
    then have "starting (opens [cb]) ?v" using assms(2) by (simp add: starting_def)
    with new_transport_inv [OF assms(1)] show ?thesis
      using use [of ?v "length (w_transports w)"] None by (simp add: ensure_transport_def)
  next
    case (Some t)
    then have "t < length (w_transports w)" using assms(1) by (simp add: winv_def default_ok_def)
    with Some show ?thesis using use [OF assms] by (simp add: ensure_transport_def)
  qed
qed

lemma new_chan_inv:
  assumes "winv w"
  shows "winv (w\<lparr>w_chans := w_chans w @ [new_chan options]\<rparr>) \<and>
    starting [length (w_chans w)] (w\<lparr>w_chans := w_chans w @ [new_chan options]\<rparr>)" (is "winv ?w \<and> _")
proof -
  have p: "pending ?w t = pending w t" for t by (simp add: pending_def)
  have fresh: "c < length (w_chans w)" if "c \<in> set (pending w t)" for c t
    using assms that by (auto simp: winv_def wait_ok_def)
  have "reg_ok ?w"
    using assms by (auto simp: winv_def reg_ok_def registered_ok_def nth_append less_Suc_eq)
  moreover have "wait_ok ?w"
    using assms unfolding winv_def wait_ok_def p by (auto simp: nth_append less_Suc_eq)
  moreover have "life_ok None c []" for c by (simp add: life_ok_def)
  then have "log_ok ?w"
    using winv_life [OF assms] winv_no_log [OF assms]
    by (auto simp: log_ok_def nth_append new_chan_def less_Suc_eq)
  moreover have "default_ok ?w" using assms by (auto simp: winv_def default_ok_def)
  moreover have "starting [length (w_chans w)] ?w"
    unfolding starting_def p using fresh by (force simp: new_chan_def)
  ultimately show ?thesis by (simp add: winv_def)
qed

lemma channel_open_inv [inv_intros]: "winv w \<Longrightarrow> winv (channel_open s options w)"
  unfolding channel_open_def using new_chan_inv [of w options] by (auto intro: ensure_transport_inv)

lemma public_control_inv [inv_intros]: "winv w \<Longrightarrow> winv (public_control s command options w)"
  unfolding public_control_def by (rule ensure_transport_inv) (simp_all add: starting_def)

lemma public_close_inv [inv_intros]:
  assumes "winv w"
  shows "winv (public_close problem w)"
proof -
  have "winv (v\<lparr>w_default := None\<rparr>)" if "winv v" for v
  proof -
    have "pending (v\<lparr>w_default := None\<rparr>) t = pending v t" for t by (simp add: pending_def)
    then show ?thesis
      using that by (simp add: winv_def reg_ok_def registered_ok_def wait_ok_def log_ok_def default_ok_def)
  qed
  moreover have "t < length (w_transports w)" if "w_default w = Some t" for t
    using assms that by (simp add: winv_def default_ok_def)
  ultimately show ?thesis
    unfolding public_close_def Let_def using assms by (auto intro: transport_close_inv split: option.split)
qed

lemma inject_core: "same_core (inject_out t message w) w"
  by (auto simp: inject_out_def Let_def intro: same_core_intros split: option.split)

lemma chan_op_core:
  "same_core (chan_send c p w) w" "same_core (chan_control c d w) w" "same_core (chan_wait c w) w"
  "same_core (ws_onopen t w) w"
proof -
  show "same_core (chan_send c p w) w"
    by (auto simp: chan_send_def core_c_def intro!: same_core_intros)
  have "same_core (upd_c c (\<lambda>x. x\<lparr>c_sent_done := True\<rparr>) w) w"
    by (rule same_core_upd_c) (simp add: core_c_def)
  then have "same_core (case c_transport (ch v c) of
      None \<Rightarrow> upd_c c (\<lambda>x. x\<lparr>c_queue := c_queue x @ [QControl e]\<rparr>) v
    | Some t \<Rightarrow> fst (send_control t e v)) w"
    if "v = (if b then upd_c c (\<lambda>x. x\<lparr>c_sent_done := True\<rparr>) w else w)" for b e v
    by (auto simp: that core_c_def intro!: same_core_trans [OF same_core_upd_c] same_core_trans [OF same_core_send_control]
        split: option.split)
  then show "same_core (chan_control c d w) w"
    unfolding chan_control_def Let_def by blast
  show "same_core (chan_wait c w) w"
    unfolding chan_wait_def by (rule same_core_upd_c) (simp add: core_c_def)
  show "same_core (ws_onopen t w) w"
    by (simp add: ws_onopen_def same_core_emit split: option.split)
qed

lemma logout_inv:
  assumes "winv w"
  shows "winv (logout_transport s reload w)" "winv (drop_privileges s w)"
  using assms by (auto simp: logout_transport_def drop_privileges_def starting_def
      intro!: ensure_transport_inv winv_same_core [OF same_core_vars(3)] )

lemma exec_inv:
  assumes "winv w" "enabled oper w"
  shows "winv (exec oper w)"
proof -
  have d: "t < length (w_transports w)" if "w_default w = Some t" for t
    using assms(1) that by (simp add: winv_def default_ok_def)
  have core: "winv v" if "same_core v w" for v
    using winv_same_core [OF that assms(1)] .
  show ?thesis
  proof (cases oper)
    case (OpInject m out)
    then show ?thesis
      using assms(1) d core [OF inject_core] by (auto simp: inject_def intro: dispatch_data_inv split: option.split)
  next
    case (OpFilter f out)
    then show ?thesis using core by (simp add: add_filter_def same_core_vars)
  next
    case (OpHint s n v)
    then show ?thesis
      using assms(1) core [OF same_core_emit]
      by (auto simp: hint_def Let_def intro: public_control_inv split: js.split)
  next
    case OpUnload
    then show ?thesis
      using assms(1) d by (auto simp: on_unload_def intro: transport_close_inv split: option.split)
  qed (use assms core in \<open>simp_all add: inv_intros chan_op_core same_core_vars no_socket_timeout_def kill_def logout_inv\<close>)
qed

theorem reachable_winv: "reachable w \<Longrightarrow> winv w"
proof (induction rule: reachable.induct)
  case start
  have "pending init_world t = []" for t by (simp add: pending_def init_world_def)
  then show ?case
    by (simp add: winv_def reg_ok_def wait_ok_def log_ok_def default_ok_def chan_log_def init_world_def)
next
  case (further w w')
  then show ?case by (auto elim!: stepE intro: exec_inv)
qed

section \<open>Closing a transport\<close>

lemma on_close_closed:
  assumes "c < length (w_chans w)"
  shows "c_closed (ch (on_close c d w) c') = (if c' = c then Some d else c_closed (ch w c'))"
  unfolding on_close_def Let_def detach_def [symmetric]
  using assms by (auto simp: unregister_def split: option.split)

text \<open>A close message takes the channel registered under the name off, and only that one.\<close>

lemma call_control_close:
  assumes inv: "winv w" "t < length (w_transports w)" and cmd: "opt d ''command'' = JStr ''close''"
  shows "oget (t_control_cbs (tr (call_control t d k w) t)) k' =
      (if k' = k then None else oget (t_control_cbs (tr w t)) k')"
    and "c_closed (ch (call_control t d k w) c') =
      (if oget (t_control_cbs (tr w t)) k = Some c' then Some d else c_closed (ch w c'))"
proof -
  show "oget (t_control_cbs (tr (call_control t d k w) t)) k' =
      (if k' = k then None else oget (t_control_cbs (tr w t)) k')"
  proof (cases "oget (t_control_cbs (tr w t)) k")
    case (Some c)
    then have r: "registered_ok w t k c" by (rule winv_registered [OF inv])
    have "t_control_cbs (tr (on_close c d w) t) = t_control_cbs (tr (mark_closed c d w) t)"
      using inv(2) by (intro same_core_t(1) [OF on_close_core]) (simp add: mark_closed_def)
    also have "\<dots> = odel (t_control_cbs (tr w t)) k"
      using r inv(2) by (simp add: mark_closed_def detach_def unregister_def registered_ok_def)
    finally show ?thesis using Some cmd by (simp add: call_control_def on_control_def)
  qed (simp add: call_control_def)
  show "c_closed (ch (call_control t d k w) c') =
      (if oget (t_control_cbs (tr w t)) k = Some c' then Some d else c_closed (ch w c'))"
    using winv_registered [OF inv, of k] cmd
    by (auto simp: call_control_def on_control_def on_close_closed registered_ok_def split: option.split)
qed

lemma broadcast_close:
  assumes "winv w" "t < length (w_transports w)" "opt d ''command'' = JStr ''close''"
  shows "oget (t_control_cbs (tr (fold (call_control t d) ks w) t)) k =
      (if k \<in> set ks then None else oget (t_control_cbs (tr w t)) k) \<and>
    c_closed (ch (fold (call_control t d) ks w) c) =
      (if \<exists>k \<in> set ks. oget (t_control_cbs (tr w t)) k = Some c then Some d else c_closed (ch w c))"
  using assms(1,2)
proof (induction ks arbitrary: w)
  case (Cons x ks)
  let ?w = "call_control t d x w"
  have v: "winv ?w" "t < length (w_transports ?w)"
    using Cons.prems call_control_inv same_size_call_control [of t d x w] by (auto simp: same_size_def)
  have eq: "fold (call_control t d) (x # ks) w = fold (call_control t d) ks ?w" by simp
  have inj: "k' = x" if "oget (t_control_cbs (tr w t)) x = Some c" "oget (t_control_cbs (tr w t)) k' = Some c" for k'
    using winv_registered [OF Cons.prems that(1)] winv_registered [OF Cons.prems that(2)]
    by (simp add: registered_ok_def)
  show ?case
  proof (cases "oget (t_control_cbs (tr w t)) x = Some c")
    case True
    have "\<not> (\<exists>k \<in> set ks. oget (t_control_cbs (tr ?w t)) k = Some c)"
      using inj [OF True] by (simp add: call_control_close(1) [OF Cons.prems assms(3)]) blast
    with True show ?thesis
      unfolding eq using Cons.IH [OF v] call_control_close [OF Cons.prems assms(3), of x] by simp
  next
    case False
    have "(\<exists>k \<in> set ks. oget (t_control_cbs (tr ?w t)) k = Some c) \<longleftrightarrow>
      (\<exists>k \<in> set ks. oget (t_control_cbs (tr w t)) k = Some c)"
      using False by (auto simp: call_control_close(1) [OF Cons.prems assms(3)])
    then show ?thesis
      unfolding eq using Cons.IH [OF v] call_control_close [OF Cons.prems assms(3), of x] False by simp
  qed
qed simp

lemma oget_None_Nil: "(\<And>k. oget m k = None) \<Longrightarrow> m = []"
proof (cases m)
  case (Cons kv kvs)
  assume "\<And>k. oget m k = None"
  then have "oget m (fst kv) = None" .
  with Cons show ?thesis by (cases kv) simp
qed simp

text \<open>Identifiers given out so far.\<close>

definition ids_ok :: "nat \<Rightarrow> world \<Rightarrow> bool" where
  "ids_ok t w \<longleftrightarrow> (\<forall>k c. oget (t_control_cbs (tr w t)) k = Some c \<longrightarrow>
     (\<exists>n \<le> t_last_channel (tr w t). k = t_channel_seed (tr w t) @ nat_str n))"

lemma ids_ok_fresh: "ids_ok t w \<Longrightarrow> oget (t_control_cbs (tr w t)) (next_id (tr w t)) = None"
  by (cases "oget (t_control_cbs (tr w t)) (next_id (tr w t))") (auto simp: ids_ok_def next_id_def nat_str_inj)

lemma run_callback_cbs:
  assumes "c < length (w_chans w)" "t < length (w_transports w)" "c_closed (ch w c) = None"
  shows "t_control_cbs (tr (on_transport c t w) t) = oset (t_control_cbs (tr w t)) (next_id (tr w t)) c"
    "t_last_channel (tr (on_transport c t w) t) = Suc (t_last_channel (tr w t))"
    "t_channel_seed (tr (on_transport c t w) t) = t_channel_seed (tr w t)"
    "c_closed (ch (on_transport c t w) c') = c_closed (ch w c')"
proof -
  show "t_control_cbs (tr (on_transport c t w) t) = oset (t_control_cbs (tr w t)) (next_id (tr w t)) c"
    using same_core_t(1) [OF on_transport_core [OF assms(1,3,2)], of t] assms(2)
    by (simp add: attach_def register_def)
qed (use assms in \<open>auto simp: on_transport_open opened_def attach_def register_def\<close>)

lemma run_callback_step:
  assumes "starting (opens (cb # cbs)) w" "t < length (w_transports w)" "ids_ok t w"
  shows "ids_ok t (run_callback t cb w)"
    "oget (t_control_cbs (tr w t)) k = Some c \<Longrightarrow> oget (t_control_cbs (tr (run_callback t cb w) t)) k = Some c"
    "c_closed (ch (run_callback t cb w) c') = c_closed (ch w c')"
    "cb = OpenChannel c' \<Longrightarrow> c_closed (ch w c') = None \<Longrightarrow>
       \<exists>k. oget (t_control_cbs (tr (run_callback t cb w) t)) k = Some c'"
proof -
  have "ids_ok t (run_callback t cb w) \<and>
    (oget (t_control_cbs (tr w t)) k = Some c \<longrightarrow> oget (t_control_cbs (tr (run_callback t cb w) t)) k = Some c) \<and>
    c_closed (ch (run_callback t cb w) c') = c_closed (ch w c') \<and>
    (cb = OpenChannel c' \<and> c_closed (ch w c') = None \<longrightarrow>
       (\<exists>k. oget (t_control_cbs (tr (run_callback t cb w) t)) k = Some c'))"
  proof (cases cb)
    case (SendControl r d)
    have "t_control_cbs (tr (control_or_reload t r d w) t) = t_control_cbs (tr w t)"
      by (rule same_core_t(1) [OF same_core_control_or_reload assms(2)])
    with SendControl assms(3) show ?thesis by (simp add: run_callback_def ids_ok_def)
  next
    case (OpenChannel a)
    then have a: "a < length (w_chans w)" using assms(1) by (simp add: starting_def)
    show ?thesis
    proof (cases "c_closed (ch w a)")
      case None
      note eff = run_callback_cbs [OF a assms(2) None]
      have "ids_ok t (on_transport a t w)"
        using assms(3) unfolding ids_ok_def eff by (auto simp: next_id_def intro: le_SucI)
      moreover have "\<exists>k. oget (t_control_cbs (tr (run_callback t cb w) t)) k = Some a"
        by (auto simp: eff OpenChannel run_callback_def)
      then have "cb = OpenChannel c' \<Longrightarrow> \<exists>k. oget (t_control_cbs (tr (run_callback t cb w) t)) k = Some c'"
        using OpenChannel by simp
      moreover have "oget (t_control_cbs (tr w t)) k = Some c \<Longrightarrow>
          oget (t_control_cbs (tr (run_callback t cb w) t)) k = Some c"
        using ids_ok_fresh [OF assms(3)] by (auto simp: eff OpenChannel run_callback_def)
      ultimately show ?thesis
        by (simp add: OpenChannel run_callback_def eff(4))
    next
      case (Some d)
      with OpenChannel a assms(3) show ?thesis
        by (auto simp: run_callback_def on_transport_closed ids_ok_def)
    qed
  qed
  then show "ids_ok t (run_callback t cb w)"
    "oget (t_control_cbs (tr w t)) k = Some c \<Longrightarrow> oget (t_control_cbs (tr (run_callback t cb w) t)) k = Some c"
    "c_closed (ch (run_callback t cb w) c') = c_closed (ch w c')"
    "cb = OpenChannel c' \<Longrightarrow> c_closed (ch w c') = None \<Longrightarrow>
       \<exists>k. oget (t_control_cbs (tr (run_callback t cb w) t)) k = Some c'"
    by blast+
qed

lemma run_callbacks_register:
  "winv w \<Longrightarrow> starting (opens cbs) w \<Longrightarrow> t_ready (tr w t) \<Longrightarrow> t < length (w_transports w) \<Longrightarrow> ids_ok t w \<Longrightarrow>
   c_closed (ch (fold (run_callback t) cbs w) c) = c_closed (ch w c) \<and>
   (c_closed (ch w c) = None \<longrightarrow> c \<in> set (opens cbs) \<or> (\<exists>k. oget (t_control_cbs (tr w t)) k = Some c) \<longrightarrow>
    (\<exists>k. oget (t_control_cbs (tr (fold (run_callback t) cbs w) t)) k = Some c))"
proof (induction cbs arbitrary: w)
  case (Cons cb cbs)
  let ?w = "run_callback t cb w"
  note step = run_callback_step [OF Cons.prems(2,4,5)]
  have next_inv: "winv ?w \<and> starting (opens cbs) ?w"
  proof (cases cb)
    case (OpenChannel a)
    then show ?thesis using on_transport_inv Cons.prems by (simp add: run_callback_def)
  next
    case (SendControl r d)
    then show ?thesis
      using winv_same_core [OF same_core_control_or_reload] starting_same_core [OF same_core_control_or_reload] Cons.prems
      by (simp add: run_callback_def)
  qed
  have sz: "t_ready (tr ?w t)" "t < length (w_transports ?w)"
    using same_size_run_callback [of t cb w] Cons.prems by (auto simp: same_size_def)
  note IH = Cons.IH [OF _ _ sz step(1)]
  have "c \<in> set (opens cbs) \<or> (\<exists>k. oget (t_control_cbs (tr ?w t)) k = Some c)"
    if "c_closed (ch w c) = None" "c \<in> set (opens (cb # cbs)) \<or> (\<exists>k. oget (t_control_cbs (tr w t)) k = Some c)"
    using that step(2) step(4) [OF _ that(1)] by (cases cb) auto
  then show ?case using IH next_inv step(3) by simp blast
qed simp

lemma ready_registers:
  assumes "winv w" "t < length (w_transports w)"
  shows "c_closed (ch (ready_for_channels t w) c) = c_closed (ch w c) \<and>
    (c_closed (ch w c) = None \<longrightarrow> c \<in> set (pending w t) \<or> (\<exists>k. oget (t_control_cbs (tr w t)) k = Some c) \<longrightarrow>
     (\<exists>k. oget (t_control_cbs (tr (ready_for_channels t w) t)) k = Some c)) \<and>
    t_ready (tr (ready_for_channels t w) t)"
proof (cases "t_ready (tr w t)")
  case True
  then show ?thesis by (simp add: ready_for_channels_def pending_def)
next
  case False
  let ?w = "emit (TransportReady t) (upd_t t (\<lambda>x. x\<lparr>t_ready := True\<rparr>) w)"
  have p: "pending ?w t' = (if t' = t then [] else pending w t')" for t'
    using assms by (simp add: pending_def)
  have eq: "opens (t_ready_callbacks (tr w t)) = pending w t"
    using assms(2) False by (simp add: pending_def)
  have "wait_ok ?w" using assms(1) unfolding winv_def wait_ok_def p by auto
  then have inv: "winv ?w"
    using assms by (auto simp: winv_def reg_ok_def registered_ok_def log_ok_def default_ok_def)
  have st: "starting (opens (t_ready_callbacks (tr w t))) ?w"
    unfolding eq starting_def p using assms(1) by (auto simp: winv_def wait_ok_def)
  have empty: "t_control_cbs (tr w t) = []"
    using assms False by (simp add: winv_def reg_ok_def)
  then have "ids_ok t ?w" using assms(2) by (simp add: ids_ok_def)
  moreover have "t_ready (tr (fold (run_callback t) cbs ?w) t)" for cbs
    using same_size_fold [of "run_callback t" cbs ?w] same_size_run_callback assms(2) by (simp add: same_size_def)
  ultimately show ?thesis
    using run_callbacks_register [OF inv st, of t c] assms(2) False empty by (simp add: ready_for_channels_def eq)
qed

text \<open>What a transport tells its channels when it closes, given what \<open>close\<close> was called with.\<close>

definition close_data :: "options option \<Rightarrow> options" where
  "close_data options = (case options of None \<Rightarrow> disconnected | Some o' \<Rightarrow> oset o' ''command'' (JStr ''close''))"

lemma close_data_command [simp]: "opt (close_data options) ''command'' = JStr ''close''"
  by (simp add: close_data_def opt_def split: option.split)

definition waits_on :: "nat \<Rightarrow> world \<Rightarrow> nat \<Rightarrow> bool" where
  "waits_on t w c \<longleftrightarrow> c \<in> set (pending w t) \<or> (\<exists>k. oget (t_control_cbs (tr w t)) k = Some c)"

lemma close_rest_closes:
  assumes inv: "winv w" "t < length (w_transports w)" and d: "opt d ''command'' = JStr ''close''"
    and x: "\<not> w_expect_disconnect w"
  shows "t_control_cbs (tr (close_rest t d w) t) = [] \<and> t_ready (tr (close_rest t d w) t)"
    "c_closed (ch w c) = Some e \<Longrightarrow> c_closed (ch (close_rest t d w) c) = Some e"
    "c_closed (ch w c) = None \<Longrightarrow> waits_on t w c \<Longrightarrow> c_closed (ch (close_rest t d w) c) = Some d"
proof -
  let ?v = "ready_for_channels t w"
  let ?ks = "okeys (t_control_cbs (tr ?v t))"
  have v: "winv ?v" "t < length (w_transports ?v)"
    using ready_for_channels_inv [OF inv] same_size_ready_for_channels [of t w] inv(2) by (auto simp: same_size_def)
  have eq: "close_rest t d w = fold (call_control t d) ?ks ?v"
    using x by (simp add: close_rest_def broadcast_def)
  note b = broadcast_close [OF v d, of ?ks]
  note r = ready_registers [OF inv]
  have "t_control_cbs (tr (close_rest t d w) t) = []"
    unfolding eq by (rule oget_None_Nil) (use b in \<open>auto simp: oget_okeys split: if_splits\<close>)
  moreover have "t_ready (tr (close_rest t d w) t)"
    unfolding eq using same_size_fold [of "call_control t d" ?ks ?v] same_size_call_control r
    by (auto simp: same_size_def)
  ultimately show "t_control_cbs (tr (close_rest t d w) t) = [] \<and> t_ready (tr (close_rest t d w) t)" ..
  show "c_closed (ch (close_rest t d w) c) = Some e" if "c_closed (ch w c) = Some e"
  proof -
    have "\<not> (\<exists>k. oget (t_control_cbs (tr ?v t)) k = Some c)"
      using winv_registered [OF v, of _ c] r [of c] that by (auto simp: registered_ok_def)
    then show ?thesis unfolding eq using b [THEN conjunct2, of c] r [of c] that by auto
  qed
  show "c_closed (ch (close_rest t d w) c) = Some d" if waits: "c_closed (ch w c) = None" "waits_on t w c"
  proof -
    obtain k where "oget (t_control_cbs (tr ?v t)) k = Some c"
      using r [of c] waits by (auto simp: waits_on_def)
    moreover from this have "k \<in> set ?ks" by (simp add: oget_okeys)
    ultimately show ?thesis unfolding eq using b [THEN conjunct2, of c] by auto
  qed
qed

lemma ws_onclose_closes:
  assumes inv: "winv w" "t < length (w_transports w)"
    and x: "\<not> w_expect_disconnect w" "\<not> w_reload_after_disconnect w"
  shows "t_control_cbs (tr (ws_onclose t w) t) = [] \<and> t_ready (tr (ws_onclose t w) t)"
    "c_closed (ch w c) = Some e \<Longrightarrow> c_closed (ch (ws_onclose t w) c) = Some e"
    "c_closed (ch w c) = None \<Longrightarrow> waits_on t w c \<Longrightarrow> c_closed (ch (ws_onclose t w) c) = Some disconnected"
proof -
  let ?w = "drop_socket t w"
  have eq: "ws_onclose t w = close_rest t disconnected ?w"
    using x by (simp add: ws_onclose_def)
  have v: "winv ?w" "t < length (w_transports ?w)" using same_core_keeps [OF drop_socket_core inv] by blast+
  have "waits_on t ?w c = waits_on t w c"
    using same_core_pending [OF drop_socket_core] same_core_t(1) [OF drop_socket_core inv(2)] by (simp add: waits_on_def)
  then show "t_control_cbs (tr (ws_onclose t w) t) = [] \<and> t_ready (tr (ws_onclose t w) t)"
    "c_closed (ch w c) = Some e \<Longrightarrow> c_closed (ch (ws_onclose t w) c) = Some e"
    "c_closed (ch w c) = None \<Longrightarrow> waits_on t w c \<Longrightarrow> c_closed (ch (ws_onclose t w) c) = Some disconnected"
    unfolding eq using close_rest_closes [OF v, of disconnected] x by (simp_all add: opt_def)
qed

lemma close_rest_again:
  assumes "winv w" "t < length (w_transports w)" "opt d ''command'' = JStr ''close''"
    "t_control_cbs (tr w t) = [] \<and> t_ready (tr w t)"
  shows "t_control_cbs (tr (close_rest t d w) t) = [] \<and> t_ready (tr (close_rest t d w) t)"
    "c_closed (ch w c) = Some e \<Longrightarrow> c_closed (ch (close_rest t d w) c) = Some e"
proof -
  have "close_rest t d w = w"
    using assms(4) by (simp add: close_rest_def broadcast_def ready_for_channels_def okeys_def)
  then show "t_control_cbs (tr (close_rest t d w) t) = [] \<and> t_ready (tr (close_rest t d w) t)"
    "c_closed (ch w c) = Some e \<Longrightarrow> c_closed (ch (close_rest t d w) c) = Some e"
    using assms(4) by simp_all
qed

text \<open>The reason the channels see: a parent socket reports its own close first.\<close>

definition close_reason :: "nat \<Rightarrow> options option \<Rightarrow> world \<Rightarrow> options" where
  "close_reason t options w = (if t_ws (tr w t) = Some ParentWS then disconnected else close_data options)"

lemma transport_close_closes:
  assumes inv: "winv w" "t < length (w_transports w)"
    and x: "\<not> w_expect_disconnect w" "\<not> (t_ws (tr w t) = Some ParentWS \<and> w_reload_after_disconnect w)"
  shows "t_control_cbs (tr (transport_close t options w) t) = [] \<and> t_ready (tr (transport_close t options w) t)"
    "c_closed (ch w c) = Some e \<Longrightarrow> c_closed (ch (transport_close t options w) c) = Some e"
    "c_closed (ch w c) = None \<Longrightarrow> waits_on t w c \<Longrightarrow>
     c_closed (ch (transport_close t options w) c) = Some (close_reason t options w)"
proof -
  let ?goal = "\<lambda>w'. (t_control_cbs (tr w' t) = [] \<and> t_ready (tr w' t)) \<and>
    (c_closed (ch w c) = Some e \<longrightarrow> c_closed (ch w' c) = Some e) \<and>
    (c_closed (ch w c) = None \<longrightarrow> waits_on t w c \<longrightarrow> c_closed (ch w' c) = Some (close_reason t options w))"
  have waits: "waits_on t v c = waits_on t w c" "c_closed (ch v c) = c_closed (ch w c)"
    if "w_chans v = w_chans w" "same_core v w" for v
    using same_core_pending [OF that(2)] same_core_t(1) [OF that(2) inv(2)] that by (simp_all add: waits_on_def)
  have "?goal (transport_close t options w)"
  proof (cases "t_ws (tr w t) = Some ParentWS")
    case True
    let ?v = "emit PostParentClose (drop_socket t w)"
    have core: "same_core ?v w" by (rule same_core_trans [OF same_core_emit drop_socket_core]) simp
    have v: "winv ?v" "t < length (w_transports ?v)" using same_core_keeps [OF core inv] by blast+
    have eq: "transport_close t options w = close_rest t (close_data options) (ws_onclose t ?v)"
      using True by (simp add: transport_close_def close_data_def)
    have c: "t_control_cbs (tr (ws_onclose t ?v) t) = [] \<and> t_ready (tr (ws_onclose t ?v) t)"
      "c_closed (ch ?v c) = Some f \<Longrightarrow> c_closed (ch (ws_onclose t ?v) c) = Some f"
      "c_closed (ch ?v c) = None \<Longrightarrow> waits_on t ?v c \<Longrightarrow> c_closed (ch (ws_onclose t ?v) c) = Some disconnected" for f
      using ws_onclose_closes [OF v] x True by simp_all
    have u: "winv (ws_onclose t ?v)" "t < length (w_transports (ws_onclose t ?v))"
      using ws_onclose_inv [OF v] v(2) by simp_all
    note again = close_rest_again [OF u close_data_command c(1)]
    have w: "waits_on t ?v c = waits_on t w c" "c_closed (ch ?v c) = c_closed (ch w c)"
      by (rule waits [OF _ core], simp)+
    show ?thesis
      unfolding eq using again c(2,3) True unfolding w by (simp add: close_reason_def)
  next
    case False
    let ?v = "case t_ws (tr w t) of Some RealWS \<Rightarrow> emit WsClose (drop_socket t w) | _ \<Rightarrow> drop_socket t w"
    have core: "same_core ?v w"
      by (auto intro: same_core_trans [OF same_core_emit drop_socket_core] drop_socket_core
          split: option.split socket.split)
    have v: "winv ?v" "t < length (w_transports ?v)" using same_core_keeps [OF core inv] by blast+
    have eq: "transport_close t options w = close_rest t (close_data options) ?v"
      using False by (auto simp: transport_close_def close_data_def split: option.split socket.split)
    have w: "waits_on t ?v c = waits_on t w c" "c_closed (ch ?v c) = c_closed (ch w c)"
      by (rule waits [OF _ core], simp split: option.split socket.split)+
    have "\<not> w_expect_disconnect ?v" using x by (simp split: option.split socket.split)
    then show ?thesis
      unfolding eq using close_rest_closes(1) [OF v close_data_command]
        close_rest_closes(2,3) [OF v close_data_command, where c = c, unfolded w] False
      unfolding close_reason_def by (simp only: if_False) blast
  qed
  then show "t_control_cbs (tr (transport_close t options w) t) = [] \<and> t_ready (tr (transport_close t options w) t)"
    "c_closed (ch w c) = Some e \<Longrightarrow> c_closed (ch (transport_close t options w) c) = Some e"
    "c_closed (ch w c) = None \<Longrightarrow> waits_on t w c \<Longrightarrow>
     c_closed (ch (transport_close t options w) c) = Some (close_reason t options w)"
    by blast+
qed

section \<open>What the channels can rely on\<close>

text \<open>C1: over every sequence of operations and socket events, a channel is closed at most once, and its
  close event is the last event dispatched on it: no message, control or ready event of a channel follows,
  and the event carries what the channel remembers as its reason.\<close>

theorem close_is_final:
  assumes "reachable w" and "c < length (w_chans w)"
  shows "case c_closed (ch w c) of
      None \<Rightarrow> \<not> list_ex is_close (chan_log c w)
    | Some d \<Rightarrow> \<exists>es. chan_log c w = es @ [ChanClose c d] \<and> \<not> list_ex is_close es"
  using winv_life [OF reachable_winv [OF assms(1)] assms(2)]
  by (auto simp: life_ok_def split: option.splits) (metis append_butlast_last_id)

text \<open>C2: closing a transport, for whatever reason, leaves no channel behind: every channel registered with it
  and every channel still waiting for it gets a close event, those closed before keep theirs, and none
  stays registered.  The reason they see is the one \<open>close\<close> was given, except with the parent frame's
  socket, whose \<open>close\<close> calls \<open>onclose\<close> before it returns: there it is \<open>disconnected\<close>.\<close>

theorem transport_close_closes_all:
  assumes "reachable w" and "t < length (w_transports w)"
    and "\<not> w_expect_disconnect w" and "\<not> (t_ws (tr w t) = Some ParentWS \<and> w_reload_after_disconnect w)"
  shows "t_control_cbs (tr (transport_close t options w) t) = [] \<and>
    (\<forall>c. c_closed (ch w c) = None \<longrightarrow> waits_on t w c \<longrightarrow>
       c_closed (ch (transport_close t options w) c) = Some (close_reason t options w)) \<and>
    (\<forall>c e. c_closed (ch w c) = Some e \<longrightarrow> c_closed (ch (transport_close t options w) c) = Some e)"
  using transport_close_closes [OF reachable_winv [OF assms(1)] assms(2-4)] by blast

end
