(* ===== verification/Channel_Queue.thy ===== *)
theory Channel_Queue
  imports Channel_Lifecycle
begin

text \<open>
  What a channel sends before it has a transport is queued and drained when the transport is ready.  The
  queue is transparent: up to console warnings, the store is the one that sending directly gives.
\<close>

fun is_warning :: "effect \<Rightarrow> bool" where
  "is_warning (Warning _) = True"
| "is_warning _ = False"

definition quiet :: "world \<Rightarrow> world" where
  "quiet w = w\<lparr>w_log := filter (\<lambda>e. \<not> is_warning e) (w_log w)\<rparr>"

text \<open>What a user of the channel calls: \<open>send\<close> or \<open>control\<close>.\<close>

definition call :: "nat \<Rightarrow> queue_item \<Rightarrow> world \<Rightarrow> world" where
  "call c x w = (case x of QPayload p \<Rightarrow> chan_send c p w | QControl d \<Rightarrow> chan_control c d w)"

lemma quiet_sel [simp]:
  "w_transports (quiet w) = w_transports w" "w_chans (quiet w) = w_chans w" "w_default (quiet w) = w_default w"
  "w_default_host (quiet w) = w_default_host w" "w_outgoing_filters (quiet w) = w_outgoing_filters w"
  by (simp_all add: quiet_def)

lemma quiet_emit [simp]: "quiet (emit e w) = (if is_warning e then quiet w else emit e (quiet w))"
  by (simp add: quiet_def emit_def)

lemma quiet_upd [simp]: "quiet (upd_c c f w) = upd_c c f (quiet w)" "quiet (upd_t t g w) = upd_t t g (quiet w)"
  by (simp_all add: quiet_def upd_c_def upd_t_def)

lemma quiet_quiet [simp]: "quiet (quiet w) = quiet w"
  by (simp add: quiet_def)

lemma quiet_send_data: "quiet (fst (send_data t d k x (quiet w))) = quiet (fst (send_data t d k x w))"
  by (simp add: send_data_def split: option.split)

lemma quiet_send_control: "quiet (fst (send_control t d (quiet w))) = quiet (fst (send_control t d w))"
  by (simp add: send_control_def send_message_def quiet_send_data)

lemma quiet_send_payload: "quiet (send_payload c p (quiet w)) = quiet (send_payload c p w)"
  by (simp add: send_payload_def send_message_def quiet_send_data Let_def split: option.split)

lemma quiet_chan_send: "quiet (chan_send c p (quiet w)) = quiet (chan_send c p w)"
  by (simp add: chan_send_def quiet_send_payload)

lemma chan_control_unfold:
  "chan_control c d w =
     (let d = (if \<not> truthy (opt d ''command'') then oset d ''command'' (JStr ''options'') else d);
          v = upd_c c (\<lambda>x. if opt d ''command'' = JStr ''done'' then x\<lparr>c_sent_done := True\<rparr> else x) w;
          e = oset d ''channel'' (id_value (ch v c))
      in case c_transport (ch v c) of
           None \<Rightarrow> upd_c c (\<lambda>x. x\<lparr>c_queue := c_queue x @ [QControl e]\<rparr>) v
         | Some t \<Rightarrow> fst (send_control t e v))"
proof -
  have "(if b then upd_c c f w else w) = upd_c c (\<lambda>x. if b then f x else x) w" for b f
    by (simp add: upd_c_def)
  then show ?thesis unfolding chan_control_def Let_def by presburger
qed

lemma quiet_chan_control: "quiet (chan_control c d (quiet w)) = quiet (chan_control c d w)"
proof -
  have "quiet (case c_transport (ch (quiet v) c) of
      None \<Rightarrow> upd_c c f (quiet v) | Some t \<Rightarrow> fst (send_control t e (quiet v))) =
    quiet (case c_transport (ch v c) of None \<Rightarrow> upd_c c f v | Some t \<Rightarrow> fst (send_control t e v))" for v e f
    by (simp add: quiet_send_control split: option.split)
  then show ?thesis
    unfolding chan_control_unfold Let_def quiet_upd(1) [symmetric] quiet_sel(2) .
qed

lemma quiet_call: "quiet (call c x (quiet w)) = quiet (call c x w)"
  by (simp add: call_def quiet_chan_send quiet_chan_control split: queue_item.split)

lemma quiet_calls: "quiet u = quiet v \<Longrightarrow> quiet (fold (call c) xs u) = quiet (fold (call c) xs v)"
proof (induction xs arbitrary: u v)
  case (Cons x xs)
  have "quiet (call c x u) = quiet (call c x (quiet v))"
    unfolding Cons.prems [symmetric] by (rule quiet_call [symmetric])
  then show ?case unfolding quiet_call fold_simps by (rule Cons.IH)
qed simp

section \<open>Updates of the queue do not disturb sending\<close>

definition neutral :: "(chan \<Rightarrow> chan) \<Rightarrow> bool" where
  "neutral g \<longleftrightarrow> (\<forall>x. c_transport (g x) = c_transport x \<and> c_id (g x) = c_id x \<and> c_binary (g x) = c_binary x)"

lemma emit_upd_c: "emit e (upd_c c g w) = upd_c c g (emit e w)"
  by (simp add: emit_def upd_c_def)

lemma send_data_upd_c: "fst (send_data t d k x (upd_c c g w)) = upd_c c g (fst (send_data t d k x w))"
  by (simp add: send_data_def emit_upd_c split: option.split)

lemma send_control_upd_c: "fst (send_control t d (upd_c c g w)) = upd_c c g (fst (send_control t d w))"
  by (simp add: send_control_def send_message_def send_data_upd_c upd_t_upd_c)

lemma send_payload_upd_c:
  "neutral g \<Longrightarrow> c < length (w_chans w) \<Longrightarrow> send_payload c p (upd_c c g w) = upd_c c g (send_payload c p w)"
  by (simp add: send_payload_def send_message_def send_data_upd_c neutral_def Let_def split: option.split)

lemma drain_item_upd_c:
  "neutral g \<Longrightarrow> c < length (w_chans w) \<Longrightarrow> drain_item t c k x (upd_c c g w) = upd_c c g (drain_item t c k x w)"
  by (simp add: drain_item_def send_control_upd_c send_payload_upd_c split: queue_item.split)

lemma drain_upd_c:
  "neutral g \<Longrightarrow> c < length (w_chans w) \<Longrightarrow>
   fold (drain_item t c k) q (upd_c c g w) = upd_c c g (fold (drain_item t c k) q w)"
proof (induction q arbitrary: w)
  case (Cons x q)
  have "length (w_chans (drain_item t c k x w)) = length (w_chans w)"
    using same_size_send(4) [of t c k x w] by (simp add: same_size_def)
  with Cons show ?case by (simp add: drain_item_upd_c)
qed simp

section \<open>Transparency\<close>

lemma oset_oset [simp]: "oset (oset d k v) k v' = oset d k v'"
  by (induction d) auto

text \<open>A channel that is waiting for a transport.\<close>

definition waiting_chan :: "nat \<Rightarrow> nat \<Rightarrow> world \<Rightarrow> bool" where
  "waiting_chan c t w \<longleftrightarrow> c < length (w_chans w) \<and> t < length (w_transports w) \<and>
     c_closed (ch w c) = None \<and> c_transport (ch w c) = None"

text \<open>Getting the transport after an update \<open>g\<close> that queued \<open>items\<close>: they are drained last.\<close>

lemma on_transport_queued:
  assumes w: "waiting_chan c t w" and g: "neutral g" "\<And>x. c_closed (g x) = c_closed x"
    "\<And>x. c_queue (g x) = c_queue x @ items" "\<And>x. c_options (g x) = c_options x"
    "\<And>x a b. g (x\<lparr>c_transport := a, c_id := b\<rparr>) = (g x)\<lparr>c_transport := a, c_id := b\<rparr>"
  shows "on_transport c t (upd_c c g w) =
    upd_c c (\<lambda>x. x\<lparr>c_queue := []\<rparr>) (upd_c c g
      (fold (drain_item t c (next_id (tr w t))) items
        (fold (drain_item t c (next_id (tr w t))) (c_queue (ch w c))
          (fst (send_control t (open_command (ch w c) (next_id (tr w t)) (w_default_host w)) (opened c t w))))))"
proof -
  let ?k = "next_id (tr w t)"
  have c: "c < length (w_chans w)" "t < length (w_transports w)" "c_closed (ch w c) = None"
    using w by (simp_all add: waiting_chan_def)
  have op: "opened c t (upd_c c g w) = upd_c c g (opened c t w)"
    by (simp add: opened_def attach_def register_def upd_c_upd_c upd_t_upd_c [symmetric] o_def g(5))
  have oc: "open_command (g x) k h = open_command x k h" for x k h
    using g(1) by (simp add: open_command_def g(4) neutral_def)
  have len: "c < length (w_chans (opened c t w))"
    using c by (simp add: opened_def attach_def register_def)
  show ?thesis
    using c g(3) len by (simp add: on_transport_open g(2) op oc send_control_upd_c drain_upd_c [OF g(1)])
qed

lemma on_transport_plain:
  assumes "waiting_chan c t w"
  shows "on_transport c t w =
    upd_c c (\<lambda>x. x\<lparr>c_queue := []\<rparr>) (fold (drain_item t c (next_id (tr w t))) (c_queue (ch w c))
      (fst (send_control t (open_command (ch w c) (next_id (tr w t)) (w_default_host w)) (opened c t w))))"
  using assms by (intro on_transport_open) (simp_all add: waiting_chan_def)

lemma on_transport_sel:
  assumes "waiting_chan c t w"
  shows "c_transport (ch (on_transport c t w) c) = Some t" "c_id (ch (on_transport c t w) c) = Some (next_id (tr w t))"
    "c_closed (ch (on_transport c t w) c) = None" "c_sent_done (ch (on_transport c t w) c) = c_sent_done (ch w c)"
    "length (w_chans (on_transport c t w)) = length (w_chans w)"
  using assms unfolding on_transport_plain [OF assms]
  by (simp_all add: waiting_chan_def opened_def attach_def register_def)

lemma neutral_queue: "neutral (\<lambda>x. x\<lparr>c_queue := f x\<rparr>)" "neutral (\<lambda>x. x\<lparr>c_queue := f x, c_sent_done := b x\<rparr>)"
  by (simp_all add: neutral_def)

lemma opened_chan:
  assumes "waiting_chan c t w"
  shows "c < length (w_chans (opened c t w))" "c_transport (ch (opened c t w) c) = Some t"
    "c_id (ch (opened c t w) c) = Some (next_id (tr w t))"
  using assms by (simp_all add: opened_def attach_def register_def waiting_chan_def)

lemma send_step:
  assumes w: "waiting_chan c t w" and "\<not> c_sent_done (ch w c)"
  shows "on_transport c t (chan_send c p w) = chan_send c p (on_transport c t w)"
proof -
  have "chan_send c p w = upd_c c (\<lambda>x. x\<lparr>c_queue := c_queue x @ [QPayload p]\<rparr>) w"
    using assms by (simp add: chan_send_def waiting_chan_def)
  then have 1: "on_transport c t (chan_send c p w) =
    upd_c c (\<lambda>x. x\<lparr>c_queue := []\<rparr>) (send_payload c p
      (fold (drain_item t c (next_id (tr w t))) (c_queue (ch w c))
        (fst (send_control t (open_command (ch w c) (next_id (tr w t)) (w_default_host w)) (opened c t w)))))"
    by (simp add: on_transport_queued [OF w neutral_queue(1), where items = "[QPayload p]"] upd_c_upd_c o_def drain_item_def)
  have "chan_send c p (on_transport c t w) = send_payload c p (on_transport c t w)"
    using assms by (simp add: chan_send_def on_transport_sel)
  also have "\<dots> = on_transport c t (chan_send c p w)"
    unfolding 1 on_transport_plain [OF w] by (rule send_payload_upd_c) (simp_all add: neutral_def opened_chan [OF w])
  finally show ?thesis ..
qed

lemma control_step:
  assumes w: "waiting_chan c t w"
  shows "on_transport c t (chan_control c d w) = chan_control c d (on_transport c t w)"
proof -
  define e where "e = (if \<not> truthy (opt d ''command'') then oset d ''command'' (JStr ''options'') else d)"
  define f where "f = (\<lambda>x :: chan. if opt e ''command'' = JStr ''done'' then x\<lparr>c_sent_done := True\<rparr> else x)"
  let ?k = "next_id (tr w t)"
  let ?g = "\<lambda>x. (f x)\<lparr>c_queue := c_queue x @ [QControl (oset e ''channel'' (id_value (ch w c)))]\<rparr>"
  let ?D = "fold (drain_item t c ?k) (c_queue (ch w c))
    (fst (send_control t (open_command (ch w c) ?k (w_default_host w)) (opened c t w)))"
  have c: "c < length (w_chans w)" "c_transport (ch w c) = None"
    using w by (simp_all add: waiting_chan_def)
  have f: "c_transport (f x) = c_transport x" "c_id (f x) = c_id x" "c_queue (f x) = c_queue x"
    "c_closed (f x) = c_closed x" "c_options (f x) = c_options x" "c_binary (f x) = c_binary x"
    "f (x\<lparr>c_transport := a, c_id := b\<rparr>) = (f x)\<lparr>c_transport := a, c_id := b\<rparr>"
    "f (x\<lparr>c_queue := q\<rparr>) = (f x)\<lparr>c_queue := q\<rparr>" for x a b q
    by (simp_all add: f_def)
  have eq: "chan_control c d w = upd_c c ?g w"
    unfolding chan_control_unfold Let_def e_def [symmetric] f_def [symmetric]
    using c by (simp add: f upd_c_upd_c o_def id_value_def)
  have 1: "on_transport c t (chan_control c d w) =
    upd_c c (\<lambda>x. x\<lparr>c_queue := []\<rparr>) (upd_c c ?g (drain_item t c ?k (QControl (oset e ''channel'' (id_value (ch w c)))) ?D))"
    unfolding eq by (subst on_transport_queued [OF w, where items = "[QControl (oset e ''channel'' (id_value (ch w c)))]"])
       (simp_all add: neutral_def f)
  have "chan_control c d (on_transport c t w) =
    fst (send_control t (oset e ''channel'' (JStr ?k)) (upd_c c f (on_transport c t w)))"
    unfolding chan_control_unfold Let_def e_def [symmetric] f_def [symmetric]
    using on_transport_sel [OF w] c by (simp add: f id_value_def)
  also have "\<dots> = on_transport c t (chan_control c d w)"
    unfolding 1 on_transport_plain [OF w]
    by (simp add: send_control_upd_c drain_item_def upd_c_upd_c o_def f)
  finally show ?thesis ..
qed

lemma quiet_drain: "quiet u = quiet v \<Longrightarrow> quiet (fold (drain_item t c k) q u) = quiet (fold (drain_item t c k) q v)"
proof (induction q arbitrary: u v)
  case (Cons x q)
  have q: "quiet (drain_item t c k x (quiet w)) = quiet (drain_item t c k x w)" for w
    by (simp add: drain_item_def quiet_send_control quiet_send_payload split: queue_item.split)
  have "quiet (drain_item t c k x u) = quiet (drain_item t c k x (quiet v))"
    unfolding Cons.prems [symmetric] by (rule q [symmetric])
  then show ?case unfolding q fold_simps by (rule Cons.IH)
qed simp

lemma quiet_on_transport:
  assumes "waiting_chan c t w"
  shows "quiet (on_transport c t (quiet w)) = quiet (on_transport c t w)"
proof -
  have "waiting_chan c t (quiet w)" using assms by (simp add: waiting_chan_def)
  moreover have "opened c t (quiet w) = quiet (opened c t w)"
    by (simp add: opened_def attach_def register_def)
  ultimately show ?thesis
    unfolding on_transport_plain [OF assms] quiet_upd
    by (simp add: on_transport_plain quiet_drain [OF quiet_send_control])
qed

lemma call_step:
  assumes w: "waiting_chan c t w"
  shows "quiet (on_transport c t (call c x w)) = quiet (call c x (on_transport c t w))"
proof (cases "\<exists>p. x = QPayload p \<and> c_sent_done (ch w c)")
  case True
  then obtain p where x: "x = QPayload p" "c_sent_done (ch w c)" by blast
  let ?v = "emit (Warning ''sending message after done'') w"
  have v: "waiting_chan c t ?v" using w by (simp add: waiting_chan_def)
  have "call c x w = ?v" using w x by (simp add: call_def chan_send_def waiting_chan_def)
  moreover have "quiet (call c x (on_transport c t w)) = quiet (on_transport c t w)"
    using on_transport_sel [OF w] x by (simp add: call_def chan_send_def)
  ultimately show ?thesis
    using quiet_on_transport [OF v] quiet_on_transport [OF w] by simp
next
  case False
  then show ?thesis
    using send_step [OF w] control_step [OF w] by (cases x) (simp_all add: call_def)
qed

lemma waiting_call:
  assumes "waiting_chan c t w"
  shows "waiting_chan c t (call c x w)"
proof -
  have s: "same_core (call c x w) w"
    by (simp add: call_def chan_op_core split: queue_item.split)
  then show ?thesis
    using assms by (simp add: waiting_chan_def same_core_sizes [OF s] same_core_c [OF s])
qed

lemma calls_step:
  "waiting_chan c t w \<Longrightarrow>
   quiet (on_transport c t (fold (call c) xs w)) = quiet (fold (call c) xs (on_transport c t w))"
proof (induction xs arbitrary: w)
  case (Cons x xs)
  have "quiet (on_transport c t (fold (call c) xs (call c x w))) = quiet (fold (call c) xs (on_transport c t (call c x w)))"
    using Cons.IH waiting_call [OF Cons.prems] by blast
  also have "\<dots> = quiet (fold (call c) xs (call c x (on_transport c t w)))"
    by (rule quiet_calls [OF call_step [OF Cons.prems]])
  finally show ?case by simp
qed simp

text \<open>C4: whatever is sent on a channel before its transport is ready, in whatever order of \<open>send\<close> and
  \<open>control\<close> calls, goes out when it becomes ready exactly as if it had been sent then: the same frames in
  the same order, each with the identifier the channel got, behind the open command; console warnings
  apart, the whole store is the same.\<close>

theorem queue_transparent:
  assumes "c < length (w_chans w)" and "t < length (w_transports w)"
    and "c_closed (ch w c) = None" and "c_transport (ch w c) = None"
  shows "quiet (on_transport c t (fold (call c) xs w)) = quiet (fold (call c) xs (on_transport c t w))"
  using assms by (intro calls_step) (simp add: waiting_chan_def)

theorem queue_transparent_witness:
  "quiet (on_transport 0 0 (fold (call 0) [QPayload (PStr ''a''), QControl [(''command'', JStr ''done'')], QPayload (PStr ''b'')]
     (channel_open RealWS [] init_world))) =
   quiet (fold (call 0) [QPayload (PStr ''a''), QControl [(''command'', JStr ''done'')], QPayload (PStr ''b'')]
     (on_transport 0 0 (channel_open RealWS [] init_world)))"
proof -
  let ?w = "channel_open RealWS [] init_world"
  have "0 < length (w_chans ?w)" "0 < length (w_transports ?w)" "c_closed (ch ?w 0) = None" "c_transport (ch ?w 0) = None"
    by (simp_all add: channel_open_def ensure_transport_def init_world_def new_transport_def new_chan_def)
  then show ?thesis by (rule queue_transparent)
qed

end
