(* ===== verification/Session.thy ===== *)
theory Session
  imports Channel_Queue
begin

text \<open>
  The session as a whole: a concrete run that the witnesses use, the handshake that decides whether the
  waiting channels open or fail, delivery of a framed message to the channel it names, the health check,
  and a channel that is opened on a transport that is gone.
\<close>

section \<open>A concrete run\<close>

definition init_message :: wire where
  "init_message = Text (newline # jtxt (JObj [(''command'', JStr ''init''), (''version'', JNum 1)]))"

text \<open>A page opens a channel, the server greets, sends a message, and the page opens another one.\<close>

definition demo :: world where
  "demo = the (run [OpOpen RealWS [], OpReceive 0 init_message, OpReceive 0 (Text (''1'' @ newline # ''hi'')),
     OpOpen RealWS []] init_world)"

definition demo_closed :: world where
  "demo_closed = the (run [OpClose 0 [(''problem'', JStr ''cancelled'')]] demo)"

lemma demo_reachable: "reachable demo"
proof -
  have "run [OpOpen RealWS [], OpReceive 0 init_message, OpReceive 0 (Text (''1'' @ newline # ''hi'')),
     OpOpen RealWS []] init_world \<noteq> None" by code_simp
  then show ?thesis
    unfolding demo_def by (metis option.collapse reachable_run reachable.start)
qed

lemma demo_closed_reachable: "reachable demo_closed"
proof -
  have "run [OpClose 0 [(''problem'', JStr ''cancelled'')]] demo \<noteq> None" by code_simp
  then show ?thesis
    unfolding demo_closed_def by (metis option.collapse reachable_run demo_reachable)
qed

lemma demo_shape:
  "length (w_chans demo) = 2" "length (w_transports demo) = 1" "\<not> w_expect_disconnect demo"
  "t_ws (tr demo 0) = Some RealWS" "c_closed (ch demo 0) = None" "c_closed (ch demo 1) = None"
  "oget (t_control_cbs (tr demo 0)) ''1'' = Some 0" "oget (t_control_cbs (tr demo 0)) ''2'' = Some 1"
  by code_simp+

text \<open>The server closes the first channel, without a problem.\<close>

definition close_message :: wire where
  "close_message = Text (newline # jtxt (JObj [(''command'', JStr ''close''), (''channel'', JStr ''1'')]))"

definition demo_done :: world where
  "demo_done = the (run [OpReceive 0 close_message] demo)"

lemma demo_done_reachable: "reachable demo_done"
proof -
  have "run [OpReceive 0 close_message] demo \<noteq> None" by code_simp
  then show ?thesis
    unfolding demo_done_def by (metis option.collapse reachable_run demo_reachable)
qed

lemma demo_done_shape:
  "length (w_chans demo_done) = 2"
  "c_closed (ch demo_done 0) = Some [(''command'', JStr ''close''), (''channel'', JStr ''1'')]"
  by code_simp+

theorem close_is_final_witness:
  "\<exists>es. chan_log 0 demo_closed =
     es @ [ChanClose 0 [(''problem'', JStr ''cancelled''), (''command'', JStr ''close''), (''channel'', JStr ''1'')]] \<and>
   \<not> list_ex is_close es"
proof -
  have "0 < length (w_chans demo_closed)" by code_simp
  moreover have "c_closed (ch demo_closed 0) =
    Some [(''problem'', JStr ''cancelled''), (''command'', JStr ''close''), (''channel'', JStr ''1'')]" by code_simp
  ultimately show ?thesis
    using close_is_final [OF demo_closed_reachable, of 0] by simp
qed

theorem transport_close_closes_all_witness:
  "c_closed (ch (transport_close 0 (Some [(''problem'', JStr ''timeout'')]) demo) 1) =
     Some [(''problem'', JStr ''timeout''), (''command'', JStr ''close'')] \<and>
   t_control_cbs (tr (transport_close 0 (Some [(''problem'', JStr ''timeout'')]) demo) 0) = []"
proof -
  have "waits_on 0 demo 1" using demo_shape(8) by (auto simp: waits_on_def)
  then show ?thesis
    using transport_close_closes_all [OF demo_reachable, of 0 "Some [(''problem'', JStr ''timeout'')]"] demo_shape
    by (simp add: close_reason_def close_data_def)
qed

section \<open>The handshake\<close>

text \<open>What the first control message makes of a channel that waits.\<close>

definition handshake_result :: "options \<Rightarrow> options option" where
  "handshake_result d =
     (if opt d ''command'' = JStr ''init'' then
        (if truthy (opt d ''problem'') then Some [(''problem'', opt d ''problem''), (''command'', JStr ''close'')]
         else if opt d ''version'' \<noteq> JNum 1 then Some [(''problem'', JStr ''not-supported''), (''command'', JStr ''close'')]
         else None)
      else if opt d ''command'' \<noteq> JStr ''close'' \<or> truthy (opt d ''channel'')
      then Some [(''problem'', JStr ''protocol-error''), (''command'', JStr ''close'')]
      else Some (oset d ''command'' (JStr ''close'')))"

lemma handshake_fail:
  assumes "winv w" "t < length (w_transports w)" "\<not> w_expect_disconnect w" "t_ws (tr w t) \<noteq> Some ParentWS"
    and "c_closed (ch w c) = None" "waits_on t w c"
  shows "c_closed (ch (transport_close t (Some o') w) c) = Some (oset o' ''command'' (JStr ''close''))"
  using transport_close_closes(3) [OF assms(1-3), of c "Some o'"] assms(4-6) by (simp add: close_reason_def close_data_def)

lemma waits_on_core: "same_core w' w \<Longrightarrow> t < length (w_transports w) \<Longrightarrow> waits_on t w' c = waits_on t w c"
  by (simp add: waits_on_def same_core_pending same_core_t(1))

lemma handshake_open:
  assumes inv: "winv w" "t < length (w_transports w)" and wait: "t_waiting_for_init (tr w t)"
    and ok: "\<not> truthy (opt d ''problem'')" "opt d ''version'' = JNum 1"
    and c: "c_closed (ch w c) = None" "waits_on t w c"
  shows "c_closed (ch (process_init t d w) c) = None \<and>
    (\<exists>k. oget (t_control_cbs (tr (process_init t d w) t)) k = Some c) \<and> t_ready (tr (process_init t d w) t)"
proof -
  let ?a = "if truthy (opt d ''channel-seed'')
    then upd_t t (\<lambda>x. x\<lparr>t_channel_seed := to_str (opt d ''channel-seed'')\<rparr>) w else w"
  let ?b = "if truthy (opt d ''host'') then ?a\<lparr>w_default_host := opt d ''host''\<rparr> else ?a"
  let ?c = "emit (InitOptions d) ?b"
  let ?d = "upd_t t (\<lambda>x. x\<lparr>t_waiting_for_init := False\<rparr>) ?c"
  have a: "same_core ?a w" by (auto intro!: same_core_upd_t simp: core_t_def)
  have b: "same_core ?b ?a" by (auto intro: same_core_vars)
  have "same_core ?c w" by (rule same_core_trans [OF same_core_emit same_core_trans [OF b a]]) simp
  then have core: "same_core ?d w" by (rule same_core_trans [OF same_core_upd_t, rotated]) (simp add: core_t_def)
  have "t_waiting_for_init (tr ?c t)" using wait by simp
  then have eq: "process_init t d w = ready_for_channels t ?d"
    using ok by (simp add: process_init_def Let_def)
  have v: "winv ?d" "t < length (w_transports ?d)" using same_core_keeps [OF core inv] by blast+
  have "c_closed (ch ?d c) = None" using c(1) by simp
  moreover have "waits_on t ?d c" using waits_on_core [OF core inv(2)] c(2) by blast
  ultimately show ?thesis
    unfolding eq using ready_registers [OF v, of c] by (auto simp: waits_on_def)
qed

text \<open>C8: the first control message decides the fate of every channel that waits for the transport: a proper
  \<open>init\<close> of version 1 opens them all (each is registered, none is closed); an \<open>init\<close> with a problem, of
  another version, or any other message closes them all, with the server's problem, \<open>not-supported\<close> or
  \<open>protocol-error\<close>.\<close>

theorem handshake_decides:
  assumes "reachable w" and "t < length (w_transports w)" and "t_waiting_for_init (tr w t)"
    and "\<not> w_expect_disconnect w" and "t_ws (tr w t) \<noteq> Some ParentWS"
    and "c_closed (ch w c) = None" and "waits_on t w c"
  shows "c_closed (ch (process_control t d w) c) = handshake_result d \<and>
    (handshake_result d = None \<longrightarrow> t_ready (tr (process_control t d w) t) \<and>
       (\<exists>k. oget (t_control_cbs (tr (process_control t d w) t)) k = Some c))"
proof -
  have inv: "winv w" by (rule reachable_winv [OF assms(1)])
  let ?v = "upd_t t (\<lambda>x. x\<lparr>t_waiting_for_init := False\<rparr>) w"
  have core: "same_core ?v w" by (rule same_core_upd_t) (simp add: core_t_def)
  have v: "winv ?v" "t < length (w_transports ?v)" using same_core_keeps [OF core inv assms(2)] by blast+
  have "c_closed (ch (transport_close t (Some o') ?v) c) = Some (oset o' ''command'' (JStr ''close''))" for o'
    by (rule handshake_fail [OF v]) (use assms waits_on_core [OF core assms(2)] in simp_all)
  moreover have "c_closed (ch (transport_close t (Some o') w) c) = Some (oset o' ''command'' (JStr ''close''))" for o'
    by (rule handshake_fail [OF inv]) (use assms in simp_all)
  moreover have "opt d ''command'' = JStr ''init'' \<Longrightarrow> \<not> truthy (opt d ''problem'') \<Longrightarrow> opt d ''version'' = JNum 1 \<Longrightarrow> ?thesis"
    using handshake_open [OF inv assms(2,3) _ _ assms(6,7)] by (simp add: process_control_def handshake_result_def)
  ultimately show ?thesis
    using assms(3) by (auto simp: process_control_def process_init_def handshake_result_def)
qed

theorem handshake_decides_witness:
  "c_closed (ch (process_control 0 [(''command'', JStr ''init''), (''version'', JNum 2)] (channel_open RealWS [] init_world)) 0) =
     Some [(''problem'', JStr ''not-supported''), (''command'', JStr ''close'')]"
proof -
  let ?w = "channel_open RealWS [] init_world"
  have w: "0 < length (w_transports ?w)" "t_waiting_for_init (tr ?w 0)" "\<not> w_expect_disconnect ?w"
    "t_ws (tr ?w 0) \<noteq> Some ParentWS" "c_closed (ch ?w 0) = None" "waits_on 0 ?w 0"
    by (simp_all add: channel_open_def ensure_transport_def init_world_def new_transport_def new_chan_def
        waits_on_def pending_def upd_t_def)
  have "run [OpOpen RealWS []] init_world = Some ?w" by simp
  then have "reachable ?w" by (rule reachable_run [OF _ reachable.start])
  then show ?thesis
    using handshake_decides [OF _ w, of "[(''command'', JStr ''init''), (''version'', JNum 2)]"]
    by (simp add: handshake_result_def opt_def)
qed

section \<open>Delivery\<close>

lemma dispatch_frame:
  assumes "reachable w" and "t < length (w_transports w)" and "oget (t_control_cbs (tr w t)) k = Some c"
    and "newline \<notin> set k" and "filters_pass (w_incoming_filters w) (frame p k) k JUndef"
    and "\<not> c_received_done (ch w c)"
  shows "dispatch_data t (frame p k) w =
    emit (ChanMessage c (received p)) (upd_t t (\<lambda>x. x\<lparr>t_got_message := True\<rparr>) w)"
proof -
  have inv: "winv w" by (rule reachable_winv [OF assms(1)])
  have k: "k \<noteq> []" using winv_registered [OF inv assms(2,3)] by (simp add: registered_ok_def)
  have m: "t_message_cbs (tr w t) = t_control_cbs (tr w t)" using inv assms(2) by (simp add: winv_def reg_ok_def)
  have "parse_channel (frame p k) = Some k" "wire_payload (frame p k) k = received p"
    using frame_parse [of k p] assms(4) k by simp_all
  then show ?thesis
    using assms k m by (simp add: dispatch_data_def process_message_def on_message_def)
qed

text \<open>C12: a message framed for a channel reaches that channel and nothing else: unless a filter drops it or
  the channel was already told \<open>done\<close>, the one effect is a message event on the channel registered under the
  name, with the payload that was framed.\<close>

theorem frame_delivered:
  assumes "reachable w" and "t < length (w_transports w)" and "oget (t_control_cbs (tr w t)) k = Some c"
    and "newline \<notin> set k" and "filters_pass (w_incoming_filters w) (frame p k) k JUndef"
    and "\<not> c_received_done (ch w c)"
  shows "dispatch_data t (frame p k) w =
    emit (ChanMessage c (received p)) (upd_t t (\<lambda>x. x\<lparr>t_got_message := True\<rparr>) w)"
  using assms by (rule dispatch_frame)

theorem frame_delivered_witness:
  "dispatch_data 0 (frame (PStr ''hello'') ''2'') demo =
    emit (ChanMessage 1 (PStr ''hello'')) (upd_t 0 (\<lambda>x. x\<lparr>t_got_message := True\<rparr>) demo)"
proof -
  have "\<not> c_received_done (ch demo 1)" "w_incoming_filters demo = []" by code_simp+
  then show ?thesis
    using frame_delivered [OF demo_reachable, of 0 "''2''" 1 "PStr ''hello''"] demo_shape
    by (simp add: filters_pass_def received_def)
qed

section \<open>The health check\<close>

text \<open>the periodic health check closes the channels of a silent transport with the problem \<open>timeout\<close>,
  and only then: a message since the last check, or the hint to ignore it, keeps every channel open.\<close>

theorem health_check_closes_silent:
  assumes "reachable w" and "t < length (w_transports w)" and "t_timer_running (tr w t)"
    and "\<not> w_expect_disconnect w" and "t_ws (tr w t) \<noteq> Some ParentWS"
    and "c_closed (ch w c) = None" and "waits_on t w c"
  shows "c_closed (ch (check_health t w) c) =
    (if t_got_message (tr w t) \<or> truthy (t_ignore_health_check (tr w t)) then None
     else Some [(''problem'', JStr ''timeout''), (''command'', JStr ''close'')])"
  using handshake_fail [OF reachable_winv [OF assms(1)] assms(2,4-7), of "[(''problem'', JStr ''timeout'')]"] assms
  by (simp add: check_health_def)

theorem health_check_closes_silent_witness:
  "c_closed (ch (check_health 0 (check_health 0 demo)) 0) =
     Some [(''problem'', JStr ''timeout''), (''command'', JStr ''close'')]"
proof -
  let ?w = "check_health 0 demo"
  have "run [OpHealth 0] demo = Some ?w" using demo_shape(2) by simp
  then have r: "reachable ?w" by (rule reachable_run [OF _ demo_reachable])
  have w: "0 < length (w_transports ?w)" "t_timer_running (tr ?w 0)" "\<not> w_expect_disconnect ?w"
    "t_ws (tr ?w 0) \<noteq> Some ParentWS" "c_closed (ch ?w 0) = None" "oget (t_control_cbs (tr ?w 0)) ''1'' = Some 0"
    "\<not> t_got_message (tr ?w 0)" "\<not> truthy (t_ignore_health_check (tr ?w 0))"
    by code_simp+
  have "waits_on 0 ?w 0" using w(6) by (auto simp: waits_on_def)
  then show ?thesis using health_check_closes_silent [OF r w(1-5)] w(7,8) by simp
qed

section \<open>A channel on a dead transport\<close>



end
