(* ===== verification/Utf8.thy ===== *)
theory Utf8
  imports JS_Prelude "HOL-Library.Word"
begin

text \<open>
  Text encoding: \<open>Utf8TextEncoder\<close> and \<open>Utf8TextDecoder\<close> of \<open>src/base1/cockpit.js\<close>.

  A text is the list of its code points, where a lone surrogate stands for itself; a raw string is the
  list of its character codes, all below 256.  \<open>encodeURIComponent\<close>, \<open>decodeURIComponent\<close>,
  \<open>escape\<close> and \<open>unescape\<close> are functions of the language: together they encode and decode strictly,
  and throw \<open>URIError\<close> (here \<open>None\<close>) for what is not well-formed.
\<close>

unbundle bit_operations_syntax

section \<open>What the language gives\<close>

definition surrogate :: "nat \<Rightarrow> bool" where
  "surrogate cp \<longleftrightarrow> 0xD800 \<le> cp \<and> cp \<le> 0xDFFF"

definition utf8_of :: "nat \<Rightarrow> nat list" where
  "utf8_of cp =
     (if cp < 0x80 then [cp]
      else if cp < 0x800 then [0xC0 + cp div 64, 0x80 + cp mod 64]
      else if cp < 0x10000 then [0xE0 + cp div 4096, 0x80 + cp div 64 mod 64, 0x80 + cp mod 64]
      else [0xF0 + cp div 262144, 0x80 + cp div 4096 mod 64, 0x80 + cp div 64 mod 64, 0x80 + cp mod 64])"

text \<open>\<open>unescape(encodeURIComponent(string))\<close>.\<close>

definition uri_encode :: "nat list \<Rightarrow> nat list option" where
  "uri_encode s = (if list_ex surrogate s then None else Some (concat (map utf8_of s)))"

definition cont :: "nat \<Rightarrow> bool" where
  "cont b \<longleftrightarrow> 0x80 \<le> b \<and> b < 0xC0"

text \<open>
  \<open>decodeURIComponent(escape(data))\<close>: a first byte with two to four leading ones, that many bytes, and a
  code point that needs them, is no surrogate and is at most 0x10FFFF.
\<close>

fun uri_decode :: "nat list \<Rightarrow> nat list option" where
  "uri_decode [] = Some []"
| "uri_decode (a # bs) =
     (if a < 0x80 then map_option ((#) a) (uri_decode bs)
      else if a < 0xC0 then None
      else if a < 0xE0 then
        (case bs of
           b # r \<Rightarrow>
             let cp = (a - 0xC0) * 64 + (b - 0x80)
             in if cont b \<and> 0x80 \<le> cp then map_option ((#) cp) (uri_decode r) else None
         | _ \<Rightarrow> None)
      else if a < 0xF0 then
        (case bs of
           b # c # r \<Rightarrow>
             let cp = (a - 0xE0) * 4096 + (b - 0x80) * 64 + (c - 0x80)
             in if cont b \<and> cont c \<and> 0x800 \<le> cp \<and> \<not> surrogate cp
                then map_option ((#) cp) (uri_decode r) else None
         | _ \<Rightarrow> None)
      else if a < 0xF8 then
        (case bs of
           b # c # d # r \<Rightarrow>
             let cp = (a - 0xF0) * 262144 + (b - 0x80) * 4096 + (c - 0x80) * 64 + (d - 0x80)
             in if cont b \<and> cont c \<and> cont d \<and> 0x10000 \<le> cp \<and> cp \<le> 0x10FFFF
                then map_option ((#) cp) (uri_decode r) else None
         | _ \<Rightarrow> None)
      else None)"

section \<open>The encoder\<close>

definition utf8_encode :: "nat list \<Rightarrow> nat list option" where
  "utf8_encode s = uri_encode s"

section \<open>The decoder\<close>

text \<open>The number of bytes that the first one announces, 0 for none.\<close>

definition announced :: "nat \<Rightarrow> nat" where
  "announced p =
     (if p = 255 then 0 else if p > 251 \<and> p < 254 then 6 else if p > 247 \<and> p < 252 then 5
      else if p > 239 \<and> p < 248 then 4 else if p > 223 \<and> p < 240 then 3
      else if p > 191 \<and> p < 224 then 2 else if p < 128 then 1 else 0)"

definition substring :: "nat list \<Rightarrow> nat \<Rightarrow> nat \<Rightarrow> nat list" where
  "substring data beg i = take (i - beg) (drop beg data)"

text \<open>\<open>for (j = 1; ok && j < x; j++) ok = (data.charCodeAt(i + j) & 0x80) !== 0\<close>.\<close>

definition followed_by :: "nat list \<Rightarrow> nat \<Rightarrow> nat \<Rightarrow> bool" where
  "followed_by data i x = list_all (\<lambda>j. (data ! (i + j)) AND 0x80 \<noteq> 0) [1..<x]"

text \<open>
  The scan.  The result is the text, or \<open>None\<close> for the exception, and the new buffer (empty for
  \<open>null\<close>).
\<close>

function scan :: "bool \<Rightarrow> bool \<Rightarrow> nat list \<Rightarrow> nat \<Rightarrow> nat \<Rightarrow> nat list \<Rightarrow> nat list option \<times> nat list" where
  "scan fatal stream data i beg str =
     (let finish = (\<lambda>i. map_option (\<lambda>s. str @ s) (uri_decode (substring data beg i)))
      in if i < length data then
           let x = announced (data ! i);
               ok = (i + x \<le> length data)
           in if \<not> ok \<and> stream then (finish i, drop i data)
              else if ok \<and> x \<noteq> 0 \<and> followed_by data i x
              then scan fatal stream data (i + x) beg str
              else if fatal then (finish (length data), [])
              else
                (case finish i of
                   None \<Rightarrow> (None, [])
                 | Some s \<Rightarrow> scan fatal stream data (i + 1) (i + 1) (s @ [0xFFFD]))
         else (finish i, []))"
  by pat_completeness auto
termination
  by (relation "measure (\<lambda>(fatal, stream, data, i, beg, str). length data - i)") auto

declare scan.simps [simp del]

text \<open>\<open>decode(data, { stream: stream })\<close>, with the buffer kept between calls.\<close>

definition utf8_decode :: "bool \<Rightarrow> bool \<Rightarrow> nat list \<Rightarrow> nat list \<Rightarrow> nat list option \<times> nat list" where
  "utf8_decode fatal stream buffer data = scan fatal stream (buffer @ data) 0 0 []"

text \<open>A streamed sequence of chunks; the first exception ends it.\<close>

fun decode_chunks :: "bool \<Rightarrow> nat list \<Rightarrow> nat list list \<Rightarrow> nat list option \<times> nat list" where
  "decode_chunks fatal buffer [] = (Some [], buffer)"
| "decode_chunks fatal buffer (c # cs) =
     (case utf8_decode fatal True buffer c of
        (None, b) \<Rightarrow> (None, b)
      | (Some s, b) \<Rightarrow> (case decode_chunks fatal b cs of (r, b') \<Rightarrow> (map_option (\<lambda>s'. s @ s') r, b')))"

section \<open>Strict decoding inverts encoding\<close>

definition scalar :: "nat \<Rightarrow> bool" where
  "scalar cp \<longleftrightarrow> cp \<le> 0x10FFFF \<and> \<not> surrogate cp"

lemma utf8_cases:
  assumes "scalar cp"
  obtains (one) "cp < 0x80" "utf8_of cp = [cp]"
  | (two) "0x80 \<le> cp" "cp < 0x800" "utf8_of cp = [0xC0 + cp div 64, 0x80 + cp mod 64]"
  | (three) "0x800 \<le> cp" "cp < 0x10000" "utf8_of cp = [0xE0 + cp div 4096, 0x80 + cp div 64 mod 64, 0x80 + cp mod 64]"
  | (four) "0x10000 \<le> cp" "cp \<le> 0x10FFFF"
    "utf8_of cp = [0xF0 + cp div 262144, 0x80 + cp div 4096 mod 64, 0x80 + cp div 64 mod 64, 0x80 + cp mod 64]"
  using assms unfolding utf8_of_def scalar_def
  by (cases "cp < 0x80"; cases "cp < 0x800"; cases "cp < 0x10000") auto

lemma sextets:
  "cp div 64 * 64 + cp mod 64 = (cp :: nat)"
  "cp div 4096 * 4096 + cp div 64 mod 64 * 64 + cp mod 64 = cp"
  "cp div 262144 * 262144 + cp div 4096 mod 64 * 4096 + cp div 64 mod 64 * 64 + cp mod 64 = cp"
proof -
  have q: "cp div 4096 = cp div 64 div 64" "cp div 262144 = cp div 64 div 64 div 64"
    by (simp_all add: div_mult2_eq [symmetric])
  have 1: "n div 64 * 64 + n mod 64 = n" for n :: nat by simp
  show "cp div 64 * 64 + cp mod 64 = cp" by simp
  show "cp div 4096 * 4096 + cp div 64 mod 64 * 64 + cp mod 64 = cp"
    using 1 [of cp] 1 [of "cp div 64"] unfolding q by linarith
  show "cp div 262144 * 262144 + cp div 4096 mod 64 * 4096 + cp div 64 mod 64 * 64 + cp mod 64 = cp"
    using 1 [of cp] 1 [of "cp div 64"] 1 [of "cp div 64 div 64"] unfolding q by linarith
qed

lemma cont_byte [simp]: "cont (0x80 + n mod 64)"
  unfolding cont_def by simp

lemma uri_decode_utf8_of:
  assumes "scalar cp"
  shows "uri_decode (utf8_of cp @ bs) = map_option ((#) cp) (uri_decode bs)"
  using assms
proof (cases rule: utf8_cases)
  case two
  then have d: "cp div 64 < 32" by simp
  from two show ?thesis using sextets(1) [of cp] by (simp add: d)
next
  case three
  then have d: "cp div 4096 < 16" by simp
  from three assms show ?thesis using sextets(2) [of cp] by (simp add: d scalar_def)
next
  case four
  then have d: "cp div 262144 < 8" by simp
  from four show ?thesis using sextets(3) [of cp] by (simp add: d)
qed simp

lemma uri_decode_encode: "list_all scalar s \<Longrightarrow> uri_decode (concat (map utf8_of s)) = Some s"
  by (induction s) (simp_all add: uri_decode_utf8_of)

section \<open>The scan on well-formed text with stray bytes\<close>

text \<open>A piece is an encoded code point or a byte that starts nothing.\<close>

type_synonym piece = "nat + nat"

fun enc_piece :: "piece \<Rightarrow> nat list" where
  "enc_piece (Inl cp) = utf8_of cp"
| "enc_piece (Inr b) = [b]"

fun ok_piece :: "piece \<Rightarrow> bool" where
  "ok_piece (Inl cp) = scalar cp"
| "ok_piece (Inr b) = (announced b = 0)"

fun out_piece :: "piece \<Rightarrow> nat" where
  "out_piece (Inl cp) = cp"
| "out_piece (Inr b) = 0xFFFD"

abbreviation enc_pieces :: "piece list \<Rightarrow> nat list" where
  "enc_pieces ps \<equiv> concat (map enc_piece ps)"

text \<open>What is left over at the end of a chunk: the beginning of an encoded code point.\<close>

definition partial_char :: "nat list \<Rightarrow> bool" where
  "partial_char r \<longleftrightarrow> r \<noteq> [] \<and> (\<exists>cp q. scalar cp \<and> q \<noteq> [] \<and> utf8_of cp = r @ q)"

lemma cont_bit [simp]: "(0x80 + n mod 64) AND 0x80 \<noteq> (0 :: nat)"
proof -
  have "n mod 64 < 64" by simp
  then have "n mod 64 div 128 = 0" by (simp add: div_eq_0_iff)
  moreover have "(0x80 + n mod 64) div 128 = 1 + n mod 64 div 128" by simp
  ultimately have "bit (0x80 + n mod 64) (7 :: nat)"
    by (simp add: bit_iff_odd)
  then show ?thesis using and_exp_eq_0_iff_not_bit [of "0x80 + n mod 64" 7] by simp
qed

lemma cont_bit_pos [simp]: "0 < (0x80 + n mod 64) AND (0x80 :: nat)"
  using cont_bit [of n] by (simp only: neq0_conv)

lemma utf8_of_head:
  assumes "scalar cp"
  obtains a cs where "utf8_of cp = a # cs" "announced a = Suc (length cs)" "list_all (\<lambda>b. b AND 0x80 \<noteq> 0) cs"
  using assms
proof (cases rule: utf8_cases)
  case one
  then show ?thesis using that by (simp add: announced_def)
next
  case two
  have d: "cp div 64 < 32" using two by simp
  show ?thesis
    by (rule that [OF two(3)]) (use d in \<open>simp_all add: announced_def\<close>)
next
  case three
  have d: "cp div 4096 < 16" using three by simp
  show ?thesis
    by (rule that [OF three(3)]) (use d in \<open>simp_all add: announced_def\<close>)
next
  case four
  have d: "cp div 262144 < 8" using four by simp
  show ?thesis
    by (rule that [OF four(3)]) (use d in \<open>simp_all add: announced_def\<close>)
qed

lemma followed_char:
  assumes "utf8_of cp = a # cs" "list_all (\<lambda>b. b AND 0x80 \<noteq> 0) cs"
  shows "followed_by (pre @ utf8_of cp @ post) (length pre) (Suc (length cs))"
  unfolding followed_by_def list_all_iff
proof
  fix j assume "j \<in> set [1..<Suc (length cs)]"
  then have j: "0 < j" "j \<le> length cs" by auto
  then have "(pre @ utf8_of cp @ post) ! (length pre + j) = cs ! (j - 1)"
    by (simp add: assms(1) nth_append nth_Cons split: nat.split)
  moreover have "cs ! (j - 1) \<in> set cs" using j by simp
  ultimately show "(pre @ utf8_of cp @ post) ! (length pre + j) AND 0x80 \<noteq> 0"
    using assms(2) by (auto simp: list_all_iff)
qed

lemma scan_pieces:
  assumes "list_all ok_piece ps" and "r = [] \<or> stream \<and> partial_char r" and "list_all scalar s"
  shows "scan False stream (pre @ concat (map utf8_of s) @ enc_pieces ps @ r)
      (length pre + length (concat (map utf8_of s))) (length pre) str = (Some (str @ s @ map out_piece ps), r)"
  using assms(1,3)
proof (induction ps arbitrary: pre s str)
  case Nil
  let ?mid = "concat (map utf8_of s)"
  have fin: "uri_decode (substring (pre @ ?mid @ r) (length pre) (length pre + length ?mid)) = Some s"
    using Nil.prems by (simp add: substring_def uri_decode_encode)
  show ?case
  proof (cases "r = []")
    case True
    then show ?thesis using fin by (subst scan.simps) (simp add: Let_def)
  next
    case False
    then obtain cp q where cp: "scalar cp" "q \<noteq> []" "utf8_of cp = r @ q" and st: stream
      using assms(2) by (auto simp: partial_char_def)
    obtain a cs where head: "utf8_of cp = a # cs" "announced a = Suc (length cs)"
      using utf8_of_head [OF cp(1)] by metis
    have "r ! 0 = a"
      using head(1) cp(3) False by (cases r) simp_all
    moreover have "length r + length q = Suc (length cs)"
      using head(1) cp(3) by (metis length_Cons length_append)
    then have "length r < Suc (length cs)" using cp(2) by (cases q) simp_all
    ultimately have "r ! 0 = a" "length r < Suc (length cs)" by simp_all
    then show ?thesis
      using fin False st head(2) by (subst scan.simps) (simp add: Let_def nth_append)
  qed
next
  case (Cons x ps)
  let ?mid = "concat (map utf8_of s)"
  show ?case
  proof (cases x)
    case (Inl cp)
    with Cons.prems have cp: "scalar cp" by simp
    obtain a cs where head: "utf8_of cp = a # cs" "announced a = Suc (length cs)" "list_all (\<lambda>b. b AND 0x80 \<noteq> 0) cs"
      using utf8_of_head [OF cp] by metis
    have fol: "followed_by (pre @ ?mid @ utf8_of cp @ enc_pieces ps @ r) (length pre + length ?mid) (Suc (length cs))"
      using followed_char [OF head(1,3), of "pre @ ?mid" "enc_pieces ps @ r"] by simp
    have "scan False stream (pre @ ?mid @ utf8_of cp @ enc_pieces ps @ r) (length pre + length ?mid) (length pre) str =
      scan False stream (pre @ ?mid @ utf8_of cp @ enc_pieces ps @ r)
        (length pre + length ?mid + Suc (length cs)) (length pre) str"
      using fol by (subst scan.simps) (simp add: head Let_def nth_append)
    also have "\<dots> = (Some (str @ (s @ [cp]) @ map out_piece ps), r)"
      using Cons.IH [of "s @ [cp]" pre str] Cons.prems cp by (simp add: head(1) add.assoc)
    finally show ?thesis using Inl by simp
  next
    case (Inr b)
    have fin: "uri_decode (substring (pre @ ?mid @ b # enc_pieces ps @ r) (length pre) (length pre + length ?mid)) = Some s"
      using Cons.prems by (simp add: substring_def uri_decode_encode)
    have "scan False stream (pre @ ?mid @ b # enc_pieces ps @ r) (length pre + length ?mid) (length pre) str =
      scan False stream (pre @ ?mid @ b # enc_pieces ps @ r)
        (length pre + length ?mid + 1) (length pre + length ?mid + 1) (str @ s @ [0xFFFD])"
      using fin Inr Cons.prems by (subst scan.simps) (simp add: Let_def nth_append)
    also have "\<dots> = (Some ((str @ s @ [0xFFFD]) @ map out_piece ps), r)"
      using Cons.IH [of "[]" "pre @ ?mid @ [b]" "str @ s @ [0xFFFD]"] Cons.prems by simp
    finally show ?thesis using Inr by simp
  qed
qed

lemma enc_piece_nonempty [simp]: "enc_piece x \<noteq> []"
  by (cases x) (simp_all add: utf8_of_def)

lemma cut_pieces:
  assumes "d @ e = enc_pieces ps" "list_all ok_piece ps"
  shows "\<exists>ps1 ps2 r. ps = ps1 @ ps2 \<and> d = enc_pieces ps1 @ r \<and>
    (r = [] \<or> partial_char r \<and> (\<exists>x ps' q. ps2 = x # ps' \<and> q \<noteq> [] \<and> enc_piece x = r @ q))"
  using assms
proof (induction ps arbitrary: d)
  case Nil
  then show ?case by simp
next
  case (Cons x ps)
  show ?case
  proof (cases "length (enc_piece x) \<le> length d")
    case True
    with Cons.prems(1) obtain d' where d': "d = enc_piece x @ d'" "d' @ e = enc_pieces ps"
      by (auto simp: append_eq_append_conv2) (metis append_Nil2 append_eq_append_conv length_append le_antisym length_0_conv add_leD1 le_add_same_cancel1 le_zero_eq)
    from Cons.IH [OF d'(2)] Cons.prems(2) obtain ps1 ps2 r where
      *: "ps = ps1 @ ps2" "d' = enc_pieces ps1 @ r"
        "r = [] \<or> partial_char r \<and> (\<exists>x ps' q. ps2 = x # ps' \<and> q \<noteq> [] \<and> enc_piece x = r @ q)"
      by auto
    then have "x # ps = (x # ps1) @ ps2" "d = enc_pieces (x # ps1) @ r" using d' by simp_all
    with *(3) show ?thesis by blast
  next
    case False
    then obtain q where "d @ q = enc_piece x"
      using Cons.prems(1) by (auto simp: append_eq_append_conv2)
    then have q: "enc_piece x = d @ q" by simp
    with False have q': "q \<noteq> []" by auto
    show ?thesis
    proof (cases "d = []")
      case True
      then show ?thesis by (intro exI [of _ "[]"] exI [of _ "x # ps"]) simp
    next
      case d: False
      obtain cp where x: "x = Inl cp"
        using q q' d by (cases x) (auto simp: Cons_eq_append_conv)
      with q q' d Cons.prems(2) have "partial_char d" by (auto simp: partial_char_def)
      with q q' show ?thesis
        by (intro exI [of _ "[]"] exI [of _ "x # ps"] exI [of _ d]) simp
    qed
  qed
qed

lemma decode_chunks_pieces:
  assumes "list_all ok_piece ps" "b @ concat cs = enc_pieces ps"
    "b = [] \<or> (\<exists>x ps' q. ps = x # ps' \<and> q \<noteq> [] \<and> enc_piece x = b @ q)"
  shows "decode_chunks False b cs = (Some (map out_piece ps), [])"
  using assms
proof (induction cs arbitrary: b ps)
  case Nil
  have "ps = []"
  proof (rule ccontr)
    assume "ps \<noteq> []"
    then obtain x ps' where ps: "ps = x # ps'" by (cases ps) auto
    with Nil.prems have "b \<noteq> []" by auto
    then obtain q where "q \<noteq> []" "enc_piece x = b @ q" using Nil.prems(3) ps by auto
    with Nil.prems(2) ps show False by simp
  qed
  with Nil.prems show ?case by simp
next
  case (Cons c cs)
  have "(b @ c) @ concat cs = enc_pieces ps" using Cons.prems(2) by simp
  from cut_pieces [OF this Cons.prems(1)] obtain ps1 ps2 r where
    cut: "ps = ps1 @ ps2" "b @ c = enc_pieces ps1 @ r"
      "r = [] \<or> partial_char r \<and> (\<exists>x ps' q. ps2 = x # ps' \<and> q \<noteq> [] \<and> enc_piece x = r @ q)"
    by blast
  have "utf8_decode False True b c = (Some (map out_piece ps1), r)"
    unfolding utf8_decode_def using scan_pieces [of ps1 r True "[]" "[]" "[]"] Cons.prems(1) cut by auto
  moreover have "decode_chunks False r cs = (Some (map out_piece ps2), [])"
  proof (rule Cons.IH)
    show "list_all ok_piece ps2" using Cons.prems(1) cut(1) by simp
    show "r @ concat cs = enc_pieces ps2"
      using \<open>(b @ c) @ concat cs = enc_pieces ps\<close> unfolding cut(1,2) by simp
    show "r = [] \<or> (\<exists>x ps' q. ps2 = x # ps' \<and> q \<noteq> [] \<and> enc_piece x = r @ q)" using cut(3) by blast
  qed
  ultimately show ?case by (simp add: cut(1))
qed

lemma append_Nil_map [simp]: "map_option ((@) []) x = x"
  by (cases x) simp_all

lemma scan_fatal:
  "i \<le> length data \<Longrightarrow> fst (scan True False data i 0 []) = uri_decode data"
proof (induction "length data - i" arbitrary: i rule: less_induct)
  case less
  show ?case
  proof (cases "i < length data")
    case True
    let ?x = "announced (data ! i)"
    show ?thesis
    proof (cases "i + ?x \<le> length data \<and> ?x \<noteq> 0 \<and> followed_by data i ?x")
      case ok: True
      then have "fst (scan True False data (i + ?x) 0 []) = uri_decode data"
        using True by (intro less.hyps) auto
      then show ?thesis using ok True by (subst scan.simps) (simp add: Let_def)
    next
      case False
      then show ?thesis
        using True by (subst scan.simps) (auto simp: Let_def substring_def append_Nil_map)
    qed
  next
    case False
    then show ?thesis
      using less.prems by (subst scan.simps) (simp add: Let_def substring_def append_Nil_map)
  qed
qed

section \<open>What the users of the text encoding can rely on\<close>

text \<open>every text without lone surrogates survives encoding and decoding, with a fatal decoder and with a
  lenient one.\<close>

theorem utf8_roundtrip:
  assumes "utf8_encode s = Some d" and "list_all (\<lambda>cp. cp \<le> 0x10FFFF) s"
  shows "fst (utf8_decode fatal False [] d) = Some s"
proof -
  have s: "list_all scalar s" and d: "d = concat (map utf8_of s)"
    using assms by (auto simp: utf8_encode_def uri_encode_def list_all_iff list_ex_iff scalar_def split: if_splits)
  have p: "enc_pieces (map Inl s) = concat (map utf8_of s)" "map out_piece (map Inl s) = s"
    "list_all ok_piece (map Inl s)"
    using s by (simp_all add: o_def list.pred_map)
  show ?thesis
    using scan_fatal [of 0 d] uri_decode_encode [OF s] scan_pieces [OF p(3), of "[]" False "[]" "[]" "[]"] p
    by (cases fatal) (simp_all add: utf8_decode_def d)
qed

theorem utf8_roundtrip_witness: "fst (utf8_decode True False [] [0xE2, 0x82, 0xAC]) = Some [0x20AC]"
  using utf8_roundtrip [of "[0x20AC]" "[0xE2, 0x82, 0xAC]" True]
  by (simp add: utf8_encode_def uri_encode_def utf8_of_def surrogate_def)

text \<open>C21: streaming gives the same text wherever the data is cut into chunks, in the middle of a character
  included: every code point comes out once and complete, every stray byte becomes one replacement
  character, and nothing stays in the buffer.\<close>

theorem utf8_stream_chunks:
  assumes "list_all ok_piece ps" and "concat chunks = enc_pieces ps"
  shows "decode_chunks False [] chunks = (Some (map out_piece ps), [])"
  using decode_chunks_pieces [of ps "[]" chunks] assms by simp

theorem utf8_stream_chunks_witness:
  "decode_chunks False [] [[0x61, 0xE2], [0x82], [0xAC, 0xFF], [0x62]] = (Some [0x61, 0x20AC, 0xFFFD, 0x62], [])"
  using utf8_stream_chunks [of "[Inl 0x61, Inl 0x20AC, Inr 0xFF, Inl 0x62]" "[[0x61, 0xE2], [0x82], [0xAC, 0xFF], [0x62]]"]
  by (simp add: utf8_of_def scalar_def surrogate_def announced_def)

text \<open>a fatal decoder accepts exactly the well-formed data and gives what the strict decoding of the
  language gives.\<close>

theorem utf8_fatal_strict: "fst (utf8_decode True False [] data) = uri_decode data"
  using scan_fatal [of 0 data] by (simp add: utf8_decode_def)

text \<open>the lenient decoder throws too: it takes every byte with the top bit for a continuation and accepts
  first bytes of overlong and of five or six byte forms, so the final strict decoding of what it took for
  well-formed fails.\<close>

theorem utf8_lenient_throws:
  "utf8_decode False False [] [0xC0, 0x80] = (None, []) \<and> utf8_decode False False [] [0xC3, 0xC3] = (None, []) \<and>
   utf8_decode False False [] [0xF8, 0x80, 0x80, 0x80, 0x80] = (None, [])"
  by code_simp

end
