(* ===== verification/Promise.thy ===== *)
theory Promise
  imports JS_Value
begin

text \<open>
  Promises and the queue of functions to call later, of \<open>src/base1/cockpit.js\<close>: \<open>later_invoke\<close>,
  \<open>later_drain\<close>, \<open>promise_then\<close>, \<open>process_queue\<close>, \<open>Deferred\<close>, \<open>finally\<close>,
  \<open>cockpit.when\<close>, \<open>cockpit.all\<close>.

  The state of every deferred, the arrays of pending handlers (which are shared: a notification keeps a
  reference to the array it was given), the \<open>done\<close> flags of adopted promises and the later queue form one
  store.  Handlers written by other code are a parameter: what a function does, given its arguments, is a
  list of calls into the library and a returned value, or an exception.
\<close>

section \<open>State\<close>

text \<open>A value is a plain one or the promise of a deferred.\<close>

datatype val = V js | Prom nat

text \<open>What other code passes as a handler.\<close>

datatype handler = Undef | NotFunction | Fn nat

text \<open>The functions that end up in a pending entry: handlers, and the closures of the library.\<close>

datatype callback =
    H handler
  | AdoptResolve nat nat
  | AdoptReject nat nat
  | AdoptNotify nat
  | Finally bool handler
  | Prep "val list" bool
  | PrepReject
  | AllValue nat nat
  | AllReject nat

record entry =
  e_result :: nat
  e_fulfilled :: callback
  e_rejected :: callback
  e_updated :: callback

record deferred =
  d_status :: int
  d_values :: "val list"
  d_pending :: "nat option"
  d_scheduled :: bool

text \<open>The variables of one call of \<open>cockpit.all\<close>; an absent result is a hole of the array.\<close>

record all_group =
  a_deferred :: nat
  a_counter :: nat
  a_results :: "val option list"

datatype task = ProcessQueue nat | NotifyTask nat nat "val list"

datatype plog = Called nat "val list" | SelfResolution nat

record pstore =
  p_deferreds :: "deferred list"
  p_arrays :: "entry list list"
  p_flags :: "(nat \<times> bool) list"
  p_groups :: "all_group list"
  p_later :: "task list"
  p_timeout :: bool
  p_log :: "plog list"

definition init_store :: pstore where
  "init_store = \<lparr>p_deferreds = [], p_arrays = [], p_flags = [], p_groups = [], p_later = [],
     p_timeout = False, p_log = []\<rparr>"

text \<open>A call that a handler makes into the library before it returns.\<close>

datatype pcall =
    CallResolve nat "val list"
  | CallReject nat "val list"
  | CallNotify nat "val list"
  | CallThen nat handler handler handler

text \<open>\<open>None\<close> is an exception.\<close>

type_synonym user_code = "nat \<Rightarrow> val list \<Rightarrow> pcall list \<times> val option"

abbreviation dfr :: "pstore \<Rightarrow> nat \<Rightarrow> deferred" where
  "dfr w d \<equiv> p_deferreds w ! d"

definition upd_d :: "nat \<Rightarrow> (deferred \<Rightarrow> deferred) \<Rightarrow> pstore \<Rightarrow> pstore" where
  "upd_d d f w = w\<lparr>p_deferreds := (p_deferreds w)[d := f (dfr w d)]\<rparr>"

definition is_function :: "callback \<Rightarrow> bool" where
  "is_function cb \<longleftrightarrow> cb \<noteq> H Undef \<and> cb \<noteq> H NotFunction"

section \<open>Later\<close>

definition later_invoke :: "task \<Rightarrow> pstore \<Rightarrow> pstore" where
  "later_invoke f w = w\<lparr>p_later := p_later w @ [f], p_timeout := True\<rparr>"

definition schedule_process_queue :: "nat \<Rightarrow> pstore \<Rightarrow> pstore" where
  "schedule_process_queue d w =
     (if d_scheduled (dfr w d) \<or> d_pending (dfr w d) = None then w
      else later_invoke (ProcessQueue d) (upd_d d (\<lambda>x. x\<lparr>d_scheduled := True\<rparr>) w))"

section \<open>Deferreds\<close>

definition new_deferred :: "pstore \<Rightarrow> pstore \<times> nat" where
  "new_deferred w =
     (w\<lparr>p_deferreds := p_deferreds w @ [\<lparr>d_status = 0, d_values = [], d_pending = None, d_scheduled = False\<rparr>]\<rparr>,
      length (p_deferreds w))"

text \<open>\<open>state.pending = state.pending || []\<close>, then \<open>push\<close>.\<close>

definition push_pending :: "nat \<Rightarrow> entry \<Rightarrow> pstore \<Rightarrow> pstore" where
  "push_pending d e w =
     (case d_pending (dfr w d) of
        Some a \<Rightarrow> w\<lparr>p_arrays := (p_arrays w)[a := (p_arrays w ! a) @ [e]]\<rparr>
      | None \<Rightarrow> upd_d d (\<lambda>x. x\<lparr>d_pending := Some (length (p_arrays w))\<rparr>) (w\<lparr>p_arrays := p_arrays w @ [[e]]\<rparr>))"

text \<open>
  Gives the deferred of the result, nothing when there is no handler at all.  (A number that is no deferred
  of the store is nobody's promise: other code cannot hold it.)
\<close>

definition promise_then :: "nat \<Rightarrow> callback \<Rightarrow> callback \<Rightarrow> callback \<Rightarrow> pstore \<Rightarrow> pstore \<times> nat option" where
  "promise_then d fulfilled rejected updated w =
     (if d \<ge> length (p_deferreds w) \<or> fulfilled = H Undef \<and> rejected = H Undef \<and> updated = H Undef then (w, None)
      else
        let (w, result) = new_deferred w;
            w = push_pending d \<lparr>e_result = result, e_fulfilled = fulfilled, e_rejected = rejected, e_updated = updated\<rparr> w;
            w = (if d_status (dfr w d) > 0 then schedule_process_queue d w else w)
        in (w, Some result))"

text \<open>\<open>promise_then(...) || self\<close>.\<close>

definition then_promise :: "nat \<Rightarrow> callback \<Rightarrow> callback \<Rightarrow> callback \<Rightarrow> pstore \<Rightarrow> pstore \<times> nat" where
  "then_promise d f r u w = (case promise_then d f r u w of (w', None) \<Rightarrow> (w', d) | (w', Some p) \<Rightarrow> (w', p))"

definition deferred_reject :: "nat \<Rightarrow> val list \<Rightarrow> pstore \<Rightarrow> pstore" where
  "deferred_reject d values w = schedule_process_queue d (upd_d d (\<lambda>x. x\<lparr>d_values := values, d_status := 2\<rparr>) w)"

definition deferred_resolve :: "nat \<Rightarrow> val list \<Rightarrow> pstore \<Rightarrow> pstore" where
  "deferred_resolve d values w =
     (case values of
        Prom p # _ \<Rightarrow>
          let w = upd_d d (\<lambda>x. x\<lparr>d_status := - 1\<rparr>) w;
              flag = length (p_flags w);
              w = w\<lparr>p_flags := p_flags w @ [(d, False)]\<rparr>
          in fst (promise_then p (AdoptResolve d flag) (AdoptReject d flag) (AdoptNotify d) w)
      | _ \<Rightarrow> schedule_process_queue d (upd_d d (\<lambda>x. x\<lparr>d_values := values, d_status := 1\<rparr>) w))"

definition deferred_notify :: "nat \<Rightarrow> val list \<Rightarrow> pstore \<Rightarrow> pstore" where
  "deferred_notify d values w =
     (case d_pending (dfr w d) of
        Some a \<Rightarrow> if d_status (dfr w d) \<le> 0 \<and> p_arrays w ! a \<noteq> []
                  then later_invoke (NotifyTask d a values) w else w
      | None \<Rightarrow> w)"

text \<open>\<open>Deferred.resolve\<close>: \<open>False\<close> when it throws.\<close>

definition dresolve :: "nat \<Rightarrow> val list \<Rightarrow> pstore \<Rightarrow> pstore \<times> bool" where
  "dresolve d values w =
     (if values \<noteq> [] \<and> hd values = Prom d then (w\<lparr>p_log := p_log w @ [SelfResolution d]\<rparr>, False)
      else if d_status (dfr w d) = 0 then (deferred_resolve d values w, True)
      else (w, True))"

definition dreject :: "nat \<Rightarrow> val list \<Rightarrow> pstore \<Rightarrow> pstore" where
  "dreject d values w = (if d_status (dfr w d) \<noteq> 0 then w else deferred_reject d values w)"

section \<open>Handlers\<close>

definition prep_promise :: "val list \<Rightarrow> bool \<Rightarrow> pstore \<Rightarrow> pstore \<times> val option" where
  "prep_promise values resolved w =
     (let (w, d) = new_deferred w;
          (w, ok) = (if resolved then dresolve d values w else (dreject d values w, True))
      in (w, if ok then Some (Prom d) else None))"

text \<open>A library call of a handler; the ones that throw end the handler.\<close>

fun exec_call :: "pcall \<Rightarrow> pstore \<Rightarrow> pstore \<times> bool" where
  "exec_call (CallResolve d vs) w = (if d < length (p_deferreds w) then dresolve d vs w else (w, True))"
| "exec_call (CallReject d vs) w = (if d < length (p_deferreds w) then dreject d vs w else w, True)"
| "exec_call (CallNotify d vs) w = (if d < length (p_deferreds w) then deferred_notify d vs w else w, True)"
| "exec_call (CallThen d f r u) w = (fst (promise_then d (H f) (H r) (H u) w), True)"

fun exec_calls :: "pcall list \<Rightarrow> pstore \<Rightarrow> pstore \<times> bool" where
  "exec_calls [] w = (w, True)"
| "exec_calls (c # cs) w = (case exec_call c w of (w', True) \<Rightarrow> exec_calls cs w' | (w', False) \<Rightarrow> (w', False))"

definition call_handler :: "user_code \<Rightarrow> handler \<Rightarrow> val list \<Rightarrow> pstore \<Rightarrow> pstore \<times> val option" where
  "call_handler user h args w =
     (case h of
        Fn n \<Rightarrow>
          (case exec_calls (fst (user n args)) (w\<lparr>p_log := p_log w @ [Called n args]\<rparr>) of
             (w', True) \<Rightarrow> (w', snd (user n args))
           | (w', False) \<Rightarrow> (w', None))
      | _ \<Rightarrow> (w, Some (V JNull)))"

definition handle_callback :: "user_code \<Rightarrow> val list \<Rightarrow> bool \<Rightarrow> handler \<Rightarrow> pstore \<Rightarrow> pstore \<times> val option" where
  "handle_callback user values is_resolved h w =
     (case call_handler user h [] w of
        (w', None) \<Rightarrow> (w', None)
      | (w', Some (Prom p)) \<Rightarrow>
          (case then_promise p (Prep values is_resolved) PrepReject (H Undef) w' of (w'', q) \<Rightarrow> (w'', Some (Prom q)))
      | (w', Some (V _)) \<Rightarrow> prep_promise values is_resolved w')"

text \<open>The closures of \<open>cockpit.all\<close>.\<close>

definition all_value :: "nat \<Rightarrow> nat \<Rightarrow> val list \<Rightarrow> pstore \<Rightarrow> pstore \<times> val option" where
  "all_value g key args w =
     (let x = p_groups w ! g;
          v = (case args of v # _ \<Rightarrow> v | [] \<Rightarrow> V JUndef);
          results = (if key < length (a_results x) then (a_results x)[key := Some v]
                     else a_results x @ replicate (key - length (a_results x)) None @ [Some v]);
          counter = a_counter x - 1;
          w = w\<lparr>p_groups := (p_groups w)[g := x\<lparr>a_counter := counter, a_results := results\<rparr>]\<rparr>
      in if counter = 0
         then (case dresolve (a_deferred x) (map (\<lambda>r. case r of Some v \<Rightarrow> v | None \<Rightarrow> V JUndef) results) w of
                 (w', ok) \<Rightarrow> (w', if ok then Some (V JUndef) else None))
         else (w, Some (V JUndef)))"

definition invoke :: "user_code \<Rightarrow> callback \<Rightarrow> val list \<Rightarrow> pstore \<Rightarrow> pstore \<times> val option" where
  "invoke user cb args w =
     (case cb of
        H h \<Rightarrow> call_handler user h args w
      | AdoptResolve d flag \<Rightarrow>
          (if snd (p_flags w ! flag) then (w, Some (V JUndef))
           else (deferred_resolve d args (w\<lparr>p_flags := (p_flags w)[flag := (d, True)]\<rparr>), Some (V JUndef)))
      | AdoptReject d flag \<Rightarrow>
          (if snd (p_flags w ! flag) then (w, Some (V JUndef))
           else (deferred_reject d args (w\<lparr>p_flags := (p_flags w)[flag := (d, True)]\<rparr>), Some (V JUndef)))
      | AdoptNotify d \<Rightarrow> (deferred_notify d args w, Some (V JUndef))
      | Finally is_resolved h \<Rightarrow> handle_callback user args is_resolved h w
      | Prep values is_resolved \<Rightarrow> prep_promise values is_resolved w
      | PrepReject \<Rightarrow> prep_promise args False w
      | AllValue g key \<Rightarrow> all_value g key args w
      | AllReject g \<Rightarrow> (dreject (a_deferred (p_groups w ! g)) args w, Some (V JUndef)))"

section \<open>Running the queue\<close>

text \<open>One entry of \<open>process_queue\<close>: \<open>False\<close> when an exception ends it.\<close>

definition process_entry :: "user_code \<Rightarrow> int \<Rightarrow> val list \<Rightarrow> entry \<Rightarrow> pstore \<Rightarrow> pstore \<times> bool" where
  "process_entry user status values e w =
     (let fn = (if status = 1 then e_fulfilled e else e_rejected e)
      in if is_function fn then
           (case invoke user fn values w of
              (w', None) \<Rightarrow> (w', False)
            | (w', Some v) \<Rightarrow> dresolve (e_result e) [v] w')
         else if status = 1 then dresolve (e_result e) values w
         else (dreject (e_result e) values w, True))"

text \<open>One callback of a notification.\<close>

definition notify_entry :: "user_code \<Rightarrow> val list \<Rightarrow> entry \<Rightarrow> pstore \<Rightarrow> pstore \<times> bool" where
  "notify_entry user values e w =
     (if is_function (e_updated e) then
        (case invoke user (e_updated e) values w of
           (w', None) \<Rightarrow> (w', False)
         | (w', Some v) \<Rightarrow> (deferred_notify (e_result e) [v] w', True))
      else (deferred_notify (e_result e) values w, True))"

text \<open>A loop that an exception leaves.\<close>

fun loop :: "('a \<Rightarrow> pstore \<Rightarrow> pstore \<times> bool) \<Rightarrow> 'a list \<Rightarrow> pstore \<Rightarrow> pstore \<times> bool" where
  "loop body [] w = (w, True)"
| "loop body (x # xs) w = (case body x w of (w', True) \<Rightarrow> loop body xs w' | (w', False) \<Rightarrow> (w', False))"

definition process_queue :: "user_code \<Rightarrow> nat \<Rightarrow> pstore \<Rightarrow> pstore \<times> bool" where
  "process_queue user d w =
     (case d_pending (dfr w d) of
        None \<Rightarrow> (w, False)
      | Some a \<Rightarrow>
          loop (process_entry user (d_status (dfr w d)) (d_values (dfr w d))) (p_arrays w ! a)
            (upd_d d (\<lambda>x. x\<lparr>d_scheduled := False, d_pending := None\<rparr>) w))"

fun run_task :: "user_code \<Rightarrow> task \<Rightarrow> pstore \<Rightarrow> pstore \<times> bool" where
  "run_task user (ProcessQueue d) w = process_queue user d w"
| "run_task user (NotifyTask d a values) w = loop (notify_entry user values) (p_arrays w ! a) w"

text \<open>\<open>later_drain\<close>: an exception ends the loop, and with it the tasks that are left.\<close>

definition later_drain :: "user_code \<Rightarrow> pstore \<Rightarrow> pstore" where
  "later_drain user w = fst (loop (run_task user) (p_later w) (w\<lparr>p_later := [], p_timeout := False\<rparr>))"

section \<open>The public functions\<close>

text \<open>\<open>then\<close>, \<open>catch\<close>, \<open>finally\<close>, and the functions kept for jQuery: \<open>done\<close>, \<open>fail\<close>, \<open>always\<close>, \<open>progress\<close>.\<close>

definition pthen :: "nat \<Rightarrow> handler \<Rightarrow> handler \<Rightarrow> handler \<Rightarrow> pstore \<Rightarrow> pstore \<times> nat" where
  "pthen d f r u w = then_promise d (H f) (H r) (H u) w"

definition pcatch :: "nat \<Rightarrow> handler \<Rightarrow> pstore \<Rightarrow> pstore \<times> nat" where
  "pcatch d h w = then_promise d (H NotFunction) (H h) (H Undef) w"

definition pfinally :: "nat \<Rightarrow> handler \<Rightarrow> handler \<Rightarrow> pstore \<Rightarrow> pstore \<times> nat" where
  "pfinally d h u w = then_promise d (Finally True h) (Finally False h) (H u) w"

definition pdone :: "nat \<Rightarrow> handler \<Rightarrow> pstore \<Rightarrow> pstore" where
  "pdone d h w = fst (promise_then d (H h) (H Undef) (H Undef) w)"

definition pfail :: "nat \<Rightarrow> handler \<Rightarrow> pstore \<Rightarrow> pstore" where
  "pfail d h w = fst (promise_then d (H NotFunction) (H h) (H Undef) w)"

definition palways :: "nat \<Rightarrow> handler \<Rightarrow> pstore \<Rightarrow> pstore" where
  "palways d h w = fst (promise_then d (H h) (H h) (H Undef) w)"

definition pprogress :: "nat \<Rightarrow> handler \<Rightarrow> pstore \<Rightarrow> pstore" where
  "pprogress d h w = fst (promise_then d (H NotFunction) (H NotFunction) (H h) w)"

definition promise_state :: "nat \<Rightarrow> pstore \<Rightarrow> string" where
  "promise_state d w =
     (if d_status (dfr w d) = 1 then ''resolved'' else if d_status (dfr w d) = 2 then ''rejected'' else ''pending'')"

text \<open>\<open>cockpit.when(value, ...)\<close>.\<close>

definition cwhen :: "val \<Rightarrow> callback \<Rightarrow> callback \<Rightarrow> callback \<Rightarrow> pstore \<Rightarrow> pstore \<times> nat" where
  "cwhen v f r u w =
     (let (w, d) = new_deferred w;
          w = fst (dresolve d [v] w)
      in then_promise d f r u w)"

text \<open>\<open>cockpit.when(promise).then(...)\<close> of \<open>cockpit.all\<close>, one element; and the function.\<close>

definition all_add :: "nat \<Rightarrow> nat \<Rightarrow> val \<Rightarrow> pstore \<Rightarrow> pstore" where
  "all_add g key v w =
     (let w = w\<lparr>p_groups := (p_groups w)[g := (p_groups w ! g)\<lparr>a_counter := Suc (a_counter (p_groups w ! g))\<rparr>]\<rparr>;
          (w, p) = cwhen v (H Undef) (H Undef) (H Undef) w
      in fst (promise_then p (AllValue g key) (AllReject g) (H Undef) w))"

definition call_all :: "val list \<Rightarrow> pstore \<Rightarrow> pstore \<times> nat" where
  "call_all promises w =
     (let (w, d) = new_deferred w;
          g = length (p_groups w);
          w = w\<lparr>p_groups := p_groups w @ [\<lparr>a_deferred = d, a_counter = 0, a_results = []\<rparr>]\<rparr>;
          w = fold (\<lambda>(key, v). all_add g key v) (enumerate 0 promises) w
      in (if a_counter (p_groups w ! g) = 0 then fst (dresolve d [V (JArr [])] w) else w, d))"

end
