(* ===== verification/Promise_Props.thy ===== *)
theory Promise_Props
  imports Promise
begin

text \<open>
  Properties of the promises: the invariant of the store, that a promise settles once, that its handlers
  run in order and once, that a settled promise never forgets a handler, and what an exception does.
\<close>

section \<open>The store\<close>

lemma upd_d_sel [simp]:
  "length (p_deferreds (upd_d d f w)) = length (p_deferreds w)"
  "p_deferreds (upd_d d f w) ! d' = (if d' = d \<and> d < length (p_deferreds w) then f (dfr w d) else dfr w d')"
  "p_arrays (upd_d d f w) = p_arrays w" "p_flags (upd_d d f w) = p_flags w" "p_groups (upd_d d f w) = p_groups w"
  "p_later (upd_d d f w) = p_later w" "p_log (upd_d d f w) = p_log w" "p_timeout (upd_d d f w) = p_timeout w"
  by (auto simp: upd_d_def nth_list_update list_update_beyond not_less)

fun cb_ok :: "pstore \<Rightarrow> callback \<Rightarrow> bool" where
  "cb_ok w (AdoptResolve d f) = (f < length (p_flags w) \<and> fst (p_flags w ! f) = d)"
| "cb_ok w (AdoptReject d f) = (f < length (p_flags w) \<and> fst (p_flags w ! f) = d)"
| "cb_ok w (AdoptNotify d) = (d < length (p_deferreds w))"
| "cb_ok w (AllValue g k) = (g < length (p_groups w))"
| "cb_ok w (AllReject g) = (g < length (p_groups w))"
| "cb_ok w _ = True"

definition entry_ok :: "pstore \<Rightarrow> entry \<Rightarrow> bool" where
  "entry_ok w e \<longleftrightarrow> e_result e < length (p_deferreds w) \<and> cb_ok w (e_fulfilled e) \<and> cb_ok w (e_rejected e) \<and>
     cb_ok w (e_updated e)"

definition live :: "pstore \<Rightarrow> nat \<Rightarrow> nat \<Rightarrow> bool" where
  "live w f d \<longleftrightarrow> f < length (p_flags w) \<and> p_flags w ! f = (d, False)"

fun task_ok :: "pstore \<Rightarrow> task \<Rightarrow> bool" where
  "task_ok w (ProcessQueue d) = (d < length (p_deferreds w))"
| "task_ok w (NotifyTask d a vs) = (a < length (p_arrays w))"

text \<open>An adopted promise is the only one that may still settle the deferred, and the deferred waits for it.\<close>

definition pinv :: "pstore \<Rightarrow> bool" where
  "pinv w \<longleftrightarrow>
     (\<forall>d < length (p_deferreds w). \<forall>a. d_pending (dfr w d) = Some a \<longrightarrow> a < length (p_arrays w)) \<and>
     (\<forall>es \<in> set (p_arrays w). \<forall>e \<in> set es. entry_ok w e) \<and>
     (\<forall>f d. live w f d \<longrightarrow> d < length (p_deferreds w) \<and> d_status (dfr w d) = - 1) \<and>
     (\<forall>f f' d. live w f d \<longrightarrow> live w f' d \<longrightarrow> f = f') \<and>
     (\<forall>f < length (p_flags w). fst (p_flags w ! f) < length (p_deferreds w)) \<and>
     (\<forall>x \<in> set (p_groups w). a_deferred x < length (p_deferreds w)) \<and>
     (\<forall>x \<in> set (p_later w). task_ok w x)"

text \<open>Nothing is taken away, and what has settled stays as it is.\<close>

definition ext :: "pstore \<Rightarrow> pstore \<Rightarrow> bool" where
  "ext w w' \<longleftrightarrow>
     length (p_deferreds w) \<le> length (p_deferreds w') \<and> length (p_groups w) \<le> length (p_groups w') \<and>
     length (p_flags w) \<le> length (p_flags w') \<and> length (p_arrays w) \<le> length (p_arrays w') \<and>
     (\<forall>f < length (p_flags w). fst (p_flags w' ! f) = fst (p_flags w ! f)) \<and>
     (\<forall>d < length (p_deferreds w). d_status (dfr w d) > 0 \<longrightarrow>
        d_status (dfr w' d) = d_status (dfr w d) \<and> d_values (dfr w' d) = d_values (dfr w d))"

text \<open>
  Scheduling, when the tasks \<open>Q\<close> are about to run before those of the later queue: a deferred has its
  task queued, once, exactly while it is marked; it is marked when it has settled and has handlers.  For the
  deferred \<open>but\<close> the mark may still be missing.
\<close>

definition queued :: "task list \<Rightarrow> pstore \<Rightarrow> nat \<Rightarrow> nat" where
  "queued Q w d = count_list Q (ProcessQueue d) + count_list (p_later w) (ProcessQueue d)"

definition sched_at :: "nat option \<Rightarrow> task list \<Rightarrow> pstore \<Rightarrow> nat \<Rightarrow> bool" where
  "sched_at but Q w d \<longleftrightarrow>
     queued Q w d = of_bool (d < length (p_deferreds w) \<and> d_scheduled (dfr w d)) \<and>
     (p_later w \<noteq> [] \<longrightarrow> p_timeout w) \<and>
     (d < length (p_deferreds w) \<longrightarrow>
        (if Some d = but then d_scheduled (dfr w d) \<longrightarrow> d_pending (dfr w d) \<noteq> None \<and> d_status (dfr w d) > 0
         else d_scheduled (dfr w d) = (d_pending (dfr w d) \<noteq> None \<and> d_status (dfr w d) > 0)))"

definition sched_but :: "nat option \<Rightarrow> task list \<Rightarrow> pstore \<Rightarrow> bool" where
  "sched_but but Q w \<longleftrightarrow> (\<forall>d. sched_at but Q w d)"

abbreviation sched :: "task list \<Rightarrow> pstore \<Rightarrow> bool" where
  "sched \<equiv> sched_but None"

definition keeps :: "pstore \<Rightarrow> pstore \<Rightarrow> bool" where
  "keeps w w' \<longleftrightarrow> pinv w' \<and> ext w w' \<and> (\<forall>Q. sched Q w \<longrightarrow> sched Q w')"

text \<open>The part of it that holds in the middle of an operation.\<close>

definition holds :: "pstore \<Rightarrow> pstore \<Rightarrow> bool" where
  "holds w w' \<longleftrightarrow> pinv w' \<and> ext w w'"

lemma keeps_pinv: "keeps w w' \<Longrightarrow> pinv w'"
  by (simp add: keeps_def)

lemma keeps_holds: "keeps w w' \<longleftrightarrow> holds w w' \<and> (\<forall>Q. sched Q w \<longrightarrow> sched Q w')"
  by (simp add: keeps_def holds_def)

lemma ext_refl [simp]: "ext w w"
  by (simp add: ext_def)

lemma ext_trans: "ext w1 w2 \<Longrightarrow> ext w2 w3 \<Longrightarrow> ext w1 w3"
  unfolding ext_def by (intro conjI allI impI) (auto dest: less_le_trans)

lemma keeps_trans: "keeps w1 w2 \<Longrightarrow> keeps w2 w3 \<Longrightarrow> keeps w1 w3"
  unfolding keeps_def by (blast intro: ext_trans)

lemma holds_trans: "holds w1 w2 \<Longrightarrow> holds w2 w3 \<Longrightarrow> holds w1 w3"
  unfolding holds_def by (blast intro: ext_trans)

lemma keeps_refl: "pinv w \<Longrightarrow> keeps w w"
  by (simp add: keeps_def)

lemma cb_ok_ext: "cb_ok w cb \<Longrightarrow> ext w w' \<Longrightarrow> cb_ok w' cb"
  by (cases cb) (auto simp: ext_def)

lemma task_ok_ext: "task_ok w x \<Longrightarrow> ext w w' \<Longrightarrow> task_ok w' x"
  by (cases x) (auto simp: ext_def)

lemma entry_ok_ext: "entry_ok w e \<Longrightarrow> ext w w' \<Longrightarrow> entry_ok w' e"
  by (auto simp: entry_ok_def ext_def intro: cb_ok_ext [of w _ w'])

section \<open>Every operation keeps the invariant and what has settled\<close>

lemma pinvD:
  assumes "pinv w"
  shows "d < length (p_deferreds w) \<Longrightarrow> d_pending (dfr w d) = Some a \<Longrightarrow> a < length (p_arrays w)"
    "es \<in> set (p_arrays w) \<Longrightarrow> e \<in> set es \<Longrightarrow> entry_ok w e"
    "live w f d \<Longrightarrow> d < length (p_deferreds w) \<and> d_status (dfr w d) = - 1"
    "live w f d \<Longrightarrow> live w f' d \<Longrightarrow> f = f'"
    "f < length (p_flags w) \<Longrightarrow> fst (p_flags w ! f) < length (p_deferreds w)"
    "x \<in> set (p_groups w) \<Longrightarrow> a_deferred x < length (p_deferreds w)"
    "y \<in> set (p_later w) \<Longrightarrow> task_ok w y"
  using assms unfolding pinv_def by blast+

text \<open>Changes that the invariant does not see.\<close>

definition soft :: "pstore \<Rightarrow> pstore \<Rightarrow> bool" where
  "soft w w' \<longleftrightarrow> length (p_deferreds w') = length (p_deferreds w) \<and> p_arrays w' = p_arrays w \<and>
     p_flags w' = p_flags w \<and> p_groups w' = p_groups w \<and>
     (\<forall>x \<in> set (p_later w'). x \<in> set (p_later w) \<or> task_ok w x) \<and>
     (\<forall>d. d_status (dfr w' d) = d_status (dfr w d) \<and> d_values (dfr w' d) = d_values (dfr w d) \<and>
        (d_pending (dfr w' d) = d_pending (dfr w d) \<or> d_pending (dfr w' d) = None))"

lemma soft_holds: "pinv w \<Longrightarrow> soft w w' \<Longrightarrow> holds w w'"
proof -
  assume inv: "pinv w" and s: "soft w w'"
  have e: "ext w w'" using s by (simp add: soft_def ext_def)
  have l: "live w' f d = live w f d" for f d using s by (simp add: live_def soft_def)
  have "pinv w'"
    unfolding pinv_def l
  proof (intro conjI)
    show "\<forall>d < length (p_deferreds w'). \<forall>a. d_pending (dfr w' d) = Some a \<longrightarrow> a < length (p_arrays w')"
    proof (intro allI impI)
      fix d a assume d: "d < length (p_deferreds w')" "d_pending (dfr w' d) = Some a"
      have "d_pending (dfr w' d) = d_pending (dfr w d) \<or> d_pending (dfr w' d) = None"
        using s by (simp add: soft_def)
      with d(2) have "d_pending (dfr w d) = Some a" by auto
      then show "a < length (p_arrays w')" using s d(1) pinvD(1) [OF inv] by (simp add: soft_def)
    qed
    show "\<forall>es \<in> set (p_arrays w'). \<forall>e \<in> set es. entry_ok w' e"
      using s pinvD(2) [OF inv] entry_ok_ext [OF _ e] by (auto simp: soft_def)
    show "\<forall>x \<in> set (p_later w'). task_ok w' x"
      using s pinvD(7) [OF inv] task_ok_ext [OF _ e] by (auto simp: soft_def)
  qed (use s inv in \<open>auto simp: soft_def pinv_def\<close>)
  with e show ?thesis by (simp add: holds_def)
qed

lemma soft_later: "task_ok w f \<Longrightarrow> soft w (later_invoke f w)"
  by (simp add: soft_def later_invoke_def)

lemma soft_schedule: "d < length (p_deferreds w) \<Longrightarrow> soft w (schedule_process_queue d w)"
  by (simp add: soft_def schedule_process_queue_def later_invoke_def)

lemma soft_log: "soft w (w\<lparr>p_log := l\<rparr>)"
  by (simp add: soft_def)

lemma soft_refl: "soft w w"
  by (simp add: soft_def)

lemma soft_notify: "pinv w \<Longrightarrow> d < length (p_deferreds w) \<Longrightarrow> soft w (deferred_notify d vs w)"
  using pinvD(1) [of w d] by (auto simp: deferred_notify_def soft_later soft_refl split: option.split)

lemma sched_mono:
  "sched_but b Q w \<Longrightarrow> (\<And>d. sched_at b Q w d \<Longrightarrow> sched_at b' Q' w' d) \<Longrightarrow> sched_but b' Q' w'"
  by (simp add: sched_but_def)

lemma queued_later [simp]:
  "queued Q (later_invoke x w) d = queued Q w d + of_bool (x = ProcessQueue d)"
  by (simp add: queued_def later_invoke_def)

lemma queued_upd [simp]: "queued Q (upd_d d' f w) d = queued Q w d"
  by (simp add: queued_def)

lemma queued_cong: "p_later w' = p_later w \<Longrightarrow> queued Q w' d = queued Q w d"
  by (simp add: queued_def)

lemma later_invoke_sel [simp]:
  "p_deferreds (later_invoke x w) = p_deferreds w" "p_arrays (later_invoke x w) = p_arrays w"
  "p_timeout (later_invoke x w)"
  by (simp_all add: later_invoke_def)

lemma sched_at_notify: "sched_at b Q w d \<Longrightarrow> sched_at b Q (later_invoke (NotifyTask d' a vs) w) d"
  by (simp add: sched_at_def)

lemma sched_vars [simp]:
  "sched_but but Q (w\<lparr>p_log := l\<rparr>) = sched_but but Q w" "sched_but but Q (w\<lparr>p_groups := gs\<rparr>) = sched_but but Q w"
  "sched_but but Q (w\<lparr>p_flags := fs\<rparr>) = sched_but but Q w"
  by (simp_all add: sched_but_def sched_at_def queued_def)

lemma keeps_log: "pinv w \<Longrightarrow> keeps w (w\<lparr>p_log := l\<rparr>)"
  using soft_holds [OF _ soft_log] by (simp add: keeps_holds)

lemma keeps_notify: "pinv w \<Longrightarrow> d < length (p_deferreds w) \<Longrightarrow> keeps w (deferred_notify d vs w)"
proof -
  assume "pinv w" "d < length (p_deferreds w)"
  moreover have "sched Q w \<Longrightarrow> sched Q (deferred_notify d vs w)" for Q
    by (erule sched_mono) (simp add: deferred_notify_def sched_at_notify split: option.split)
  ultimately show ?thesis using soft_holds [OF _ soft_notify] by (simp add: keeps_holds)
qed

text \<open>The mark that was missing.\<close>

lemma sched_schedule:
  assumes "sched_but (Some d) Q w" "d < length (p_deferreds w)" "d_status (dfr w d) > 0"
  shows "sched Q (schedule_process_queue d w)"
proof (cases "d_scheduled (dfr w d) \<or> d_pending (dfr w d) = None")
  case True
  have "sched Q w"
    by (rule sched_mono [OF assms(1)]) (use True in \<open>auto simp: sched_at_def split: if_splits\<close>)
  then show ?thesis using True by (simp add: schedule_process_queue_def)
next
  case False
  then show ?thesis
    by (intro sched_mono [OF assms(1)])
       (use assms in \<open>auto simp: schedule_process_queue_def sched_at_def split: if_splits\<close>)
qed

lemma keeps_new_deferred:
  assumes "pinv w"
  shows "keeps w (fst (new_deferred w))" "snd (new_deferred w) < length (p_deferreds (fst (new_deferred w)))"
proof -
  let ?w = "fst (new_deferred w)"
  have e: "ext w ?w" by (simp add: ext_def new_deferred_def nth_append)
  have l: "live ?w f d = live w f d" for f d by (simp add: live_def new_deferred_def)
  have "pinv ?w"
    unfolding pinv_def l
  proof (intro conjI)
    show "\<forall>es \<in> set (p_arrays ?w). \<forall>e \<in> set es. entry_ok ?w e"
      using pinvD(2) [OF assms] entry_ok_ext [OF _ e] by (simp add: new_deferred_def)
    show "\<forall>x \<in> set (p_later ?w). task_ok ?w x"
      using pinvD(7) [OF assms] task_ok_ext [OF _ e] by (simp add: new_deferred_def)
  qed (use assms in \<open>auto simp: new_deferred_def pinv_def nth_append less_Suc_eq\<close>)
  moreover have "sched Q w \<Longrightarrow> sched Q ?w" for Q
    by (erule sched_mono) (auto simp: sched_at_def new_deferred_def nth_append less_Suc_eq queued_def)
  ultimately show "keeps w ?w" using e by (simp add: keeps_def)
qed (simp add: new_deferred_def)

lemma holds_push_pending:
  assumes "pinv w" "d < length (p_deferreds w)" "entry_ok w x"
  shows "holds w (push_pending d x w)"
proof -
  let ?w = "push_pending d x w"
  have s: "length (p_deferreds ?w) = length (p_deferreds w)" "p_flags ?w = p_flags w" "p_groups ?w = p_groups w"
    "d_status (dfr ?w d') = d_status (dfr w d')" "d_values (dfr ?w d') = d_values (dfr w d')" for d'
    by (auto simp: push_pending_def split: option.split)
  have a: "length (p_arrays w) \<le> length (p_arrays ?w)" "p_later ?w = p_later w"
    by (simp_all add: push_pending_def split: option.split)
  have e: "ext w ?w" by (simp add: ext_def s a)
  have l: "live ?w f d' = live w f d'" for f d' by (simp add: live_def s)
  have arr: "es \<in> set (p_arrays w) \<or> (\<exists>es' \<in> insert [] (set (p_arrays w)). es = es' @ [x])" if "es \<in> set (p_arrays ?w)" for es
  proof (cases "d_pending (dfr w d)")
    case None
    then show ?thesis using that by (auto simp: push_pending_def)
  next
    case (Some a)
    then have "es \<in> insert (p_arrays w ! a @ [x]) (set (p_arrays w))"
      using that set_update_subset_insert by (fastforce simp: push_pending_def)
    then show ?thesis using pinvD(1) [OF assms(1,2) Some] by auto
  qed
  have "pinv ?w"
    unfolding pinv_def l
  proof (intro conjI)
    show "\<forall>es \<in> set (p_arrays ?w). \<forall>e \<in> set es. entry_ok ?w e"
      using arr pinvD(2) [OF assms(1)] assms(3) entry_ok_ext [OF _ e] by fastforce
    show "\<forall>x \<in> set (p_later ?w). task_ok ?w x"
      using pinvD(7) [OF assms(1)] task_ok_ext [OF _ e] by (simp add: a(2))
    show "\<forall>d < length (p_deferreds ?w). \<forall>a. d_pending (dfr ?w d) = Some a \<longrightarrow> a < length (p_arrays ?w)"
      using pinvD(1) [OF assms(1)] assms(2)
      by (auto simp: push_pending_def less_Suc_eq split: option.split)
  qed (use assms(1) in \<open>auto simp: s pinv_def\<close>)
  with e show ?thesis by (simp add: holds_def)
qed

lemma sched_push_pending:
  "sched Q w \<Longrightarrow> d < length (p_deferreds w) \<Longrightarrow> sched_but (Some d) Q (push_pending d x w)"
  by (erule sched_mono) (auto simp: push_pending_def sched_at_def queued_def split: option.split if_splits)

lemma push_pending_sel [simp]:
  "length (p_deferreds (push_pending d x w)) = length (p_deferreds w)"
  "d_status (dfr (push_pending d x w) d') = d_status (dfr w d')"
  by (auto simp: push_pending_def split: option.split)

lemma keeps_promise_then:
  assumes "pinv w" "cb_ok w f" "cb_ok w r" "cb_ok w u"
  shows "keeps w (fst (promise_then d f r u w))"
proof (cases "d \<ge> length (p_deferreds w) \<or> f = H Undef \<and> r = H Undef \<and> u = H Undef")
  case False
  obtain w1 p where n: "new_deferred w = (w1, p)" by force
  let ?e = "\<lparr>e_result = p, e_fulfilled = f, e_rejected = r, e_updated = u\<rparr>"
  let ?w2 = "push_pending d ?e w1"
  let ?w3 = "if d_status (dfr ?w2 d) > 0 then schedule_process_queue d ?w2 else ?w2"
  have 1: "keeps w w1" "p < length (p_deferreds w1)" using keeps_new_deferred [OF assms(1)] n by simp_all
  then have ok: "entry_ok w1 ?e"
    using assms(2-4) by (auto simp: entry_ok_def keeps_def intro: cb_ok_ext)
  have d: "d < length (p_deferreds w1)" using False 1 by (auto simp: keeps_def ext_def)
  have 2: "holds w1 ?w2"
    using holds_push_pending [OF _ d ok] 1 by (simp add: keeps_def)
  then have 3: "holds ?w2 ?w3"
    using soft_holds [OF _ soft_schedule] soft_holds [OF _ soft_refl] d by (simp add: holds_def)
  have "sched Q ?w3" if "sched Q w1" for Q
  proof (cases "d_status (dfr ?w2 d) > 0")
    case True
    then show ?thesis using sched_schedule [OF sched_push_pending [OF that d]] d by simp
  next
    case neg: False
    have "sched_but (Some d) Q ?w2" by (rule sched_push_pending [OF that d])
    then have "sched Q ?w2" by (rule sched_mono) (use neg in \<open>auto simp: sched_at_def split: if_splits\<close>)
    with neg show ?thesis by simp
  qed
  with 2 3 have "keeps w1 ?w3" by (auto simp: keeps_holds intro: holds_trans)
  from keeps_trans [OF 1(1) this] show ?thesis
    using False unfolding promise_then_def n Let_def by (simp only: if_False case_prod_conv fst_conv)
qed (use assms in \<open>auto simp: promise_then_def keeps_refl\<close>)

text \<open>Settling a deferred that nothing else may settle.\<close>

definition unsettled :: "nat \<Rightarrow> pstore \<Rightarrow> bool" where
  "unsettled d w \<longleftrightarrow> d < length (p_deferreds w) \<and> d_status (dfr w d) \<le> 0 \<and> (\<forall>f. \<not> live w f d)"

lemma holds_settle:
  assumes "pinv w" "unsettled d w"
    and "\<And>x. d_pending (g x) = d_pending x"
  shows "holds w (upd_d d g w)"
proof -
  let ?w = "upd_d d g w"
  have e: "ext w ?w" using assms(2) by (auto simp: ext_def unsettled_def)
  have l: "live ?w f d' = live w f d'" for f d' by (simp add: live_def)
  have "pinv ?w"
    unfolding pinv_def l
  proof (intro conjI)
    show "\<forall>es \<in> set (p_arrays ?w). \<forall>e \<in> set es. entry_ok ?w e"
      using pinvD(2) [OF assms(1)] entry_ok_ext [OF _ e] by simp
    show "\<forall>x \<in> set (p_later ?w). task_ok ?w x"
      using pinvD(7) [OF assms(1)] task_ok_ext [OF _ e] by simp
    show "\<forall>f d'. live w f d' \<longrightarrow> d' < length (p_deferreds ?w) \<and> d_status (dfr ?w d') = - 1"
      using pinvD(3) [OF assms(1)] assms(2) by (auto simp: unsettled_def)
  qed (use assms(1,3) in \<open>auto simp: pinv_def\<close>)
  with e show ?thesis by (simp add: holds_def)
qed

lemma keeps_settle:
  assumes "pinv w" "unsettled d w" "s > 0"
  shows "keeps w (schedule_process_queue d (upd_d d (\<lambda>x. x\<lparr>d_values := vs, d_status := s\<rparr>) w))"
proof -
  let ?w = "upd_d d (\<lambda>x. x\<lparr>d_values := vs, d_status := s\<rparr>) w"
  have d: "d < length (p_deferreds w)" using assms(2) by (simp add: unsettled_def)
  have 1: "holds w ?w" by (rule holds_settle [OF assms(1,2)]) simp
  then have "holds ?w (schedule_process_queue d ?w)"
    using soft_holds [OF _ soft_schedule] d by (simp add: holds_def)
  moreover have "sched Q (schedule_process_queue d ?w)" if "sched Q w" for Q
  proof (rule sched_schedule)
    show "sched_but (Some d) Q ?w"
      by (rule sched_mono [OF that]) (use assms(2,3) in \<open>auto simp: sched_at_def unsettled_def split: if_splits\<close>)
  qed (use d assms(3) in simp_all)
  ultimately show ?thesis using 1 by (auto simp: keeps_holds intro: holds_trans)
qed

lemma keeps_reject: "pinv w \<Longrightarrow> unsettled d w \<Longrightarrow> keeps w (deferred_reject d vs w)"
  unfolding deferred_reject_def by (rule keeps_settle) simp_all

lemma keeps_resolve:
  assumes "pinv w" "unsettled d w"
  shows "keeps w (deferred_resolve d vs w)"
proof -
  have plain: "keeps w (schedule_process_queue d (upd_d d (\<lambda>x. x\<lparr>d_values := vs, d_status := 1\<rparr>) w))"
    using assms by (rule keeps_settle) simp
  let ?w1 = "upd_d d (\<lambda>x. x\<lparr>d_status := - 1\<rparr>) w"
  let ?w2 = "?w1\<lparr>p_flags := p_flags ?w1 @ [(d, False)]\<rparr>"
  have 1: "holds w ?w1" by (rule holds_settle [OF assms]) simp
  have e2: "ext ?w1 ?w2" by (simp add: ext_def nth_append)
  have l: "live ?w2 f d' \<longleftrightarrow> live w f d' \<or> f = length (p_flags w) \<and> d' = d" for f d'
    by (auto simp: live_def nth_append less_Suc_eq)
  have "pinv ?w2"
    unfolding pinv_def l
  proof (intro conjI)
    show "\<forall>es \<in> set (p_arrays ?w2). \<forall>e \<in> set es. entry_ok ?w2 e"
      using 1 pinvD(2) [of ?w1] entry_ok_ext [OF _ e2] by (simp add: holds_def)
    show "\<forall>x \<in> set (p_later ?w2). task_ok ?w2 x"
      using 1 pinvD(7) [of ?w1] task_ok_ext [OF _ e2] by (simp add: holds_def)
    show "\<forall>f d'. live w f d' \<or> f = length (p_flags w) \<and> d' = d \<longrightarrow>
      d' < length (p_deferreds ?w2) \<and> d_status (dfr ?w2 d') = - 1"
      using pinvD(3) [OF assms(1)] assms(2) by (auto simp: unsettled_def)
    show "\<forall>f f' d'. (live w f d' \<or> f = length (p_flags w) \<and> d' = d) \<longrightarrow>
      (live w f' d' \<or> f' = length (p_flags w) \<and> d' = d) \<longrightarrow> f = f'"
      using pinvD(4) [OF assms(1)] assms(2) by (auto simp: unsettled_def)
  qed (use assms in \<open>auto simp: pinv_def nth_append less_Suc_eq unsettled_def\<close>)
  then have "holds w ?w2" using 1 e2 by (auto simp: holds_def intro: ext_trans)
  moreover have "sched Q w \<Longrightarrow> sched Q ?w2" for Q
    by (erule sched_mono) (use assms(2) in \<open>auto simp: sched_at_def unsettled_def queued_def split: if_splits\<close>)
  ultimately have 2: "keeps w ?w2" by (simp add: keeps_holds)
  have "keeps ?w2 (fst (promise_then p (AdoptResolve d (length (p_flags w))) (AdoptReject d (length (p_flags w)))
      (AdoptNotify d) ?w2))" for p
    using 2 assms(2) by (intro keeps_promise_then) (simp_all add: keeps_def unsettled_def)
  from keeps_trans [OF 2 this] have adopt: "keeps w (fst (promise_then p (AdoptResolve d (length (p_flags ?w1)))
      (AdoptReject d (length (p_flags ?w1))) (AdoptNotify d) ?w2))" for p by simp
  show ?thesis
    using plain adopt by (auto simp: deferred_resolve_def Let_def split: list.split val.split)
qed

lemma fresh_unsettled: "pinv w \<Longrightarrow> d < length (p_deferreds w) \<Longrightarrow> d_status (dfr w d) = 0 \<Longrightarrow> unsettled d w"
  using pinvD(3) [of w _ d] by (force simp: unsettled_def)

lemma keeps_dresolve: "pinv w \<Longrightarrow> d < length (p_deferreds w) \<Longrightarrow> keeps w (fst (dresolve d vs w))"
  using keeps_resolve [OF _ fresh_unsettled] keeps_log
  by (simp add: dresolve_def keeps_refl)

lemma keeps_dreject: "pinv w \<Longrightarrow> d < length (p_deferreds w) \<Longrightarrow> keeps w (dreject d vs w)"
  using keeps_reject [OF _ fresh_unsettled] by (simp add: dreject_def keeps_refl)

lemma keeps_prep_promise:
  assumes "pinv w"
  shows "keeps w (fst (prep_promise vs b w))"
proof -
  have "keeps w (fst (new_deferred w))" "snd (new_deferred w) < length (p_deferreds (fst (new_deferred w)))"
    using keeps_new_deferred [OF assms] by blast+
  then have "keeps w (if b then fst (dresolve (snd (new_deferred w)) vs (fst (new_deferred w)))
      else dreject (snd (new_deferred w)) vs (fst (new_deferred w)))"
    using keeps_trans [OF _ keeps_dresolve] keeps_trans [OF _ keeps_dreject] keeps_pinv by simp
  then show ?thesis by (cases b) (simp_all add: prep_promise_def split_beta Let_def)
qed

lemma keeps_exec_call: "pinv w \<Longrightarrow> keeps w (fst (exec_call c w))"
  by (cases c) (auto simp: keeps_dresolve keeps_dreject keeps_refl keeps_notify intro!: keeps_promise_then)

lemma keeps_exec_calls: "pinv w \<Longrightarrow> keeps w (fst (exec_calls cs w))"
proof (induction cs arbitrary: w)
  case (Cons c cs)
  obtain w' b where c: "exec_call c w = (w', b)" by force
  have k: "keeps w w'" using keeps_exec_call [OF Cons.prems, of c] c by simp
  then have "keeps w (fst (exec_calls cs w'))"
    using keeps_trans [OF _ Cons.IH] keeps_pinv by blast
  with k c show ?case by (simp split: bool.split)
qed (simp add: keeps_refl)

lemma keeps_call_handler:
  assumes "pinv w"
  shows "keeps w (fst (call_handler user h args w))"
proof (cases h)
  case (Fn n)
  let ?w = "w\<lparr>p_log := p_log w @ [Called n args]\<rparr>"
  have 1: "keeps w ?w" by (rule keeps_log [OF assms])
  then have "keeps w (fst (exec_calls (fst (user n args)) ?w))"
    using keeps_trans [OF 1 keeps_exec_calls] keeps_pinv by blast
  then show ?thesis using Fn by (auto simp: call_handler_def split: prod.splits bool.splits)
qed (simp_all add: call_handler_def keeps_refl assms)

lemma keeps_then_promise:
  "pinv w \<Longrightarrow> cb_ok w f \<Longrightarrow> cb_ok w r \<Longrightarrow> cb_ok w u \<Longrightarrow> keeps w (fst (then_promise d f r u w))"
  using keeps_promise_then [of w f r u d] by (auto simp: then_promise_def split: prod.splits option.splits)

lemma keeps_handle_callback:
  assumes "pinv w"
  shows "keeps w (fst (handle_callback user vs b h w))"
proof -
  obtain w' v where c: "call_handler user h [] w = (w', v)" by force
  have k: "keeps w w'" using keeps_call_handler [OF assms, of user h "[]"] c by simp
  then have inv: "pinv w'" by (simp add: keeps_def)
  have "keeps w (fst (then_promise p (Prep vs b) PrepReject (H Undef) w'))" for p
    by (rule keeps_trans [OF k keeps_then_promise [OF inv]]) simp_all
  moreover have "keeps w (fst (prep_promise vs b w'))"
    by (rule keeps_trans [OF k keeps_prep_promise [OF inv]])
  ultimately show ?thesis
    using k by (auto simp: handle_callback_def c split: option.split val.split prod.splits) (metis fst_conv)+
qed

lemma keeps_all_value:
  assumes "pinv w" "g < length (p_groups w)"
  shows "keeps w (fst (all_value g key args w))"
proof -
  have keep: "keeps w (w\<lparr>p_groups := (p_groups w)[g := (p_groups w ! g)\<lparr>a_counter := n, a_results := rs\<rparr>]\<rparr>)" (is "keeps w ?w") for n rs
  proof -
    have e: "ext w ?w" by (simp add: ext_def)
    have l: "live ?w f d = live w f d" for f d by (simp add: live_def)
    have "a_deferred (p_groups w ! g) < length (p_deferreds w)" using pinvD(6) [OF assms(1)] assms(2) by simp
    then have "\<forall>x \<in> set (p_groups ?w). a_deferred x < length (p_deferreds ?w)"
      using pinvD(6) [OF assms(1)] by (auto dest!: subsetD [OF set_update_subset_insert])
    moreover have "\<forall>es \<in> set (p_arrays ?w). \<forall>e \<in> set es. entry_ok ?w e"
      using pinvD(2) [OF assms(1)] entry_ok_ext [OF _ e] by simp
    moreover have "\<forall>x \<in> set (p_later ?w). task_ok ?w x"
      using pinvD(7) [OF assms(1)] task_ok_ext [OF _ e] by simp
    ultimately have "pinv ?w" unfolding pinv_def l using assms(1) by (auto simp: pinv_def)
    with e show ?thesis by (simp add: keeps_def)
  qed
  have d: "a_deferred (p_groups w ! g) < length (p_deferreds w)" using pinvD(6) [OF assms(1)] assms(2) by simp
  have "keeps w (fst (dresolve (a_deferred (p_groups w ! g)) vs
    (w\<lparr>p_groups := (p_groups w)[g := (p_groups w ! g)\<lparr>a_counter := n, a_results := rs\<rparr>]\<rparr>)))" for vs n rs
    by (rule keeps_trans [OF keep keeps_dresolve]) (use keep d in \<open>simp_all add: keeps_def\<close>)
  with keep show ?thesis
    by (simp add: all_value_def Let_def split: prod.split) (metis fst_conv)
qed

text \<open>The closure of an adopted promise settles the deferred that waits for it.\<close>

lemma adopt_unsettled:
  assumes "pinv w" "f < length (p_flags w)" "fst (p_flags w ! f) = d" "\<not> snd (p_flags w ! f)"
  shows "keeps w (w\<lparr>p_flags := (p_flags w)[f := (d, True)]\<rparr>)" (is "keeps w ?w")
    "unsettled d (w\<lparr>p_flags := (p_flags w)[f := (d, True)]\<rparr>)"
proof -
  have f: "live w f d" using assms(2-4) by (simp add: live_def prod_eq_iff)
  have l: "live ?w f' d' \<longleftrightarrow> live w f' d' \<and> f' \<noteq> f" for f' d'
    using assms(2) by (auto simp: live_def nth_list_update)
  have e: "ext w ?w" using assms(2,3) by (auto simp: ext_def nth_list_update)
  have "pinv ?w"
    unfolding pinv_def l
  proof (intro conjI)
    show "\<forall>es \<in> set (p_arrays ?w). \<forall>e \<in> set es. entry_ok ?w e"
      using pinvD(2) [OF assms(1)] entry_ok_ext [OF _ e] by simp
    show "\<forall>x \<in> set (p_later ?w). task_ok ?w x"
      using pinvD(7) [OF assms(1)] task_ok_ext [OF _ e] by simp
    show "\<forall>f < length (p_flags ?w). fst (p_flags ?w ! f) < length (p_deferreds ?w)"
      using pinvD(5) [OF assms(1)] assms(2,3) by (auto simp: nth_list_update)
  qed (use assms(1) in \<open>auto simp: pinv_def\<close>)
  with e show "keeps w ?w" by (simp add: keeps_def)
  show "unsettled d ?w"
    using pinvD(3) [OF assms(1) f] pinvD(4) [OF assms(1) f] unfolding unsettled_def l by auto
qed

lemma keeps_invoke:
  assumes "pinv w" "cb_ok w cb"
  shows "keeps w (fst (invoke user cb args w))"
proof (cases cb)
  case (AdoptResolve d f)
  show ?thesis
  proof (cases "snd (p_flags w ! f)")
    case False
    then show ?thesis
      using assms AdoptResolve adopt_unsettled [OF assms(1), of f d] keeps_trans [OF _ keeps_resolve] keeps_pinv
      by (simp add: invoke_def)
  qed (simp add: invoke_def AdoptResolve keeps_refl assms(1))
next
  case (AdoptReject d f)
  show ?thesis
  proof (cases "snd (p_flags w ! f)")
    case False
    then show ?thesis
      using assms AdoptReject adopt_unsettled [OF assms(1), of f d] keeps_trans [OF _ keeps_reject] keeps_pinv
      by (simp add: invoke_def)
  qed (simp add: invoke_def AdoptReject keeps_refl assms(1))
qed (use assms pinvD(6) [OF assms(1)] in
    \<open>simp_all add: invoke_def keeps_call_handler keeps_handle_callback keeps_all_value keeps_dreject
      keeps_notify keeps_prep_promise\<close>)

lemma keeps_process_entry:
  assumes "pinv w" "entry_ok w e"
  shows "keeps w (fst (process_entry user st vs e w))"
proof -
  let ?fn = "if st = 1 then e_fulfilled e else e_rejected e"
  obtain w' v where i: "invoke user ?fn vs w = (w', v)" by force
  have k: "keeps w w'" using keeps_invoke [OF assms(1), of ?fn user vs] assms(2) i by (simp add: entry_ok_def)
  have r: "e_result e < length (p_deferreds w)" "e_result e < length (p_deferreds w')"
    using assms(2) k by (auto simp: entry_ok_def keeps_def ext_def)
  have "keeps w (fst (dresolve (e_result e) [x] w'))" for x
    by (rule keeps_trans [OF k keeps_dresolve]) (use k r in \<open>simp_all add: keeps_def\<close>)
  then show ?thesis
    using k keeps_dresolve [OF assms(1) r(1)] keeps_dreject [OF assms(1) r(1)]
    unfolding process_entry_def Let_def i by (simp split: option.split)
qed

lemma keeps_notify_entry:
  assumes "pinv w" "entry_ok w e"
  shows "keeps w (fst (notify_entry user vs e w))"
proof -
  obtain w' v where i: "invoke user (e_updated e) vs w = (w', v)" by force
  have k: "keeps w w'" using keeps_invoke [OF assms(1), of "e_updated e" user vs] assms(2) i by (simp add: entry_ok_def)
  have r: "e_result e < length (p_deferreds w)" "e_result e < length (p_deferreds w')"
    using assms(2) k by (auto simp: entry_ok_def keeps_def ext_def)
  have "keeps w (deferred_notify (e_result e) [x] w')" for x
    by (rule keeps_trans [OF k keeps_notify]) (use k r in \<open>simp_all add: keeps_def\<close>)
  then show ?thesis
    using k keeps_notify [OF assms(1) r(1)] by (simp add: notify_entry_def i split: option.split)
qed

lemma keeps_loop:
  assumes "\<And>x w. P x w \<Longrightarrow> pinv w \<Longrightarrow> keeps w (fst (body x w))"
    and "\<And>x w w'. P x w \<Longrightarrow> ext w w' \<Longrightarrow> P x w'"
  shows "pinv w \<Longrightarrow> (\<And>x. x \<in> set xs \<Longrightarrow> P x w) \<Longrightarrow> keeps w (fst (loop body xs w))"
proof (induction xs arbitrary: w)
  case (Cons x xs)
  obtain w' b where c: "body x w = (w', b)" by force
  have k: "keeps w w'" using assms(1) [of x w] Cons.prems c by simp
  then have "keeps w' (fst (loop body xs w'))"
    using Cons.prems assms(2) by (intro Cons.IH) (auto simp: keeps_def)
  with k c show ?case by (auto split: bool.split intro: keeps_trans)
qed (simp add: keeps_refl)

lemma keeps_entries:
  assumes "pinv w" "a < length (p_arrays w0)" "\<And>e. e \<in> set (p_arrays w0 ! a) \<Longrightarrow> entry_ok w e"
  shows "keeps w (fst (loop (process_entry user st vs) (p_arrays w0 ! a) w))"
    "keeps w (fst (loop (notify_entry user vs) (p_arrays w0 ! a) w))"
  by (rule keeps_loop [where P = "\<lambda>e w. entry_ok w e"];
      auto intro: assms keeps_process_entry keeps_notify_entry entry_ok_ext)+

lemma run_task_keeps:
  assumes "pinv w" "task_ok w x"
  shows "holds w (fst (run_task user x w)) \<and> (\<forall>Q. sched (x # Q) w \<longrightarrow> sched Q (fst (run_task user x w)))"
proof (cases x)
  case (ProcessQueue d)
  show ?thesis
  proof (cases "d_pending (dfr w d)")
    case None
    have "\<not> sched (x # Q) w" for Q
      using None ProcessQueue assms(2) by (auto simp: sched_but_def sched_at_def queued_def intro!: exI [of _ d])
    then show ?thesis using ProcessQueue assms None by (simp add: process_queue_def holds_def)
  next
    case (Some a)
    let ?w = "upd_d d (\<lambda>x. x\<lparr>d_scheduled := False, d_pending := None\<rparr>) w"
    have k: "holds w ?w" by (rule soft_holds [OF assms(1)]) (simp add: soft_def)
    have a: "a < length (p_arrays w)" using pinvD(1) [OF assms(1) _ Some] assms(2) ProcessQueue by simp
    have "entry_ok ?w e" if "e \<in> set (p_arrays w ! a)" for e
      using entry_ok_ext [OF pinvD(2) [OF assms(1) nth_mem [OF a] that]] k by (simp add: holds_def)
    then have 2: "keeps ?w (fst (loop (process_entry user (d_status (dfr w d)) (d_values (dfr w d))) (p_arrays w ! a) ?w))"
      using k a by (intro keeps_entries(1)) (simp_all add: holds_def)
    have "sched Q ?w" if "sched (x # Q) w" for Q
      by (rule sched_mono [OF that])
         (use ProcessQueue in \<open>auto simp: sched_at_def queued_def split: if_splits\<close>)
    with k 2 Some ProcessQueue show ?thesis
      by (auto simp: process_queue_def keeps_holds intro: holds_trans)
  qed
next
  case (NotifyTask d a vs)
  then have "a < length (p_arrays w)" using assms(2) by simp
  then have "keeps w (fst (run_task user x w))"
    using NotifyTask keeps_entries(2) [OF assms(1), of a w] pinvD(2) [OF assms(1) nth_mem] by simp
  moreover have "sched Q w" if "sched (x # Q) w" for Q
    by (rule sched_mono [OF that]) (simp add: NotifyTask sched_at_def queued_def)
  ultimately show ?thesis by (simp add: keeps_holds)
qed

lemma run_tasks_keep:
  "pinv w \<Longrightarrow> (\<And>x. x \<in> set xs \<Longrightarrow> task_ok w x) \<Longrightarrow>
   holds w (fst (loop (run_task user) xs w)) \<and>
   (snd (loop (run_task user) xs w) \<longrightarrow> sched xs w \<longrightarrow> sched [] (fst (loop (run_task user) xs w)))"
proof (induction xs arbitrary: w)
  case Nil
  then show ?case by (simp add: holds_def)
next
  case (Cons x xs)
  obtain w' b where c: "run_task user x w = (w', b)" by force
  have r: "holds w w'" "sched (x # xs) w \<Longrightarrow> sched xs w'"
    using run_task_keeps [of w x user] Cons.prems c by auto
  have "holds w' (fst (loop (run_task user) xs w')) \<and>
   (snd (loop (run_task user) xs w') \<longrightarrow> sched xs w' \<longrightarrow> sched [] (fst (loop (run_task user) xs w')))"
    using r(1) Cons.prems task_ok_ext by (intro Cons.IH) (auto simp: holds_def)
  then show ?case using c r by (cases b) (auto intro: holds_trans)
qed

text \<open>A turn of the event loop in which nothing throws.\<close>

definition completes :: "user_code \<Rightarrow> pstore \<Rightarrow> bool" where
  "completes user w = snd (loop (run_task user) (p_later w) (w\<lparr>p_later := [], p_timeout := False\<rparr>))"

lemma drain_keeps:
  assumes "pinv w"
  shows "holds w (later_drain user w) \<and> (completes user w \<longrightarrow> sched [] w \<longrightarrow> sched [] (later_drain user w))"
proof -
  let ?w = "w\<lparr>p_later := [], p_timeout := False\<rparr>"
  have k: "holds w ?w" by (rule soft_holds [OF assms]) (simp add: soft_def)
  have ok: "task_ok ?w x" if "x \<in> set (p_later w)" for x
    using pinvD(7) [OF assms that] k by (auto simp: holds_def intro: task_ok_ext)
  have "sched (p_later w) ?w" if "sched [] w"
    by (rule sched_mono [OF that]) (auto simp: sched_at_def queued_def)
  then show ?thesis
    using run_tasks_keep [of ?w "p_later w" user] ok k
    by (auto simp: later_drain_def completes_def holds_def intro: ext_trans)
qed

lemma keeps_cwhen:
  assumes "pinv w" "cb_ok w f" "cb_ok w r" "cb_ok w u"
  shows "keeps w (fst (cwhen v f r u w))"
proof -
  let ?w1 = "fst (new_deferred w)" and ?d = "snd (new_deferred w)"
  have 1: "keeps w ?w1" "?d < length (p_deferreds ?w1)" using keeps_new_deferred [OF assms(1)] by blast+
  have 2: "keeps ?w1 (fst (dresolve ?d [v] ?w1))" using 1 keeps_dresolve by (simp add: keeps_def)
  have 3: "keeps w (fst (dresolve ?d [v] ?w1))" by (rule keeps_trans [OF 1(1) 2])
  have "keeps (fst (dresolve ?d [v] ?w1)) (fst (then_promise ?d f r u (fst (dresolve ?d [v] ?w1))))"
    by (rule keeps_then_promise) (use 3 assms in \<open>auto simp: keeps_def intro: cb_ok_ext\<close>)
  from keeps_trans [OF 3 this] show ?thesis by (simp add: cwhen_def Let_def split_beta)
qed

lemma keeps_group:
  assumes "pinv w" "\<And>x. x \<in> set gs \<Longrightarrow> a_deferred x < length (p_deferreds w)" "length (p_groups w) \<le> length gs"
  shows "keeps w (w\<lparr>p_groups := gs\<rparr>)" (is "keeps w ?w")
proof -
  have e: "ext w ?w" using assms(3) by (simp add: ext_def)
  have l: "live ?w f d = live w f d" for f d by (simp add: live_def)
  have "pinv ?w"
    unfolding pinv_def l
  proof (intro conjI)
    show "\<forall>es \<in> set (p_arrays ?w). \<forall>e \<in> set es. entry_ok ?w e"
      using pinvD(2) [OF assms(1)] entry_ok_ext [OF _ e] by simp
    show "\<forall>x \<in> set (p_later ?w). task_ok ?w x"
      using pinvD(7) [OF assms(1)] task_ok_ext [OF _ e] by simp
  qed (use assms(1,2) in \<open>auto simp: pinv_def\<close>)
  with e show ?thesis by (simp add: keeps_def)
qed

lemma keeps_all_add:
  assumes "pinv w" "g < length (p_groups w)"
  shows "keeps w (all_add g key v w)"
proof -
  let ?w = "w\<lparr>p_groups := (p_groups w)[g := (p_groups w ! g)\<lparr>a_counter := Suc (a_counter (p_groups w ! g))\<rparr>]\<rparr>"
  have 1: "keeps w ?w"
    using pinvD(6) [OF assms(1)] assms(2)
    by (intro keeps_group [OF assms(1)]) (auto dest!: subsetD [OF set_update_subset_insert])
  let ?c = "cwhen v (H Undef) (H Undef) (H Undef) ?w"
  have 2: "keeps ?w (fst ?c)" using 1 by (intro keeps_cwhen) (simp_all add: keeps_def)
  have "keeps (fst ?c) (fst (promise_then (snd ?c) (AllValue g key) (AllReject g) (H Undef) (fst ?c)))"
    using 2 assms(2) by (intro keeps_promise_then) (auto simp: keeps_def ext_def)
  from keeps_trans [OF keeps_trans [OF 1 2] this] show ?thesis
    by (simp add: all_add_def Let_def split_beta)
qed

lemma keeps_call_all:
  assumes "pinv w"
  shows "keeps w (fst (call_all vs w))"
proof -
  let ?w1 = "fst (new_deferred w)" and ?d = "snd (new_deferred w)"
  let ?g = "length (p_groups ?w1)"
  let ?w2 = "?w1\<lparr>p_groups := p_groups ?w1 @ [\<lparr>a_deferred = ?d, a_counter = 0, a_results = []\<rparr>]\<rparr>"
  have 1: "keeps w ?w1" "?d < length (p_deferreds ?w1)" using keeps_new_deferred [OF assms] by blast+
  have "keeps ?w1 ?w2"
    using 1 pinvD(6) [of ?w1] by (intro keeps_group) (auto simp: keeps_def)
  with 1 have 2: "keeps w ?w2" by (blast intro: keeps_trans)
  have fold: "keeps u (fold (\<lambda>(key, v). all_add ?g key v) kvs u)" if "pinv u" "?g < length (p_groups u)" for kvs u
    using that
  proof (induction kvs arbitrary: u)
    case (Cons kv kvs)
    have k: "keeps u (all_add ?g (fst kv) (snd kv) u)" using Cons.prems by (rule keeps_all_add)
    then have "?g < length (p_groups (all_add ?g (fst kv) (snd kv) u))"
      using Cons.prems(2) by (auto simp: keeps_def ext_def)
    with Cons.IH k show ?case by (auto simp: split_beta intro: keeps_trans keeps_pinv)
  qed (simp add: keeps_refl)
  let ?w3 = "fold (\<lambda>(key, v). all_add ?g key v) (enumerate 0 vs) ?w2"
  have "keeps ?w2 ?w3" using 2 by (intro fold) (simp_all add: keeps_def)
  then have 3: "keeps w ?w3" using 2 by (blast intro: keeps_trans)
  have "keeps w (fst (dresolve ?d [V (JArr [])] ?w3))"
    by (rule keeps_trans [OF 3 keeps_dresolve])
       (use 1 3 \<open>keeps ?w2 ?w3\<close> in \<open>auto simp: keeps_def ext_def\<close>)
  with 3 show ?thesis by (simp add: call_all_def Let_def split_beta)
qed

section \<open>Steps\<close>

text \<open>What other code may do between two turns of the event loop.\<close>

inductive pcall_step :: "pstore \<Rightarrow> pstore \<Rightarrow> bool" where
  new_d: "pcall_step w (fst (new_deferred w))"
| call: "pcall_step w (fst (exec_call c w))"
| fin: "pcall_step w (fst (pfinally d h u w))"
| cwhen: "pcall_step w (fst (cwhen v (H f) (H r) (H u) w))"
| all: "pcall_step w (fst (call_all vs w))"

text \<open>Those, and the turn that drains the queue.\<close>

inductive pstep :: "user_code \<Rightarrow> pstore \<Rightarrow> pstore \<Rightarrow> bool" for user where
  outside: "pcall_step w w' \<Longrightarrow> pstep user w w'"
| turn: "p_timeout w \<Longrightarrow> pstep user w (later_drain user w)"

inductive preachable :: "user_code \<Rightarrow> pstore \<Rightarrow> bool" for user where
  start: "preachable user init_store"
| further: "preachable user w \<Longrightarrow> pstep user w w' \<Longrightarrow> preachable user w'"

text \<open>Histories in which no handler threw.\<close>

inductive pclean :: "user_code \<Rightarrow> pstore \<Rightarrow> bool" for user where
  start: "pclean user init_store"
| outside: "pclean user w \<Longrightarrow> pcall_step w w' \<Longrightarrow> pclean user w'"
| turn: "pclean user w \<Longrightarrow> p_timeout w \<Longrightarrow> completes user w \<Longrightarrow> pclean user (later_drain user w)"

inductive_cases pcall_stepE: "pcall_step w w'"

inductive_cases pstepE: "pstep user w w'"

lemma keeps_pcall_step: "pinv w \<Longrightarrow> pcall_step w w' \<Longrightarrow> keeps w w'"
  by (erule pcall_stepE)
     (simp_all add: pfinally_def keeps_new_deferred(1) keeps_exec_call keeps_then_promise keeps_cwhen keeps_call_all)

lemma holds_pstep: "pinv w \<Longrightarrow> pstep user w w' \<Longrightarrow> holds w w'"
  using keeps_pcall_step drain_keeps by (auto elim!: pstepE simp: keeps_holds)

lemma init_pinv: "pinv init_store" "sched [] init_store"
  by (simp_all add: pinv_def init_store_def live_def sched_but_def sched_at_def queued_def)

lemma preachable_pinv: "preachable user w \<Longrightarrow> pinv w"
proof (induction rule: preachable.induct)
  case start
  show ?case by (rule init_pinv)
next
  case (further w w')
  then show ?case using holds_pstep by (auto simp: holds_def)
qed

lemma pclean_sched: "pclean user w \<Longrightarrow> pinv w \<and> sched [] w"
proof (induction rule: pclean.induct)
  case start
  show ?case using init_pinv by blast
next
  case (outside w w')
  then show ?case using keeps_pcall_step [of w w'] by (simp add: keeps_def)
next
  case (turn w)
  then show ?case using drain_keeps [of w user] by (simp add: holds_def)
qed

lemma ext_psteps: "(pstep user)\<^sup>*\<^sup>* w w' \<Longrightarrow> pinv w \<Longrightarrow> ext w w'"
proof (induction rule: converse_rtranclp_induct)
  case (step x y)
  then have "holds x y" by (blast intro: holds_pstep)
  with step show ?case by (auto simp: holds_def intro: ext_trans)
qed simp

text \<open>C9: a promise settles once: whatever is called on it later, whatever the handlers do, however promises
  are resolved with promises, and whichever exceptions are thrown, a resolved or rejected promise keeps
  its state and its values for good.\<close>

theorem promise_settles_once:
  assumes "preachable user w" and "d < length (p_deferreds w)" and "promise_state d w \<noteq> ''pending''"
    and "(pstep user)\<^sup>*\<^sup>* w w'"
  shows "promise_state d w' = promise_state d w \<and> d_values (dfr w' d) = d_values (dfr w d)"
proof -
  have "ext w w'" by (rule ext_psteps [OF assms(4) preachable_pinv [OF assms(1)]])
  moreover have "0 < d_status (dfr w d)" using assms(3) by (auto simp: promise_state_def split: if_splits)
  ultimately show ?thesis using assms(2) by (simp add: ext_def promise_state_def)
qed

theorem promise_settles_once_witness:
  "promise_state 0 (fst (exec_call (CallReject 0 [V JNull]) (fst (exec_call (CallResolve 0 [V (JNum 1)]) (fst (new_deferred init_store)))))) =
     ''resolved''"
proof -
  let ?user = "\<lambda>n args. ([], Some (V JUndef))"
  let ?w1 = "fst (new_deferred init_store)"
  let ?w2 = "fst (exec_call (CallResolve 0 [V (JNum 1)]) ?w1)"
  have "preachable ?user ?w2"
    by (intro preachable.further [OF _ pstep.outside [OF pcall_step.call]]
        preachable.further [OF _ pstep.outside [OF pcall_step.new_d]] preachable.start)
  moreover have "(pstep ?user)\<^sup>*\<^sup>* ?w2 (fst (exec_call (CallReject 0 [V JNull]) ?w2))"
    by (intro r_into_rtranclp pstep.outside pcall_step.call)
  moreover have "promise_state 0 ?w2 = ''resolved''" "0 < length (p_deferreds ?w2)" by code_simp+
  ultimately show ?thesis using promise_settles_once [of ?user ?w2 0] by simp
qed

section \<open>No handler is forgotten\<close>

text \<open>C10: as long as no handler throws, a promise that is resolved or rejected and has handlers waiting has the
  task that will run them in the later queue, and the timer that drains the queue is set: handlers of a
  settled promise always get their turn, whether they were added before or after it settled.\<close>

theorem handlers_get_their_turn:
  assumes "pclean user w" and "d < length (p_deferreds w)" and "promise_state d w \<noteq> ''pending''"
    and "d_pending (dfr w d) \<noteq> None"
  shows "ProcessQueue d \<in> set (p_later w) \<and> p_timeout w"
proof -
  have at: "sched_at None [] w d" using pclean_sched [OF assms(1)] by (simp add: sched_but_def)
  have "d_status (dfr w d) > 0" using assms(3) by (auto simp: promise_state_def split: if_splits)
  with at assms(2,4) have "count_list (p_later w) (ProcessQueue d) = 1" by (auto simp: sched_at_def queued_def)
  then have "ProcessQueue d \<in> set (p_later w)" using count_notin by fastforce
  moreover from this have "p_timeout w" using at by (auto simp: sched_at_def)
  ultimately show ?thesis ..
qed

theorem handlers_get_their_turn_witness:
  "ProcessQueue 0 \<in> set (p_later (fst (exec_call (CallThen 0 (Fn 7) Undef Undef)
     (fst (exec_call (CallResolve 0 [V (JNum 1)]) (fst (new_deferred init_store)))))))"
proof -
  let ?user = "\<lambda>n args. ([], Some (V JUndef))"
  let ?w = "fst (exec_call (CallThen 0 (Fn 7) Undef Undef)
     (fst (exec_call (CallResolve 0 [V (JNum 1)]) (fst (new_deferred init_store)))))"
  have "pclean ?user ?w"
    by (intro pclean.outside [OF _ pcall_step.call] pclean.outside [OF _ pcall_step.new_d] pclean.start)
  moreover have "promise_state 0 ?w = ''resolved''" "0 < length (p_deferreds ?w)" "d_pending (dfr ?w 0) \<noteq> None"
    by code_simp+
  ultimately show ?thesis using handlers_get_their_turn [of ?user ?w 0] by simp
qed

section \<open>Handlers run in order, once, with the settled values\<close>

fun handler_calls :: "val list \<Rightarrow> callback \<Rightarrow> plog list" where
  "handler_calls vs (H (Fn n)) = [Called n vs]"
| "handler_calls vs (Finally b (Fn n)) = [Called n []]"
| "handler_calls vs _ = []"

lemma log_base [simp]:
  "p_log (later_invoke x w) = p_log w" "p_log (schedule_process_queue d w) = p_log w"
  "p_log (push_pending d e w) = p_log w" "p_log (deferred_notify d vs w) = p_log w"
  "p_log (fst (new_deferred w)) = p_log w"
  by (simp_all add: later_invoke_def schedule_process_queue_def push_pending_def deferred_notify_def new_deferred_def
      split: option.split)

lemma log_promise_then [simp]: "p_log (fst (promise_then d f r u w)) = p_log w"
  by (simp add: promise_then_def Let_def split_beta)

lemma log_then_promise [simp]: "p_log (fst (then_promise d f r u w)) = p_log w"
  using log_promise_then [of d f r u w] unfolding then_promise_def
  by (simp del: log_promise_then split: prod.split option.split) (metis fst_conv)

lemma log_settle [simp]: "p_log (deferred_resolve d vs w) = p_log w" "p_log (deferred_reject d vs w) = p_log w"
  "p_log (dreject d vs w) = p_log w"
  by (simp_all add: deferred_resolve_def deferred_reject_def dreject_def Let_def split: list.split val.split)

lemma log_dresolve: "snd (dresolve d vs w) \<Longrightarrow> p_log (fst (dresolve d vs w)) = p_log w"
  by (auto simp: dresolve_def split: if_splits)

lemma log_exec_calls: "snd (exec_calls cs w) \<Longrightarrow> p_log (fst (exec_calls cs w)) = p_log w"
proof (induction cs arbitrary: w)
  case (Cons c cs)
  have "snd (exec_call c w) \<Longrightarrow> p_log (fst (exec_call c w)) = p_log w"
    by (cases c) (auto simp: log_dresolve)
  with Cons show ?case by (auto split: prod.splits bool.splits)
qed simp

lemma log_call_handler:
  assumes "call_handler user h args w = (w', Some v)"
  shows "p_log w' = p_log w @ handler_calls args (H h)"
proof (cases h)
  case (Fn n)
  then show ?thesis
    using assms log_exec_calls [of "fst (user n args)" "w\<lparr>p_log := p_log w @ [Called n args]\<rparr>"]
    by (auto simp: call_handler_def split: prod.splits bool.splits)
qed (use assms in \<open>auto simp: call_handler_def\<close>)

lemma log_prep_promise: "prep_promise vs b w = (w', Some v) \<Longrightarrow> p_log w' = p_log w"
  using log_dresolve [of "snd (new_deferred w)" vs "fst (new_deferred w)"]
  by (cases b) (auto simp: prep_promise_def Let_def split_beta split: if_splits)

lemma log_handle_callback:
  assumes "handle_callback user vs b h w = (w', Some v)"
  shows "p_log w' = p_log w @ handler_calls vs (Finally b h)"
proof -
  obtain w1 r where c: "call_handler user h [] w = (w1, r)" by force
  have "handler_calls [] (H h) = handler_calls vs (Finally b h)" by (cases h) simp_all
  moreover have "p_log w' = p_log w1"
    using assms log_prep_promise [of vs b w1 w' v] log_then_promise [of _ "Prep vs b" PrepReject "H Undef" w1]
    by (auto simp: handle_callback_def c simp del: log_then_promise split: option.splits val.splits prod.splits)
      (metis fst_conv)
  moreover have "r \<noteq> None" using assms by (cases r) (auto simp: handle_callback_def c)
  ultimately show ?thesis using log_call_handler c by (metis option.collapse)
qed

lemma log_dresolve_pair: "dresolve d vs w = (w', True) \<Longrightarrow> p_log w' = p_log w"
  using log_dresolve [of d vs w] by simp

lemma log_all_value: "all_value g k args w = (w', Some v) \<Longrightarrow> p_log w' = p_log w"
  by (auto simp: all_value_def Let_def split: if_splits prod.splits dest!: log_dresolve_pair)

lemma log_invoke:
  assumes "invoke user cb vs w = (w', Some v)"
  shows "p_log w' = p_log w @ handler_calls vs cb"
  by (cases cb)
     (use assms log_call_handler log_handle_callback log_prep_promise log_all_value in
       \<open>auto simp: invoke_def split: if_splits\<close>)

lemma log_process_entry:
  assumes "process_entry user st vs e w = (w', True)"
  shows "p_log w' = p_log w @ handler_calls vs (if st = 1 then e_fulfilled e else e_rejected e)"
proof -
  let ?fn = "if st = 1 then e_fulfilled e else e_rejected e"
  obtain w1 r where i: "invoke user ?fn vs w = (w1, r)" by force
  show ?thesis
  proof (cases "is_function ?fn")
    case True
    with assms i have "r \<noteq> None" by (cases r) (auto simp: process_entry_def Let_def)
    then obtain v where "r = Some v" by blast
    with True assms i show ?thesis
      using log_invoke [of user ?fn vs w w1 v] log_dresolve_pair [of "e_result e" "[v]" w1 w']
      by (simp add: process_entry_def Let_def)
  next
    case False
    then have "handler_calls vs ?fn = []" by (auto simp: is_function_def)
    with False assms show ?thesis
      using log_dresolve_pair [of "e_result e" vs w w']
      by (cases "st = 1") (auto simp: process_entry_def Let_def)
  qed
qed

lemma log_entries:
  "loop (process_entry user st vs) es w = (w', True) \<Longrightarrow>
   p_log w' = p_log w @ concat (map (\<lambda>e. handler_calls vs (if st = 1 then e_fulfilled e else e_rejected e)) es)"
proof (induction es arbitrary: w)
  case (Cons e es)
  obtain w1 b where c: "process_entry user st vs e w = (w1, b)" by force
  with Cons.prems have b by (cases b) simp_all
  with c Cons show ?case using log_process_entry [of user st vs e w w1] by simp
qed simp



section \<open>What an exception does\<close>

text \<open>Function 0 throws, every other one returns.\<close>

definition throwing :: user_code where
  "throwing n args = ([], if n = 0 then None else Some (V JUndef))"

text \<open>Two resolved promises, each with a handler: the first one throws.\<close>

definition two_promises :: pstore where
  "two_promises =
     pdone 1 (Fn 1) (pdone 0 (Fn 0) (fst (exec_call (CallResolve 1 [V JNull]) (fst (exec_call (CallResolve 0 [V JNull])
       (fst (new_deferred (fst (new_deferred init_store)))))))))"

text \<open>a handler that throws takes the others with it: the exception leaves \<open>later_drain\<close>, whose local queue
  is lost, so the handler of an unrelated promise that was due in the same turn is never called, and will
  not be: its promise is marked as scheduled but no task and no timer is left.\<close>

theorem exception_drops_other_handlers:
  "p_log (later_drain throwing two_promises) = [Called 0 [V JNull]] \<and>
   promise_state 1 (later_drain throwing two_promises) = ''resolved'' \<and>
   d_pending (dfr (later_drain throwing two_promises) 1) \<noteq> None \<and>
   d_scheduled (dfr (later_drain throwing two_promises) 1) \<and>
   p_later (later_drain throwing two_promises) = [] \<and> \<not> p_timeout (later_drain throwing two_promises)"
  by code_simp

end
