(* ===== verification/Events.thy ===== *)
theory Events
  imports JS_Prelude "HOL-Library.Sublist"
begin

text \<open>
  Event targets of \<open>src/base1/cockpit.js\<close>: \<open>event_mixin\<close> and \<open>invoke_functions\<close>.

  Listeners are numbered functions of other code.  What a listener does to the target while it runs (add and
  remove listeners) is the parameter \<open>act\<close>; the loop of \<open>invoke_functions\<close> runs over the live array, whose
  elements may become \<open>null\<close> and which may grow under it.
\<close>

record target =
  h_lists :: "(string, nat option list) obj"
  h_on :: "(string, nat) obj"

datatype listener_action = Add string nat | Remove string nat

definition listeners :: "target \<Rightarrow> string \<Rightarrow> nat option list" where
  "listeners tg ty = (case oget (h_lists tg) ty of None \<Rightarrow> [] | Some l \<Rightarrow> l)"

definition add_event_listener :: "string \<Rightarrow> nat \<Rightarrow> target \<Rightarrow> target" where
  "add_event_listener ty h tg = tg\<lparr>h_lists := oset (h_lists tg) ty (listeners tg ty @ [Some h])\<rparr>"

text \<open>\<open>handlers[type][i] = null; break\<close> at the first element that is the handler.\<close>

fun null_first :: "nat \<Rightarrow> nat option list \<Rightarrow> nat option list" where
  "null_first h [] = []"
| "null_first h (x # xs) = (if x = Some h then None # xs else x # null_first h xs)"

definition remove_event_listener :: "string \<Rightarrow> nat \<Rightarrow> target \<Rightarrow> target" where
  "remove_event_listener ty h tg =
     (case oget (h_lists tg) ty of
        None \<Rightarrow> tg
      | Some l \<Rightarrow> tg\<lparr>h_lists := oset (h_lists tg) ty (null_first h l)\<rparr>)"

fun listener_act :: "listener_action \<Rightarrow> target \<Rightarrow> target" where
  "listener_act (Add ty h) tg = add_event_listener ty h tg"
| "listener_act (Remove ty h) tg = remove_event_listener ty h tg"

text \<open>\<open>invoke_functions\<close>: \<open>k\<close> is what is left of the length read at the start.\<close>

fun invoke_functions :: "(nat \<Rightarrow> listener_action list) \<Rightarrow> string \<Rightarrow> nat \<Rightarrow> nat \<Rightarrow> target \<Rightarrow> target \<times> nat list" where
  "invoke_functions act ty i 0 tg = (tg, [])"
| "invoke_functions act ty i (Suc k) tg =
     (case listeners tg ty ! i of
        None \<Rightarrow> invoke_functions act ty (Suc i) k tg
      | Some h \<Rightarrow>
          (case invoke_functions act ty (Suc i) k (fold listener_act (act h) tg) of (tg', calls) \<Rightarrow> (tg', h # calls)))"

text \<open>\<open>dispatchEvent\<close>: the \<open>on\<close> property first; the length of the array is read after it has run.\<close>

definition dispatch_event :: "(nat \<Rightarrow> listener_action list) \<Rightarrow> string \<Rightarrow> target \<Rightarrow> target \<times> nat list" where
  "dispatch_event act ty tg =
     (let (tg, first) = (case oget (h_on tg) ty of
                           None \<Rightarrow> (tg, [])
                         | Some h \<Rightarrow> (fold listener_act (act h) tg, [h]));
          (tg, calls) = invoke_functions act ty 0 (length (listeners tg ty)) tg
      in (tg, first @ calls))"

section \<open>Lists of listeners only grow and lose\<close>

definition present :: "nat option list \<Rightarrow> nat list" where
  "present l = List.map_filter id l"

lemma present_simps [simp]:
  "present [] = []" "present (None # l) = present l" "present (Some h # l) = h # present l"
  "present (l @ l') = present l @ present l'"
  by (simp_all add: present_def map_filter_simps map_filter_def)

text \<open>Every element is as before or gone, and there may be more at the end.\<close>

definition loses :: "nat option list \<Rightarrow> nat option list \<Rightarrow> bool" where
  "loses l l' \<longleftrightarrow> length l \<le> length l' \<and> (\<forall>i < length l. l' ! i = l ! i \<or> l' ! i = None)"

lemma loses_refl [simp]: "loses l l"
  by (simp add: loses_def)

lemma loses_trans: "loses l1 l2 \<Longrightarrow> loses l2 l3 \<Longrightarrow> loses l1 l3"
  unfolding loses_def by (metis le_trans less_le_trans)

lemma null_first_loses: "loses l (null_first h l)"
proof (induction l)
  case (Cons x l)
  then show ?case by (auto simp: loses_def nth_Cons split: nat.split)
qed simp

lemma listener_act_loses: "loses (listeners tg ty) (listeners (listener_act a tg) ty)"
  by (cases a) (auto simp: add_event_listener_def remove_event_listener_def listeners_def null_first_loses nth_append
      loses_def [of _ "_ @ _"] split: option.split)

lemma listener_acts_lose: "loses (listeners tg ty) (listeners (fold listener_act as tg) ty)"
  by (induction as arbitrary: tg) (auto intro: loses_trans listener_act_loses)

lemma take_drop_present:
  assumes "loses l l'" "i + k \<le> length l"
  shows "subseq (present (take k (drop i l'))) (present (take k (drop i l)))"
  using assms(2)
proof (induction k arbitrary: i)
  case (Suc k)
  have i: "i < length l" "i < length l'" using Suc.prems assms(1) by (auto simp: loses_def)
  have "take (Suc k) (drop i l) = l ! i # take k (drop (Suc i) l)"
    "take (Suc k) (drop i l') = l' ! i # take k (drop (Suc i) l')"
    using i by (simp_all add: Cons_nth_drop_Suc [symmetric])
  moreover have "l' ! i = l ! i \<or> l' ! i = None" using assms(1) i by (auto simp: loses_def)
  moreover have "subseq (present (take k (drop (Suc i) l'))) (present (take k (drop (Suc i) l)))"
    using Suc by simp
  ultimately show ?case by (cases "l ! i") (auto intro: subseq_Cons')
qed simp

lemma invoke_calls_subseq:
  "i + k \<le> length (listeners tg ty) \<Longrightarrow>
   subseq (snd (invoke_functions act ty i k tg)) (present (take k (drop i (listeners tg ty))))"
proof (induction k arbitrary: i tg)
  case (Suc k)
  have i: "i < length (listeners tg ty)" using Suc.prems by simp
  have split: "take (Suc k) (drop i (listeners tg ty)) = listeners tg ty ! i # take k (drop (Suc i) (listeners tg ty))"
    using i by (simp add: Cons_nth_drop_Suc [symmetric])
  show ?case
  proof (cases "listeners tg ty ! i")
    case None
    then show ?thesis using Suc split by simp
  next
    case (Some h)
    let ?tg = "fold listener_act (act h) tg"
    have l: "loses (listeners tg ty) (listeners ?tg ty)" by (rule listener_acts_lose)
    have "subseq (snd (invoke_functions act ty (Suc i) k ?tg)) (present (take k (drop (Suc i) (listeners ?tg ty))))"
      using Suc.prems l by (intro Suc.IH) (auto simp: loses_def)
    also have "subseq \<dots> (present (take k (drop (Suc i) (listeners tg ty))))"
      using Suc.prems by (intro take_drop_present [OF l]) simp
    finally show ?thesis using Some split by (simp add: split_beta)
  qed
qed simp

lemma invoke_pure:
  assumes "\<And>h. act h = []"
  shows "i + k \<le> length (listeners tg ty) \<Longrightarrow>
    invoke_functions act ty i k tg = (tg, present (take k (drop i (listeners tg ty))))"
proof (induction k arbitrary: i)
  case (Suc k)
  then have "take (Suc k) (drop i (listeners tg ty)) = listeners tg ty ! i # take k (drop (Suc i) (listeners tg ty))"
    by (simp add: Cons_nth_drop_Suc [symmetric])
  with Suc show ?case by (cases "listeners tg ty ! i") (simp_all add: assms)
qed simp

section \<open>What a dispatch calls\<close>

text \<open>whatever the listeners do to the target while an event is dispatched, an event without an \<open>on\<close> handler
  calls only listeners that were registered when it was dispatched, in the order of their registration, and
  each registration at most once: a listener added on the way is not called, one removed before its turn
  need not be.\<close>

theorem dispatch_registered_only:
  assumes "oget (h_on tg) ty = None"
  shows "subseq (snd (dispatch_event act ty tg)) (present (listeners tg ty))"
  using invoke_calls_subseq [of 0 "length (listeners tg ty)" tg ty act] assms
  by (simp add: dispatch_event_def split_beta)

theorem dispatch_registered_only_witness:
  "subseq (snd (dispatch_event (\<lambda>h. if h = 1 then [Remove ''x'' 2, Add ''x'' 4] else []) ''x''
     \<lparr>h_lists = [(''x'', [Some 1, Some 2, Some 3])], h_on = []\<rparr>)) [1, 2, 3]"
  using dispatch_registered_only [of "\<lparr>h_lists = [(''x'', [Some 1, Some 2, Some 3])], h_on = []\<rparr>" "''x''"
      "\<lambda>h. if h = 1 then [Remove ''x'' 2, Add ''x'' 4] else []"]
  by (simp add: listeners_def)

text \<open>when no listener changes the target, a dispatch calls the \<open>on\<close> handler and then every registered
  listener that was not removed, all of them, in order.\<close>

theorem dispatch_calls_all:
  assumes "\<And>h. act h = []"
  shows "dispatch_event act ty tg =
    (tg, (case oget (h_on tg) ty of None \<Rightarrow> [] | Some h \<Rightarrow> [h]) @ present (listeners tg ty))"
  using invoke_pure [of act 0 "length (listeners tg ty)" tg ty] assms
  by (simp add: dispatch_event_def split: option.split)

end
