(* ===== verification/Uri.thy ===== *)
theory Uri
  imports Utf8
begin

text \<open>
  \<open>encodeURIComponent\<close> and \<open>decodeURIComponent\<close> of the language, on texts (lists of code points), as the
  location code of \<open>src/base1/cockpit.js\<close> uses them.  An escaped text is a sequence of tokens, a literal
  character or a \<open>%XX\<close>; the lemmas show how the string operations of the source act on the tokens.
\<close>

type_synonym ctext = "nat list"

abbreviation tx :: "string \<Rightarrow> ctext" where
  "tx s \<equiv> map of_char s"

datatype tok = Lit nat | Pct nat

definition hex_digit :: "nat \<Rightarrow> nat" where
  "hex_digit n = (if n < 10 then 48 + n else 55 + n)"

definition hex_val :: "nat \<Rightarrow> nat option" where
  "hex_val c = (if 48 \<le> c \<and> c \<le> 57 then Some (c - 48) else if 65 \<le> c \<and> c \<le> 70 then Some (c - 55)
     else if 97 \<le> c \<and> c \<le> 102 then Some (c - 87) else None)"

text \<open>Letters, digits and \<open>- _ . ! ~ * ' ( )\<close> are not escaped.\<close>

definition unreserved :: "nat \<Rightarrow> bool" where
  "unreserved c \<longleftrightarrow> 65 \<le> c \<and> c \<le> 90 \<or> 97 \<le> c \<and> c \<le> 122 \<or> 48 \<le> c \<and> c \<le> 57 \<or>
     c \<in> set [45, 95, 46, 33, 126, 42, 39, 40, 41]"

fun render_tok :: "tok \<Rightarrow> ctext" where
  "render_tok (Lit c) = [c]"
| "render_tok (Pct b) = [37, hex_digit (b div 16), hex_digit (b mod 16)]"

abbreviation render :: "tok list \<Rightarrow> ctext" where
  "render ts \<equiv> concat (map render_tok ts)"

definition enc_char :: "nat \<Rightarrow> tok list" where
  "enc_char cp = (if unreserved cp then [Lit cp] else map Pct (utf8_of cp))"

definition encode_toks :: "ctext \<Rightarrow> tok list" where
  "encode_toks s = concat (map enc_char s)"

definition encode_uri_component :: "ctext \<Rightarrow> ctext option" where
  "encode_uri_component s = (if list_ex surrogate s then None else Some (render (encode_toks s)))"

fun parse_toks :: "ctext \<Rightarrow> tok list option" where
  "parse_toks [] = Some []"
| "parse_toks (c # s) =
     (if c = 37 then
        (case s of
           a # b # r \<Rightarrow>
             (case (hex_val a, hex_val b) of
                (Some x, Some y) \<Rightarrow> map_option ((#) (Pct (16 * x + y))) (parse_toks r)
              | _ \<Rightarrow> None)
         | _ \<Rightarrow> None)
      else map_option ((#) (Lit c)) (parse_toks s))"

fun tok_bytes :: "tok \<Rightarrow> nat list" where
  "tok_bytes (Lit c) = utf8_of c"
| "tok_bytes (Pct b) = [b]"

text \<open>The bytes of the escapes and of the literal characters have to be well-formed together.\<close>

definition decode_uri_component :: "ctext \<Rightarrow> ctext option" where
  "decode_uri_component t =
     (case parse_toks t of None \<Rightarrow> None | Some ts \<Rightarrow> uri_decode (concat (map tok_bytes ts)))"

section \<open>Tokens and texts\<close>

fun tok_ok :: "tok \<Rightarrow> bool" where
  "tok_ok (Lit c) = (c \<noteq> 37)"
| "tok_ok (Pct b) = (b < 256)"

lemma nibbles: "(b :: nat) < 256 \<Longrightarrow> b div 16 < 16" "(b :: nat) mod 16 < 16"
  by (simp_all add: less_mult_imp_div_less)

lemma hex_roundtrip: "n < 16 \<Longrightarrow> hex_val (hex_digit n) = Some n"
  by (auto simp: hex_val_def hex_digit_def)

lemma parse_render: "list_all tok_ok ts \<Longrightarrow> parse_toks (render ts) = Some ts"
proof (induction ts)
  case (Cons t ts)
  show ?case
  proof (cases t)
    case (Pct b)
    with Cons.prems have "b div 16 < 16" "b mod 16 < 16" by (simp_all add: nibbles)
    with Pct Cons show ?thesis by (simp add: hex_roundtrip)
  qed (use Cons in simp)
qed simp

lemma sextet_less: "(n :: nat) mod 64 < 128"
  by (rule less_trans [of _ 64]) simp_all

lemma utf8_of_bytes:
  assumes "scalar cp"
  shows "list_all (\<lambda>b. b < 256) (utf8_of cp)"
  using assms
proof (cases rule: utf8_cases)
  case two
  then have "cp div 64 < 32" by simp
  then show ?thesis using two(3) by (simp add: sextet_less)
next
  case three
  then have "cp div 4096 < 16" by simp
  then show ?thesis using three(3) by (simp add: sextet_less)
next
  case four
  then have "cp div 262144 < 8" by simp
  then show ?thesis using four(3) by (simp add: sextet_less)
qed simp

lemma unreserved_facts: "unreserved c \<Longrightarrow> c < 128 \<and> c \<noteq> 37 \<and> c \<noteq> 47 \<and> c \<noteq> 63 \<and> c \<noteq> 38 \<and> c \<noteq> 61 \<and> c \<noteq> 35"
  by (auto simp: unreserved_def)

lemma enc_char_ok: "scalar cp \<Longrightarrow> list_all tok_ok (enc_char cp)"
  using unreserved_facts utf8_of_bytes by (auto simp: enc_char_def list.pred_map o_def list_all_iff)

lemma enc_char_bytes: "concat (map tok_bytes (enc_char cp)) = utf8_of cp"
  by (auto simp: enc_char_def o_def)

lemma encode_toks_ok: "list_all scalar s \<Longrightarrow> list_all tok_ok (encode_toks s)"
  using enc_char_ok by (induction s) (auto simp: encode_toks_def)

lemma encode_toks_bytes: "concat (map tok_bytes (encode_toks s)) = concat (map utf8_of s)"
  by (induction s) (simp_all add: encode_toks_def enc_char_bytes)

text \<open>Any escaping of the same bytes decodes to the same text.\<close>

lemma decode_toks:
  assumes "list_all tok_ok ts" "concat (map tok_bytes ts) = concat (map utf8_of s)" "list_all scalar s"
  shows "decode_uri_component (render ts) = Some s"
  using assms by (simp add: decode_uri_component_def parse_render uri_decode_encode)

lemma uri_roundtrip:
  assumes "list_all scalar s"
  shows "\<exists>e. encode_uri_component s = Some e \<and> decode_uri_component e = Some s"
  using decode_toks [OF encode_toks_ok [OF assms] encode_toks_bytes assms] assms
  by (auto simp: encode_uri_component_def list_all_iff list_ex_iff scalar_def)

section \<open>String operations on tokens\<close>

text \<open>Replacing an escape by a literal character, the first one or all of them.\<close>

fun unescape_first :: "nat \<Rightarrow> tok list \<Rightarrow> tok list" where
  "unescape_first b [] = []"
| "unescape_first b (t # ts) = (if t = Pct b then Lit b # ts else t # unescape_first b ts)"

definition unescape_all :: "nat \<Rightarrow> tok list \<Rightarrow> tok list" where
  "unescape_all b = map (\<lambda>t. if t = Pct b then Lit b else t)"

lemma hex_digit_inj: "m < 16 \<Longrightarrow> n < 16 \<Longrightarrow> hex_digit m = hex_digit n \<longleftrightarrow> m = n"
  by (metis hex_roundtrip option.inject)

lemma hex_digit_not_pct: "n < 16 \<Longrightarrow> hex_digit n \<noteq> 37"
  by (auto simp: hex_digit_def)

lemma starts_with_pct:
  assumes "b < 256" "list_all tok_ok (t # ts)"
  shows "starts_with (render_tok (Pct b)) (render (t # ts)) \<longleftrightarrow> t = Pct b"
proof (cases t)
  case (Pct b')
  with assms have "b' div 16 < 16" "b' mod 16 < 16" "b div 16 < 16" "b mod 16 < 16" by (simp_all add: nibbles)
  then have "starts_with (render_tok (Pct b)) (render (t # ts)) \<longleftrightarrow> b div 16 = b' div 16 \<and> b mod 16 = b' mod 16"
    using Pct by (simp add: hex_digit_inj)
  then show ?thesis using Pct by (metis div_mult_mod_eq tok.inject(2))
qed (use assms in auto)

lemma find_sub_pct:
  assumes "b < 256"
  shows "list_all tok_ok ts \<Longrightarrow> replace_first (render_tok (Pct b)) [b] (render ts) = render (unescape_first b ts)"
proof (induction ts)
  case (Cons t ts)
  show ?case
  proof (cases "t = Pct b")
    case True
    then show ?thesis using replace_first_prefix [of "render_tok (Pct b)" "[b]" "render ts"] by simp
  next
    case False
    then have no: "\<not> starts_with (render_tok (Pct b)) (render (t # ts))"
      using starts_with_pct [OF assms Cons.prems] by simp
    have skip: "replace_first p r (x # xs) = x # replace_first p r xs" if "\<not> starts_with p (x # xs)" for p r :: ctext and x xs
      using that by (simp add: replace_first_def split: option.split)
    have ih: "replace_first (render_tok (Pct b)) [b] (render ts) = render (unescape_first b ts)"
      using Cons by simp
    show ?thesis
    proof (cases t)
      case (Lit c)
      then show ?thesis using no skip [of "render_tok (Pct b)" c "render ts" "[b]"] ih False by simp
    next
      case (Pct b')
      with Cons.prems have h: "hex_digit (b' div 16) \<noteq> 37" "hex_digit (b' mod 16) \<noteq> 37"
        by (simp_all add: hex_digit_not_pct nibbles)
      have "replace_first (render_tok (Pct b)) [b] (37 # hex_digit (b' div 16) # hex_digit (b' mod 16) # render ts) =
        37 # replace_first (render_tok (Pct b)) [b] (hex_digit (b' div 16) # hex_digit (b' mod 16) # render ts)"
        using no Pct by (intro skip) simp
      also have "\<dots> = 37 # hex_digit (b' div 16) # hex_digit (b' mod 16) # replace_first (render_tok (Pct b)) [b] (render ts)"
        using h by (simp add: skip)
      finally show ?thesis using Pct False ih by simp
    qed
  qed
qed (simp add: replace_first_def)

lemma replace_all_pct:
  assumes "b < 256"
  shows "list_all tok_ok ts \<Longrightarrow> replace_all (render_tok (Pct b)) [b] (render ts) = render (unescape_all b ts)"
proof (induction ts)
  case (Cons t ts)
  show ?case
  proof (cases t)
    case (Lit c)
    with Cons show ?thesis by (simp add: unescape_all_def)
  next
    case (Pct b')
    with Cons.prems have h: "hex_digit (b' div 16) \<noteq> 37" "hex_digit (b' mod 16) \<noteq> 37"
      by (simp_all add: hex_digit_not_pct nibbles)
    have sw: "starts_with (render_tok (Pct b)) (render (t # ts)) \<longleftrightarrow> t = Pct b"
      by (rule starts_with_pct [OF assms Cons.prems])
    show ?thesis using sw h Cons Pct by (auto simp: unescape_all_def)
  qed
qed (simp add: unescape_all_def)

text \<open>Neither changes the bytes, if the character is ASCII.\<close>

lemma unescape_bytes:
  assumes "b < 128"
  shows "concat (map tok_bytes (unescape_first b ts)) = concat (map tok_bytes ts)"
    "concat (map tok_bytes (unescape_all b ts)) = concat (map tok_bytes ts)"
proof -
  have b: "utf8_of b = [b]" using assms by (simp add: utf8_of_def)
  show "concat (map tok_bytes (unescape_first b ts)) = concat (map tok_bytes ts)"
    by (induction ts) (simp_all add: b)
  show "concat (map tok_bytes (unescape_all b ts)) = concat (map tok_bytes ts)"
    by (induction ts) (simp_all add: b unescape_all_def)
qed

lemma unescape_ok:
  assumes "list_all tok_ok ts" "b \<noteq> 37"
  shows "list_all tok_ok (unescape_first b ts)" "list_all tok_ok (unescape_all b ts)"
  using assms by (induction ts) (auto simp: unescape_all_def)

text \<open>A literal separator of the text is a token of its own.\<close>

lemma split_render:
  assumes "c \<noteq> 37" "\<And>n. n < 16 \<Longrightarrow> c \<noteq> hex_digit n"
  shows "list_all tok_ok ts \<Longrightarrow> split_on c (render ts) = map render (split_on (Lit c) ts)"
proof (induction ts)
  case (Cons t ts)
  obtain p ps where s: "split_on (Lit c) ts = p # ps" by (cases "split_on (Lit c) ts") auto
  have ih: "split_on c (render ts) = render p # map render ps" using Cons s by simp
  show ?case
  proof (cases t)
    case (Lit d)
    then show ?thesis using ih s by simp
  next
    case (Pct b)
    then have "hex_digit (b div 16) \<noteq> c" "hex_digit (b mod 16) \<noteq> c"
      using assms(2) [of "b div 16"] assms(2) [of "b mod 16"] Cons.prems by (auto simp: nibbles)
    then show ?thesis using Pct ih s assms(1) by simp
  qed
qed simp

end
