(* ===== verification/Location.thy ===== *)
theory Location
  imports Uri "HOL-Library.Sublist"
begin

text \<open>
  The location of a page: \<open>resolve_path_dots\<close> and \<open>Location\<close> of \<open>src/base1/cockpit.js\<close> (paths and
  options encoded in the hash of the address), the \<open>cockpit.location\<close> property and its \<open>hashchange\<close>
  listener.  Texts are lists of code points; the characters of the source are written as their codes
  (47 is the slash, 35 the hash, 63 the question mark, 38 the ampersand, 61 the equals sign, 46 the dot).
\<close>

datatype loc_error = URIError | TypeError

type_synonym 'a fallible = "loc_error + 'a"

text \<open>The value of an option: a text, or an array of values.\<close>

datatype optval = One ctext | Many "optval list"

type_synonym loc_options = "(ctext, optval) obj"

record location =
  l_url_root :: ctext
  l_path :: "ctext list"
  l_options :: loc_options
  l_href :: ctext

section \<open>Paths\<close>

fun resolve_dots :: "ctext list \<Rightarrow> ctext list \<Rightarrow> ctext list option" where
  "resolve_dots out [] = Some out"
| "resolve_dots out (part # parts) =
     (if part = [] \<or> part = [46] then resolve_dots out parts
      else if part = [46, 46] then (if out = [] then None else resolve_dots (butlast out) parts)
      else resolve_dots (out @ [part]) parts)"

definition resolve_path_dots :: "ctext list \<Rightarrow> ctext list option" where
  "resolve_path_dots parts = resolve_dots [] parts"

fun map_fallible :: "('a \<Rightarrow> 'b option) \<Rightarrow> 'a list \<Rightarrow> 'b list fallible" where
  "map_fallible f [] = Inr []"
| "map_fallible f (x # xs) =
     (case f x of None \<Rightarrow> Inl URIError
      | Some y \<Rightarrow> (case map_fallible f xs of Inl e \<Rightarrow> Inl e | Inr ys \<Rightarrow> Inr (y # ys)))"

text \<open>\<open>decode_path(input)\<close>; \<open>base\<close> is the path of the location, nothing while it is being made.\<close>

definition decode_path :: "ctext \<Rightarrow> ctext list \<Rightarrow> ctext \<Rightarrow> ctext list fallible" where
  "decode_path url_root base input =
     (case map_fallible decode_uri_component (split_on 47 input) of
        Inl e \<Rightarrow> Inl e
      | Inr parts \<Rightarrow>
          (case (if url_root \<noteq> [] then map_fallible decode_uri_component (split_on 47 url_root) else Inr []) of
             Inl e \<Rightarrow> Inl e
           | Inr pre_parts \<Rightarrow>
               (case resolve_path_dots (if input \<noteq> [] \<and> hd input \<noteq> 47 then butlast base @ parts else parts) of
                  None \<Rightarrow> Inl TypeError
                | Some result \<Rightarrow>
                    Inr (if starts_with pre_parts result then drop (length pre_parts) result else result))))"

section \<open>Encoding\<close>

text \<open>\<open>String(v)\<close> of an option value.\<close>

fun optval_str :: "optval \<Rightarrow> ctext" where
  "optval_str (One s) = s"
| "optval_str (Many vs) = join [44] (map optval_str vs)"

definition option_values :: "optval \<Rightarrow> ctext list" where
  "option_values v = (case v of One s \<Rightarrow> [s] | Many vs \<Rightarrow> map optval_str vs)"

definition query_part :: "ctext \<times> ctext \<Rightarrow> ctext option" where
  "query_part kv =
     (case (encode_uri_component (fst kv), encode_uri_component (snd kv)) of
        (Some k, Some v) \<Rightarrow> Some (k @ [61] @ v)
      | _ \<Rightarrow> None)"

definition options_pairs :: "loc_options \<Rightarrow> (ctext \<times> ctext) list" where
  "options_pairs options = concat (map (\<lambda>(k, v). map (Pair k) (option_values v)) options)"

text \<open>
  \<open>encode(path, options, with_root)\<close> for a path that is an array.  The condition for the root is the one of
  the source: \<open>indexOf\<close> of the truth value \<open>"/" + root + "/" !== 0\<close>, that is of the text \<open>true\<close>.
\<close>

definition encode_path :: "ctext \<Rightarrow> ctext list \<Rightarrow> loc_options \<Rightarrow> bool \<Rightarrow> ctext fallible" where
  "encode_path url_root path options with_root =
     (case map_fallible encode_uri_component path of
        Inl e \<Rightarrow> Inl e
      | Inr segs \<Rightarrow>
          let href = 47 # join [47] segs;
              href = (if with_root \<and> url_root \<noteq> [] \<and> find_sub (tx ''true'') href \<noteq> Some 0
                      then 47 # url_root @ href else href);
              href = replace_first (tx ''%40'') [64] href;
              href = replace_first (tx ''%3D'') [61] href;
              href = replace_all (tx ''%2B'') [43] href
          in case map_fallible query_part (options_pairs options) of
               Inl e \<Rightarrow> Inl e
             | Inr query \<Rightarrow> Inr (if query \<noteq> [] then href @ [63] @ join [38] query else href))"

text \<open>For a path that is a text, \<open>decode_path\<close> comes first.\<close>

definition encode_text :: "location \<Rightarrow> ctext \<Rightarrow> loc_options \<Rightarrow> bool \<Rightarrow> ctext fallible" where
  "encode_text l path options with_root =
     (case decode_path (l_url_root l) (l_path l) path of
        Inl e \<Rightarrow> Inl e | Inr p \<Rightarrow> encode_path (l_url_root l) p options with_root)"

section \<open>Decoding\<close>

text \<open>A name that is there already becomes an array of what it was and the new value.\<close>

definition add_option :: "ctext \<Rightarrow> loc_options \<Rightarrow> loc_options option" where
  "add_option opt options =
     (let parts = split_on 61 opt
      in case (decode_uri_component (parts ! 0),
               if length parts > 1 then decode_uri_component (parts ! 1) else Some (tx ''undefined'')) of
           (Some name, Some value) \<Rightarrow>
             Some (case oget options name of
                     Some old \<Rightarrow> oset options name (Many [old, One value])
                   | None \<Rightarrow> oset options name (One value))
         | _ \<Rightarrow> None)"

fun add_options :: "ctext list \<Rightarrow> loc_options \<Rightarrow> loc_options fallible" where
  "add_options [] options = Inr options"
| "add_options (opt # opts) options =
     (case add_option opt options of None \<Rightarrow> Inl URIError | Some o' \<Rightarrow> add_options opts o')"

definition decode_href :: "ctext \<Rightarrow> ctext list \<Rightarrow> ctext \<Rightarrow> loc_options \<Rightarrow> (ctext list \<times> loc_options) fallible" where
  "decode_href url_root base href options =
     (let href = (if href \<noteq> [] \<and> hd href = 35 then tl href else href);
          first = (case index_of 63 href of None \<Rightarrow> href | Some pos \<Rightarrow> take pos href)
      in case decode_path url_root base first of
           Inl e \<Rightarrow> Inl e
         | Inr path \<Rightarrow>
             (case index_of 63 href of
                None \<Rightarrow> Inr (path, options)
              | Some pos \<Rightarrow>
                  (case add_options (split_on 38 (drop (pos + 1) href)) options of
                     Inl e \<Rightarrow> Inl e | Inr o' \<Rightarrow> Inr (path, o'))))"

section \<open>Locations\<close>

text \<open>The root of a location: \<open>url_root\<close>, and behind it the host part of the application name.\<close>

definition location_root :: "ctext \<Rightarrow> ctext \<Rightarrow> ctext" where
  "location_root url_root application =
     (if starts_with (tx ''cockpit+='') application
      then (if url_root \<noteq> [] then url_root @ [47] else url_root) @ replace_first (tx ''cockpit+'') [] application
      else url_root)"

definition window_hash :: "ctext \<Rightarrow> ctext" where
  "window_hash href = (case split_on 35 href of _ # h # _ \<Rightarrow> h | _ \<Rightarrow> [])"

definition new_location :: "ctext \<Rightarrow> ctext \<Rightarrow> ctext \<Rightarrow> location fallible" where
  "new_location url_root application win_href =
     (let root = location_root url_root application;
          href = window_hash win_href
      in case decode_href root [] href [] of
           Inl e \<Rightarrow> Inl e
         | Inr (path, options) \<Rightarrow> Inr \<lparr>l_url_root = root, l_path = path, l_options = options, l_href = href\<rparr>)"

text \<open>What \<open>go\<close> and \<open>replace\<close> accept: a location, a text with options, or an array with options.\<close>

datatype go_arg = GoLocation location | GoText ctext loc_options | GoPath "ctext list" loc_options bool

definition href_for_go_or_replace :: "location \<Rightarrow> go_arg \<Rightarrow> ctext fallible" where
  "href_for_go_or_replace l arg =
     (case arg of
        GoLocation l' \<Rightarrow> Inr (l_href l')
      | GoText s options \<Rightarrow>
          (case decode_href (l_url_root l) (l_path l) s options of
             Inl e \<Rightarrow> Inl e
           | Inr (path, options') \<Rightarrow> encode_path (l_url_root l) path options' False)
      | GoPath path options with_root \<Rightarrow> encode_path (l_url_root l) path options with_root)"

text \<open>
  The window as the locations see it: its address up to the hash and the hash, the locations made so far
  and which of them is \<open>last_loc\<close>.
\<close>

record loc_window =
  lw_base :: ctext
  lw_hash :: ctext
  lw_pathname :: ctext
  lw_locations :: "location list"
  lw_last :: "nat option"

definition window_href :: "loc_window \<Rightarrow> ctext" where
  "window_href w = lw_base w @ lw_hash w"

text \<open>The getter of \<open>cockpit.location\<close>.\<close>

definition get_location :: "ctext \<Rightarrow> ctext \<Rightarrow> loc_window \<Rightarrow> (loc_window \<times> nat) fallible" where
  "get_location url_root application w =
     (case lw_last w of
        Some i \<Rightarrow>
          if l_href (lw_locations w ! i) = window_hash (window_href w) then Inr (w, i)
          else (case new_location url_root application (window_href w) of
                  Inl e \<Rightarrow> Inl e
                | Inr l \<Rightarrow> Inr (w\<lparr>lw_locations := lw_locations w @ [l], lw_last := Some (length (lw_locations w))\<rparr>,
                               length (lw_locations w)))
      | None \<Rightarrow>
          (case new_location url_root application (window_href w) of
             Inl e \<Rightarrow> Inl e
           | Inr l \<Rightarrow> Inr (w\<lparr>lw_locations := lw_locations w @ [l], lw_last := Some (length (lw_locations w))\<rparr>,
                          length (lw_locations w))))"

text \<open>\<open>go\<close> on a location that is not the last one does nothing.\<close>

definition go :: "nat \<Rightarrow> go_arg \<Rightarrow> loc_window \<Rightarrow> loc_window fallible" where
  "go i arg w =
     (if lw_last w \<noteq> Some i then Inr w
      else (case href_for_go_or_replace (lw_locations w ! i) arg of
              Inl e \<Rightarrow> Inl e | Inr href \<Rightarrow> Inr (w\<lparr>lw_hash := 35 # href\<rparr>)))"

definition loc_replace :: "nat \<Rightarrow> go_arg \<Rightarrow> loc_window \<Rightarrow> loc_window fallible" where
  "loc_replace i arg w =
     (if lw_last w \<noteq> Some i then Inr w
      else (case href_for_go_or_replace (lw_locations w ! i) arg of
              Inl e \<Rightarrow> Inl e | Inr href \<Rightarrow> Inr (w\<lparr>lw_base := lw_pathname w, lw_hash := 35 # href\<rparr>)))"

definition on_hashchange :: "loc_window \<Rightarrow> loc_window" where
  "on_hashchange w = w\<lparr>lw_last := None\<rparr>"

section \<open>Resolving dots\<close>

definition plain_part :: "ctext \<Rightarrow> bool" where
  "plain_part p \<longleftrightarrow> p \<noteq> [] \<and> p \<noteq> [46] \<and> p \<noteq> [46, 46]"

lemma resolve_dots_clean:
  "resolve_dots out parts = Some r \<Longrightarrow> list_all plain_part out \<Longrightarrow>
   list_all plain_part r \<and> set r \<subseteq> set out \<union> set parts"
proof (induction out parts rule: resolve_dots.induct)
  case (2 out part parts)
  consider "part = [] \<or> part = [46]" | "part = [46, 46]" "out \<noteq> []" | "plain_part part"
    using 2 by (auto simp: plain_part_def split: if_splits)
  then show ?case
  proof cases
    case 1
    then show ?thesis using 2 by auto
  next
    case c: 2
    have "list_all plain_part (butlast out)" using 2 by (auto simp: list_all_iff dest: in_set_butlastD)
    then show ?thesis using 2 c by (auto dest: in_set_butlastD)
  next
    case 3
    then show ?thesis using 2 by (auto simp: plain_part_def)
  qed
qed simp

lemma resolve_dots_plain: "list_all plain_part parts \<Longrightarrow> resolve_dots out parts = Some (out @ parts)"
  by (induction parts arbitrary: out) (auto simp: plain_part_def)

lemma resolve_clean:
  assumes "resolve_path_dots parts = Some r"
  shows "list_all plain_part r" "set r \<subseteq> set parts"
  using resolve_dots_clean [of "[]" parts r] assms by (auto simp: resolve_path_dots_def)

text \<open>a resolved path never climbs out: it consists of parts of the input, none of which is empty, a dot or
  two dots, and resolving it again changes nothing.\<close>

theorem resolve_path_dots_clean:
  assumes "resolve_path_dots parts = Some r"
  shows "(\<forall>p \<in> set r. p \<in> set parts \<and> p \<noteq> [] \<and> p \<noteq> tx ''.'' \<and> p \<noteq> tx ''..'') \<and> resolve_path_dots r = Some r"
  using resolve_clean [OF assms] resolve_dots_plain [of r "[]"]
  by (auto simp: resolve_path_dots_def list_all_iff plain_part_def)

theorem resolve_path_dots_clean_witness:
  "resolve_path_dots [tx ''a'', tx ''..'', tx ''b''] = Some [tx ''b''] \<and> resolve_path_dots [tx ''b''] = Some [tx ''b'']"
proof -
  have "resolve_path_dots [tx ''a'', tx ''..'', tx ''b''] = Some [tx ''b'']"
    by (simp add: resolve_path_dots_def)
  with resolve_path_dots_clean [OF this] show ?thesis by blast
qed

section \<open>Encoding and decoding\<close>

lemma hex_digit_unreserved: "n < 16 \<Longrightarrow> unreserved (hex_digit n)"
  by (auto simp: hex_digit_def unreserved_def)

lemma render_tok_chars: "tok_ok t \<Longrightarrow> x \<in> set (render_tok t) \<Longrightarrow> t = Lit x \<or> unreserved x \<or> x = 37"
  by (cases t) (auto simp: nibbles hex_digit_unreserved)

lemma encoded_lit: "Lit c \<in> set (encode_toks s) \<Longrightarrow> unreserved c"
  by (auto simp: encode_toks_def enc_char_def split: if_splits)

lemma encoded_chars:
  assumes "list_all scalar s" "x \<in> set (render (encode_toks s))"
  shows "unreserved x \<or> x = 37"
proof -
  obtain t where "t \<in> set (encode_toks s)" "x \<in> set (render_tok t)" using assms(2) by auto
  moreover from this have "tok_ok t" using encode_toks_ok [OF assms(1)] by (simp add: list_all_iff)
  ultimately show ?thesis using render_tok_chars encoded_lit by blast
qed

lemma encoded_free:
  assumes "list_all scalar s" "c \<in> {35, 38, 47, 61, 63}"
  shows "c \<notin> set (render (encode_toks s))"
proof
  assume "c \<in> set (render (encode_toks s))"
  from encoded_chars [OF assms(1) this] assms(2) show False by (auto simp: unreserved_def)
qed

text \<open>Undoing an escape, as the tokens see it.\<close>

definition tok_eq :: "tok \<Rightarrow> tok \<Rightarrow> bool" where
  "tok_eq t t' \<longleftrightarrow> t' = t \<or> (\<exists>b \<in> {43, 61, 64}. t = Pct b \<and> t' = Lit b)"

lemma tok_eq_unescape:
  assumes "b \<in> {43, 61, 64}"
  shows "list_all2 tok_eq ts (unescape_first b ts)" "list_all2 tok_eq ts (unescape_all b ts)"
proof -
  show "list_all2 tok_eq ts (unescape_first b ts)"
    by (induction ts) (use assms in \<open>auto simp: tok_eq_def list.rel_refl\<close>)
  show "list_all2 tok_eq ts (unescape_all b ts)"
    by (induction ts) (use assms in \<open>auto simp: tok_eq_def unescape_all_def\<close>)
qed

lemma list_all2_in_set2: "list_all2 R xs ys \<Longrightarrow> y \<in> set ys \<Longrightarrow> \<exists>x \<in> set xs. R x y"
  by (induction rule: list_all2_induct) auto

lemma tok_eq_trans: "tok_eq a b \<Longrightarrow> tok_eq b c \<Longrightarrow> tok_eq a c"
  by (auto simp: tok_eq_def)

lemma tok_eq_bytes: "list_all2 tok_eq ts ts' \<Longrightarrow> concat (map tok_bytes ts') = concat (map tok_bytes ts)"
  by (induction rule: list_all2_induct) (auto simp: tok_eq_def utf8_of_def)

lemma tok_eq_ok: "list_all2 tok_eq ts ts' \<Longrightarrow> list_all tok_ok ts \<Longrightarrow> list_all tok_ok ts'"
  by (induction rule: list_all2_induct) (auto simp: tok_eq_def)

lemma tok_eq_split:
  "list_all2 tok_eq ts ts' \<Longrightarrow> list_all2 (list_all2 tok_eq) (split_on (Lit 47) ts) (split_on (Lit 47) ts')"
proof (induction rule: list_all2_induct)
  case (Cons t ts t' ts')
  have "t = Lit 47 \<longleftrightarrow> t' = Lit 47" using Cons.hyps(1) by (auto simp: tok_eq_def)
  then show ?case
    using Cons by (cases "split_on (Lit 47) ts"; cases "split_on (Lit 47) ts'") auto
qed simp

lemma render_join: "render (join [Lit c] tss) = join [c] (map render tss)"
  by (induction "[Lit c]" tss rule: join.induct) auto

lemma join_ok: "\<forall>ts \<in> set tss. list_all tok_ok ts \<Longrightarrow> c \<noteq> 37 \<Longrightarrow> list_all tok_ok (join [Lit c] tss)"
  by (induction "[Lit c]" tss rule: join.induct) auto

definition path_toks :: "ctext list \<Rightarrow> tok list" where
  "path_toks path = Lit 47 # join [Lit 47] (map encode_toks path)"

text \<open>The path part of the address, before and after the escapes are undone.\<close>

definition undone :: "tok list \<Rightarrow> tok list" where
  "undone ts = unescape_all 43 (unescape_first 61 (unescape_first 64 ts))"

lemma undone_eq: "list_all2 tok_eq ts (undone ts)"
  unfolding undone_def
  by (rule list_all2_trans [OF tok_eq_trans _ tok_eq_unescape(2)], assumption+)
     (rule list_all2_trans [OF tok_eq_trans tok_eq_unescape(1) tok_eq_unescape(1)], auto)

lemma undo_escapes:
  assumes "list_all tok_ok ts"
  shows "replace_all (tx ''%2B'') [43] (replace_first (tx ''%3D'') [61] (replace_first (tx ''%40'') [64] (render ts))) =
    render (undone ts)"
proof -
  have lit: "tx ''%40'' = render_tok (Pct 64)" "tx ''%3D'' = render_tok (Pct 61)" "tx ''%2B'' = render_tok (Pct 43)"
    by (simp_all add: hex_digit_def)
  show ?thesis
    unfolding lit undone_def
    by (simp only: find_sub_pct [OF _ assms] find_sub_pct [OF _ unescape_ok(1) [OF assms]]
        replace_all_pct [OF _ unescape_ok(1) [OF unescape_ok(1) [OF assms]]])
qed

lemma encode_component: "list_all scalar s \<Longrightarrow> encode_uri_component s = Some (render (encode_toks s))"
  by (auto simp: encode_uri_component_def list_all_iff list_ex_iff scalar_def)

lemma map_fallible_Some: "(\<And>x. x \<in> set xs \<Longrightarrow> f x = Some (g x)) \<Longrightarrow> map_fallible f xs = Inr (map g xs)"
  by (induction xs) auto

lemma map_fallible_rel: "list_all2 (\<lambda>x y. f x = Some y) xs ys \<Longrightarrow> map_fallible f xs = Inr ys"
  by (induction rule: list_all2_induct) auto

definition good_path :: "ctext list \<Rightarrow> bool" where
  "good_path path \<longleftrightarrow> list_all plain_part path \<and> list_all (list_all scalar) path"

lemma path_toks_ok: "good_path path \<Longrightarrow> list_all tok_ok (path_toks path)"
  unfolding path_toks_def good_path_def
  by (auto simp: list_all_iff [of "list_all scalar"] intro!: join_ok encode_toks_ok)

lemma no_slash_token: "Lit 47 \<notin> set (encode_toks s)"
  using encoded_lit [of 47 s] by (auto simp: unreserved_def)

lemma decode_piece:
  assumes "list_all2 tok_eq (encode_toks s) ts" "list_all scalar s"
  shows "decode_uri_component (render ts) = Some s"
  using tok_eq_bytes [OF assms(1)] tok_eq_ok [OF assms(1) encode_toks_ok [OF assms(2)]] encode_toks_bytes [of s]
  by (intro decode_toks [OF _ _ assms(2)]) simp_all

lemma decode_pieces:
  "list_all2 (list_all2 tok_eq) (map encode_toks ss) tss \<Longrightarrow> list_all (list_all scalar) ss \<Longrightarrow>
   list_all2 (\<lambda>x y. decode_uri_component x = Some y) (map render tss) ss"
  by (induction ss arbitrary: tss) (auto simp: list_all2_Cons1 decode_piece)

text \<open>Decoding the path part gives the path, whatever escapes were undone.\<close>

lemma decode_path_toks:
  assumes "good_path path" "list_all2 tok_eq (path_toks path) ts"
  shows "decode_path [] base (render ts) = Inr path"
proof -
  have ok: "list_all tok_ok ts" by (rule tok_eq_ok [OF assms(2) path_toks_ok [OF assms(1)]])
  have hd: "render ts \<noteq> []" "hd (render ts) = 47"
    using assms(2) by (auto simp: path_toks_def list_all2_Cons1 tok_eq_def)
  let ?pieces = "if path = [] then [[], []] else [] # path"
  have split: "split_on (Lit 47) (path_toks path) = map encode_toks ?pieces"
    using split_on_join [of "map encode_toks path" "Lit 47"] no_slash_token
    by (auto simp: path_toks_def encode_toks_def [of "[]"])
  have "list_all2 (list_all2 tok_eq) (map encode_toks ?pieces) (split_on (Lit 47) ts)"
    using tok_eq_split [OF assms(2)] unfolding split .
  then have "list_all2 (\<lambda>x y. decode_uri_component x = Some y) (map render (split_on (Lit 47) ts)) ?pieces"
    by (rule decode_pieces) (use assms(1) in \<open>simp add: good_path_def\<close>)
  then have "map_fallible decode_uri_component (split_on 47 (render ts)) = Inr ?pieces"
    using split_render [OF _ _ ok, of 47] map_fallible_rel by (force simp: hex_digit_def)
  moreover have "resolve_path_dots ?pieces = Some path"
    using resolve_dots_plain [of path "[]"] assms(1) by (auto simp: resolve_path_dots_def good_path_def)
  ultimately show ?thesis using hd by (simp add: decode_path_def)
qed

lemma undone_free:
  assumes "good_path path" "c \<in> {35, 63}"
  shows "c \<notin> set (render (undone (path_toks path)))"
proof
  let ?ts = "undone (path_toks path)"
  have ok: "list_all tok_ok ?ts" by (rule tok_eq_ok [OF undone_eq path_toks_ok [OF assms(1)]])
  assume "c \<in> set (render ?ts)"
  then obtain t where t: "t \<in> set ?ts" "c \<in> set (render_tok t)" by auto
  then have "t = Lit c"
    using render_tok_chars [of t c] ok assms(2) by (auto simp: list_all_iff unreserved_def)
  then obtain u where u: "u \<in> set (path_toks path)" "tok_eq u (Lit c)"
    using list_all2_in_set2 [OF undone_eq t(1)] by blast
  then have "Lit c \<in> set (path_toks path)" using assms(2) by (auto simp: tok_eq_def)
  then have "\<exists>s. Lit c \<in> set (encode_toks s)"
    using assms(2) set_join [of "Lit c" "[Lit 47]" "map encode_toks path"] by (auto simp: path_toks_def)
  then have "unreserved c" using encoded_lit by blast
  then show False using assms(2) by (auto simp: unreserved_def)
qed

definition good_options :: "(ctext \<times> ctext) list \<Rightarrow> bool" where
  "good_options kvs \<longleftrightarrow> distinct (map fst kvs) \<and> list_all (\<lambda>(k, v). list_all scalar k \<and> list_all scalar v) kvs"

abbreviation single_options :: "(ctext \<times> ctext) list \<Rightarrow> loc_options" where
  "single_options kvs \<equiv> map (\<lambda>(k, v). (k, One v)) kvs"

definition query_text :: "ctext \<times> ctext \<Rightarrow> ctext" where
  "query_text kv = render (encode_toks (fst kv)) @ [61] @ render (encode_toks (snd kv))"

lemma options_pairs_single: "options_pairs (single_options kvs) = kvs"
  by (induction kvs) (auto simp: options_pairs_def option_values_def)

lemma query_part_ok: "list_all scalar (fst kv) \<Longrightarrow> list_all scalar (snd kv) \<Longrightarrow> query_part kv = Some (query_text kv)"
  by (simp add: query_part_def query_text_def encode_component)

lemma decode_encoded: "list_all scalar s \<Longrightarrow> decode_uri_component (render (encode_toks s)) = Some s"
  by (rule decode_toks [OF encode_toks_ok encode_toks_bytes])

lemma add_option_query:
  assumes "list_all scalar k" "list_all scalar v" "k \<notin> set (map fst kvs)"
  shows "add_option (query_text (k, v)) (single_options kvs) = Some (single_options (kvs @ [(k, v)]))"
proof -
  have f: "61 \<notin> set (render (encode_toks k))" "61 \<notin> set (render (encode_toks v))"
    using assms(1,2) encoded_free by blast+
  have s: "split_on 61 (query_text (k, v)) = [render (encode_toks k), render (encode_toks v)]"
    unfolding query_text_def using split_on_append [OF f(1), of "render (encode_toks v)"] split_on_fresh [OF f(2)] by simp
  have "oget (single_options kvs) k = None" using assms(3) by (induction kvs) auto
  moreover have "oset (single_options kvs) k (One v) = single_options (kvs @ [(k, v)])"
    using assms(3) by (induction kvs) auto
  ultimately show ?thesis by (simp add: add_option_def s decode_encoded assms(1,2))
qed

lemma add_options_query:
  "good_options (acc @ kvs) \<Longrightarrow>
   add_options (map query_text kvs) (single_options acc) = Inr (single_options (acc @ kvs))"
proof (induction kvs arbitrary: acc)
  case (Cons kv kvs)
  obtain k v where kv: "kv = (k, v)" by force
  have "add_option (query_text (k, v)) (single_options acc) = Some (single_options (acc @ [(k, v)]))"
    using Cons.prems kv by (intro add_option_query) (auto simp: good_options_def)
  then show ?case using Cons.IH [of "acc @ [kv]"] Cons.prems kv by simp
qed simp

lemma query_text_free: "list_all scalar (fst kv) \<Longrightarrow> list_all scalar (snd kv) \<Longrightarrow> 38 \<notin> set (query_text kv)"
  using encoded_free [of "fst kv" 38] encoded_free [of "snd kv" 38] by (auto simp: query_text_def)

text \<open>The address of a path with options.\<close>

definition href_text :: "ctext list \<Rightarrow> (ctext \<times> ctext) list \<Rightarrow> ctext" where
  "href_text path kvs =
     (let h = render (undone (path_toks path)) in if kvs \<noteq> [] then h @ [63] @ join [38] (map query_text kvs) else h)"

lemma encode_path_text:
  assumes "good_path path" "good_options kvs"
  shows "encode_path [] path (single_options kvs) False = Inr (href_text path kvs)"
proof -
  let ?q = "map query_text kvs"
  have segs: "map_fallible encode_uri_component path = Inr (map (\<lambda>s. render (encode_toks s)) path)"
    using assms(1) by (intro map_fallible_Some encode_component) (auto simp: good_path_def list_all_iff [of "list_all scalar"])
  have h0: "47 # join [47] (map (\<lambda>s. render (encode_toks s)) path) = render (path_toks path)"
    by (simp add: path_toks_def render_join o_def)
  have q: "map_fallible query_part kvs = Inr ?q"
    using assms(2) by (intro map_fallible_Some query_part_ok) (auto simp: good_options_def list_all_iff [of "\<lambda>(k, v). _ k v"] split_beta)
  show ?thesis
    unfolding href_text_def encode_path_def segs options_pairs_single q Let_def
    using undo_escapes [OF path_toks_ok [OF assms(1)]] by (simp add: h0)
qed

lemma decode_href_text:
  assumes "good_path path" "good_options kvs"
  shows "decode_href [] base (href_text path kvs) [] = Inr (path, single_options kvs)"
proof -
  let ?h = "render (undone (path_toks path))"
  let ?q = "map query_text kvs"
  let ?href = "if kvs \<noteq> [] then ?h @ [63] @ join [38] ?q else ?h"
  have free: "35 \<notin> set ?h" "63 \<notin> set ?h" using undone_free [OF assms(1)] by blast+
  have ne: "?h \<noteq> []" using undone_eq [of "path_toks path"] by (auto simp: path_toks_def list_all2_Cons1 tok_eq_def)
  then have "hd ?h \<in> set ?h" by (rule hd_in_set)
  then have "hd ?h \<noteq> 35" using free(1) by metis
  then have "hd ?href \<noteq> 35" using hd_append2 [OF ne] by (cases "kvs = []") simp_all
  then have strip: "(if ?href \<noteq> [] \<and> hd ?href = 35 then tl ?href else ?href) = ?href" by simp
  have dp: "decode_path [] base ?h = Inr path"
    by (rule decode_path_toks [OF assms(1) undone_eq])
  have "decode_href [] base ?href [] = Inr (path, single_options kvs)"
  proof (cases "kvs = []")
    case True
    have "index_of 63 ?h = None" by (simp only: index_of_None_iff free(2) simp_thms)
    with True show ?thesis
      unfolding decode_href_def Let_def strip using dp by (simp del: index_of_None_iff)
  next
    case False
    have ix: "index_of 63 (?h @ 63 # join [38] ?q) = Some (length ?h)" by (rule index_of_append_fresh [OF free(2)])
    have "split_on 38 (join [38] ?q) = ?q"
      using False assms(2) query_text_free by (intro split_on_join) (auto simp: good_options_def list_all_iff)
    with False show ?thesis
      unfolding decode_href_def Let_def strip using ix dp add_options_query [of "[]" kvs] assms(2) by simp
  qed
  then show ?thesis by (simp add: href_text_def Let_def)
qed



section \<open>Where it does not hold\<close>

text \<open>a third value of the same option is not added to the array of the first two but wrapped around it: the
  test for an array looks at the new value, which is always a text.\<close>

theorem third_option_nests:
  "decode_href [] [] (tx ''/?a=1&a=2&a=3'') [] = Inr ([], [(tx ''a'', Many [Many [One (tx ''1''), One (tx ''2'')], One (tx ''3'')])])"
  by code_simp

lemma find_sub_slash: "find_sub (tx ''true'') (47 # s) \<noteq> Some 0"
  by (auto split: option.splits)

text \<open>with a root, \<open>encode\<close> puts the root in front of every path: the condition that should spare the paths that
  have it already compares inside the argument of \<open>indexOf\<close> and is always true.\<close>

theorem encode_always_adds_root:
  assumes "url_root \<noteq> []" and "map_fallible encode_uri_component path = Inr segs"
  shows "encode_path url_root path [] True =
    Inr (replace_all (tx ''%2B'') [43] (replace_first (tx ''%3D'') [61] (replace_first (tx ''%40'') [64]
      (47 # url_root @ 47 # join [47] segs))))"
  using assms find_sub_slash unfolding encode_path_def by (simp add: options_pairs_def Let_def del: find_sub.simps)

theorem encode_always_adds_root_witness:
  "encode_path (tx ''r'') [tx ''r'', tx ''x''] [] True = Inr (tx ''/r/r/x'')"
  using encode_always_adds_root [of "tx ''r''" "[tx ''r'', tx ''x'']" "[tx ''r'', tx ''x'']"]
  by (simp add: encode_uri_component_def surrogate_def encode_toks_def enc_char_def unreserved_def replace_first_def)

text \<open>a path that climbs above the root makes decoding fail with a \<open>TypeError\<close>, for a location given to \<open>go\<close> as
  well as for the address of the page: \<open>decode_path\<close> uses the null it gets from \<open>resolve_path_dots\<close>.\<close>

theorem decode_path_climbs:
  assumes "map_fallible decode_uri_component (split_on 47 input) = Inr parts" and "hd input = 47"
    and "resolve_path_dots parts = None"
  shows "decode_path [] base input = Inl TypeError"
  using assms by (simp add: decode_path_def)

theorem decode_path_climbs_witness: "decode_path [] [] (tx ''/../x'') = Inl TypeError"
  using decode_path_climbs [of "tx ''/../x''" "[[], tx ''..'', tx ''x'']" "[]"]
  by (simp add: decode_uri_component_def utf8_of_def resolve_path_dots_def)

end
