(* ===== verification/Format.thy ===== *)
theory Format
  imports JS_Value Complex_Main
begin

text \<open>
  Formatting, of \<open>src/base1/cockpit.js\<close>: \<open>cockpit.format\<close>, \<open>cockpit.format_number\<close>,
  \<open>format_units\<close> with its tables, and \<open>cockpit.get_byte_units\<close>.

  Numbers are rationals (the divisions are exact here), \<open>None\<close> stands for \<open>undefined\<close>, \<open>null\<close> and
  \<open>NaN\<close>.  How a locale writes a fraction is a parameter.
\<close>

section \<open>cockpit.format\<close>

definition word_char :: "char \<Rightarrow> bool" where
  "word_char c \<longleftrightarrow> (let n = (of_char c :: nat) in 97 \<le> n \<and> n \<le> 122 \<or> 65 \<le> n \<and> n \<le> 90 \<or> 48 \<le> n \<and> n \<le> 57 \<or> n = 95)"

text \<open>\<open>String(v)\<close> of what the callback of \<open>replace\<close> returns.\<close>

fun shown :: "js \<Rightarrow> string" where
  "shown (JNum i) = int_str i"
| "shown (JStr s) = s"
| "shown (JBool b) = (if b then ''true'' else '''')"
| "shown (JArr xs) = join '','' (map shown xs)"
| "shown (JObj _) = ''[object Object]''"
| "shown _ = ''''"

text \<open>The value of a placeholder: 0 is shown, other falsy values are empty.\<close>

definition placeholder :: "(string \<Rightarrow> js) \<Rightarrow> string \<Rightarrow> string" where
  "placeholder args name = (let v = args name in if v = JNum 0 then ''0'' else if truthy v then shown v else '''')"

text \<open>A match of \<open>/\$\{([^}]+)\}|\$([a-zA-Z0-9_]+)/\<close> at the start: the name and the number of characters.\<close>

definition match_here :: "string \<Rightarrow> (string \<times> nat) option" where
  "match_here s =
     (case s of
        c # r \<Rightarrow>
          if c \<noteq> CHR ''$'' then None
          else
            let braced = takeWhile (\<lambda>x. x \<noteq> CHR ''}'') (tl r);
                name = takeWhile word_char r
            in if r \<noteq> [] \<and> hd r = CHR ''{'' \<and> braced \<noteq> [] \<and> length braced < length (tl r)
               then Some (braced, length braced + 3)
               else if name \<noteq> [] then Some (name, length name + 1) else None
      | [] \<Rightarrow> None)"

function format :: "(string \<Rightarrow> js) \<Rightarrow> string \<Rightarrow> string" where
  "format args [] = []"
| "format args (c # s) =
     (case match_here (c # s) of
        Some (name, n) \<Rightarrow> placeholder args name @ format args (drop (n - 1) s)
      | None \<Rightarrow> c # format args s)"
  by pat_completeness auto
termination
  by (relation "measure (\<lambda>(args, s). length s)") auto

text \<open>The arguments: an object, or the values behind the format by their index.\<close>

definition object_args :: "options \<Rightarrow> string \<Rightarrow> js" where
  "object_args o' name = opt o' name"

definition list_args :: "js list \<Rightarrow> string \<Rightarrow> js" where
  "list_args vs name = (case find (\<lambda>i. nat_str i = name) [0..<length vs] of None \<Rightarrow> JUndef | Some i \<Rightarrow> vs ! i)"

section \<open>Numbers\<close>

text \<open>\<open>toFixed(0)\<close>: the nearest integer, ties away from zero.\<close>

definition to_fixed :: "rat \<Rightarrow> string" where
  "to_fixed x = (if x < 0 then CHR ''-'' # int_str \<lfloor>- x + 1 / 2\<rfloor> else int_str \<lfloor>x + 1 / 2\<rfloor>)"

definition format_number :: "(rat \<Rightarrow> string) \<Rightarrow> (rat \<Rightarrow> string) \<Rightarrow> rat option \<Rightarrow> string" where
  "format_number locale locale3 number =
     (case number of
        None \<Rightarrow> ''''
      | Some x \<Rightarrow>
          if x = of_int \<lfloor>x\<rfloor> then int_str \<lfloor>x\<rfloor>
          else if x > 0 \<and> x \<le> 1 / 1000 then locale (1 / 1000)
          else if x < 0 \<and> x \<ge> - (1 / 1000) then locale (- (1 / 1000))
          else if x > 999 \<or> x < - 999 then to_fixed x
          else locale3 x)"

type_synonym suffixes = "(nat \<times> string option list) list"

datatype unit_factor = FactorName string | FactorNum nat

text \<open>The loop that finds a named unit: larger factors first.\<close>

fun find_suffix :: "string \<Rightarrow> nat \<Rightarrow> string option list \<Rightarrow> nat option" where
  "find_suffix name x [] = None"
| "find_suffix name x (s # ss) = (if s = Some name then Some x else find_suffix name (Suc x) ss)"

fun find_unit :: "string \<Rightarrow> suffixes \<Rightarrow> (nat \<times> nat) option" where
  "find_unit name [] = None"
| "find_unit name ((k, ss) # rest) =
     (case find_suffix name 0 ss of Some x \<Rightarrow> Some (k, x) | None \<Rightarrow> find_unit name rest)"

text \<open>The loop that finds the unit for a number.\<close>

fun scale_loop :: "nat \<Rightarrow> rat \<Rightarrow> rat \<Rightarrow> string option list \<Rightarrow> (rat \<times> string option) option" where
  "scale_loop factor number divisor [] = None"
| "scale_loop factor number divisor (s # ss) =
     (if number / divisor < of_nat factor then Some (number / divisor, s)
      else scale_loop factor number (divisor * of_nat factor) ss)"

definition choose_unit :: "rat option \<Rightarrow> suffixes \<Rightarrow> unit_factor \<Rightarrow> rat option \<times> string option" where
  "choose_unit number suffixes factor =
     (case number of
        None \<Rightarrow> (None, None)
      | Some x \<Rightarrow>
          (case factor of
             FactorName name \<Rightarrow>
               (case find_unit name (rev (sort_key fst suffixes)) of
                  Some (k, i) \<Rightarrow> (Some (x / of_nat k ^ i), Some name)
                | None \<Rightarrow> (Some x, None))
           | FactorNum k \<Rightarrow>
               (case map_of suffixes k of
                  None \<Rightarrow> (Some x, None)
                | Some ss \<Rightarrow> (case scale_loop k x 1 ss of Some (q, s) \<Rightarrow> (Some q, s) | None \<Rightarrow> (Some x, None)))))"

definition format_units :: "(rat \<Rightarrow> string) \<Rightarrow> (rat \<Rightarrow> string) \<Rightarrow> rat option \<Rightarrow> suffixes \<Rightarrow> unit_factor \<Rightarrow> string list" where
  "format_units locale locale3 number suffixes factor =
     (case choose_unit number suffixes factor of
        (n, suffix) \<Rightarrow>
          let str = format_number locale locale3 n
          in case suffix of Some s \<Rightarrow> if str \<noteq> [] \<and> s \<noteq> [] then [str, s] else [str] | None \<Rightarrow> [str])"

definition joined_units :: "string list \<Rightarrow> string" where
  "joined_units parts = join '' '' parts"

definition byte_suffixes :: suffixes where
  "byte_suffixes =
     [(1000, [None, Some ''KB'', Some ''MB'', Some ''GB'', Some ''TB'', Some ''PB'', Some ''EB'', Some ''ZB'']),
      (1024, [None, Some ''KiB'', Some ''MiB'', Some ''GiB'', Some ''TiB'', Some ''PiB'', Some ''EiB'', Some ''ZiB''])]"

definition byte_sec_suffixes :: suffixes where
  "byte_sec_suffixes =
     [(1024, [Some ''B/s'', Some ''KiB/s'', Some ''MiB/s'', Some ''GiB/s'', Some ''TiB/s'', Some ''PiB/s'', Some ''EiB/s'', Some ''ZiB/s''])]"

definition bit_suffixes :: suffixes where
  "bit_suffixes =
     [(1000, [Some ''bps'', Some ''Kbps'', Some ''Mbps'', Some ''Gbps'', Some ''Tbps'', Some ''Pbps'', Some ''Ebps'', Some ''Zbps''])]"

definition format_bytes :: "(rat \<Rightarrow> string) \<Rightarrow> (rat \<Rightarrow> string) \<Rightarrow> rat option \<Rightarrow> unit_factor option \<Rightarrow> string list" where
  "format_bytes locale locale3 number factor =
     format_units locale locale3 number byte_suffixes (case factor of None \<Rightarrow> FactorNum 1024 | Some f \<Rightarrow> f)"

definition format_bytes_per_sec :: "(rat \<Rightarrow> string) \<Rightarrow> (rat \<Rightarrow> string) \<Rightarrow> rat option \<Rightarrow> unit_factor option \<Rightarrow> string list" where
  "format_bytes_per_sec locale locale3 number factor =
     format_units locale locale3 number byte_sec_suffixes (case factor of None \<Rightarrow> FactorNum 1024 | Some f \<Rightarrow> f)"

definition format_bits_per_sec :: "(rat \<Rightarrow> string) \<Rightarrow> (rat \<Rightarrow> string) \<Rightarrow> rat option \<Rightarrow> unit_factor option \<Rightarrow> string list" where
  "format_bits_per_sec locale locale3 number factor =
     format_units locale locale3 number bit_suffixes (case factor of None \<Rightarrow> FactorNum 1000 | Some f \<Rightarrow> f)"

section \<open>Units to choose from\<close>

record byte_unit =
  u_name :: "string option"
  u_factor :: nat
  u_selected :: bool

definition byte_unit_at :: "nat \<Rightarrow> nat \<Rightarrow> byte_unit" where
  "byte_unit_at factor index =
     \<lparr>u_name = the (map_of byte_suffixes factor) ! index, u_factor = factor ^ index, u_selected = False\<rparr>"

text \<open>The loop from the last unit down to the first one, which is selected if no other was.\<close>

fun select_from :: "rat \<Rightarrow> byte_unit list \<Rightarrow> nat \<Rightarrow> byte_unit list" where
  "select_from guide units 0 = units[0 := (units ! 0)\<lparr>u_selected := True\<rparr>]"
| "select_from guide units (Suc i) =
     (if guide / of_nat (u_factor (units ! Suc i)) \<ge> 10 then units[Suc i := (units ! Suc i)\<lparr>u_selected := True\<rparr>]
      else select_from guide units i)"

definition get_byte_units :: "rat \<Rightarrow> nat option \<Rightarrow> byte_unit list" where
  "get_byte_units guide factor =
     (let factor = (case factor of Some f \<Rightarrow> if map_of byte_suffixes f \<noteq> None then f else 1024 | None \<Rightarrow> 1024);
          units = [byte_unit_at factor 2, byte_unit_at factor 3, byte_unit_at factor 4]
      in select_from guide units 2)"

section \<open>Properties of format\<close>

lemma match_plain: "c \<noteq> CHR ''$'' \<Longrightarrow> match_here (c # s) = None"
  by (simp add: match_here_def)

lemma format_plain: "CHR ''$'' \<notin> set pre \<Longrightarrow> format args (pre @ s) = pre @ format args s"
  by (induction pre) (auto simp: match_plain)

lemma takeWhile_stop: "\<forall>x \<in> set xs. P x \<Longrightarrow> \<not> P y \<Longrightarrow> takeWhile P (xs @ y # ys) = xs"
  by (induction xs) auto

text \<open>a placeholder in braces is replaced by the shown value of its argument, once: the text in front is copied,
  the value is not scanned again whatever it contains, and formatting goes on behind the brace.\<close>

theorem format_placeholder:
  assumes "CHR ''$'' \<notin> set pre" and "name \<noteq> []" and "CHR ''}'' \<notin> set name"
  shows "format args (pre @ ''${'' @ name @ ''}'' @ post) = pre @ placeholder args name @ format args post"
proof -
  have tw: "takeWhile (\<lambda>x. x \<noteq> CHR ''}'') (name @ CHR ''}'' # post) = name"
    using assms(3) by (intro takeWhile_stop) auto
  have "match_here (''${'' @ name @ ''}'' @ post) = Some (name, length name + 3)"
    using assms(2) by (simp add: match_here_def tw)
  then have "format args (''${'' @ name @ ''}'' @ post) = placeholder args name @ format args post"
    by simp
  with format_plain [OF assms(1), of args "''${'' @ name @ ''}'' @ post"] show ?thesis by simp
qed

theorem format_placeholder_witness:
  "format (object_args [(''x'', JStr ''${x}'')]) (''a '' @ ''${'' @ ''x'' @ ''}'' @ '' b'') = ''a ${x} b''"
proof -
  have "format (object_args [(''x'', JStr ''${x}'')]) '' b'' = '' b''" by (simp add: match_here_def)
  then show ?thesis
    using format_placeholder [of "''a ''" "''x''" "object_args [(''x'', JStr ''${x}'')]" "'' b''"]
    by (simp add: placeholder_def object_args_def opt_def)
qed

section \<open>Properties of the units\<close>

lemma scale_loop_ok:
  assumes "scale_loop factor number divisor ss = Some (q, s)" "factor > 1" "divisor > 0" "number \<ge> 0"
    "divisor = 1 \<or> number / divisor \<ge> 1"
  shows "\<exists>i < length ss. q = number / (divisor * of_nat factor ^ i) \<and> s = ss ! i \<and> 0 \<le> q \<and> q < of_nat factor \<and>
    (divisor * of_nat factor ^ i = 1 \<or> 1 \<le> q)"
  using assms
proof (induction ss arbitrary: divisor)
  case (Cons s' ss)
  show ?case
  proof (cases "number / divisor < of_nat factor")
    case True
    with Cons.prems show ?thesis by (intro exI [of _ 0]) auto
  next
    case False
    let ?d = "divisor * of_nat factor"
    have pos: "?d > 0" using Cons.prems by simp
    have "number / ?d \<ge> 1" using False Cons.prems pos by (simp add: field_simps not_less)
    moreover have "scale_loop factor number ?d ss = Some (q, s)" using Cons.prems(1) False by simp
    ultimately have "\<exists>i < length ss. q = number / (?d * of_nat factor ^ i) \<and> s = ss ! i \<and> 0 \<le> q \<and> q < of_nat factor \<and>
      (?d * of_nat factor ^ i = 1 \<or> 1 \<le> q)"
      using Cons.IH [of ?d] Cons.prems(2,4) pos by blast
    then obtain i where "i < length ss" "q = number / (?d * of_nat factor ^ i) \<and> s = ss ! i \<and> 0 \<le> q \<and> q < of_nat factor \<and>
      (?d * of_nat factor ^ i = 1 \<or> 1 \<le> q)" by blast
    then show ?thesis by (intro exI [of _ "Suc i"]) (auto simp: mult.assoc)
  qed
qed simp

lemma scale_loop_none:
  "scale_loop factor number divisor ss = None \<Longrightarrow> factor > 0 \<Longrightarrow> divisor > 0 \<Longrightarrow> ss \<noteq> [] \<Longrightarrow>
   number \<ge> divisor * of_nat factor ^ length ss"
proof (induction ss arbitrary: divisor)
  case (Cons s ss)
  have ge: "number / divisor \<ge> of_nat factor" using Cons.prems by (simp split: if_splits)
  show ?case
  proof (cases "ss = []")
    case True
    then show ?thesis using ge Cons.prems by (simp add: field_simps)
  next
    case False
    then show ?thesis using Cons.IH [of "divisor * of_nat factor"] Cons.prems by (simp split: if_splits add: mult.assoc)
  qed
qed simp

text \<open>a non-negative number of bytes below 1024 to the eighth is shown in the unit that makes it smaller than 1024
  and, unless it is shown in bytes, at least 1: the quotient is the number divided by the power of 1024
  that the suffix stands for.\<close>

theorem format_bytes_unit:
  assumes "0 \<le> x" and "x < 1024 ^ 8"
  shows "\<exists>i < 8. choose_unit (Some x) byte_suffixes (FactorNum 1024) =
      (Some (x / 1024 ^ i), the (map_of byte_suffixes 1024) ! i) \<and> x / 1024 ^ i < 1024 \<and> (i = 0 \<or> 1 \<le> x / 1024 ^ i)"
proof -
  let ?ss = "[None, Some ''KiB'', Some ''MiB'', Some ''GiB'', Some ''TiB'', Some ''PiB'', Some ''EiB'', Some ''ZiB'']"
  have m: "map_of byte_suffixes 1024 = Some ?ss" by (simp add: byte_suffixes_def)
  obtain q s where sc: "scale_loop 1024 x 1 ?ss = Some (q, s)"
    using scale_loop_none [of 1024 x 1 ?ss] assms(2) by (cases "scale_loop 1024 x 1 ?ss") auto
  have "\<exists>i < length ?ss. q = x / (1 * of_nat 1024 ^ i) \<and> s = ?ss ! i \<and> 0 \<le> q \<and> q < of_nat 1024 \<and>
    (1 * of_nat 1024 ^ i = (1 :: rat) \<or> 1 \<le> q)"
    using assms(1) by (intro scale_loop_ok [OF sc]) simp_all
  then obtain i where j: "i < length ?ss" "q = x / (1 * of_nat 1024 ^ i)" "s = ?ss ! i" "q < of_nat 1024"
    "1 * of_nat 1024 ^ i = (1 :: rat) \<or> 1 \<le> q" by blast
  then have "i < 8" "q = x / 1024 ^ i" "s = ?ss ! i" "q < 1024" "(1024 :: rat) ^ i = 1 \<or> 1 \<le> q" by simp_all
  moreover have "(1024 :: rat) ^ i = 1 \<longleftrightarrow> i = 0"
    by (metis less_irrefl neq0_conv one_less_numeral_iff one_less_power power_0 semiring_norm(76))
  ultimately show ?thesis
    using sc by (intro exI [of _ i]) (simp add: choose_unit_def m)
qed

theorem format_bytes_unit_witness:
  "\<exists>i < 8. choose_unit (Some 1536) byte_suffixes (FactorNum 1024) =
      (Some (1536 / 1024 ^ i), the (map_of byte_suffixes 1024) ! i) \<and> (1536 :: rat) / 1024 ^ i < 1024 \<and> (i = 0 \<or> (1 :: rat) \<le> 1536 / 1024 ^ i)"
  using format_bytes_unit [of 1536] by simp

text \<open>of the units offered for a value exactly one is selected, and it is the largest one in which the value is at
  least 10, or the smallest.\<close>

theorem get_byte_units_selected:
  "\<exists>k < 3. map u_selected (get_byte_units guide factor) = (replicate 3 False)[k := True] \<and>
    (k = 0 \<or> 10 \<le> guide / of_nat (u_factor (get_byte_units guide factor ! k))) \<and>
    (\<forall>j < 3. k < j \<longrightarrow> guide / of_nat (u_factor (get_byte_units guide factor ! j)) < 10)"
proof -
  define f where "f = (case factor of Some f \<Rightarrow> if map_of byte_suffixes f \<noteq> None then f else 1024 | None \<Rightarrow> 1024)"
  have eq: "get_byte_units guide factor = select_from guide [byte_unit_at f 2, byte_unit_at f 3, byte_unit_at f 4] 2"
    unfolding get_byte_units_def f_def Let_def ..
  consider "10 \<le> guide / of_nat (f ^ 4)" | "\<not> 10 \<le> guide / of_nat (f ^ 4)" "10 \<le> guide / of_nat (f ^ 3)"
    | "\<not> 10 \<le> guide / of_nat (f ^ 4)" "\<not> 10 \<le> guide / of_nat (f ^ 3)" by blast
  then show ?thesis
  proof cases
    case 1
    then show ?thesis
      unfolding eq
      by (intro exI [of _ 2]) (auto simp: byte_unit_at_def numeral_2_eq_2 less_Suc_eq numeral_3_eq_3)
  next
    case 2
    then show ?thesis
      unfolding eq
      by (intro exI [of _ 1]) (auto simp: byte_unit_at_def numeral_2_eq_2 less_Suc_eq numeral_3_eq_3)
  next
    case 3
    then show ?thesis
      unfolding eq
      by (intro exI [of _ 0]) (auto simp: byte_unit_at_def numeral_2_eq_2 less_Suc_eq numeral_3_eq_3)
  qed
qed


theorem get_byte_units_selected_witness:
  "map u_selected (get_byte_units 1000 None) = [True, False, False] \<and>
   (\<exists>k < 3. map u_selected (get_byte_units 1000 None) = (replicate 3 False)[k := True] \<and>
     (k = 0 \<or> 10 \<le> 1000 / (of_nat (u_factor (get_byte_units 1000 None ! k)) :: rat)) \<and>
     (\<forall>j < 3. k < j \<longrightarrow> 1000 / (of_nat (u_factor (get_byte_units 1000 None ! j)) :: rat) < 10))"
proof
  show "map u_selected (get_byte_units 1000 None) = [True, False, False]"
    by (simp add: get_byte_units_def byte_unit_at_def numeral_2_eq_2)
qed (rule get_byte_units_selected)

end
