(* ===== verification/Storage.thy ===== *)
theory Storage
  imports JS_Value
begin

text \<open>
  Browser storage, of \<open>src/base1/cockpit.js\<close>: \<open>StorageHelper\<close> (keys prefixed with the application),
  \<open>lookup_storage\<close> (the window that holds the shared data) and \<open>StorageCache\<close> (one owner produces a
  value that all frames consume; ownership passes on when the owner closes).
\<close>

section \<open>StorageHelper\<close>

text \<open>The storage of the browser: an ordered dictionary of strings.\<close>

type_synonym web_storage = "(string, string) obj"

definition prefixed_key :: "string \<Rightarrow> string \<Rightarrow> string" where
  "prefixed_key app key = app @ '':'' @ key"

definition get_item :: "string \<Rightarrow> string \<Rightarrow> bool \<Rightarrow> web_storage \<Rightarrow> string option" where
  "get_item app key both st =
     (let value = oget st (prefixed_key app key)
      in if (value = None \<or> value = Some []) \<and> both then oget st key else value)"

definition set_item :: "string \<Rightarrow> string \<Rightarrow> string \<Rightarrow> bool \<Rightarrow> web_storage \<Rightarrow> web_storage" where
  "set_item app key value both st =
     (let st = oset st (prefixed_key app key) value in if both then oset st key value else st)"

definition remove_item :: "string \<Rightarrow> string \<Rightarrow> bool \<Rightarrow> web_storage \<Rightarrow> web_storage" where
  "remove_item app key both st =
     (let st = odel st (prefixed_key app key) in if both then odel st key else st)"

definition purged :: "string \<Rightarrow> bool \<Rightarrow> string \<Rightarrow> bool" where
  "purged app full k \<longleftrightarrow> full \<and> \<not> starts_with ''cockpit'' k \<or> starts_with app k"

lemma odel_shrinks: "i < length st \<Longrightarrow> length (odel st (fst (st ! i))) < length st"
  by (auto simp: odel_def intro!: length_filter_less [of "st ! i"] split: prod.split)

text \<open>The loop over \<open>storage.key(i)\<close>: a removal moves the next key to the same index.\<close>

function clear_loop :: "string \<Rightarrow> bool \<Rightarrow> nat \<Rightarrow> web_storage \<Rightarrow> web_storage" where
  "clear_loop app full i st =
     (if i < length st then
        (let k = fst (st ! i)
         in if purged app full k then clear_loop app full i (odel st k) else clear_loop app full (i + 1) st)
      else st)"
  by pat_completeness auto
termination
proof (relation "measure (\<lambda>(app, full, i, st). length st - i)")
  fix app :: string and full :: bool and i :: nat and st :: web_storage and k
  assume "i < length st" "k = fst (st ! i)"
  then show "((app, full, i, odel st k), (app, full, i, st)) \<in> measure (\<lambda>(app, full, i, st). length st - i)"
    using odel_shrinks [of i st] by simp
qed auto

declare clear_loop.simps [simp del]

definition clear_storage :: "string \<Rightarrow> bool \<Rightarrow> web_storage \<Rightarrow> web_storage" where
  "clear_storage app full st = clear_loop app full 0 st"

section \<open>The window with the shared data\<close>

text \<open>A window as seen from a page: whether its properties can be reached, and the data it has, if any.\<close>

record 'd win =
  can_access :: bool
  win_data :: "'d option"

text \<open>
  \<open>lookup_storage(win)\<close> on the chain from a window to the top: which window's data is used (by its place in
  the chain), and the chain with the data that had to be created.
\<close>

fun lookup_storage :: "'d \<Rightarrow> 'd win list \<Rightarrow> nat option \<times> 'd win list" where
  "lookup_storage blank [] = (None, [])"
| "lookup_storage blank (w # parents) =
     (case lookup_storage blank parents of
        (Some i, parents') \<Rightarrow> (Some (Suc i), w # parents')
      | (None, parents') \<Rightarrow>
          if can_access w then
            (Some 0, (case win_data w of None \<Rightarrow> w\<lparr>win_data := Some blank\<rparr> | Some _ \<Rightarrow> w) # parents')
          else (None, w # parents'))"

section \<open>StorageCache\<close>

text \<open>What \<open>claim\<close> holds: the stand-in while the provider runs, or what the provider returned.\<close>

datatype source = Claiming | Provided

text \<open>One cache object; \<open>k_calls\<close> are the values its consumer is about to be called with.\<close>

record 'v cache =
  k_claimed :: bool
  k_source :: "source option"
  k_last :: "int option"
  k_listening :: bool
  k_calls :: "'v list"

text \<open>A storage event: who it is for, the object it names as its own, and the two versions.\<close>

record storage_event =
  ev_self :: "nat option"
  ev_old :: "int option"
  ev_new :: "int option"

text \<open>The shared data and version of one key, and the caches of all frames.\<close>

record 'v cworld =
  cw_value :: "'v option"
  cw_version :: "int option"
  cw_caches :: "'v cache list"

abbreviation cache_at :: "'v cworld \<Rightarrow> nat \<Rightarrow> 'v cache" where
  "cache_at w i \<equiv> cw_caches w ! i"

definition upd_k :: "nat \<Rightarrow> ('v cache \<Rightarrow> 'v cache) \<Rightarrow> 'v cworld \<Rightarrow> 'v cworld" where
  "upd_k i f w = w\<lparr>cw_caches := (cw_caches w)[i := f (cache_at w i)]\<rparr>"

text \<open>\<open>callback\<close>: only with a value.\<close>

definition cache_callback :: "nat \<Rightarrow> 'v cworld \<Rightarrow> 'v cworld" where
  "cache_callback i w =
     (case cw_value w of None \<Rightarrow> w | Some v \<Rightarrow> upd_k i (\<lambda>k. k\<lparr>k_calls := k_calls k @ [v]\<rparr>) w)"

text \<open>\<open>claim\<close>; the provider runs and returns (it may call \<open>result\<close> at once or later).\<close>

definition claim :: "nat \<Rightarrow> 'v cworld \<Rightarrow> 'v cworld" where
  "claim i w =
     (if k_source (cache_at w i) \<noteq> None then w else upd_k i (\<lambda>k. k\<lparr>k_source := Some Provided\<rparr>) w)"

text \<open>The rest of \<open>changed\<close>: remember the version and call the consumer if it is another one.\<close>

definition note_version :: "nat \<Rightarrow> int option \<Rightarrow> 'v cworld \<Rightarrow> 'v cworld" where
  "note_version i v w =
     (if k_last (cache_at w i) \<noteq> v then cache_callback i (upd_k i (\<lambda>k. k\<lparr>k_last := v\<rparr>) w) else w)"

text \<open>
  \<open>unclaim\<close>.  The event it dispatches reaches its own \<open>changed\<close> with the version gone, unless \<open>close\<close> has
  removed the listener.
\<close>

definition unclaim :: "nat \<Rightarrow> 'v cworld \<Rightarrow> 'v cworld" where
  "unclaim i w =
     (let was = k_claimed (cache_at w i);
          last_v = k_last (cache_at w i);
          w = upd_k i (\<lambda>k. k\<lparr>k_source := None, k_claimed := False\<rparr>) w
      in if was \<and> last_v \<noteq> None \<and> last_v \<noteq> Some 0 \<and> last_v = cw_version w
         then (let w = w\<lparr>cw_value := None, cw_version := None\<rparr>
               in if k_listening (cache_at w i) then note_version i None w else w)
         else w)"

text \<open>\<open>changed(event)\<close>, for an event of this key.\<close>

definition changed :: "nat \<Rightarrow> storage_event \<Rightarrow> 'v cworld \<Rightarrow> 'v cworld" where
  "changed i ev w =
     (if \<not> k_listening (cache_at w i) then w
      else if ev_self ev \<noteq> Some i then
        (if ev_new ev = None \<and> \<not> k_claimed (cache_at w i) then claim i w else note_version i (ev_new ev) w)
      else
        note_version i (ev_new ev)
          (if k_claimed (cache_at w i) \<and> ev_old ev = None \<and> ev_new ev \<noteq> cw_version w then unclaim i w else w))"

text \<open>\<open>result(value)\<close> with the random version it draws.\<close>

definition cache_result :: "nat \<Rightarrow> 'v \<Rightarrow> int \<Rightarrow> 'v cworld \<Rightarrow> 'v cworld" where
  "cache_result i v version w =
     (let w = (if k_source (cache_at w i) \<noteq> None \<and> \<not> k_claimed (cache_at w i)
               then upd_k i (\<lambda>k. k\<lparr>k_claimed := True\<rparr>) w else w)
      in if \<not> k_claimed (cache_at w i) then w
         else changed i \<lparr>ev_self = Some i, ev_old = None, ev_new = Some version\<rparr>
                (w\<lparr>cw_value := Some v, cw_version := Some version\<rparr>))"

definition cache_close :: "nat \<Rightarrow> 'v cworld \<Rightarrow> 'v cworld" where
  "cache_close i w = unclaim i (upd_k i (\<lambda>k. k\<lparr>k_listening := False\<rparr>) w)"

definition new_cache :: "'v cworld \<Rightarrow> 'v cworld" where
  "new_cache w =
     (let i = length (cw_caches w);
          w = w\<lparr>cw_caches := cw_caches w @
                [\<lparr>k_claimed = False, k_source = None, k_last = None, k_listening = True, k_calls = []\<rparr>]\<rparr>
      in if cw_version w \<noteq> None then cache_callback i w else claim i w)"

section \<open>Clearing\<close>

lemma oget_filter: "oget (filter (\<lambda>x. P (fst x)) m) k = (if P k then oget m k else None)"
  by (induction m) auto

lemma odel_distinct:
  assumes "owf (pre @ (k, v) # post)"
  shows "odel (pre @ (k, v) # post) k = pre @ post"
proof -
  have "\<forall>x \<in> set pre. fst x \<noteq> k" "\<forall>x \<in> set post. fst x \<noteq> k"
    using assms by (force simp: owf_def okeys_def)+
  then show ?thesis by (auto simp: odel_def split_beta filter_id_conv)
qed

lemma clear_loop_filter:
  "owf (pre @ post) \<Longrightarrow> \<forall>x \<in> set pre. \<not> purged app full (fst x) \<Longrightarrow>
   clear_loop app full (length pre) (pre @ post) = pre @ filter (\<lambda>x. \<not> purged app full (fst x)) post"
proof (induction post arbitrary: pre)
  case Nil
  then show ?case by (subst clear_loop.simps) simp
next
  case (Cons kv post)
  obtain k v where kv: "kv = (k, v)" by force
  show ?case
  proof (cases "purged app full k")
    case True
    have "owf (pre @ post)" using Cons.prems(1) by (auto simp: owf_def okeys_def)
    then show ?thesis
      using True Cons kv odel_distinct [of pre k v post] by (subst clear_loop.simps) (simp add: nth_append)
  next
    case False
    then show ?thesis
      using Cons.IH [of "pre @ [kv]"] Cons.prems kv by (subst clear_loop.simps) (simp add: nth_append)
  qed
qed

text \<open>clearing removes exactly the keys that start with the application's name and, for a full clear, those that
  do not start with \<open>cockpit\<close>, and keeps the others with their values and in their order: no key is skipped
  although the loop removes while it walks.\<close>

theorem clear_storage_filter:
  assumes "owf st"
  shows "clear_storage app full st = filter (\<lambda>x. \<not> purged app full (fst x)) st"
  using clear_loop_filter [of "[]" st app full] assms by (simp add: clear_storage_def)

theorem clear_storage_filter_witness:
  "clear_storage ''cockpit+x'' True [(''a'', ''1''), (''cockpit+x:k'', ''2''), (''cockpit:k'', ''3'')] = [(''cockpit:k'', ''3'')]"
  using clear_storage_filter [of "[(''a'', ''1''), (''cockpit+x:k'', ''2''), (''cockpit:k'', ''3'')]" "''cockpit+x''" True]
  by (simp add: owf_def okeys_def purged_def)

text \<open>the application named \<open>cockpit\<close> clears the data of every other application too: its name is compared
  without the colon, and the other names start with it.\<close>

theorem clear_storage_overreach:
  assumes "owf st" and "oget st (prefixed_key (''cockpit+'' @ host) key) = Some v"
  shows "oget (clear_storage ''cockpit'' False st) (prefixed_key (''cockpit+'' @ host) key) = None"
proof -
  have "purged ''cockpit'' False (prefixed_key (''cockpit+'' @ host) key)"
    by (simp add: purged_def prefixed_key_def)
  moreover have "clear_storage ''cockpit'' False st = filter (\<lambda>x. \<not> purged ''cockpit'' False (fst x)) st"
    using clear_loop_filter [of "[]" st "''cockpit''" False] assms(1) by (simp add: clear_storage_def)
  ultimately show ?thesis
    by (simp add: oget_filter [where P = "\<lambda>k. \<not> purged ''cockpit'' False k"])
qed

theorem clear_storage_overreach_witness:
  "oget (clear_storage ''cockpit'' False [(''cockpit+=h:k'', ''v'')]) (prefixed_key (''cockpit+'' @ ''=h'') ''k'') = None"
  using clear_storage_overreach [of "[(''cockpit+=h:k'', ''v'')]" "''=h''" "''k''" "''v''"]
  by (simp add: owf_def okeys_def prefixed_key_def)

lemma prefixed_key_inj:
  assumes "CHR '':'' \<notin> set app" "CHR '':'' \<notin> set app'"
  shows "prefixed_key app' key' = prefixed_key app key \<longleftrightarrow> app' = app \<and> key' = key"
proof
  assume eq: "prefixed_key app' key' = prefixed_key app key"
  then have "index_of (CHR '':'') (app' @ CHR '':'' # key') = index_of (CHR '':'') (app @ CHR '':'' # key)"
    by (simp add: prefixed_key_def)
  then have "length app' = length app"
    by (simp add: index_of_append_fresh assms)
  with eq show "app' = app \<and> key' = key" by (simp add: prefixed_key_def)
qed simp

text \<open>an item is read back as it was set, and applications whose names have no colon do not see each other's items.\<close>

theorem storage_get_set:
  assumes "CHR '':'' \<notin> set app" and "CHR '':'' \<notin> set app'" and "value \<noteq> []"
  shows "get_item app' key' False (set_item app key value False st) =
    (if app' = app \<and> key' = key then Some value else get_item app' key' False st)"
  using prefixed_key_inj [OF assms(1,2)] by (auto simp: get_item_def set_item_def)

theorem storage_get_set_witness:
  "get_item ''cockpit'' ''k'' False (set_item ''cockpit'' ''k'' ''v'' False []) = Some ''v''"
  using storage_get_set [of "''cockpit''" "''cockpit''" "''v''" "''k''" "''k''" "[]"] by simp

section \<open>The shared window\<close>

text \<open>the shared data sits in the topmost window of the chain that can be reached, so that all the frames below it,
  whichever they are, find the same; and it exists afterwards.\<close>

theorem lookup_storage_topmost:
  "(case fst (lookup_storage blank ws) of
      None \<Rightarrow> \<not> list_ex can_access ws
    | Some i \<Rightarrow> i < length ws \<and> can_access (ws ! i) \<and> (\<forall>j < length ws. i < j \<longrightarrow> \<not> can_access (ws ! j)) \<and>
        win_data (snd (lookup_storage blank ws) ! i) =
          Some (case win_data (ws ! i) of None \<Rightarrow> blank | Some d \<Rightarrow> d))"
proof (induction ws)
  case (Cons w ws)
  obtain r ws' where l: "lookup_storage blank ws = (r, ws')" by force
  show ?case
  proof (cases r)
    case None
    then have no: "\<forall>j < length ws. \<not> can_access (ws ! j)" using Cons l by (simp add: list_ex_iff)
    show ?thesis
      using None l Cons no by (auto simp: nth_Cons less_Suc_eq_0_disj list_ex_iff split: option.split nat.split)
  next
    case (Some i)
    then show ?thesis using l Cons by (auto simp: less_Suc_eq_0_disj)
  qed
qed simp

section \<open>The cache\<close>

lemma upd_k_sel [simp]:
  "length (cw_caches (upd_k i f w)) = length (cw_caches w)" "cw_value (upd_k i f w) = cw_value w"
  "cw_version (upd_k i f w) = cw_version w"
  "cache_at (upd_k i f w) j = (if j = i \<and> i < length (cw_caches w) then f (cache_at w i) else cache_at w j)"
  by (auto simp: upd_k_def nth_list_update list_update_beyond not_less)

text \<open>A value exactly with a version; who owns the data has a source.\<close>

definition cache_inv :: "'v cworld \<Rightarrow> bool" where
  "cache_inv w \<longleftrightarrow> (cw_value w = None \<longleftrightarrow> cw_version w = None) \<and>
     (\<forall>i < length (cw_caches w). k_claimed (cache_at w i) \<longrightarrow> k_source (cache_at w i) \<noteq> None)"

lemma cache_callback_sel [simp]:
  "length (cw_caches (cache_callback i w)) = length (cw_caches w)" "cw_value (cache_callback i w) = cw_value w"
  "cw_version (cache_callback i w) = cw_version w"
  "k_claimed (cache_at (cache_callback i w) j) = k_claimed (cache_at w j)"
  "k_source (cache_at (cache_callback i w) j) = k_source (cache_at w j)"
  by (auto simp: cache_callback_def split: option.split)

lemma note_version_sel [simp]:
  "length (cw_caches (note_version i v w)) = length (cw_caches w)" "cw_value (note_version i v w) = cw_value w"
  "cw_version (note_version i v w) = cw_version w"
  "k_claimed (cache_at (note_version i v w) j) = k_claimed (cache_at w j)"
  "k_source (cache_at (note_version i v w) j) = k_source (cache_at w j)"
  by (auto simp: note_version_def)

lemma cache_inv_simps [simp]:
  "cache_inv (note_version i v w) = cache_inv w" "cache_inv (cache_callback i w) = cache_inv w"
  by (simp_all add: cache_inv_def)

lemma claim_inv: "cache_inv w \<Longrightarrow> cache_inv (claim i w)"
  by (auto simp: cache_inv_def claim_def)

lemma unclaim_inv: "cache_inv w \<Longrightarrow> cache_inv (unclaim i w)"
proof -
  assume inv: "cache_inv w"
  let ?w = "upd_k i (\<lambda>k. k\<lparr>k_source := None, k_claimed := False\<rparr>) w"
  have "cache_inv ?w" using inv by (auto simp: cache_inv_def)
  moreover from this have "cache_inv (?w\<lparr>cw_value := None, cw_version := None\<rparr>)" by (simp add: cache_inv_def)
  ultimately show ?thesis by (simp add: unclaim_def Let_def)
qed

lemma changed_inv: "cache_inv w \<Longrightarrow> cache_inv (changed i ev w)"
  by (simp add: changed_def claim_inv unclaim_inv)

lemma cache_result_inv: "cache_inv w \<Longrightarrow> cache_inv (cache_result i v n w)"
proof -
  assume inv: "cache_inv w"
  let ?w = "if k_source (cache_at w i) \<noteq> None \<and> \<not> k_claimed (cache_at w i)
    then upd_k i (\<lambda>k. k\<lparr>k_claimed := True\<rparr>) w else w"
  have w: "cache_inv ?w" using inv by (auto simp: cache_inv_def)
  then have "cache_inv (?w\<lparr>cw_value := Some v, cw_version := Some n\<rparr>)" by (simp add: cache_inv_def)
  then have "cache_inv (changed i ev (?w\<lparr>cw_value := Some v, cw_version := Some n\<rparr>))" for ev by (rule changed_inv)
  with w show ?thesis unfolding cache_result_def Let_def by presburger
qed

lemma new_cache_inv: "cache_inv w \<Longrightarrow> cache_inv (new_cache w)"
proof -
  assume inv: "cache_inv w"
  let ?w = "w\<lparr>cw_caches := cw_caches w @
    [\<lparr>k_claimed = False, k_source = None, k_last = None, k_listening = True, k_calls = []\<rparr>]\<rparr>"
  have "cache_inv ?w" using inv by (auto simp: cache_inv_def nth_append less_Suc_eq)
  then show ?thesis using claim_inv unfolding new_cache_def Let_def by (auto split: if_splits)
qed

inductive cache_reach :: "'v cworld \<Rightarrow> bool" where
  start: "cache_reach \<lparr>cw_value = None, cw_version = None, cw_caches = []\<rparr>"
| open_cache: "cache_reach w \<Longrightarrow> cache_reach (new_cache w)"
| event: "cache_reach w \<Longrightarrow> i < length (cw_caches w) \<Longrightarrow> ev_self ev \<noteq> Some i \<Longrightarrow> cache_reach (changed i ev w)"
| result: "cache_reach w \<Longrightarrow> i < length (cw_caches w) \<Longrightarrow> cache_reach (cache_result i v n w)"
| shut: "cache_reach w \<Longrightarrow> i < length (cw_caches w) \<Longrightarrow> cache_reach (cache_close i w)"

lemma cache_reach_inv: "cache_reach w \<Longrightarrow> cache_inv w"
proof (induction rule: cache_reach.induct)
  case (shut w i)
  have "cache_inv (upd_k i (\<lambda>k. k\<lparr>k_listening := False\<rparr>) w)" using shut by (auto simp: cache_inv_def)
  then show ?case unfolding cache_close_def by (rule unclaim_inv)
qed (simp_all add: cache_inv_def [of "\<lparr>cw_value = None, cw_version = None, cw_caches = []\<rparr>"] new_cache_inv changed_inv cache_result_inv)

text \<open>a new cache never waits in vain: in every reachable state it either finds a value and its consumer is about to
  be called with it, or it has asked its provider.\<close>

theorem new_cache_served:
  assumes "cache_reach w"
  shows "(\<exists>v. cw_value w = Some v \<and> k_calls (cache_at (new_cache w) (length (cw_caches w))) = [v]) \<or>
    k_source (cache_at (new_cache w) (length (cw_caches w))) \<noteq> None"
  using cache_reach_inv [OF assms]
  by (cases "cw_value w") (auto simp: cache_inv_def new_cache_def cache_callback_def claim_def)

theorem new_cache_served_witness:
  "k_source (cache_at (new_cache \<lparr>cw_value = None :: nat option, cw_version = None, cw_caches = []\<rparr>) 0) \<noteq> None"
  using new_cache_served [OF cache_reach.start [where 'v = nat]] by simp

text \<open>what the owner of the data publishes reaches every cache: its own consumer is about to be called with the value,
  and so is, once the browser delivers the event, the consumer of any other listening cache.\<close>

theorem cache_publish_reaches:
  assumes "i < length (cw_caches w)" and "j < length (cw_caches w)" and "i \<noteq> j"
    and "k_source (cache_at w i) \<noteq> None" and "k_listening (cache_at w i)" and "k_listening (cache_at w j)"
    and "k_last (cache_at w i) \<noteq> Some n" and "k_last (cache_at w j) \<noteq> Some n"
  shows "k_calls (cache_at (cache_result i v n w) i) = k_calls (cache_at w i) @ [v] \<and>
    k_calls (cache_at (changed j \<lparr>ev_self = None, ev_old = cw_version w, ev_new = Some n\<rparr> (cache_result i v n w)) j) =
      k_calls (cache_at w j) @ [v]"
  using assms by (auto simp: cache_result_def changed_def note_version_def cache_callback_def Let_def)

theorem cache_publish_reaches_witness:
  "k_calls (cache_at (changed 1 \<lparr>ev_self = None, ev_old = None, ev_new = Some 5\<rparr>
     (cache_result 0 (7 :: nat) 5 (new_cache (new_cache \<lparr>cw_value = None, cw_version = None, cw_caches = []\<rparr>)))) 1) = [7]"
  using cache_publish_reaches [of 0 "new_cache (new_cache \<lparr>cw_value = None, cw_version = None, cw_caches = []\<rparr>)" 1 5 "7 :: nat"]
  by (simp add: new_cache_def claim_def upd_k_def)



end
