(* ===== verification/Time_Series.thy ===== *)
theory Time_Series
  imports JS_Value
begin

text \<open>
  Time series, of \<open>src/base1/cockpit.js\<close>: \<open>SeriesSink\<close> (a cache of samples by time, in an ordered index of
  blocks, with expiry) and \<open>SeriesGrid\<close> (rows of samples for a range of time, filled by sinks).

  Blocks, rows, sinks and grids are objects that others refer to, so each kind has its store; the log holds
  what leaves the module: fetches asked of the owner of a sink, callbacks and notifications of grids.
\<close>

section \<open>State\<close>

record block =
  b_beg :: int
  b_items :: "js list"
  b_mapping :: js
  b_next :: "nat option"

text \<open>A link of a grid to a sink: the path in the sample and the row it goes to.\<close>

type_synonym link = "string list \<times> nat"

record sink =
  s_interval :: int
  s_limit :: int
  s_index :: "nat list"
  s_count :: int
  s_head :: "nat option"
  s_tail :: "nat option"
  s_has_fetch :: bool
  s_registered :: "(nat, link list) obj"

record grid =
  g_interval :: int
  g_beg :: int
  g_end :: int
  g_rows :: "nat list"
  g_callbacks :: "(nat \<times> nat) list"
  g_sinks :: "nat list"
  g_suppress :: nat
  g_offset :: "int option"

datatype series_effect =
    Fetch nat int int bool
  | GridCallback nat nat nat int int
  | GridNotify nat int int

record sworld =
  sw_blocks :: "block list"
  sw_rows :: "js list list"
  sw_sinks :: "sink list"
  sw_grids :: "grid list"
  sw_log :: "series_effect list"

abbreviation blk :: "sworld \<Rightarrow> nat \<Rightarrow> block" where
  "blk w b \<equiv> sw_blocks w ! b"

abbreviation snk :: "sworld \<Rightarrow> nat \<Rightarrow> sink" where
  "snk w s \<equiv> sw_sinks w ! s"

abbreviation grd :: "sworld \<Rightarrow> nat \<Rightarrow> grid" where
  "grd w g \<equiv> sw_grids w ! g"

definition upd_b :: "nat \<Rightarrow> (block \<Rightarrow> block) \<Rightarrow> sworld \<Rightarrow> sworld" where
  "upd_b b f w = w\<lparr>sw_blocks := (sw_blocks w)[b := f (blk w b)]\<rparr>"

definition upd_s :: "nat \<Rightarrow> (sink \<Rightarrow> sink) \<Rightarrow> sworld \<Rightarrow> sworld" where
  "upd_s s f w = w\<lparr>sw_sinks := (sw_sinks w)[s := f (snk w s)]\<rparr>"

definition upd_g :: "nat \<Rightarrow> (grid \<Rightarrow> grid) \<Rightarrow> sworld \<Rightarrow> sworld" where
  "upd_g g f w = w\<lparr>sw_grids := (sw_grids w)[g := f (grd w g)]\<rparr>"

definition slog :: "series_effect \<Rightarrow> sworld \<Rightarrow> sworld" where
  "slog e w = w\<lparr>sw_log := sw_log w @ [e]\<rparr>"

section \<open>Finding a place in the index\<close>

text \<open>\<open>search(idx, beg)\<close> on the begin times of the blocks; \<open>high\<close> may be -1.\<close>

function search_loop :: "int list \<Rightarrow> int \<Rightarrow> int \<Rightarrow> int \<Rightarrow> int" where
  "search_loop begs beg low high =
     (if low \<le> high then
        (let mid = (low + high) div 2;
             val = begs ! nat mid
         in if val < beg then search_loop begs beg (mid + 1) high
            else if val > beg then search_loop begs beg low (mid - 1)
            else mid)
      else low)"
  by pat_completeness auto
termination
  by (relation "measure (\<lambda>(begs, beg, low, high). nat (high - low + 1))") auto

declare search_loop.simps [simp del]

definition search :: "int list \<Rightarrow> int \<Rightarrow> nat" where
  "search begs beg = nat (search_loop begs beg 0 (int (length begs) - 1))"

definition begs_of :: "sworld \<Rightarrow> nat \<Rightarrow> int list" where
  "begs_of w s = map (\<lambda>b. b_beg (blk w b)) (s_index (snk w s))"

section \<open>Reading a sample\<close>

text \<open>The walk along the path; the mapping tells at which index a name is found.\<close>

fun walk_path :: "js \<Rightarrow> js \<Rightarrow> string list \<Rightarrow> js" where
  "walk_path data mp [] = data"
| "walk_path data mp (p # ps) =
     (if data = JUndef then JUndef
      else if \<not> truthy data then walk_path JUndef mp ps
      else if mp \<noteq> JUndef \<and> mp \<noteq> JNull then
        (let mp' = get_prop mp (JStr p)
         in walk_path (if truthy mp' then get_prop data (get_prop mp' (JStr '''')) else get_prop data (JStr p)) mp' ps)
      else walk_path (get_prop data (JStr p)) mp ps)"

text \<open>\<open>row[i] = data\<close>: an array grows as needed.\<close>

definition row_put :: "js list \<Rightarrow> nat \<Rightarrow> js \<Rightarrow> js list" where
  "row_put row i v =
     (if i < length row then row[i := v] else row @ replicate (i - length row) JUndef @ [v])"

section \<open>Filling grids\<close>

definition fill_cell :: "js \<Rightarrow> js \<Rightarrow> nat \<Rightarrow> link \<Rightarrow> sworld \<Rightarrow> sworld" where
  "fill_cell item mp i l w =
     (case l of (path, row) \<Rightarrow>
        w\<lparr>sw_rows := (sw_rows w)[row := row_put (sw_rows w ! row) i (walk_path item mp path)]\<rparr>)"

text \<open>\<open>SeriesGrid.notify(x, n)\<close>.\<close>

definition grid_notify :: "nat \<Rightarrow> int \<Rightarrow> int \<Rightarrow> sworld \<Rightarrow> sworld" where
  "grid_notify g x n w =
     (if g_suppress (grd w g) > 0 then w
      else
        let width = g_end (grd w g) - g_beg (grd w g);
            n = (if x + n > width then width - x else n)
        in if n \<le> 0 then w
           else slog (GridNotify g x n)
                  (fold (\<lambda>(cb, row). slog (GridCallback g cb row x n)) (g_callbacks (grd w g)) w))"

text \<open>\<open>process\<close>, for one registered grid.\<close>

definition process_grid :: "int \<Rightarrow> js list \<Rightarrow> js \<Rightarrow> nat \<times> link list \<Rightarrow> sworld \<Rightarrow> sworld" where
  "process_grid beg items mp gl w =
     (case gl of (g, links) \<Rightarrow>
        let b = max beg (g_beg (grd w g));
            e = min (beg + int (length items)) (g_end (grd w g))
        in if b < e then
             let f = nat (b - beg);
                 t = b - g_beg (grd w g);
                 n = nat (e - b);
                 w = fold (\<lambda>i. fold (fill_cell (items ! (f + i)) mp (nat t + i)) links) [0..<n] w
             in grid_notify g t (int n) w
           else w)"

definition sink_process :: "nat \<Rightarrow> int \<Rightarrow> js list \<Rightarrow> js \<Rightarrow> sworld \<Rightarrow> sworld" where
  "sink_process s beg items mp w = fold (process_grid beg items mp) (s_registered (snk w s)) w"

section \<open>Keeping samples\<close>

text \<open>\<open>xs.splice(i, n)\<close>.\<close>

definition cut :: "nat \<Rightarrow> nat \<Rightarrow> 'a list \<Rightarrow> 'a list" where
  "cut i n xs = take i xs @ drop (i + n) xs"

lemma upd_index [simp]:
  "length (s_index (sw_sinks (upd_s s (\<lambda>x. x\<lparr>s_count := f x\<rparr>) w) ! s')) = length (s_index (snk w s'))"
  by (cases "s < length (sw_sinks w)"; cases "s' = s") (auto simp: upd_s_def list_update_beyond not_less)

lemma upd_b_sinks [simp]: "sw_sinks (upd_b b f w) = sw_sinks w"
  by (simp add: upd_b_def)

text \<open>
  The first loop of \<open>stash\<close>: take the overlap out of the blocks from index \<open>i\<close> on.  Gives the store and the
  index at which the loop ended.
\<close>

function stash_trim :: "nat \<Rightarrow> int \<Rightarrow> int \<Rightarrow> nat \<Rightarrow> nat \<Rightarrow> sworld \<Rightarrow> sworld \<times> nat" where
  "stash_trim s beg end_t at i w =
     (if i < length (s_index (snk w s)) then
        (let b = s_index (snk w s) ! i;
             eb = b_beg (blk w b);
             en = int (length (b_items (blk w b)));
             lo = max eb beg;
             hi = min (eb + en) end_t
         in if en = 0 then stash_trim s beg end_t at (Suc i) w
            else if lo < hi then
              stash_trim s beg end_t at (Suc i)
                (upd_s s (\<lambda>x. x\<lparr>s_count := s_count x - (hi - lo)\<rparr>)
                  (upd_b b (\<lambda>x. x\<lparr>b_items := cut (nat (lo - eb)) (nat (hi - lo)) (b_items x),
                                 b_beg := (if lo = eb then eb + (hi - eb) else eb)\<rparr>) w))
            else if i \<ge> at then (w, i)
            else stash_trim s beg end_t at (Suc i) w)
      else (w, i))"
  by pat_completeness auto
termination
  by (relation "measure (\<lambda>(s, beg, end_t, at, i, w). length (s_index (snk w s)) - i)") auto

declare stash_trim.simps [simp del]

text \<open>The loop that removes empty blocks around the insertion point; \<open>at\<close> may be -1, an index behind the end is no block.\<close>

function drop_empty :: "block list \<Rightarrow> int \<Rightarrow> int \<Rightarrow> nat list \<Rightarrow> nat list" where
  "drop_empty blocks at i index =
     (if at \<le> i then
        (if 0 \<le> at \<and> nat at < length index \<and> b_items (blocks ! (index ! nat at)) = []
         then drop_empty blocks at i (cut (nat at) 1 index)
         else drop_empty blocks (at + 1) i index)
      else index)"
  by pat_completeness auto
termination
  by (relation "measures [\<lambda>(blocks, at, i, index). nat (i - at + 1), \<lambda>(blocks, at, i, index). length index]")
     (auto simp: cut_def)

declare drop_empty.simps [simp del]

text \<open>Expiry: empty the oldest blocks, along the list through \<open>next\<close>, until the count is within the limit.\<close>

fun expire :: "nat \<Rightarrow> nat \<Rightarrow> sworld \<Rightarrow> sworld" where
  "expire 0 s w = w"
| "expire (Suc fuel) s w =
     (case s_head (snk w s) of
        Some h \<Rightarrow>
          if s_count (snk w s) > s_limit (snk w s) then
            expire fuel s
              (upd_s s (\<lambda>x. x\<lparr>s_count := s_count x - int (length (b_items (blk w h))), s_head := b_next (blk w h)\<rparr>)
                (upd_b h (\<lambda>x. x\<lparr>b_items := [], b_mapping := JNull\<rparr>) w))
          else w
      | None \<Rightarrow> w)"

definition stash :: "nat \<Rightarrow> int \<Rightarrow> js list \<Rightarrow> js \<Rightarrow> sworld \<Rightarrow> sworld" where
  "stash s beg items mp w =
     (if items = [] then w
      else
        let at = search (begs_of w s) beg;
            (w, i) = stash_trim s beg (beg + int (length items)) at (if at > 0 then at - 1 else at) w;
            b = length (sw_blocks w);
            w = w\<lparr>sw_blocks := sw_blocks w @ [\<lparr>b_beg = beg, b_items = items, b_mapping = mp, b_next = None\<rparr>]\<rparr>;
            w = (case s_tail (snk w s) of None \<Rightarrow> w | Some t \<Rightarrow> upd_b t (\<lambda>x. x\<lparr>b_next := Some b\<rparr>) w);
            w = upd_s s (\<lambda>x. x\<lparr>s_head := (case s_head x of None \<Rightarrow> Some b | h \<Rightarrow> h), s_tail := Some b,
                               s_count := s_count x + int (length items),
                               s_index := take at (s_index x) @ b # drop at (s_index x)\<rparr>) w;
            w = upd_s s (\<lambda>x. x\<lparr>s_index := drop_empty (sw_blocks w) (int at - 1) (int i) (s_index x)\<rparr>) w;
            w = expire (Suc (length (sw_blocks w))) s w
        in upd_s s (\<lambda>x. x\<lparr>s_index := dropWhile (\<lambda>b. b_items (blk w b) = []) (s_index x)\<rparr>) w)"

definition sink_input :: "nat \<Rightarrow> int \<Rightarrow> js list \<Rightarrow> js \<Rightarrow> sworld \<Rightarrow> sworld" where
  "sink_input s beg items mp w = stash s beg items mp (sink_process s beg items mp w)"

section \<open>Loading\<close>

text \<open>\<open>fetch(beg, end, for_walking)\<close>.\<close>

definition sink_fetch :: "nat \<Rightarrow> bool \<Rightarrow> int \<times> int \<Rightarrow> sworld \<Rightarrow> sworld" where
  "sink_fetch s for_walking rg w =
     (case rg of (beg, end_t) \<Rightarrow>
        if s_has_fetch (snk w s) then
          slog (Fetch s beg end_t for_walking)
            (if for_walking then w
             else stash s beg (replicate (nat (end_t - beg)) JUndef) (JObj []) w)
        else w)"

text \<open>
  The walk of \<open>load\<close> over the blocks from index \<open>i\<close> on: the pieces to process (time, samples, mapping), the
  ranges to fetch and where the last piece ended.
\<close>

fun load_walk :: "int \<Rightarrow> int \<Rightarrow> nat \<Rightarrow> nat \<Rightarrow> block list \<Rightarrow> int \<Rightarrow> (int \<times> js list \<times> js) list \<times> (int \<times> int) list \<times> int" where
  "load_walk beg end_t at i [] l = ([], [], l)"
| "load_walk beg end_t at i (x # xs) l =
     (let eb = b_beg x;
          en = int (length (b_items x));
          b = max eb beg;
          e = min (eb + en) end_t
      in if en = 0 then load_walk beg end_t at (Suc i) xs l
         else if b < e then
           (case load_walk beg end_t at (Suc i) xs e of
              (ps, fs, l') \<Rightarrow>
                ((b, take (nat (e - b)) (drop (nat (b - eb)) (b_items x)), b_mapping x) # ps,
                 (if b > l then [(l, b)] else []) @ fs, l'))
         else if i \<ge> at then ([], [], l)
         else load_walk beg end_t at (Suc i) xs l)"

definition sink_load :: "nat \<Rightarrow> int \<Rightarrow> int \<Rightarrow> bool \<Rightarrow> sworld \<Rightarrow> sworld" where
  "sink_load s beg end_t for_walking w =
     (if end_t \<le> beg then w
      else
        let at = search (begs_of w s) beg;
            i = (if at > 0 then at - 1 else at)
        in case load_walk beg end_t at i (drop i (map (blk w) (s_index (snk w s)))) beg of
             (ps, fs, l) \<Rightarrow>
               fold (sink_fetch s for_walking) (fs @ (if l \<noteq> end_t then [(l, end_t)] else []))
                 (fold (\<lambda>(b, items, mp). sink_process s b items mp) ps w))"

section \<open>Grids\<close>

definition new_sink :: "int \<Rightarrow> bool \<Rightarrow> bool \<Rightarrow> sworld \<Rightarrow> sworld" where
  "new_sink interval identified has_fetch w =
     w\<lparr>sw_sinks := sw_sinks w @ [\<lparr>s_interval = interval, s_limit = (if identified then 64 * 1024 else 1024),
       s_index = [], s_count = 0, s_head = None, s_tail = None, s_has_fetch = has_fetch, s_registered = []\<rparr>]\<rparr>"

text \<open>\<open>add(sink, path)\<close>: \<open>None\<close> is the exception for a sink of another interval.\<close>

definition grid_add :: "nat \<Rightarrow> nat \<Rightarrow> string list \<Rightarrow> sworld \<Rightarrow> sworld \<times> nat option" where
  "grid_add g s path w =
     (let row = length (sw_rows w);
          w = upd_g g (\<lambda>x. x\<lparr>g_rows := g_rows x @ [row]\<rparr>) (w\<lparr>sw_rows := sw_rows w @ [[]]\<rparr>)
      in if g_interval (grd w g) \<noteq> s_interval (snk w s) then (w, None)
         else
           let links = (case oget (s_registered (snk w s)) g of None \<Rightarrow> [] | Some ls \<Rightarrow> ls);
               w = (if links = [] then upd_g g (\<lambda>x. x\<lparr>g_sinks := g_sinks x @ [s]\<rparr>) w else w)
           in (upd_s s (\<lambda>x. x\<lparr>s_registered := oset (s_registered x) g (links @ [(path, row)])\<rparr>) w, Some row))"

definition grid_add_callback :: "nat \<Rightarrow> nat \<Rightarrow> bool \<Rightarrow> sworld \<Rightarrow> sworld \<times> nat" where
  "grid_add_callback g cb early w =
     (let row = length (sw_rows w)
      in (upd_g g (\<lambda>x. x\<lparr>g_rows := g_rows x @ [row],
                         g_callbacks := (if early then (cb, row) # g_callbacks x else g_callbacks x @ [(cb, row)])\<rparr>)
            (w\<lparr>sw_rows := sw_rows w @ [[]]\<rparr>), row))"

text \<open>The first link to the row goes, in every sink.\<close>

fun drop_link :: "nat \<Rightarrow> link list \<Rightarrow> link list" where
  "drop_link row [] = []"
| "drop_link row (l # ls) = (if snd l = row then ls else l # drop_link row ls)"

definition grid_remove :: "nat \<Rightarrow> nat \<Rightarrow> sworld \<Rightarrow> sworld" where
  "grid_remove g row w =
     upd_g g (\<lambda>x. x\<lparr>g_rows := remove1 row (g_rows x)\<rparr>)
       (fold (\<lambda>s w. upd_s s (\<lambda>x. case oget (s_registered x) g of
            None \<Rightarrow> x | Some ls \<Rightarrow> x\<lparr>s_registered := oset (s_registered x) g (drop_link row ls)\<rparr>) w)
          (g_sinks (grd w g)) w)"

definition grid_remove_sink :: "nat \<Rightarrow> nat \<Rightarrow> sworld \<Rightarrow> sworld" where
  "grid_remove_sink g s w =
     (if s \<in> set (g_sinks (grd w g))
      then upd_g g (\<lambda>x. x\<lparr>g_sinks := remove1 s (g_sinks x)\<rparr>)
             (upd_s s (\<lambda>x. x\<lparr>s_registered := odel (s_registered x) g\<rparr>) w)
      else w)"

definition sink_close :: "nat \<Rightarrow> sworld \<Rightarrow> sworld" where
  "sink_close s w = fold (\<lambda>(g, _). grid_remove_sink g s) (s_registered (snk w s)) w"

definition grid_sync :: "nat \<Rightarrow> bool \<Rightarrow> sworld \<Rightarrow> sworld" where
  "grid_sync g for_walking w =
     (let w = upd_g g (\<lambda>x. x\<lparr>g_suppress := Suc (g_suppress x)\<rparr>) w;
          w = fold (\<lambda>s w. sink_load s (g_beg (grd w g)) (g_end (grd w g)) for_walking w) (g_sinks (grd w g)) w;
          w = upd_g g (\<lambda>x. x\<lparr>g_suppress := g_suppress x - 1\<rparr>) w
      in grid_notify g 0 (g_end (grd w g) - g_beg (grd w g)) w)"

definition move_internal :: "nat \<Rightarrow> int \<Rightarrow> int option \<Rightarrow> bool \<Rightarrow> sworld \<Rightarrow> sworld" where
  "move_internal g beg end_t for_walking w =
     (let e = (case end_t of None \<Rightarrow> beg + (g_end (grd w g) - g_beg (grd w g)) | Some e \<Rightarrow> e);
          b = (if e < beg then e else beg);
          w = upd_g g (\<lambda>x. x\<lparr>g_beg := b, g_end := e\<rparr>) w
      in if g_rows (grd w g) = [] then w
         else grid_sync g for_walking
                (w\<lparr>sw_rows := fold (\<lambda>r rs. rs[r := []]) (g_rows (grd w g)) (sw_rows w)\<rparr>))"

text \<open>\<open>move(beg, end)\<close>: negative times are relative to now (a negative zero is one of them: \<open>- 0\<close> is \<open>Rel 0\<close>).\<close>

datatype grid_time = Abs int | Rel int

definition resolve_time :: "int \<Rightarrow> int \<Rightarrow> grid_time \<Rightarrow> int" where
  "resolve_time interval now t = (case t of Abs i \<Rightarrow> i | Rel i \<Rightarrow> now div interval + i)"

definition grid_move :: "nat \<Rightarrow> int \<Rightarrow> grid_time option \<Rightarrow> grid_time option \<Rightarrow> sworld \<Rightarrow> sworld" where
  "grid_move g now beg end_t w =
     (let w = upd_g g (\<lambda>x. x\<lparr>g_offset := None\<rparr>) w;
          iv = g_interval (grd w g)
      in move_internal g (case beg of None \<Rightarrow> 0 | Some t \<Rightarrow> resolve_time iv now t)
           (map_option (resolve_time iv now) end_t) False w)"

definition grid_walk :: "nat \<Rightarrow> int \<Rightarrow> sworld \<Rightarrow> sworld" where
  "grid_walk g start w =
     (if g_interval (grd w g) > 2000000000 then w
      else upd_g g (\<lambda>x. x\<lparr>g_offset := Some (start - g_beg x * g_interval x)\<rparr>) w)"

text \<open>The timer of a walking grid.\<close>

definition grid_tick :: "nat \<Rightarrow> int \<Rightarrow> sworld \<Rightarrow> sworld" where
  "grid_tick g now w =
     (case g_offset (grd w g) of
        None \<Rightarrow> w
      | Some off \<Rightarrow> move_internal g ((now - off) div g_interval (grd w g)) None True w)"

definition grid_close :: "nat \<Rightarrow> sworld \<Rightarrow> sworld" where
  "grid_close g w =
     upd_g g (\<lambda>x. x\<lparr>g_sinks := [], g_offset := None\<rparr>)
       (fold (\<lambda>s. upd_s s (\<lambda>x. x\<lparr>s_registered := odel (s_registered x) g\<rparr>)) (g_sinks (grd w g)) w)"

definition new_grid :: "int \<Rightarrow> int \<Rightarrow> grid_time option \<Rightarrow> grid_time option \<Rightarrow> sworld \<Rightarrow> sworld" where
  "new_grid interval now beg end_t w =
     grid_move (length (sw_grids w)) now beg end_t
       (w\<lparr>sw_grids := sw_grids w @ [\<lparr>g_interval = interval, g_beg = 0, g_end = 0, g_rows = [], g_callbacks = [],
          g_sinks = [], g_suppress = 0, g_offset = None\<rparr>]\<rparr>)"


section \<open>The search finds the insertion point\<close>

lemma search_loop_inv:
  assumes "sorted_wrt (<) begs" and "0 \<le> low" and "high < int (length begs)" and "low \<le> high + 1"
    and "\<And>i. i < nat low \<Longrightarrow> begs ! i < beg"
    and "\<And>i. high < int i \<Longrightarrow> i < length begs \<Longrightarrow> beg < begs ! i"
  shows "let k = search_loop begs beg low high in
           0 \<le> k \<and> k \<le> int (length begs) \<and> (\<forall>i < nat k. begs ! i < beg) \<and>
           (\<forall>i < length begs. nat k \<le> i \<longrightarrow> beg \<le> begs ! i)"
  using assms
proof (induction begs beg low high rule: search_loop.induct)
  case (1 begs beg low high)
  define mid where "mid = (low + high) div 2"
  show ?case
  proof (cases "low \<le> high")
    case False
    then show ?thesis
      using 1(3-) by (subst search_loop.simps) (auto simp: Let_def intro: less_imp_le)
  next
    case True
    then have mid: "low \<le> mid" "mid \<le> high" "nat mid < length begs" "0 \<le> mid"
      using "1.prems" by (auto simp: mid_def)
    have before: "begs ! i < begs ! nat mid" if "i < nat mid" for i
      using sorted_wrt_nth_less [OF "1.prems"(1) that mid(3)] .
    have after: "begs ! nat mid < begs ! i" if "nat mid < i" "i < length begs" for i
      using sorted_wrt_nth_less [OF "1.prems"(1) that] .
    consider (less) "begs ! nat mid < beg" | (more) "beg < begs ! nat mid" | (eq) "begs ! nat mid = beg"
      by linarith
    then show ?thesis
    proof cases
      case less
      have step: "search_loop begs beg low high = search_loop begs beg (mid + 1) high"
        using True less by (subst search_loop.simps) (simp add: Let_def mid_def)
      have "begs ! i < beg" if "i < nat (mid + 1)" for i
        using that order.strict_trans [OF before [of i] less] less mid by (cases "i = nat mid") auto
      then show ?thesis
        unfolding step using "1.IH"(1) [OF True mid_def refl less] "1.prems" mid by auto
    next
      case more
      have step: "search_loop begs beg low high = search_loop begs beg low (mid - 1)"
        using True more by (subst search_loop.simps) (simp add: Let_def mid_def)
      have "beg < begs ! i" if "mid - 1 < int i" "i < length begs" for i
        using that order.strict_trans [OF more after [of i]] more mid by (cases "i = nat mid") auto
      then show ?thesis
        unfolding step using "1.IH"(2) [OF True mid_def refl _ more] more "1.prems" mid by auto
    next
      case eq
      have step: "search_loop begs beg low high = mid"
        using True eq by (subst search_loop.simps) (simp add: Let_def mid_def)
      show ?thesis
        unfolding step Let_def using mid before after eq
        by (auto simp: le_less)
    qed
  qed
qed

lemma search_spec:
  assumes "sorted_wrt (<) begs"
  shows "search begs beg \<le> length begs"
    and "i < search begs beg \<Longrightarrow> begs ! i < beg"
    and "search begs beg \<le> i \<Longrightarrow> i < length begs \<Longrightarrow> beg \<le> begs ! i"
  using search_loop_inv [OF assms, of 0 "int (length begs) - 1" beg]
  by (auto simp: search_def Let_def)

text \<open>On an index of blocks with increasing begin times, the binary search returns the number of blocks that
  begin before the wanted time, the place where the new block is to be inserted.\<close>

theorem search_insertion_point:
  assumes "sorted_wrt (<) begs"
  shows "search begs beg = length (filter (\<lambda>b. b < beg) begs)"
proof -
  let ?k = "search begs beg"
  have "filter (\<lambda>b. b < beg) begs = filter (\<lambda>b. b < beg) (take ?k begs) @ filter (\<lambda>b. b < beg) (drop ?k begs)"
    by (metis append_take_drop_id filter_append)
  moreover have "filter (\<lambda>b. b < beg) (take ?k begs) = take ?k begs"
    using search_spec(1,2) [OF assms] by (fastforce simp: filter_id_conv in_set_conv_nth)
  moreover have "filter (\<lambda>b. b < beg) (drop ?k begs) = []"
    using search_spec(3) [OF assms] by (fastforce simp: filter_empty_conv in_set_conv_nth not_less)
  ultimately show ?thesis
    using search_spec(1) [OF assms] by simp
qed

theorem search_insertion_point_witness:
  "search [2, 5, 9] 6 = length (filter (\<lambda>b. b < (6::int)) [2, 5, 9])"
  by (rule search_insertion_point) simp


section \<open>Loading partitions the range\<close>

abbreviation b_stop :: "block \<Rightarrow> int" where
  "b_stop x \<equiv> b_beg x + int (length (b_items x))"

text \<open>What the index knows about a time, and what the pieces of a load say about it.\<close>

fun cached_at :: "block list \<Rightarrow> int \<Rightarrow> (js \<times> js) option" where
  "cached_at [] t = None"
| "cached_at (x # xs) t =
     (if b_beg x \<le> t \<and> t < b_stop x then Some (b_items x ! nat (t - b_beg x), b_mapping x) else cached_at xs t)"

fun piece_at :: "(int \<times> js list \<times> js) list \<Rightarrow> int \<Rightarrow> (js \<times> js) option" where
  "piece_at [] t = None"
| "piece_at ((b, items, mp) # ps) t =
     (if b \<le> t \<and> t < b + int (length items) then Some (items ! nat (t - b), mp) else piece_at ps t)"

definition in_ranges :: "(int \<times> int) list \<Rightarrow> int \<Rightarrow> bool" where
  "in_ranges rs t = (\<exists>r \<in> set rs. fst r \<le> t \<and> t < snd r)"

lemma in_ranges_simps [simp]:
  "in_ranges [] t = False"
  "in_ranges (r # rs) t = (fst r \<le> t \<and> t < snd r \<or> in_ranges rs t)"
  "in_ranges (rs @ rs') t = (in_ranges rs t \<or> in_ranges rs' t)"
  by (auto simp: in_ranges_def)

text \<open>An index is well formed when its blocks are ordered and do not overlap.\<close>

abbreviation blocks_ok :: "block list \<Rightarrow> bool" where
  "blocks_ok xs \<equiv> sorted_wrt (\<lambda>x y. b_beg x < b_beg y \<and> b_stop x \<le> b_beg y) xs"

lemma cached_at_None: "(\<And>x. x \<in> set xs \<Longrightarrow> b_beg x \<le> t \<Longrightarrow> b_stop x \<le> t) \<Longrightarrow> cached_at xs t = None"
  by (induction xs) (auto simp: not_less)

lemma cached_at_append:
  "cached_at xs t = None \<Longrightarrow> cached_at (xs @ ys) t = cached_at ys t"
  by (induction xs) (auto split: if_splits)

lemma load_walk_spec:
  assumes "blocks_ok xs" and "\<And>j. j < length xs \<Longrightarrow> at \<le> i + j \<Longrightarrow> beg \<le> b_beg (xs ! j)"
    and "beg \<le> l" and "l \<le> end_t" and "\<And>x. x \<in> set xs \<Longrightarrow> l \<le> max (b_beg x) beg"
    and "load_walk beg end_t at i xs l = (ps, fs, l')"
  shows "l \<le> l' \<and> l' \<le> end_t \<and>
         piece_at ps t = (if l \<le> t \<and> t < end_t then cached_at xs t else None) \<and>
         (in_ranges fs t \<or> l' \<le> t \<and> t < end_t) = (l \<le> t \<and> t < end_t \<and> cached_at xs t = None)"
  using assms
proof (induction beg end_t at i xs l arbitrary: ps fs l' rule: load_walk.induct)
  case (1 beg end_t at i l)
  then show ?case by auto
next
  case (2 beg end_t at i x xs l)
  let ?b = "max (b_beg x) beg" and ?e = "min (b_stop x) end_t"
  have idx: "beg \<le> b_beg (xs ! j)" if "j < length xs" "at \<le> Suc i + j" for j
    using "2.prems"(2) [of "Suc j"] that by simp
  have x0: "at \<le> i \<Longrightarrow> beg \<le> b_beg x"
    using "2.prems"(2) [of 0] by simp
  consider (void) "b_items x = []"
    | (hit) "b_items x \<noteq> []" "?b < ?e"
    | (stop) "b_items x \<noteq> []" "\<not> ?b < ?e" "at \<le> i"
    | (skip) "b_items x \<noteq> []" "\<not> ?b < ?e" "\<not> at \<le> i"
    by blast
  then show ?case
  proof cases
    case void
    then show ?thesis
      using "2.IH"(1) [OF refl refl refl refl] "2.prems" idx by (auto simp: Let_def)
  next
    case hit
    obtain ps1 fs1 l1 where rest: "load_walk beg end_t at (Suc i) xs ?e = (ps1, fs1, l1)"
      by (metis prod_cases3)
    have later: "?e \<le> max (b_beg y) beg" if "y \<in> set xs" for y
      using "2.prems"(1) that by fastforce
    have IH: "?e \<le> l1 \<and> l1 \<le> end_t \<and>
        piece_at ps1 t = (if ?e \<le> t \<and> t < end_t then cached_at xs t else None) \<and>
        (in_ranges fs1 t \<or> l1 \<le> t \<and> t < end_t) = (?e \<le> t \<and> t < end_t \<and> cached_at xs t = None)"
      using "2.IH"(2) [OF refl refl refl refl _ hit(2) _ idx _ _ later rest] hit "2.prems" by simp
    have out: "ps = (?b, take (nat (?e - ?b)) (drop (nat (?b - b_beg x)) (b_items x)), b_mapping x) # ps1"
      "fs = (if ?b > l then [(l, ?b)] else []) @ fs1" "l' = l1"
      using "2.prems"(6) hit rest by (auto simp: Let_def)
    have len: "int (length (take (nat (?e - ?b)) (drop (nat (?b - b_beg x)) (b_items x)))) = ?e - ?b"
      using hit by auto
    have lb: "l \<le> ?b"
      using "2.prems"(5) by simp
    have here: "take (nat (?e - ?b)) (drop (nat (?b - b_beg x)) (b_items x)) ! nat (t - ?b) = b_items x ! nat (t - b_beg x)"
      if "?b \<le> t" "t < ?e"
    proof -
      have "nat (?b - b_beg x) + nat (t - ?b) = nat (t - b_beg x)"
        using that by linarith
      then show ?thesis
        using that by (subst nth_take) (auto simp: nth_drop)
    qed
    have gap: "cached_at xs t = None" if "t < ?e"
      using "2.prems"(1) that by (intro cached_at_None) fastforce
    have piece: "piece_at ps t = (if ?b \<le> t \<and> t < ?e then Some (b_items x ! nat (t - b_beg x), b_mapping x) else piece_at ps1 t)"
      unfolding out piece_at.simps len using here by auto
    have rng: "in_ranges fs t = (l \<le> t \<and> t < ?b \<or> in_ranges fs1 t)"
      unfolding out by auto
    have inside: "(b_beg x \<le> t \<and> t < b_stop x) = (?b \<le> t \<and> t < ?e)" if "l \<le> t" "t < end_t"
      using that "2.prems"(3) by auto
    have "l \<le> l'"
      using IH lb hit(2) out(3) by linarith
    moreover have "piece_at ps t = (if l \<le> t \<and> t < end_t then cached_at (x # xs) t else None)"
      using IH inside gap lb hit(2) by (auto simp: piece)
    moreover have "(in_ranges fs t \<or> l' \<le> t \<and> t < end_t) = (l \<le> t \<and> t < end_t \<and> cached_at (x # xs) t = None)"
    proof (cases "l \<le> t \<and> t < end_t")
      case True
      then show ?thesis
        using IH inside gap hit(2) by (auto simp: rng out(3))
    next
      case False
      then show ?thesis
        using IH lb hit(2) by (auto simp: rng out(3))
    qed
    ultimately show ?thesis
      using IH out(3) by simp
  next
    case stop
    have "cached_at (x # xs) t = None" if "l \<le> t" "t < end_t"
      using "2.prems"(1,3) stop x0 that by (intro cached_at_None) fastforce
    then show ?thesis
      using "2.prems"(4,6) stop by (auto simp: Let_def)
  next
    case skip
    have same: "cached_at (x # xs) t = cached_at xs t" if "l \<le> t" "t < end_t"
      using skip that "2.prems"(3) by auto
    have rest: "load_walk beg end_t at (Suc i) xs l = (ps, fs, l')"
      using "2.prems"(6) skip by (auto simp: Let_def split: if_splits)
    have "int (length (b_items x)) \<noteq> 0"
      using skip by simp
    note IH = "2.IH"(3) [OF refl refl refl refl this skip(2) skip(3) _ idx _ _ _ rest]
    show ?thesis
      using IH "2.prems"(1,3,4,5) same by auto
  qed
qed



text \<open>A cache with samples for the times 2 to 4 and 7 to 8, asked for 3 to 9.\<close>

definition demo_blocks :: "block list" where
  "demo_blocks =
     [\<lparr>b_beg = 2, b_items = [JNum 20, JNum 30, JNum 40], b_mapping = JUndef, b_next = Some 1\<rparr>,
      \<lparr>b_beg = 7, b_items = [JNum 70, JNum 80], b_mapping = JUndef, b_next = None\<rparr>]"


section \<open>Filling a grid\<close>


lemma row_put_simps [simp]:
  "row_put row i v ! i = v"
  "j \<noteq> i \<Longrightarrow> j < length row \<Longrightarrow> row_put row i v ! j = row ! j"
  "length (row_put row i v) = max (length row) (Suc i)"
  by (auto simp: row_put_def nth_append)

lemma sw_rows_slog [simp]: "sw_rows (slog e w) = sw_rows w"
  by (simp add: slog_def)

lemma sw_rows_callbacks [simp]: "sw_rows (fold (\<lambda>(cb, row). slog (GridCallback g cb row x n)) cbs w) = sw_rows w"
  by (induction cbs arbitrary: w) auto

lemma sw_rows_notify [simp]: "sw_rows (grid_notify g x n w) = sw_rows w"
  by (simp add: grid_notify_def Let_def)

lemma fill_cells:
  assumes "distinct (map snd links)" and "\<forall>l \<in> set links. snd l < length (sw_rows w)"
  shows "length (sw_rows (fold (fill_cell item mp i) links w)) = length (sw_rows w)"
    and "(path, r) \<in> set links \<Longrightarrow>
           sw_rows (fold (fill_cell item mp i) links w) ! r = row_put (sw_rows w ! r) i (walk_path item mp path)"
    and "r \<notin> snd ` set links \<Longrightarrow> sw_rows (fold (fill_cell item mp i) links w) ! r = sw_rows w ! r"
  using assms
proof (induction links arbitrary: w)
  case (Cons l ls)
  obtain p q where l: "l = (p, q)"
    by force
  have rows: "sw_rows (fill_cell item mp i (p, q) w) = (sw_rows w)[q := row_put (sw_rows w ! q) i (walk_path item mp p)]" for w
    by (simp add: fill_cell_def)
  have q: "q \<notin> snd ` set ls" "q < length (sw_rows w)" and len: "distinct (map snd ls)"
    "\<forall>l \<in> set ls. snd l < length (sw_rows (fill_cell item mp i (p, q) w))"
    if "distinct (map snd (l # ls))" "\<forall>l \<in> set (l # ls). snd l < length (sw_rows w)" for w
    using that by (auto simp: l rows)
  { case 1 then show ?case
      using Cons.IH(1) [OF len [OF 1]] by (simp add: l rows)
  next
    case 2
    have "r \<noteq> q" if "(path, r) \<in> set ls"
      using that q [OF 2(2,3)] by force
    then show ?case
      using Cons.IH(2,3) [OF _ len [OF 2(2,3)]] q [OF 2(2,3)] 2(1) by (cases "(path, r) \<in> set ls") (auto simp: l rows)
  next
    case 3 then show ?case
      using Cons.IH(3) [OF _ len [OF 3(2,3)]] 3(1) by (simp add: l rows) }
qed simp_all

text \<open>The loop over the samples of the overlap.\<close>

lemma fill_rows:
  assumes "distinct (map snd links)" and "\<forall>l \<in> set links. snd l < length (sw_rows w)"
    and "w' = fold (\<lambda>i. fold (fill_cell (items ! (f + i)) mp (t + i)) links) [0..<n] w"
  shows "length (sw_rows w') = length (sw_rows w)"
    and "(path, r) \<in> set links \<Longrightarrow> i < n \<Longrightarrow> sw_rows w' ! r ! (t + i) = walk_path (items ! (f + i)) mp path"
    and "(path, r) \<in> set links \<Longrightarrow> t + n \<le> max t (length (sw_rows w' ! r)) \<and> length (sw_rows w ! r) \<le> length (sw_rows w' ! r)"
    and "(path, r) \<in> set links \<Longrightarrow> j < length (sw_rows w ! r) \<Longrightarrow> j < t \<or> t + n \<le> j \<Longrightarrow> sw_rows w' ! r ! j = sw_rows w ! r ! j"
    and "r \<notin> snd ` set links \<Longrightarrow> sw_rows w' ! r = sw_rows w ! r"
  using assms(3)
proof (induction n arbitrary: w')
  case (Suc n)
  define w1 where "w1 = fold (\<lambda>i. fold (fill_cell (items ! (f + i)) mp (t + i)) links) [0..<n] w"
  have "\<forall>l \<in> set links. snd l < length (sw_rows w1)"
    using Suc(1) [OF w1_def] assms(2) by simp
  note step = fill_cells [OF assms(1) this, where item = "items ! (f + n)" and mp = mp and i = "t + n"]
  have unfold: "w' = fold (fill_cell (items ! (f + n)) mp (t + n)) links w1"
    if "w' = fold (\<lambda>i. fold (fill_cell (items ! (f + i)) mp (t + i)) links) [0..<Suc n] w" for w'
    using that by (simp add: w1_def)
  note old = Suc(3) [OF _ w1_def]
  { case 1 then show ?case
      using unfold [OF 1] step(1) Suc(1) [OF w1_def] by simp
  next
    case 2 then show ?case
      using step(2) [OF 2(1)] Suc(2) [OF 2(1) _ w1_def] old [OF 2(1)] unfold [OF 2(3)] by (auto simp: less_Suc_eq)
  next
    case 3 then show ?case
      using step(2) [OF 3(1)] old [OF 3(1)] unfold [OF 3(2)] by auto
  next
    case 4 then show ?case
      using step(2) [OF 4(1)] Suc(4) [OF 4(1,2) _ w1_def] old [OF 4(1)] unfold [OF 4(4)] by auto
  next
    case 5 then show ?case
      using step(3) [OF 5(1)] Suc(5) [OF 5(1) w1_def] unfold [OF 5(2)] by simp }
qed simp_all

text \<open>Samples that arrive for a grid land where they belong: for each time of the overlap of the samples with
  the grid, every row linked to the sink gets, at the offset of that time in the grid, the value found along its
  path in the sample of that time; earlier and later cells of these rows and all other rows stay as they are.\<close>

theorem process_fills_grid:
  assumes "distinct (map snd links)" and "\<forall>l \<in> set links. snd l < length (sw_rows w)"
    and "w' = process_grid beg items mp (g, links) w"
  shows "((path, r) \<in> set links \<longrightarrow>
           max beg (g_beg (grd w g)) \<le> time \<longrightarrow> time < min (beg + int (length items)) (g_end (grd w g)) \<longrightarrow>
           sw_rows w' ! r ! nat (time - g_beg (grd w g)) = walk_path (items ! nat (time - beg)) mp path) \<and>
         ((path, r) \<in> set links \<longrightarrow> j < length (sw_rows w ! r) \<longrightarrow>
           \<not> (beg \<le> g_beg (grd w g) + int j \<and> g_beg (grd w g) + int j < beg + int (length items)) \<longrightarrow>
           sw_rows w' ! r ! j = sw_rows w ! r ! j) \<and>
         (r \<notin> snd ` set links \<longrightarrow> sw_rows w' ! r = sw_rows w ! r)"
proof (cases "max beg (g_beg (grd w g)) < min (beg + int (length items)) (g_end (grd w g))")
  case False
  then show ?thesis
    using assms(3) by (auto simp: process_grid_def Let_def)
next
  case True
  define b e where "b = max beg (g_beg (grd w g))" and "e = min (beg + int (length items)) (g_end (grd w g))"
  define w1 where "w1 = fold (\<lambda>i. fold (fill_cell (items ! (nat (b - beg) + i)) mp (nat (b - g_beg (grd w g)) + i)) links)
    [0..<nat (e - b)] w"
  note rows = fill_rows [OF assms(1,2) w1_def]
  have w': "sw_rows w' = sw_rows w1"
    using True by (simp add: assms(3) process_grid_def Let_def w1_def b_def e_def)
  have be: "beg \<le> b" "g_beg (grd w g) \<le> b" "e \<le> beg + int (length items)"
    by (auto simp: b_def e_def)
  show ?thesis
  proof (intro conjI impI)
    assume l: "(path, r) \<in> set links" and "max beg (g_beg (grd w g)) \<le> time"
      and "time < min (beg + int (length items)) (g_end (grd w g))"
    then have time: "b \<le> time" "nat (time - b) < nat (e - b)"
      by (auto simp: b_def e_def)
    have "nat (b - g_beg (grd w g)) + nat (time - b) = nat (time - g_beg (grd w g))"
      "nat (b - beg) + nat (time - b) = nat (time - beg)"
      using be time(1) by linarith+
    then show "sw_rows w' ! r ! nat (time - g_beg (grd w g)) = walk_path (items ! nat (time - beg)) mp path"
      using rows(2) [OF l time(2)] unfolding w' by simp
  next
    assume l: "(path, r) \<in> set links" and j: "j < length (sw_rows w ! r)"
      and out: "\<not> (beg \<le> g_beg (grd w g) + int j \<and> g_beg (grd w g) + int j < beg + int (length items))"
    have "j < nat (b - g_beg (grd w g)) \<or> nat (b - g_beg (grd w g)) + nat (e - b) \<le> j"
      using out be by (auto simp: b_def)
    then show "sw_rows w' ! r ! j = sw_rows w ! r ! j"
      unfolding w' by (rule rows(4) [OF l j])
  next
    assume "r \<notin> snd ` set links"
    then show "sw_rows w' ! r = sw_rows w ! r"
      unfolding w' by (rule rows(5))
  qed
qed

definition demo_grid_world :: sworld where
  "demo_grid_world =
     \<lparr>sw_blocks = [], sw_rows = [[], []],
      sw_sinks = [],
      sw_grids = [\<lparr>g_interval = 1000, g_beg = 5, g_end = 8, g_rows = [0, 1], g_callbacks = [], g_sinks = [0],
        g_suppress = 0, g_offset = None\<rparr>],
      sw_log = []\<rparr>"

theorem process_fills_grid_witness:
  "sw_rows (process_grid 4 [JArr [JNum 1], JArr [JNum 2], JArr [JNum 3]] JUndef (0, [([''0''], 0)]) demo_grid_world) ! 0 ! nat (6 - 5)
     = walk_path (JArr [JNum 3]) JUndef [''0''] \<and>
   walk_path (JArr [JNum 3]) JUndef [''0''] = JNum 3"
proof -
  have "distinct (map snd [([''0''], 0 :: nat)])"
    and "\<forall>l \<in> set [([''0''], 0 :: nat)]. snd l < length (sw_rows demo_grid_world)"
    and "max 4 (g_beg (grd demo_grid_world 0)) \<le> 6" and "nat (6 - 4) = 2" and "g_beg (grd demo_grid_world 0) = 5"
    and "6 < min (4 + int (length [JArr [JNum 1], JArr [JNum 2], JArr [JNum 3]])) (g_end (grd demo_grid_world 0))"
    by (simp_all add: demo_grid_world_def)
  note process_fills_grid [OF this(1,2) refl, THEN conjunct1, rule_format, OF _ this(3) this(6), of "[''0'']" 0 JUndef, unfolded this(4,5)]
  then have "sw_rows (process_grid 4 [JArr [JNum 1], JArr [JNum 2], JArr [JNum 3]] JUndef (0, [([''0''], 0)]) demo_grid_world) ! 0 ! nat (6 - 5)
     = walk_path (JArr [JNum 3]) JUndef [''0'']"
    by simp
  moreover have "walk_path (JArr [JNum 3]) JUndef [''0''] = JNum 3"
    by code_simp
  ultimately show ?thesis ..
qed

section \<open>Expiry\<close>

text \<open>The blocks are chained in the order in which they were stashed.\<close>

definition chain_ok :: "sworld \<Rightarrow> nat \<Rightarrow> bool" where
  "chain_ok w s \<longleftrightarrow>
     (\<forall>b < length (sw_blocks w). \<forall>n. b_next (blk w b) = Some n \<longrightarrow> b < n \<and> n < length (sw_blocks w)) \<and>
     (\<forall>h. s_head (snk w s) = Some h \<longrightarrow> h < length (sw_blocks w)) \<and>
     (\<forall>h. s_tail (snk w s) = Some h \<longrightarrow> h < length (sw_blocks w)) \<and>
     s < length (sw_sinks w)"

lemma snk_upd_s [simp]: "s < length (sw_sinks w) \<Longrightarrow> snk (upd_s s f w) s = f (snk w s)"
  by (simp add: upd_s_def)

lemma upd_simps [simp]:
  "sw_blocks (upd_s s f w) = sw_blocks w" "length (sw_sinks (upd_s s f w)) = length (sw_sinks w)"
  "length (sw_blocks (upd_b b g w)) = length (sw_blocks w)"
  by (simp_all add: upd_s_def upd_b_def)

lemma blk_upd_b: "blk (upd_b b f w) b' = (if b' = b \<and> b < length (sw_blocks w) then f (blk w b) else blk w b')"
  by (auto simp: upd_b_def nth_list_update list_update_beyond not_less)

lemma chain_head: "chain_ok w s \<Longrightarrow> s_head (snk w s) = Some h \<Longrightarrow> h < length (sw_blocks w)"
  unfolding chain_ok_def by blast

lemma chain_next:
  "chain_ok w s \<Longrightarrow> b < length (sw_blocks w) \<Longrightarrow> b_next (blk w b) = Some n \<Longrightarrow> b < n \<and> n < length (sw_blocks w)"
  unfolding chain_ok_def by blast

lemma chain_tail: "chain_ok w s \<Longrightarrow> s_tail (snk w s) = Some h \<Longrightarrow> h < length (sw_blocks w)"
  unfolding chain_ok_def by blast

lemma chain_sink: "chain_ok w s \<Longrightarrow> s < length (sw_sinks w)"
  unfolding chain_ok_def by blast

lemma chain_okI:
  assumes "\<And>b n. b < length (sw_blocks w) \<Longrightarrow> b_next (blk w b) = Some n \<Longrightarrow> b < n \<and> n < length (sw_blocks w)"
    and "\<And>h. s_head (snk w s) = Some h \<Longrightarrow> h < length (sw_blocks w)"
    and "\<And>h. s_tail (snk w s) = Some h \<Longrightarrow> h < length (sw_blocks w)" and "s < length (sw_sinks w)"
  shows "chain_ok w s"
  using assms unfolding chain_ok_def by blast

lemma expire_spec:
  assumes "chain_ok w s" and "\<And>h. s_head (snk w s) = Some h \<Longrightarrow> length (sw_blocks w) - h \<le> fuel"
  shows "let w' = expire (Suc fuel) s w in
           chain_ok w' s \<and> (s_head (snk w' s) = None \<or> s_count (snk w' s) \<le> s_limit (snk w' s)) \<and>
           s_limit (snk w' s) = s_limit (snk w s)"
  using assms
proof (induction fuel arbitrary: w)
  case 0
  have "s_head (snk w s) = None"
  proof (cases "s_head (snk w s)")
    case (Some h)
    then show ?thesis
      using chain_head [OF "0.prems"(1) Some] "0.prems"(2) [OF Some] by simp
  qed
  then show ?case
    using "0.prems"(1) by (simp add: Let_def)
next
  case (Suc fuel)
  show ?case
  proof (cases "\<exists>h. s_head (snk w s) = Some h \<and> s_limit (snk w s) < s_count (snk w s)")
    case False
    then show ?thesis
      using Suc.prems by (auto simp: Let_def not_less split: option.splits)
  next
    case True
    then obtain h where h: "s_head (snk w s) = Some h" "s_limit (snk w s) < s_count (snk w s)"
      by blast
    define w1 where "w1 = upd_s s (\<lambda>x. x\<lparr>s_count := s_count x - int (length (b_items (blk w h))), s_head := b_next (blk w h)\<rparr>)
      (upd_b h (\<lambda>x. x\<lparr>b_items := [], b_mapping := JNull\<rparr>) w)"
    have step: "expire (Suc (Suc fuel)) s w = expire (Suc fuel) s w1"
      using h by (subst expire.simps) (simp add: w1_def)
    have s: "s < length (sw_sinks w)" "h < length (sw_blocks w)"
      using chain_sink chain_head Suc.prems(1) h(1) by blast+
    have snk1: "snk w1 s = (snk w s)\<lparr>s_count := s_count (snk w s) - int (length (b_items (blk w h))), s_head := b_next (blk w h)\<rparr>"
      using s by (simp add: w1_def)
    have next1: "b_next (blk w1 b) = b_next (blk w b)" for b
      by (simp add: w1_def blk_upd_b)
    have len1: "length (sw_blocks w1) = length (sw_blocks w)" "length (sw_sinks w1) = length (sw_sinks w)"
      by (simp_all add: w1_def)
    have "chain_ok w1 s"
    proof (rule chain_okI, unfold next1 len1 snk1, goal_cases)
      case (1 b n)
      then show ?case by (rule chain_next [OF Suc.prems(1)])
    next
      case (2 b)
      then show ?case using chain_next [OF Suc.prems(1) s(2)] by simp
    next
      case (3 t)
      then show ?case using chain_tail [OF Suc.prems(1)] by simp
    next
      case 4
      then show ?case by (rule s(1))
    qed
    moreover have "length (sw_blocks w1) - h' \<le> fuel" if "s_head (snk w1 s) = Some h'" for h'
    proof -
      have "h < h'" "length (sw_blocks w) - h \<le> Suc fuel"
        using Suc.prems(2) [OF h(1)] chain_next [OF Suc.prems(1) s(2)] that by (auto simp: snk1)
      then show ?thesis
        by (simp add: w1_def)
    qed
    ultimately show ?thesis
      using Suc.IH [of w1] unfolding step by (auto simp: Let_def snk1 simp del: expire.simps)
  qed
qed


lemma chain_ok_upd_s:
  assumes "chain_ok w s" and "\<And>x. s_head (f x) = s_head x" and "\<And>x. s_tail (f x) = s_tail x"
  shows "chain_ok (upd_s s f w) s"
proof (rule chain_okI)
  fix b n assume "b < length (sw_blocks (upd_s s f w))" and "b_next (blk (upd_s s f w) b) = Some n"
  then show "b < n \<and> n < length (sw_blocks (upd_s s f w))"
    using chain_next [OF assms(1), of b n] by simp
next
  show "h < length (sw_blocks (upd_s s f w))" if "s_head (snk (upd_s s f w) s) = Some h" for h
    using chain_head [OF assms(1), of h] chain_sink [OF assms(1)] assms(2) that by simp
  show "h < length (sw_blocks (upd_s s f w))" if "s_tail (snk (upd_s s f w) s) = Some h" for h
    using chain_tail [OF assms(1), of h] chain_sink [OF assms(1)] assms(3) that by simp
  show "s < length (sw_sinks (upd_s s f w))"
    using chain_sink [OF assms(1)] by simp
qed

lemma chain_ok_upd_b:
  assumes "chain_ok w s" and "\<And>x. b_next (f x) = b_next x"
  shows "chain_ok (upd_b b f w) s"
proof (rule chain_okI)
  fix c n assume "c < length (sw_blocks (upd_b b f w))" and "b_next (blk (upd_b b f w) c) = Some n"
  then show "c < n \<and> n < length (sw_blocks (upd_b b f w))"
    using chain_next [OF assms(1), of c n] assms(2) by (auto simp: blk_upd_b split: if_splits)
next
  show "h < length (sw_blocks (upd_b b f w))" if "s_head (snk (upd_b b f w) s) = Some h" for h
    using chain_head [OF assms(1), of h] that by simp
  show "h < length (sw_blocks (upd_b b f w))" if "s_tail (snk (upd_b b f w) s) = Some h" for h
    using chain_tail [OF assms(1), of h] that by simp
  show "s < length (sw_sinks (upd_b b f w))"
    using chain_sink [OF assms(1)] by simp
qed

lemma stash_trim_keeps:
  assumes "chain_ok w s"
  shows "chain_ok (fst (stash_trim s beg end_t at i w)) s \<and>
         s_limit (snk (fst (stash_trim s beg end_t at i w)) s) = s_limit (snk w s)"
  using assms
proof (induction s beg end_t at i w rule: stash_trim.induct)
  case (1 s beg end_t at i w)
  show ?case
  proof (cases "i < length (s_index (snk w s))")
    case False
    then show ?thesis
      using 1(4) by (subst (1 2) stash_trim.simps) simp
  next
    case True
    define b where "b = s_index (snk w s) ! i"
    define w1 where "w1 = upd_s s (\<lambda>x. x\<lparr>s_count := s_count x - (min (b_stop (blk w b)) end_t - max (b_beg (blk w b)) beg)\<rparr>)
      (upd_b b (\<lambda>x. x\<lparr>b_items := cut (nat (max (b_beg (blk w b)) beg - b_beg (blk w b)))
          (nat (min (b_stop (blk w b)) end_t - max (b_beg (blk w b)) beg)) (b_items x),
        b_beg := (if max (b_beg (blk w b)) beg = b_beg (blk w b) then b_beg (blk w b) + (min (b_stop (blk w b)) end_t - b_beg (blk w b))
                  else b_beg (blk w b))\<rparr>) w)"
    have w1: "chain_ok w1 s" "s_limit (snk w1 s) = s_limit (snk w s)"
      using chain_ok_upd_s [OF chain_ok_upd_b [OF 1(4)]] chain_sink [OF 1(4)] by (simp_all add: w1_def)
    show ?thesis
      using 1(1) [OF True b_def refl refl refl refl] 1(2) [OF True b_def refl refl refl refl]
        1(3) [OF True b_def refl refl refl refl] w1 1(4) True
      by (subst (1 2) stash_trim.simps) (auto simp: Let_def b_def [symmetric] w1_def)
  qed
qed


text \<open>Appending a block behind the tail keeps the chain.\<close>

lemma chain_ok_append:
  assumes "chain_ok w s" and "b = length (sw_blocks w)" and "b_next x = None"
    and "w1 = w\<lparr>sw_blocks := sw_blocks w @ [x]\<rparr>"
    and "w2 = (case s_tail (snk w1 s) of None \<Rightarrow> w1 | Some t \<Rightarrow> upd_b t (\<lambda>y. y\<lparr>b_next := Some b\<rparr>) w1)"
    and "w3 = upd_s s (\<lambda>y. y\<lparr>s_head := (case s_head y of None \<Rightarrow> Some b | h \<Rightarrow> h), s_tail := Some b,
                             s_count := s_count y + n, s_index := f y\<rparr>) w2"
  shows "chain_ok w3 s \<and> s_limit (snk w3 s) = s_limit (snk w s)"
proof -
  have s: "s < length (sw_sinks w)"
    by (rule chain_sink [OF assms(1)])
  have sinks: "sw_sinks w2 = sw_sinks w"
    by (simp add: assms(4,5) split: option.splits)
  have len: "length (sw_blocks w3) = Suc b"
    by (simp add: assms(2,4-6) split: option.splits)
  have snk3: "snk w3 s = (snk w s)\<lparr>s_head := (case s_head (snk w s) of None \<Rightarrow> Some b | h \<Rightarrow> h), s_tail := Some b,
      s_count := s_count (snk w s) + n, s_index := f (snk w s)\<rparr>"
    using s by (simp add: assms(6) sinks)
  have next3: "b_next (blk w3 c) = (if s_tail (snk w s) = Some c then Some b else if c = b then None else b_next (blk w c))"
    if "c < Suc b" for c
  proof (cases "s_tail (snk w s)")
    case None
    then show ?thesis
      using that by (auto simp: assms(2-6) nth_append)
  next
    case (Some t)
    have "t < b"
      using chain_tail [OF assms(1) Some] assms(2) by simp
    then show ?thesis
      using that Some by (auto simp: assms(2-6) nth_append blk_upd_b)
  qed
  have "chain_ok w3 s"
  proof (rule chain_okI)
    fix c m assume c: "c < length (sw_blocks w3)" and m: "b_next (blk w3 c) = Some m"
    show "c < m \<and> m < length (sw_blocks w3)"
    proof (cases "s_tail (snk w s) = Some c")
      case True
      then show ?thesis
        using m c chain_tail [OF assms(1) True] by (simp add: len next3 assms(2))
    next
      case False
      then have "c \<noteq> b" and old: "b_next (blk w c) = Some m"
        using m c by (auto simp: len next3 split: if_splits)
      then have "c < length (sw_blocks w)"
        using c by (simp add: len assms(2))
      from chain_next [OF assms(1) this old] show ?thesis
        by (simp add: len assms(2))
    qed
  next
    fix h assume "s_head (snk w3 s) = Some h"
    then show "h < length (sw_blocks w3)"
      using chain_head [OF assms(1), of h] by (auto simp: snk3 len assms(2) split: option.splits)
  next
    fix h assume "s_tail (snk w3 s) = Some h"
    then show "h < length (sw_blocks w3)"
      by (simp add: snk3 len)
  next
    show "s < length (sw_sinks w3)"
      using s by (simp add: assms(6) sinks)
  qed
  then show ?thesis
    by (simp add: snk3)
qed

text \<open>Stashing samples keeps the chain of blocks sound and always ends with the sample count within the limit of
  the sink, or with every block of the chain expired: the loop that expires the oldest blocks has run to its
  end (the number of blocks bounds its steps).\<close>

theorem stash_expires_to_limit:
  assumes "chain_ok w s" and "items \<noteq> []" and "w' = stash s beg items mp w"
  shows "chain_ok w' s \<and> s_limit (snk w' s) = s_limit (snk w s) \<and>
         (s_head (snk w' s) = None \<or> s_count (snk w' s) \<le> s_limit (snk w s))"
proof -
  define at where "at = search (begs_of w s) beg"
  obtain w1 i where trim: "stash_trim s beg (beg + int (length items)) at (if at > 0 then at - 1 else at) w = (w1, i)"
    by force
  define b where "b = length (sw_blocks w1)"
  define w2 where "w2 = w1\<lparr>sw_blocks := sw_blocks w1 @ [\<lparr>b_beg = beg, b_items = items, b_mapping = mp, b_next = None\<rparr>]\<rparr>"
  define w3 where "w3 = (case s_tail (snk w2 s) of None \<Rightarrow> w2 | Some t \<Rightarrow> upd_b t (\<lambda>x. x\<lparr>b_next := Some b\<rparr>) w2)"
  define w4 where "w4 = upd_s s (\<lambda>x. x\<lparr>s_head := (case s_head x of None \<Rightarrow> Some b | h \<Rightarrow> h), s_tail := Some b,
    s_count := s_count x + int (length items), s_index := take at (s_index x) @ b # drop at (s_index x)\<rparr>) w3"
  define w5 where "w5 = upd_s s (\<lambda>x. x\<lparr>s_index := drop_empty (sw_blocks w4) (int at - 1) (int i) (s_index x)\<rparr>) w4"
  define w6 where "w6 = expire (Suc (length (sw_blocks w5))) s w5"
  have w': "w' = upd_s s (\<lambda>x. x\<lparr>s_index := dropWhile (\<lambda>b. b_items (blk w6 b) = []) (s_index x)\<rparr>) w6"
    using assms(2,3) trim unfolding stash_def Let_def w6_def w5_def w4_def w3_def w2_def b_def at_def
    by simp
  have 1: "chain_ok w1 s" "s_limit (snk w1 s) = s_limit (snk w s)"
    using stash_trim_keeps [OF assms(1), of beg "beg + int (length items)" at "if at > 0 then at - 1 else at"]
    unfolding trim by simp_all
  have 4: "chain_ok w4 s" "s_limit (snk w4 s) = s_limit (snk w s)"
    using chain_ok_append [OF 1(1) b_def _ w2_def w3_def w4_def] 1(2) by simp_all
  have 5: "chain_ok w5 s" "s_limit (snk w5 s) = s_limit (snk w s)"
    unfolding w5_def using chain_ok_upd_s [OF 4(1)] 4 chain_sink [OF 4(1)] by simp_all
  have 6: "chain_ok w6 s" "s_head (snk w6 s) = None \<or> s_count (snk w6 s) \<le> s_limit (snk w6 s)"
    "s_limit (snk w6 s) = s_limit (snk w s)"
    using expire_spec [OF 5(1), of "length (sw_blocks w5)"] 5(2) by (auto simp: w6_def Let_def simp del: expire.simps)
  show ?thesis
    unfolding w' using chain_ok_upd_s [OF 6(1)] chain_sink [OF 6(1)] 6 by simp
qed

definition demo_sink_world :: sworld where
  "demo_sink_world = new_sink 1000 False True \<lparr>sw_blocks = [], sw_rows = [], sw_sinks = [], sw_grids = [], sw_log = []\<rparr>"

theorem stash_expires_to_limit_witness:
  "s_head (snk (stash 0 5 [JNum 1, JNum 2] JUndef demo_sink_world) 0) = None \<or>
   s_count (snk (stash 0 5 [JNum 1, JNum 2] JUndef demo_sink_world) 0) \<le> s_limit (snk demo_sink_world 0)"
proof -
  have "chain_ok demo_sink_world 0"
    by (simp add: chain_ok_def demo_sink_world_def new_sink_def)
  then show ?thesis
    using stash_expires_to_limit [of demo_sink_world 0 "[JNum 1, JNum 2]" _ 5 JUndef, OF _ _ refl] by simp
qed

section \<open>Overlap in the middle of a block\<close>

text \<open>Stashing samples that fall strictly inside of a stored block corrupts the block: the overlap is cut out of
  its samples but the block stays one piece, so the samples behind the overlap move to earlier times.  A block for
  the times 0 to 4 that is overwritten at time 1 keeps four samples, and then answers time 1 with the sample of time 2
  and no longer knows time 4.\<close>

theorem stash_middle_shifts_samples:
  "(let w = stash 0 1 [JNum 11] JUndef (stash 0 0 [JNum 0, JNum 1, JNum 2, JNum 3, JNum 4] JUndef demo_sink_world);
        blocks = map (blk w) (s_index (snk w 0))
    in map (cached_at blocks) [0, 1, 2, 3, 4]) =
   [Some (JNum 0, JUndef), Some (JNum 2, JUndef), Some (JNum 3, JUndef), Some (JNum 4, JUndef), None]"
  by code_simp

end
