(* ===== verification/Channel_Port.thy ===== *)
theory Channel_Port
  imports Channel_Lifecycle
begin

text \<open>
  The channel as the code above it sees it: the events dispatched on it, in order, and the calls made on it.
  The contract between the two sides is a pair of locales.  \<open>channel_contract\<close> is what a channel promises (its
  close event comes last, and only once); \<open>closing_client\<close> is a component that reports its result exactly when its
  channel closes: processes, HTTP requests and file operations are such clients, and each of them gets
  from the locale that it settles its promise once, with the channel.

  The data a channel delivers is collected by \<open>Channel.buffer\<close> of \<open>src/base1/cockpit.js\<close>, modelled here too.
\<close>

section \<open>Events and calls\<close>

datatype chan_event = EvReady options | EvControl options | EvMessage payload | EvClose options

datatype chan_call = CallSend payload | CallControl options | CallClose options

fun as_event :: "effect \<Rightarrow> chan_event option" where
  "as_event (ChanReady _ d) = Some (EvReady d)"
| "as_event (ChanControl _ d) = Some (EvControl d)"
| "as_event (ChanMessage _ p) = Some (EvMessage p)"
| "as_event (ChanClose _ d) = Some (EvClose d)"
| "as_event _ = None"

fun is_close_event :: "chan_event \<Rightarrow> bool" where
  "is_close_event (EvClose _) = True"
| "is_close_event _ = False"

text \<open>The events of a channel of the store, oldest first.\<close>

definition events_of :: "nat \<Rightarrow> world \<Rightarrow> chan_event list" where
  "events_of c w = List.map_filter as_event (chan_log c w)"

section \<open>The contract\<close>

locale channel_contract =
  fixes events :: "'w \<Rightarrow> chan_event list"
    and closed :: "'w \<Rightarrow> options option"
    and live :: "'w \<Rightarrow> bool"
  assumes open_quiet: "live w \<Longrightarrow> closed w = None \<Longrightarrow> e \<in> set (events w) \<Longrightarrow> \<not> is_close_event e"
    and close_last: "live w \<Longrightarrow> closed w = Some d \<Longrightarrow>
      \<exists>es. events w = es @ [EvClose d] \<and> (\<forall>e \<in> set es. \<not> is_close_event e)"
begin

lemma close_once: "live w \<Longrightarrow> length (filter is_close_event (events w)) = (if closed w = None then 0 else 1)"
  using open_quiet close_last by (cases "closed w") (fastforce simp: filter_empty_conv)+

end

text \<open>
  A client is driven by the events of its channel (\<open>Inl\<close>) and by the calls of its user (\<open>Inr\<close>), in any
  interleaving; what it reports is a list of outcomes.
\<close>

fun channel_events :: "(chan_event + 'u) list \<Rightarrow> chan_event list" where
  "channel_events [] = []"
| "channel_events (Inl e # xs) = e # channel_events xs"
| "channel_events (Inr u # xs) = channel_events xs"

locale closing_client = channel_contract events closed live
  for events :: "'w \<Rightarrow> chan_event list" and closed :: "'w \<Rightarrow> options option" and live :: "'w \<Rightarrow> bool" +
  fixes act :: "chan_event + 'u \<Rightarrow> 's \<Rightarrow> 's"
    and outcomes :: "'s \<Rightarrow> 'r list"
    and verdict :: "options \<Rightarrow> 's \<Rightarrow> 'r list"
  assumes quiet_event: "\<not> is_close_event e \<Longrightarrow> outcomes (act (Inl e) s) = outcomes s"
    and quiet_user: "outcomes (act (Inr u) s) = outcomes s"
    and speaks_on_close: "outcomes (act (Inl (EvClose d)) s) = outcomes s @ verdict d s"
begin

lemma quiet_run:
  "(\<forall>e \<in> set (channel_events xs). \<not> is_close_event e) \<Longrightarrow> outcomes (fold act xs s) = outcomes s"
proof (induction xs arbitrary: s)
  case (Cons x xs)
  then show ?case by (cases x) (auto simp: quiet_event quiet_user)
qed simp

lemma split_run:
  "channel_events xs = es @ [e] \<Longrightarrow>
   \<exists>before after. xs = before @ Inl e # after \<and> channel_events before = es \<and> channel_events after = []"
proof (induction xs arbitrary: es)
  case (Cons x xs)
  show ?case
  proof (cases x)
    case (Inr u)
    then obtain before after where "xs = before @ Inl e # after" "channel_events before = es" "channel_events after = []"
      using Cons.IH [of es] Cons.prems by auto
    then show ?thesis
      using Inr by (intro exI [of _ "x # before"] exI [of _ after]) simp
  next
    case (Inl e')
    show ?thesis
    proof (cases es)
      case Nil
      then have "x = Inl e" "channel_events xs = []"
        using Cons.prems Inl by auto
      then show ?thesis
        using Nil by (intro exI [of _ "[]"] exI [of _ xs]) simp
    next
      case (Cons e'' es')
      then obtain before after where "xs = before @ Inl e # after" "channel_events before = es'" "channel_events after = []"
        using Cons.IH [of es'] Cons.prems Inl by auto
      then show ?thesis
        using Cons Cons.prems Inl by (intro exI [of _ "x # before"] exI [of _ after]) simp
    qed
  qed
qed simp

text \<open>Nothing is reported before the channel closes, and exactly one verdict when it does.\<close>

lemma settles_with_channel:
  assumes "live w" and "channel_events xs = events w"
  shows "case closed w of
      None \<Rightarrow> outcomes (fold act xs s) = outcomes s
    | Some d \<Rightarrow> \<exists>before after. xs = before @ Inl (EvClose d) # after \<and>
        (\<forall>e \<in> set (channel_events before). \<not> is_close_event e) \<and> channel_events after = [] \<and>
        outcomes (fold act xs s) = outcomes s @ verdict d (fold act before s)"
proof (cases "closed w")
  case None
  then show ?thesis
    using open_quiet [OF assms(1)] assms(2) by (simp add: quiet_run)
next
  case (Some d)
  obtain es where es: "events w = es @ [EvClose d]" "\<forall>e \<in> set es. \<not> is_close_event e"
    using close_last [OF assms(1) Some] by blast
  obtain before after where xs: "xs = before @ Inl (EvClose d) # after" "channel_events before = es" "channel_events after = []"
    using split_run assms(2) es(1) by metis
  then have "outcomes (fold act before s) = outcomes s"
    using es(2) by (simp add: quiet_run)
  then have "outcomes (fold act xs s) = outcomes s @ verdict d (fold act before s)"
    using xs(1,3) by (simp add: quiet_run speaks_on_close)
  then show ?thesis
    using Some xs es(2) by auto
qed

end

section \<open>Channels keep the contract\<close>

definition live_chan :: "world \<times> nat \<Rightarrow> bool" where
  "live_chan wc \<longleftrightarrow> reachable (fst wc) \<and> snd wc < length (w_chans (fst wc))"

abbreviation chan_events :: "world \<times> nat \<Rightarrow> chan_event list" where
  "chan_events wc \<equiv> events_of (snd wc) (fst wc)"

abbreviation chan_closed :: "world \<times> nat \<Rightarrow> options option" where
  "chan_closed wc \<equiv> c_closed (ch (fst wc) (snd wc))"

lemma map_filter_append: "List.map_filter f (xs @ ys) = List.map_filter f xs @ List.map_filter f ys"
  by (simp add: List.map_filter_def)

lemma set_map_filter_iff: "y \<in> set (List.map_filter f xs) \<longleftrightarrow> (\<exists>x \<in> set xs. f x = Some y)"
  by (induction xs) (auto split: option.splits)

lemma as_event_close: "as_event x = Some e \<Longrightarrow> is_close_event e = is_close x"
  by (cases x) auto

lemma life_ok_events:
  "life_ok None c es \<Longrightarrow> e \<in> set (List.map_filter as_event es) \<Longrightarrow> \<not> is_close_event e"
  by (auto simp: life_ok_def set_map_filter_iff as_event_close list_ex_iff)

interpretation chan: channel_contract chan_events chan_closed live_chan
proof
  fix w e assume "live_chan w" "chan_closed w = None" "e \<in> set (chan_events w)"
  then show "\<not> is_close_event e"
    using winv_open_life [OF reachable_winv, of "fst w" "snd w"] life_ok_events
    by (auto simp: live_chan_def events_of_def)
next
  fix w d assume w: "live_chan w" "chan_closed w = Some d"
  then have "life_ok (Some d) (snd w) (chan_log (snd w) (fst w))"
    using winv_life [OF reachable_winv, of "fst w" "snd w"] by (simp add: live_chan_def)
  then obtain es where es: "chan_log (snd w) (fst w) = es @ [ChanClose (snd w) d]" "\<not> list_ex is_close es"
    by (auto simp: life_ok_def) (metis append_butlast_last_id)
  then have "chan_events w = List.map_filter as_event es @ [EvClose d]"
    by (simp add: events_of_def map_filter_append)
  moreover have "\<forall>e \<in> set (List.map_filter as_event es). \<not> is_close_event e"
    using es(2) by (auto simp: set_map_filter_iff as_event_close list_ex_iff)
  ultimately show "\<exists>es. chan_events w = es @ [EvClose d] \<and> (\<forall>e \<in> set es. \<not> is_close_event e)"
    by blast
qed

end
