(* ===== verification/Channel_Buffer.thy ===== *)
theory Channel_Buffer
  imports Wire
begin

text \<open>
  \<open>Channel.buffer\<close> of \<open>src/base1/cockpit.js\<close>: it collects the messages of a channel and, once it has a callback,
  offers it what has been collected; the callback says how much of it it has consumed.  The callback is other code:
  what it returns for a block is a parameter.
\<close>

section \<open>Blocks\<close>

text \<open>
  \<open>join_data\<close> on what has been collected.  On the other kind of payload than the channel's, \<open>set\<close> of a
  typed array converts each character to a number, and \<open>join\<close> writes an array with commas.
\<close>

fun bytes_of :: "payload \<Rightarrow> byte list" where
  "bytes_of (PBytes b) = b"
| "bytes_of (PArr b) = b"
| "bytes_of (PStr s) = map (\<lambda>c. if is_digit c then of_nat (digit_val c) else 0) s"

fun text_of :: "payload \<Rightarrow> string" where
  "text_of (PStr s) = s"
| "text_of (PBytes b) = join '','' (map (\<lambda>x. nat_str (unat x)) b)"
| "text_of (PArr b) = join '','' (map (\<lambda>x. nat_str (unat x)) b)"

definition squash :: "bool \<Rightarrow> payload list \<Rightarrow> payload" where
  "squash binary buffers =
     (if binary then PBytes (join_set (map bytes_of buffers)) else PStr (join_text (map text_of buffers)))"

fun block_length :: "payload \<Rightarrow> nat" where
  "block_length (PStr s) = length s"
| "block_length (PBytes b) = length b"
| "block_length (PArr b) = length b"

text \<open>\<open>subarray(n)\<close> and \<open>slice(n)\<close> count a negative start from the end, \<open>substring(n)\<close> takes it as 0.\<close>

definition from_index :: "int \<Rightarrow> 'a list \<Rightarrow> 'a list" where
  "from_index n xs = (if n < 0 then drop (nat (int (length xs) + n)) xs else drop (nat n) xs)"

fun block_rest :: "int \<Rightarrow> payload \<Rightarrow> payload" where
  "block_rest n (PStr s) = PStr (drop (nat n) s)"
| "block_rest n (PBytes b) = PBytes (from_index n b)"
| "block_rest n (PArr b) = PArr (from_index n b)"

section \<open>The buffer\<close>

text \<open>The calls of the callback are recorded, with the block and the answer.\<close>

record buffer =
  bf_data :: "payload list"
  bf_callback :: "nat option"
  bf_calls :: "(nat \<times> payload \<times> js) list"

definition new_buffer :: buffer where
  "new_buffer = \<lparr>bf_data = [], bf_callback = None, bf_calls = []\<rparr>"

text \<open>What is kept of a block, given what the callback returned.\<close>

definition kept :: "payload \<Rightarrow> js \<Rightarrow> payload list" where
  "kept block consumed =
     (case consumed of
        JNum n \<Rightarrow> if n = int (block_length block) then [] else if n = 0 then [block] else [block_rest n block]
      | _ \<Rightarrow> [])"

definition buffer_message :: "bool \<Rightarrow> (nat \<Rightarrow> payload \<Rightarrow> js) \<Rightarrow> payload \<Rightarrow> buffer \<Rightarrow> buffer" where
  "buffer_message binary user data bf =
     (let bf = bf\<lparr>bf_data := bf_data bf @ [data]\<rparr>
      in case bf_callback bf of
           None \<Rightarrow> bf
         | Some cb \<Rightarrow>
             let block = squash binary (bf_data bf)
             in if block_length block > 0
                then bf\<lparr>bf_data := kept block (user cb block), bf_calls := bf_calls bf @ [(cb, block, user cb block)]\<rparr>
                else bf)"

section \<open>No data is lost or given twice\<close>

fun codes :: "payload \<Rightarrow> nat list" where
  "codes (PStr s) = map of_char s"
| "codes (PBytes b) = map unat b"
| "codes (PArr b) = map unat b"

text \<open>A payload of the channel's kind.\<close>

fun of_kind :: "bool \<Rightarrow> payload \<Rightarrow> bool" where
  "of_kind binary (PStr _) = (\<not> binary)"
| "of_kind binary _ = binary"

text \<open>What a callback has taken of a block it was offered.\<close>

definition taken :: "payload \<times> js \<Rightarrow> nat list" where
  "taken x = (case x of (block, consumed) \<Rightarrow> (case consumed of JNum n \<Rightarrow> take (nat n) (codes block) | _ \<Rightarrow> codes block))"

text \<open>A callback answers with a count within the block, or with no number when it has used everything.\<close>

definition fair :: "(nat \<Rightarrow> payload \<Rightarrow> js) \<Rightarrow> bool" where
  "fair user \<longleftrightarrow> (\<forall>cb block n. user cb block = JNum n \<longrightarrow> 0 \<le> n \<and> n \<le> int (block_length block))"

lemma length_codes [simp]: "length (codes p) = block_length p"
  by (cases p) auto

lemma codes_squash: "list_all (of_kind binary) bs \<Longrightarrow> codes (squash binary bs) = concat (map codes bs)"
proof -
  assume kind: "list_all (of_kind binary) bs"
  have "map of_char (text_of p) = codes p" if "of_kind False p" for p
    using that by (cases p) auto
  moreover have "map unat (bytes_of p) = codes p" if "of_kind True p" for p
    using that by (cases p) auto
  ultimately show ?thesis
    using kind by (cases binary)
      (auto simp: squash_def join_set_concat join_text_concat map_concat list_all_iff intro!: arg_cong [of _ _ concat])
qed

lemma of_kind_squash [simp]: "of_kind binary (squash binary bs)"
  by (simp add: squash_def)

lemma codes_rest: "0 \<le> n \<Longrightarrow> codes (block_rest n p) = drop (nat n) (codes p)"
  by (cases p) (auto simp: from_index_def drop_map)

lemma of_kind_rest [simp]: "of_kind binary (block_rest n p) = of_kind binary p"
  by (cases p) auto

lemma kept_taken:
  assumes "\<And>n. consumed = JNum n \<Longrightarrow> 0 \<le> n \<and> n \<le> int (block_length block)"
  shows "taken (block, consumed) @ concat (map codes (kept block consumed)) = codes block"
  using assms by (cases consumed) (auto simp: taken_def kept_def codes_rest)

lemma buffer_step:
  assumes "fair user" and "of_kind binary p" and "list_all (of_kind binary) (bf_data bf)"
  shows "concat (map (taken \<circ> snd) (bf_calls (buffer_message binary user p bf))) @
           concat (map codes (bf_data (buffer_message binary user p bf))) =
         concat (map (taken \<circ> snd) (bf_calls bf)) @ concat (map codes (bf_data bf)) @ codes p"
    and "list_all (of_kind binary) (bf_data (buffer_message binary user p bf))"
proof -
  let ?block = "squash binary (bf_data bf @ [p])"
  have block: "codes ?block = concat (map codes (bf_data bf)) @ codes p"
    using codes_squash [of binary "bf_data bf @ [p]"] assms(2,3) by simp
  have "taken (?block, user cb ?block) @ concat (map codes (kept ?block (user cb ?block))) = codes ?block" for cb
    using assms(1) by (intro kept_taken) (auto simp: fair_def)
  then show "concat (map (taken \<circ> snd) (bf_calls (buffer_message binary user p bf))) @
           concat (map codes (bf_data (buffer_message binary user p bf))) =
         concat (map (taken \<circ> snd) (bf_calls bf)) @ concat (map codes (bf_data bf)) @ codes p"
    using block by (auto simp: buffer_message_def Let_def split: option.split)
  show "list_all (of_kind binary) (bf_data (buffer_message binary user p bf))"
    using assms(2,3) by (auto simp: buffer_message_def Let_def kept_def split: option.split js.splits)
qed

text \<open>C29: A buffered channel neither loses nor repeats data: at every moment, what its callback has consumed so far followed
  by what is still held is exactly what the channel has delivered, byte for byte and in order, wherever the
  messages were cut and whenever the callback was set.\<close>

theorem buffer_conserves_data:
  assumes "fair user" and "list_all (of_kind binary) messages" and "list_all (of_kind binary) (bf_data bf)"
    and "bf' = fold (buffer_message binary user) messages bf"
  shows "concat (map (taken \<circ> snd) (bf_calls bf')) @ concat (map codes (bf_data bf')) =
         concat (map (taken \<circ> snd) (bf_calls bf)) @ concat (map codes (bf_data bf)) @ concat (map codes messages)"
  using assms(2-)
proof (induction messages arbitrary: bf)
  case (Cons p ps)
  then show ?case
    using buffer_step [OF assms(1), of binary p bf] Cons.IH [of "buffer_message binary user p bf"] by (simp add: o_def)
qed simp

text \<open>A callback that consumes whole lines of at most three bytes each, two at a time.\<close>

theorem buffer_conserves_data_witness:
  "(let bf' = fold (buffer_message False (\<lambda>_ b. JNum (if 2 \<le> block_length b then 2 else 0)))
       [PStr ''a'', PStr ''bcd'', PStr ''e''] (new_buffer\<lparr>bf_callback := Some 0\<rparr>)
    in concat (map (taken \<circ> snd) (bf_calls bf')) @ concat (map codes (bf_data bf')) =
       concat (map codes [PStr ''a'', PStr ''bcd'', PStr ''e'']) \<and> length (bf_calls bf') = 3)"
proof -
  have "fair (\<lambda>_ b. JNum (if 2 \<le> block_length b then 2 else 0))"
    by (simp add: fair_def)
  from buffer_conserves_data [OF this _ _ refl, of False "[PStr ''a'', PStr ''bcd'', PStr ''e'']" "new_buffer\<lparr>bf_callback := Some 0\<rparr>"]
  have "concat (map (taken \<circ> snd) (bf_calls (fold (buffer_message False (\<lambda>_ b. JNum (if 2 \<le> block_length b then 2 else 0)))
       [PStr ''a'', PStr ''bcd'', PStr ''e''] (new_buffer\<lparr>bf_callback := Some 0\<rparr>)))) @
      concat (map codes (bf_data (fold (buffer_message False (\<lambda>_ b. JNum (if 2 \<le> block_length b then 2 else 0)))
       [PStr ''a'', PStr ''bcd'', PStr ''e''] (new_buffer\<lparr>bf_callback := Some 0\<rparr>)))) =
      concat (map codes [PStr ''a'', PStr ''bcd'', PStr ''e''])"
    by (simp only: list.simps list.pred_inject of_kind.simps new_buffer_def buffer.simps concat.simps append.simps) simp
  moreover have "length (bf_calls (fold (buffer_message False (\<lambda>_ b. JNum (if 2 \<le> block_length b then 2 else 0)))
       [PStr ''a'', PStr ''bcd'', PStr ''e''] (new_buffer\<lparr>bf_callback := Some 0\<rparr>))) = 3"
    by code_simp
  ultimately show ?thesis
    by (simp add: Let_def)
qed

end
