(* ===== verification/L10n.thy ===== *)
theory L10n
  imports JS_Value
begin

text \<open>
  Localization, of \<open>src/base1/cockpit.js\<close>: the message catalogue (\<open>cockpit.locale\<close>), looking up translations
  (\<open>gettext\<close>, \<open>ngettext\<close>), translating the elements of a page (\<open>translate\<close>), and the texts of the problem
  codes (\<open>cockpit.message\<close>, \<open>BasicError\<close>).

  The rule for plural forms comes with a catalogue as a function, so it is kept beside the catalogue's data.
  An element is its attributes and its text; elements inside of others are not related to them.
\<close>

section \<open>The catalogue\<close>

record po_state =
  po_data :: options
  po_plural :: "(int \<Rightarrow> js) option"
  po_language :: js

definition init_po :: po_state where
  "init_po = \<lparr>po_data = [], po_plural = None, po_language = JUndef\<rparr>"

text \<open>\<open>locale(po)\<close>; \<open>plural\<close> is the function the header of \<open>po\<close> has under \<open>plural-forms\<close>, if it has one.\<close>

definition load_locale :: "js \<Rightarrow> (int \<Rightarrow> js) option \<Rightarrow> po_state \<Rightarrow> po_state" where
  "load_locale po plural st =
     (let lang = (if truthy (po_language st) then po_language st else JStr ''en'');
          header = (if truthy po then fld po '''' else JUndef);
          st = (if truthy po then st\<lparr>po_data := JS_Value.extend (po_data st) [po]\<rparr>
                else if po = JNull then st\<lparr>po_data := []\<rparr> else st);
          st = (if truthy header \<and> plural \<noteq> None then st\<lparr>po_plural := plural\<rparr> else st);
          lang = (if truthy header \<and> truthy (fld header ''language'') then fld header ''language'' else lang)
      in st\<lparr>po_language := lang\<rparr>)"

text \<open>The key of a message: a context is put in front, with the character 4 between.\<close>

definition po_key :: "string \<Rightarrow> string \<Rightarrow> string" where
  "po_key context string = (if context \<noteq> [] then context @ CHR 0x04 # string else string)"

definition gettext :: "string \<Rightarrow> string \<Rightarrow> po_state \<Rightarrow> js" where
  "gettext context string st =
     (let translated = opt (po_data st) (po_key context string)
      in if truthy translated \<and> truthy (get_prop translated (JNum 1)) then get_prop translated (JNum 1)
         else JStr string)"

text \<open>\<open>val === true ? 1 : val ? val : 0\<close>, for the numbers and truth values a plural rule gives.\<close>

definition imply :: "js \<Rightarrow> int" where
  "imply v = (case v of JBool True \<Rightarrow> 1 | JNum i \<Rightarrow> i | _ \<Rightarrow> 0)"

definition ngettext :: "string \<Rightarrow> string \<Rightarrow> string \<Rightarrow> int \<Rightarrow> po_state \<Rightarrow> js" where
  "ngettext context string1 stringN num st =
     (let fallback = (if num = 1 then JStr string1 else JStr stringN)
      in case po_plural st of
           None \<Rightarrow> fallback
         | Some plural \<Rightarrow>
             let translated = opt (po_data st) (po_key context string1);
                 form = get_prop translated (JNum (imply (plural num) + 1))
             in if truthy translated \<and> truthy form then form else fallback)"

section \<open>Translating elements\<close>

record element =
  el_attrs :: "(string, string) obj"
  el_text :: string

text \<open>\<open>el.getAttribute(a) || el.getAttribute(b) || other\<close>.\<close>

definition attr_or :: "element \<Rightarrow> string \<Rightarrow> string \<Rightarrow> string \<Rightarrow> string" where
  "attr_or el a b other =
     (case oget (el_attrs el) a of
        Some (c # cs) \<Rightarrow> c # cs
      | _ \<Rightarrow> (case oget (el_attrs el) b of Some (c # cs) \<Rightarrow> c # cs | _ \<Rightarrow> other))"

text \<open>One task of an element: its text, or the attribute the task names.\<close>

definition translate_task :: "po_state \<Rightarrow> string \<Rightarrow> string \<Rightarrow> element \<Rightarrow> element" where
  "translate_task st context task el =
     (if task = ''yes'' \<or> task = ''translate'' then el\<lparr>el_text := to_str (gettext context (el_text el) st)\<rparr>
      else if task \<noteq> [] then
        el\<lparr>el_attrs := oset (el_attrs el) task
             (to_str (gettext context (case oget (el_attrs el) task of None \<Rightarrow> [] | Some v \<Rightarrow> v) st))\<rparr>
      else el)"

definition translate_element :: "po_state \<Rightarrow> element \<Rightarrow> element" where
  "translate_element st el =
     (let val = attr_or el ''translate'' ''translatable'' ''yes''
      in if val = ''no'' then el
         else
           let context = attr_or el ''translate-context'' ''context'' [];
               el = fold (translate_task st context) (split_on (CHR '' '') val) el
           in el\<lparr>el_attrs := odel (odel (el_attrs el) ''translatable'') ''translate''\<rparr>)"

text \<open>\<open>querySelectorAll("[translatable], [translate]")\<close>.\<close>

definition translatable :: "element \<Rightarrow> bool" where
  "translatable el \<longleftrightarrow> ''translatable'' \<in> set (okeys (el_attrs el)) \<or> ''translate'' \<in> set (okeys (el_attrs el))"

definition translate :: "po_state \<Rightarrow> element list \<Rightarrow> element list" where
  "translate st doc = map (\<lambda>el. if translatable el then translate_element st el else el) doc"

section \<open>Texts of problems\<close>

definition problem_texts :: "(string \<times> string) list" where
  "problem_texts =
     [(''terminated'', ''Your session has been terminated.''),
      (''no-session'', ''Your session has expired. Please log in again.''),
      (''access-denied'', ''Not permitted to perform this action.''),
      (''authentication-failed'', ''Login failed''),
      (''authentication-not-supported'', ''The server refused to authenticate using any supported methods.''),
      (''unknown-hostkey'', ''Untrusted host''),
      (''unknown-host'', ''Untrusted host''),
      (''invalid-hostkey'', ''Host key is incorrect''),
      (''internal-error'', ''Internal error''),
      (''timeout'', ''Connection has timed out.''),
      (''no-cockpit'', ''Cockpit is not installed on the system.''),
      (''no-forwarding'', ''Cannot forward login credentials''),
      (''disconnected'', ''Server has closed the connection.''),
      (''not-supported'', ''Cockpit is not compatible with the software on the system.''),
      (''no-host'', ''Cockpit could not contact the given host.''),
      (''too-large'', ''Too much data'')]"

text \<open>\<open>cockpit.message(arg)\<close>, of a problem code or an object with a message or a problem.\<close>

definition message_of :: "js \<Rightarrow> po_state \<Rightarrow> js" where
  "message_of arg st =
     (if truthy (fld arg ''message'') then fld arg ''message''
      else
        let problem = (if truthy (fld arg ''problem'') then fld arg ''problem'' else JStr (to_str arg))
        in case map_of problem_texts (to_str problem) of
             Some text' \<Rightarrow> gettext [] text' st
           | None \<Rightarrow> problem)"

record basic_error =
  be_problem :: js
  be_message :: js

definition new_basic_error :: "js \<Rightarrow> js \<Rightarrow> po_state \<Rightarrow> basic_error" where
  "new_basic_error problem message st =
     \<lparr>be_problem = problem, be_message = (if truthy message then message else message_of problem st)\<rparr>"


section \<open>Looking up what was loaded\<close>

lemma get_prop_1 [simp]: "get_prop (JArr (x # y # zs)) (JNum 1) = y"
  by (simp add: get_prop_def)

lemma po_data_load [simp]:
  "po_data (load_locale (JObj kvs) plural st) = JS_Value.extend (po_data st) [JObj kvs]"
  by (simp add: load_locale_def Let_def)

text \<open>Loading a catalogue makes its translations available: a message of the catalogue with a text is looked up
  as that text, and a message the new catalogue does not have keeps the translation it had before, in every
  context.\<close>

theorem gettext_after_load:
  assumes "owf kvs" and "st' = load_locale (JObj kvs) plural st"
  shows "(opt kvs (po_key context msg) = JArr (x # JStr s # ts) \<and> s \<noteq> [] \<longrightarrow> gettext context msg st' = JStr s) \<and>
         (opt kvs (po_key context msg) = JUndef \<longrightarrow> gettext context msg st' = gettext context msg st)"
  using assms by (simp add: gettext_def opt_extend_obj Let_def)

theorem gettext_after_load_witness:
  "gettext ''menu'' ''Open'' (load_locale (JObj [(''menu'' @ CHR 0x04 # ''Open'', JArr [JNull, JStr ''Oeffnen''])]) None init_po)
     = JStr ''Oeffnen'' \<and>
   gettext [] ''Close'' (load_locale (JObj [(''menu'' @ CHR 0x04 # ''Open'', JArr [JNull, JStr ''Oeffnen''])]) None init_po)
     = JStr ''Close''"
  using gettext_after_load [of "[(''menu'' @ CHR 0x04 # ''Open'', JArr [JNull, JStr ''Oeffnen''])]" _ None init_po "''menu''" "''Open''"
      JNull "''Oeffnen''" "[]", OF _ refl]
    gettext_after_load [of "[(''menu'' @ CHR 0x04 # ''Open'', JArr [JNull, JStr ''Oeffnen''])]" _ None init_po "''''" "''Close''", OF _ refl]
  by (simp add: owf_def okeys_def po_key_def) (simp add: gettext_def init_po_def)

text \<open>The number of a message picks its form: the catalogue's form for it if there is one, or the two texts given.\<close>

lemma ngettext_form:
  assumes "po_plural st = Some plural" and "opt (po_data st) (po_key context string1) = JArr (x # forms)"
    and "imply (plural num) = int i" and "i < length forms" and "truthy (forms ! i)"
  shows "ngettext context string1 stringN num st = forms ! i"
proof -
  have "get_prop (JArr (x # forms)) (JNum (int i + 1)) = forms ! i"
    using assms(4) by (simp add: get_prop_def nat_add_distrib)
  then show ?thesis
    using assms by (simp add: ngettext_def Let_def)
qed

lemma ngettext_fallback:
  "po_plural st = None \<Longrightarrow> ngettext context string1 stringN num st = (if num = 1 then JStr string1 else JStr stringN)"
  by (simp add: ngettext_def Let_def)

section \<open>A page is translated once\<close>

lemma translate_element_marks:
  "translatable (translate_element st el) \<longleftrightarrow> translatable el \<and> attr_or el ''translate'' ''translatable'' ''yes'' = ''no''"
proof (cases "attr_or el ''translate'' ''translatable'' ''yes'' = ''no''")
  case True
  then show ?thesis by (simp add: translate_element_def)
next
  case False
  then show ?thesis
    by (simp add: translate_element_def translatable_def Let_def okeys_odel)
qed

text \<open>Translating a page a second time changes nothing, whatever the catalogue is by then: every element translated
  has lost its marks, and one that is marked as not to be translated is left alone both times.\<close>

theorem translate_idempotent: "translate st' (translate st doc) = translate st doc"
proof -
  have "(if translatable (translate_element st el) then translate_element st' (translate_element st el)
         else translate_element st el) = translate_element st el" if "translatable el" for el
  proof (cases "attr_or el ''translate'' ''translatable'' ''yes'' = ''no''")
    case True
    then have "translate_element s el = el" for s
      by (simp add: translate_element_def)
    then show ?thesis by simp
  next
    case False
    then show ?thesis by (simp add: translate_element_marks)
  qed
  then show ?thesis
    by (auto simp: translate_def)
qed

section \<open>Messages\<close>

text \<open>The message of an error is never lost: a message it carries is shown as it is, a known problem code gives its
  text in the language of the catalogue, and an unknown code is shown itself.\<close>

theorem message_of_problem:
  "message_of (JObj [(''message'', JStr (c # cs)), (''problem'', p)]) st = JStr (c # cs) \<and>
   (\<forall>(code, text') \<in> set problem_texts. message_of (JObj [(''problem'', JStr code)]) st = gettext [] text' st \<and>
      message_of (JStr code) st = gettext [] text' st) \<and>
   (s \<notin> fst ` set problem_texts \<longrightarrow> message_of (JStr s) st = JStr s)"
  by (auto simp: message_of_def problem_texts_def fld_def)

end
