(* ===== verification/Spawn.thy ===== *)
theory Spawn
  imports Channel_Port Channel_Buffer L10n Format Session
begin

text \<open>
  Processes, of \<open>src/base1/cockpit.js\<close>: \<open>cockpit.spawn\<close>, \<open>cockpit.script\<close>, \<open>ProcessError\<close> and the functions on the
  promise that \<open>spawn\<close> returns.  A process is a client of its channel (\<open>closing_client\<close>): it is driven by the
  events of the channel and the calls of its user, and keeps the calls it made on its deferred.
\<close>

section \<open>Errors\<close>

record process_error =
  pe_problem :: js
  pe_exit_status :: js
  pe_exit_signal :: js
  pe_message :: js

text \<open>\<open>None\<close> is the exception for a message that is not a text.\<close>

definition new_process_error :: "po_state \<Rightarrow> options \<Rightarrow> js \<Rightarrow> process_error option" where
  "new_process_error po options name =
     (let problem = (if truthy (opt options ''problem'') then opt options ''problem'' else JNull);
          exit_status = (if opt options ''exit-status'' = JUndef then JNull else opt options ''exit-status'');
          exit_signal = (if opt options ''exit-signal'' = JUndef then JNull else opt options ''exit-signal'');
          fmt = (\<lambda>text' arg. JStr (format (list_args [name, arg]) (to_str (gettext [] text' po))));
          message =
            (case opt options ''message'' of
               JUndef \<Rightarrow>
                 Some (if truthy problem then message_of (opt options ''problem'') po
                       else if exit_signal \<noteq> JNull then fmt ''$0 killed with signal $1'' exit_signal
                       else if exit_status \<noteq> JUndef then fmt ''$0 exited with code $1'' exit_status
                       else fmt ''$0 failed'' JUndef)
             | JStr s \<Rightarrow> Some (JStr (trim s))
             | _ \<Rightarrow> None)
      in map_option (\<lambda>m. \<lparr>pe_problem = problem, pe_exit_status = exit_status, pe_exit_signal = exit_signal,
                          pe_message = m\<rparr>) message)"

section \<open>Processes\<close>

datatype spawn_outcome = SpawnDone payload "js option" | SpawnFailed process_error "payload option"

record spawn =
  sp_name :: js
  sp_binary :: bool
  sp_buffer :: buffer
  sp_valid :: bool
  sp_calls :: "chan_call list"
  sp_outcomes :: "spawn_outcome list"

text \<open>The options of the channel.\<close>

definition spawn_args :: "js \<Rightarrow> js \<Rightarrow> options" where
  "spawn_args command options =
     JS_Value.extend
       [(''payload'', JStr ''stream''),
        (''spawn'', JArr (case command of JArr xs \<Rightarrow> map (\<lambda>x. JStr (to_str x)) xs | _ \<Rightarrow> [JStr (to_str command)]))]
       [options]"

definition spawn_open :: "js \<Rightarrow> js \<Rightarrow> spawn" where
  "spawn_open command options =
     (let args = spawn_args command options;
          first = get_prop (opt args ''spawn'') (JNum 0)
      in \<lparr>sp_name = (if truthy first then first else JStr ''process''),
          sp_binary = (opt args ''binary'' = JBool True),
          sp_buffer = new_buffer, sp_valid = True, sp_calls = [], sp_outcomes = []\<rparr>)"

text \<open>\<open>cockpit.script(script, args, options)\<close>: what \<open>spawn\<close> is called with.\<close>

definition script_command :: "js \<Rightarrow> js \<Rightarrow> js \<Rightarrow> js \<times> js" where
  "script_command script args options =
     (let (args, options) = (if \<not> truthy options \<and> is_plain_object args then (JArr [], args) else (args, options))
      in (JArr ([JStr ''/bin/sh'', JStr ''-c'', script, JStr ''--''] @ (case args of JArr xs \<Rightarrow> xs | _ \<Rightarrow> [])), options))"

text \<open>What the close event of the channel makes of the process.\<close>

definition spawn_verdict :: "po_state \<Rightarrow> options \<Rightarrow> spawn \<Rightarrow> spawn_outcome list" where
  "spawn_verdict po options s =
     (let data = squash (sp_binary s) (bf_data (sp_buffer s));
          fail = (\<lambda>d. case new_process_error po options (sp_name s) of None \<Rightarrow> [] | Some e \<Rightarrow> [SpawnFailed e d])
      in if truthy (opt options ''problem'') then fail None
         else if truthy (opt options ''exit-status'') \<or> truthy (opt options ''exit-signal'') then fail (Some data)
         else if opt options ''message'' \<noteq> JUndef then [SpawnDone data (Some (opt options ''message''))]
         else [SpawnDone data None])"

text \<open>The calls of the user on the promise: \<open>stream\<close>, \<open>input\<close> and \<open>close\<close>.\<close>

datatype spawn_call = SpStream nat | SpInput "payload option" bool | SpClose options

fun spawn_user :: "spawn_call \<Rightarrow> spawn \<Rightarrow> spawn" where
  "spawn_user (SpStream cb) s = s\<lparr>sp_buffer := (sp_buffer s)\<lparr>bf_callback := Some cb\<rparr>\<rparr>"
| "spawn_user (SpInput message stream) s =
     s\<lparr>sp_calls := sp_calls s @ (case message of None \<Rightarrow> [] | Some m \<Rightarrow> [CallSend m]) @
         (if stream then [] else [CallControl [(''command'', JStr ''done'')]])\<rparr>"
| "spawn_user (SpClose options) s =
     (if sp_valid s then s\<lparr>sp_calls := sp_calls s @ [CallClose options]\<rparr> else s)"

text \<open>The close event ends the buffer's listening before the process looks at what it holds.\<close>

fun spawn_event :: "po_state \<Rightarrow> (nat \<Rightarrow> payload \<Rightarrow> js) \<Rightarrow> chan_event \<Rightarrow> spawn \<Rightarrow> spawn" where
  "spawn_event po user (EvMessage p) s =
     (if sp_valid s then s\<lparr>sp_buffer := buffer_message (sp_binary s) user p (sp_buffer s)\<rparr> else s)"
| "spawn_event po user (EvClose options) s = s\<lparr>sp_valid := False, sp_outcomes := sp_outcomes s @ spawn_verdict po options s\<rparr>"
| "spawn_event po user _ s = s"

definition spawn_act :: "po_state \<Rightarrow> (nat \<Rightarrow> payload \<Rightarrow> js) \<Rightarrow> chan_event + spawn_call \<Rightarrow> spawn \<Rightarrow> spawn" where
  "spawn_act po user x s = (case x of Inl e \<Rightarrow> spawn_event po user e s | Inr c \<Rightarrow> spawn_user c s)"

section \<open>A process settles with its channel\<close>

interpretation process: closing_client chan_events chan_closed live_chan "spawn_act po user" sp_outcomes "spawn_verdict po"
  for po :: po_state and user :: "nat \<Rightarrow> payload \<Rightarrow> js"
proof
  show "sp_outcomes (spawn_act po user (Inl e) s) = sp_outcomes s" if "\<not> is_close_event e" for e s
    using that by (cases e) (simp_all add: spawn_act_def)
  show "sp_outcomes (spawn_act po user (Inr c) s) = sp_outcomes s" for c s
    by (cases c) (simp_all add: spawn_act_def)
  show "sp_outcomes (spawn_act po user (Inl (EvClose d)) s) = sp_outcomes s @ spawn_verdict po d s" for d s
    by (simp add: spawn_act_def)
qed

text \<open>What the process knows of its channel's events so far.\<close>

fun delivered :: "(chan_event + 'u) list \<Rightarrow> payload list" where
  "delivered [] = []"
| "delivered (Inl (EvMessage p) # xs) = p # delivered xs"
| "delivered (x # xs) = delivered xs"

text \<open>Steps before the process ends, of a process whose output is not streamed.\<close>

fun unstreamed :: "chan_event + spawn_call \<Rightarrow> bool" where
  "unstreamed (Inl e) = (\<not> is_close_event e)"
| "unstreamed (Inr (SpStream cb)) = False"
| "unstreamed (Inr c) = True"

lemma delivered_simps [simp]:
  "delivered (Inr c # xs) = delivered xs"
  "delivered (Inl e # xs) = (case e of EvMessage p \<Rightarrow> p # delivered xs | _ \<Rightarrow> delivered xs)"
  by (auto split: chan_event.splits)

lemma spawn_step_collects:
  assumes "unstreamed x" and "sp_valid s" and "bf_callback (sp_buffer s) = None"
  shows "sp_valid (spawn_act po user x s) \<and> bf_callback (sp_buffer (spawn_act po user x s)) = None \<and>
         bf_data (sp_buffer (spawn_act po user x s)) = bf_data (sp_buffer s) @ delivered [x] \<and>
         sp_name (spawn_act po user x s) = sp_name s \<and> sp_binary (spawn_act po user x s) = sp_binary s"
  using assms
  by (cases x rule: unstreamed.cases)
     (auto simp: spawn_act_def buffer_message_def Let_def split: chan_event.splits)

lemma delivered_Cons: "delivered (x # xs) = delivered [x] @ delivered xs"
  by (cases x) (auto split: chan_event.splits)

lemma spawn_collects:
  assumes "list_all unstreamed xs" and "sp_valid s" and "bf_callback (sp_buffer s) = None"
  shows "bf_data (sp_buffer (fold (spawn_act po user) xs s)) = bf_data (sp_buffer s) @ delivered xs \<and>
         sp_name (fold (spawn_act po user) xs s) = sp_name s \<and> sp_binary (fold (spawn_act po user) xs s) = sp_binary s"
  using assms
proof (induction xs arbitrary: s)
  case (Cons x xs)
  have "unstreamed x" "list_all unstreamed xs"
    using Cons.prems(1) by simp_all
  note step = spawn_step_collects [OF this(1) Cons.prems(2,3), of po user] and rest = this(2)
  show ?case
    using Cons.IH [OF rest, of "spawn_act po user x s"] step by (simp del: delivered.simps delivered_simps add: delivered_Cons [of x xs])
qed simp


lemma unstreamed_before:
  assumes "list_all unstreamed (filter (\<lambda>x. \<not> isl x) xs)" and "\<forall>e \<in> set (channel_events xs). \<not> is_close_event e"
  shows "list_all unstreamed xs"
  using assms by (induction xs rule: channel_events.induct) auto

lemma delivered_append: "delivered (xs @ ys) = delivered xs @ delivered ys"
proof (induction xs)
  case (Cons x xs)
  then show ?case
    using delivered_Cons [of x xs] delivered_Cons [of x "xs @ ys"] by simp
qed simp

lemma delivered_users: "channel_events xs = [] \<Longrightarrow> delivered xs = []"
  by (induction xs rule: channel_events.induct) auto

text \<open>C17: A process reports its end once, exactly when its channel closes.  For every interleaving of the events of a channel
  with calls of \<open>input\<close> and \<open>close\<close>: while the channel is open the promise is pending; when it has closed, the promise
  has been settled by one call, rejected with a \<open>ProcessError\<close> for a problem, an exit status or a signal,
  and otherwise resolved, with all the output the process has written, in order.\<close>

theorem spawn_settles_with_channel:
  assumes "reachable w" and "c < length (w_chans w)" and "channel_events xs = events_of c w"
    and "list_all unstreamed (filter (\<lambda>x. \<not> isl x) xs)"
    and "\<And>d. c_closed (ch w c) = Some d \<Longrightarrow> opt d ''message'' = JUndef \<or> (\<exists>s. opt d ''message'' = JStr s)"
    and "s = spawn_open command options" and "s' = fold (spawn_act po user) xs s"
    and "data = squash (sp_binary s) (delivered xs)"
  shows "case c_closed (ch w c) of
      None \<Rightarrow> sp_outcomes s' = []
    | Some d \<Rightarrow> \<exists>e. new_process_error po d (sp_name s) = Some e \<and>
        sp_outcomes s' =
          [if truthy (opt d ''problem'') then SpawnFailed e None
           else if truthy (opt d ''exit-status'') \<or> truthy (opt d ''exit-signal'') then SpawnFailed e (Some data)
           else SpawnDone data (if opt d ''message'' = JUndef then None else Some (opt d ''message''))]"
proof -
  have live: "live_chan (w, c)"
    using assms(1,2) by (simp add: live_chan_def)
  have s: "sp_outcomes s = []" "sp_valid s" "bf_callback (sp_buffer s) = None" "bf_data (sp_buffer s) = []"
    by (simp_all add: assms(6) spawn_open_def new_buffer_def Let_def)
  note settles = process.settles_with_channel [of "(w, c)" xs po user s, OF live, unfolded fst_conv snd_conv, OF assms(3)]
  show ?thesis
  proof (cases "c_closed (ch w c)")
    case None
    then show ?thesis
      using settles s(1) by (simp add: assms(7))
  next
    case (Some d)
    then obtain before after where xs: "xs = before @ Inl (EvClose d) # after"
      and calm: "\<forall>e \<in> set (channel_events before). \<not> is_close_event e" and after: "channel_events after = []"
      and out: "sp_outcomes s' = spawn_verdict po d (fold (spawn_act po user) before s)"
      using settles s(1) by (auto simp: assms(7))
    have data: "data = squash (sp_binary s) (delivered before)"
      using delivered_users [OF after] by (simp add: assms(8) xs delivered_append)
    have "list_all unstreamed before"
      using unstreamed_before [OF _ calm] assms(4) by (simp add: xs)
    note collects = spawn_collects [OF this s(2,3), of po user]
    show ?thesis
      using assms(5) [OF Some] Some out collects s(4) data
      by (auto simp: spawn_verdict_def new_process_error_def Let_def)
  qed
qed


lemma demo_done_events:
  "events_of 0 demo_done = [EvMessage (PStr ''hi''), EvClose [(''command'', JStr ''close''), (''channel'', JStr ''1'')]]"
  by code_simp

theorem spawn_settles_with_channel_witness:
  "sp_outcomes (fold (spawn_act init_po (\<lambda>_ _. JUndef))
     [Inr (SpInput (Some (PStr ''x'')) False), Inl (EvMessage (PStr ''hi'')),
      Inl (EvClose [(''command'', JStr ''close''), (''channel'', JStr ''1'')])] (spawn_open (JStr ''date'') JUndef))
   = [SpawnDone (PStr ''hi'') None]"
proof -
  let ?xs = "[Inr (SpInput (Some (PStr ''x'')) False), Inl (EvMessage (PStr ''hi'')),
      Inl (EvClose [(''command'', JStr ''close''), (''channel'', JStr ''1'')])]"
  have "0 < length (w_chans demo_done)" "channel_events ?xs = events_of 0 demo_done"
    "list_all unstreamed (filter (\<lambda>x. \<not> isl x) ?xs)"
    by (simp_all add: demo_done_shape demo_done_events)
  note spawn_settles_with_channel [OF demo_done_reachable this _ refl refl refl, where command = "JStr ''date''" and options = JUndef and
    po = init_po and user = "\<lambda>_ _. JUndef"]
  moreover have "squash (sp_binary (spawn_open (JStr ''date'') JUndef)) (delivered ?xs) = PStr ''hi''"
    by code_simp
  ultimately show ?thesis
    by (simp add: demo_done_shape)
qed

end
