(* ===== verification/Http.thy ===== *)
theory Http
  imports Spawn Uri
begin

text \<open>
  HTTP requests, of \<open>src/base1/cockpit.js\<close>: \<open>HttpClient\<close> with \<open>request\<close>, \<open>get\<close>, \<open>post\<close>, \<open>close\<close>, the functions on the
  promise of a request, \<open>find_header\<close> and \<open>HttpError\<close>.  A request is a client of its channel like a process.

  Status codes are numbers, as the protocol has them; what streamers return is a parameter.
\<close>

section \<open>Headers and parameters\<close>

text \<open>\<open>toLowerCase\<close>, on the characters of this model.\<close>

definition lower_char :: "char \<Rightarrow> char" where
  "lower_char c = (let n = (of_char c :: nat)
     in if 65 \<le> n \<and> n \<le> 90 \<or> 192 \<le> n \<and> n \<le> 222 \<and> n \<noteq> 215 then char_of (n + 32) else c)"

definition to_lower :: "string \<Rightarrow> string" where
  "to_lower s = map lower_char s"

fun find_header_in :: "string \<Rightarrow> options \<Rightarrow> js" where
  "find_header_in name [] = JUndef"
| "find_header_in name ((head, v) # rest) = (if to_lower head = name then v else find_header_in name rest)"

definition find_header :: "js \<Rightarrow> string \<Rightarrow> js" where
  "find_header headers name = (case headers of JObj kvs \<Rightarrow> find_header_in (to_lower name) kvs | _ \<Rightarrow> JUndef)"

definition enc_component :: "string \<Rightarrow> string" where
  "enc_component s = (case encode_uri_component (map of_char s) of None \<Rightarrow> [] | Some t \<Rightarrow> map char_of t)"

text \<open>\<open>param(obj)\<close>, with every escaped space written as a plus sign.\<close>

definition http_param :: "options \<Rightarrow> string" where
  "http_param obj =
     replace_all ''%20'' ''+''
       (join ''&'' (map (\<lambda>(k, v). enc_component k @ ''='' @ enc_component (to_str v)) obj))"

section \<open>The client\<close>

text \<open>The options of the client; \<open>None\<close> is the exception for a bad endpoint.\<close>

definition http_options :: "js \<Rightarrow> options \<Rightarrow> options option" where
  "http_options endpoint options =
     (let options = oset options ''payload'' (JStr ''http-stream2'');
          options =
            (case endpoint of
               JUndef \<Rightarrow> Some options
             | JStr (CHR ''/'' # p) \<Rightarrow> Some (oset options ''unix'' endpoint)
             | _ \<Rightarrow> (case parse_int (to_str endpoint) of
                      Some port \<Rightarrow> Some (oset options ''port'' (JNum port))
                    | None \<Rightarrow> None))
      in map_option (\<lambda>options.
           if truthy (opt options ''address'')
           then oset options ''capabilities''
                  (JArr ((case opt options ''capabilities'' of JArr xs \<Rightarrow> xs | _ \<Rightarrow> []) @ [JStr ''address'']))
           else options) options)"

text \<open>\<open>cockpit.http(endpoint, options)\<close>: one object is taken as the options.\<close>

definition http_client_args :: "js \<Rightarrow> js \<Rightarrow> js \<times> js" where
  "http_client_args endpoint options =
     (let (endpoint, options) =
            (if is_plain_object endpoint \<and> options = JUndef then (JUndef, endpoint) else (endpoint, options))
      in (endpoint, if truthy options then options else JObj []))"

text \<open>The options of the channel of a request; what is left out (\<open>params\<close>, \<open>body\<close>) travels otherwise.\<close>

definition request_args :: "options \<Rightarrow> options \<Rightarrow> options" where
  "request_args client req =
     (let req = (if truthy (opt req ''path'') then req else oset req ''path'' (JStr ''/''));
          req = (if truthy (opt req ''method'') then req else oset req ''method'' (JStr ''GET''));
          path = to_str (opt req ''path'');
          req = (case opt req ''params'' of
                   JObj kvs \<Rightarrow> oset req ''path''
                     (JStr (path @ (if index_of (CHR ''?'') path = None then ''?'' else ''&'') @ http_param kvs))
                 | _ \<Rightarrow> req);
          headers = opt req ''headers'';
          req = odel (odel (odel req ''params'') ''body'') ''headers'';
          req = JS_Value.extend req [JObj client];
          combined = (if truthy (opt client ''headers'') \<and> truthy headers
                      then JObj (JS_Value.extend [] [opt client ''headers'', headers])
                      else if truthy (opt client ''headers'') then opt client ''headers'' else headers)
      in oset req ''headers'' combined)"

section \<open>Requests\<close>

record http_error =
  he_status :: "int option"
  he_reason :: js
  he_message :: js

definition new_http_error :: "js \<Rightarrow> js \<Rightarrow> js \<Rightarrow> http_error" where
  "new_http_error status reason message =
     \<lparr>he_status = parse_int (to_str status), he_reason = reason,
      he_message = (if truthy message then message else reason)\<rparr>"

datatype http_outcome = HttpDone payload | HttpProblem basic_error | HttpFailed http_error payload

record http =
  ht_binary :: bool
  ht_buffer :: buffer
  ht_resp :: "options option"
  ht_streamer :: "nat option"
  ht_responsers :: "nat list"
  ht_valid :: bool
  ht_calls :: "chan_call list"
  ht_responses :: "(nat \<times> js \<times> js) list"
  ht_outcomes :: "http_outcome list"

text \<open>\<open>status >= 200 && status <= 299\<close>, and \<open>status < 200 || status > 299\<close>.\<close>

definition status_good :: "js \<Rightarrow> bool" where
  "status_good v = (case v of JNum n \<Rightarrow> 200 \<le> n \<and> n \<le> 299 | _ \<Rightarrow> False)"

definition status_bad :: "js \<Rightarrow> bool" where
  "status_bad v = (case v of JNum n \<Rightarrow> n < 200 \<or> n > 299 | _ \<Rightarrow> False)"

text \<open>The new request: what it sends at once depends on the body (\<open>None\<close> if there is none).\<close>

definition request_open :: "options \<Rightarrow> payload option \<Rightarrow> http" where
  "request_open args input =
     \<lparr>ht_binary = (opt args ''binary'' = JBool True), ht_buffer = new_buffer\<lparr>bf_callback := Some 0\<rparr>, ht_resp = None,
      ht_streamer = None, ht_responsers = [], ht_valid = True,
      ht_calls = (case input of
          None \<Rightarrow> []
        | Some p \<Rightarrow> (if p = PStr '''' then [] else [CallSend p]) @ [CallControl [(''command'', JStr ''done'')]]),
      ht_responses = [], ht_outcomes = []\<rparr>"

text \<open>The callback of the buffer: the data of a good response goes to the streamer, other data stays.\<close>

definition request_consumer :: "(nat \<Rightarrow> payload \<Rightarrow> js) \<Rightarrow> http \<Rightarrow> nat \<Rightarrow> payload \<Rightarrow> js" where
  "request_consumer user r cb block =
     (case (ht_resp r, ht_streamer r) of
        (Some resp, Some streamer) \<Rightarrow> if status_good (opt resp ''status'') then user streamer block else JNum 0
      | _ \<Rightarrow> JNum 0)"

definition request_verdict :: "po_state \<Rightarrow> options \<Rightarrow> http \<Rightarrow> http_outcome list" where
  "request_verdict po options r =
     (if truthy (opt options ''problem'') then [HttpProblem (new_basic_error (opt options ''problem'') JUndef po)]
      else
        let body = squash (ht_binary r) (bf_data (ht_buffer r))
        in case ht_resp r of
             Some resp \<Rightarrow>
               if status_bad (opt resp ''status'') then
                 let type = find_header (opt resp ''headers'') ''Content-Type'';
                     message = (if truthy type \<and> \<not> ht_binary r \<and> starts_with ''text/plain'' (to_str type)
                                then JStr (text_of body) else JUndef)
                 in [HttpFailed (new_http_error (opt resp ''status'') (opt resp ''reason'') message) body]
               else [HttpDone body]
           | None \<Rightarrow> [HttpDone body])"

fun request_event :: "po_state \<Rightarrow> (nat \<Rightarrow> payload \<Rightarrow> js) \<Rightarrow> chan_event \<Rightarrow> http \<Rightarrow> http" where
  "request_event po user (EvMessage p) r =
     (if ht_valid r then r\<lparr>ht_buffer := buffer_message (ht_binary r) (request_consumer user r) p (ht_buffer r)\<rparr> else r)"
| "request_event po user (EvControl options) r =
     (if ht_valid r \<and> opt options ''command'' = JStr ''response'' then
        (if ht_responsers r \<noteq> [] then
           (let resp = oset options ''headers'' (if truthy (opt options ''headers'') then opt options ''headers'' else JObj [])
            in r\<lparr>ht_resp := Some resp,
                 ht_responses := ht_responses r @ map (\<lambda>f. (f, opt resp ''status'', opt resp ''headers'')) (ht_responsers r)\<rparr>)
         else r\<lparr>ht_resp := Some options\<rparr>)
      else r)"
| "request_event po user (EvClose options) r =
     r\<lparr>ht_valid := False, ht_outcomes := ht_outcomes r @ request_verdict po options r\<rparr>"
| "request_event po user (EvReady _) r = r"

datatype request_call = RqStream nat | RqResponse nat | RqInput "payload option" bool | RqClose options

fun request_user :: "request_call \<Rightarrow> http \<Rightarrow> http" where
  "request_user (RqStream f) r = r\<lparr>ht_streamer := Some f\<rparr>"
| "request_user (RqResponse f) r = r\<lparr>ht_responsers := ht_responsers r @ [f]\<rparr>"
| "request_user (RqInput message stream) r =
     r\<lparr>ht_calls := ht_calls r @ (case message of None \<Rightarrow> [] | Some m \<Rightarrow> [CallSend m]) @
         (if stream then [] else [CallControl [(''command'', JStr ''done'')]])\<rparr>"
| "request_user (RqClose options) r = r\<lparr>ht_calls := ht_calls r @ [CallClose options]\<rparr>"

definition request_act :: "po_state \<Rightarrow> (nat \<Rightarrow> payload \<Rightarrow> js) \<Rightarrow> chan_event + request_call \<Rightarrow> http \<Rightarrow> http" where
  "request_act po user x r = (case x of Inl e \<Rightarrow> request_event po user e r | Inr c \<Rightarrow> request_user c r)"

section \<open>get, post and close of the client\<close>

definition get_request :: "js \<Rightarrow> js \<Rightarrow> js \<Rightarrow> options" where
  "get_request path params headers =
     [(''method'', JStr ''GET''), (''params'', params), (''path'', path), (''body'', JStr ''''), (''headers'', headers)]"

definition post_request :: "js \<Rightarrow> js \<Rightarrow> js \<Rightarrow> options" where
  "post_request path body headers =
     (let headers = (if truthy headers then headers else JObj []);
          json = is_plain_object body \<or> is_array body;
          headers = (case headers of
              JObj kvs \<Rightarrow> if json \<and> find_header headers ''Content-Type'' = JUndef
                          then JObj (oset kvs ''Content-Type'' (JStr ''application/json'')) else headers
            | _ \<Rightarrow> headers);
          body = (if json then (case stringify body of None \<Rightarrow> JUndef | Some t \<Rightarrow> JStr t)
                  else if body = JUndef \<or> body = JNull then JStr ''''
                  else case body of JStr _ \<Rightarrow> body | _ \<Rightarrow> JStr (to_str body))
      in [(''method'', JStr ''POST''), (''path'', path), (''body'', body), (''headers'', headers)])"

text \<open>A client and its requests; \<open>hc_active\<close> are the requests that have not ended.\<close>

record http_client =
  hc_options :: options
  hc_requests :: "http list"
  hc_active :: "nat list"

definition client_request :: "options \<Rightarrow> http_client \<Rightarrow> http_client" where
  "client_request req hc =
     (let input = (case opt req ''body'' of JUndef \<Rightarrow> None | v \<Rightarrow> Some (PStr (to_str v)))
      in hc\<lparr>hc_requests := hc_requests hc @ [request_open (request_args (hc_options hc) req) input],
            hc_active := hc_active hc @ [length (hc_requests hc)]\<rparr>)"

definition client_event :: "po_state \<Rightarrow> (nat \<Rightarrow> payload \<Rightarrow> js) \<Rightarrow> nat \<Rightarrow> chan_event + request_call \<Rightarrow> http_client \<Rightarrow> http_client" where
  "client_event po user i x hc =
     (let hc = hc\<lparr>hc_requests := (hc_requests hc)[i := request_act po user x (hc_requests hc ! i)]\<rparr>
      in case x of Inl (EvClose _) \<Rightarrow> hc\<lparr>hc_active := remove1 i (hc_active hc)\<rparr> | _ \<Rightarrow> hc)"

text \<open>\<open>close(problem)\<close> closes every request that is active, from a copy of the list.\<close>

definition client_close :: "po_state \<Rightarrow> (nat \<Rightarrow> payload \<Rightarrow> js) \<Rightarrow> options \<Rightarrow> http_client \<Rightarrow> http_client" where
  "client_close po user problem hc = fold (\<lambda>i. client_event po user i (Inr (RqClose problem))) (hc_active hc) hc"


section \<open>A request settles with its channel\<close>

interpretation request: closing_client chan_events chan_closed live_chan "request_act po user" ht_outcomes "request_verdict po"
  for po :: po_state and user :: "nat \<Rightarrow> payload \<Rightarrow> js"
proof
  show "ht_outcomes (request_act po user (Inl e) r) = ht_outcomes r" if "\<not> is_close_event e" for e r
    using that by (cases e) (simp_all add: request_act_def Let_def)
  show "ht_outcomes (request_act po user (Inr c) r) = ht_outcomes r" for c r
    by (cases c) (simp_all add: request_act_def)
  show "ht_outcomes (request_act po user (Inl (EvClose d)) r) = ht_outcomes r @ request_verdict po d r" for d r
    by (simp add: request_act_def)
qed

text \<open>Steps before the end of a request without a streamer.\<close>

fun no_streamer :: "chan_event + request_call \<Rightarrow> bool" where
  "no_streamer (Inl e) = (\<not> is_close_event e)"
| "no_streamer (Inr (RqStream f)) = False"
| "no_streamer (Inr c) = True"

text \<open>The response a request has last heard of.\<close>

fun last_status :: "js option \<Rightarrow> (chan_event + 'u) list \<Rightarrow> js option" where
  "last_status acc [] = acc"
| "last_status acc (Inl (EvControl d) # xs) =
     last_status (if opt d ''command'' = JStr ''response'' then Some (opt d ''status'') else acc) xs"
| "last_status acc (x # xs) = last_status acc xs"

lemma last_status_Cons:
  "last_status acc (x # xs) = last_status (last_status acc [x]) xs"
  by (cases "(acc, x # xs)" rule: last_status.cases) auto

lemma kept_whole: "kept block (JNum 0) = (if block_length block = 0 then [] else [block])"
  by (simp add: kept_def)

lemma squash_Cons: "squash binary (squash binary bs # ps) = squash binary (bs @ ps)"
  by (cases binary) (simp_all add: squash_def join_set_concat join_text_concat)

lemma squash_idem: "squash binary [squash binary bs] = squash binary bs"
  by (cases binary) (simp_all add: squash_def join_set_concat join_text_concat)

text \<open>A buffer whose callback refuses everything holds what it was given.\<close>

lemma refusing_buffer:
  assumes "squash binary (bf_data bf) = squash binary bs" and "\<And>cb b. user cb b = JNum 0"
  shows "squash binary (bf_data (buffer_message binary user p bf)) = squash binary (bs @ [p])"
proof -
  have "squash binary (bf_data bf @ [p]) = squash binary (bs @ [p])"
    by (metis assms(1) squash_Cons)
  then show ?thesis
    using assms(2) by (auto simp: buffer_message_def Let_def kept_whole squash_idem split: option.split)
qed


lemma request_step:
  assumes "no_streamer x" and "ht_valid r" and "ht_streamer r = None"
    and "squash (ht_binary r) (bf_data (ht_buffer r)) = squash (ht_binary r) bs"
  shows "let r' = request_act po user x r in
         ht_valid r' \<and> ht_streamer r' = None \<and> ht_binary r' = ht_binary r \<and>
         squash (ht_binary r) (bf_data (ht_buffer r')) = squash (ht_binary r) (bs @ delivered [x]) \<and>
         map_option (\<lambda>resp. opt resp ''status'') (ht_resp r') = last_status (map_option (\<lambda>resp. opt resp ''status'') (ht_resp r)) [x]"
proof -
  have refuses: "request_consumer user r cb b = JNum 0" for cb b
    using assms(3) by (simp add: request_consumer_def split: option.split)
  note held = refusing_buffer [OF assms(4), of "request_consumer user r", OF refuses]
  show ?thesis
  proof (cases x)
    case (Inl e)
    then show ?thesis
      using assms held by (cases e) (auto simp: request_act_def Let_def)
  next
    case (Inr c)
    then show ?thesis
      using assms by (cases c) (auto simp: request_act_def Let_def)
  qed
qed

lemma request_run:
  assumes "list_all no_streamer xs" and "ht_valid r" and "ht_streamer r = None"
    and "squash (ht_binary r) (bf_data (ht_buffer r)) = squash (ht_binary r) bs"
  shows "let r' = fold (request_act po user) xs r in
         ht_binary r' = ht_binary r \<and>
         squash (ht_binary r) (bf_data (ht_buffer r')) = squash (ht_binary r) (bs @ delivered xs) \<and>
         map_option (\<lambda>resp. opt resp ''status'') (ht_resp r') = last_status (map_option (\<lambda>resp. opt resp ''status'') (ht_resp r)) xs"
  using assms
proof (induction xs arbitrary: r bs)
  case Nil
  then show ?case by (simp add: Let_def)
next
  case (Cons x xs)
  have x: "no_streamer x" "list_all no_streamer xs"
    using Cons.prems(1) by simp_all
  note step = request_step [OF x(1) Cons.prems(2-4), of po user, unfolded Let_def]
  have "squash (ht_binary (request_act po user x r)) (bf_data (ht_buffer (request_act po user x r))) =
        squash (ht_binary (request_act po user x r)) (bs @ delivered [x])"
    using step by simp
  note rest = Cons.IH [OF x(2) _ _ this, unfolded Let_def]
  have "delivered (x # xs) = delivered [x] @ delivered xs" "last_status acc (x # xs) = last_status (last_status acc [x]) xs" for acc
    by (rule delivered_Cons, rule last_status_Cons)
  then show ?case
    using step rest by (simp del: delivered.simps delivered_simps last_status.simps)
qed

lemma no_streamer_before:
  assumes "list_all no_streamer (filter (\<lambda>x. \<not> isl x) xs)" and "\<forall>e \<in> set (channel_events xs). \<not> is_close_event e"
  shows "list_all no_streamer xs"
  using assms by (induction xs rule: channel_events.induct) auto

lemma last_status_append: "last_status acc (xs @ ys) = last_status (last_status acc xs) ys"
proof (induction xs arbitrary: acc)
  case (Cons x xs)
  then show ?case
    using last_status_Cons [of acc x xs] last_status_Cons [of acc x "xs @ ys"] by simp
qed simp

lemma last_status_users: "channel_events xs = [] \<Longrightarrow> last_status acc xs = acc"
  by (induction xs rule: channel_events.induct) auto

text \<open>C18: A request reports its end once, when its channel closes: a problem rejects it with that problem; otherwise the last
  response decides, a status outside of 200 to 299 rejecting it with an error of this status, and anything else
  resolving it.  Without a streamer the body is all the data received, whenever it came.\<close>

theorem request_settles_with_channel:
  assumes "reachable w" and "c < length (w_chans w)" and "channel_events xs = events_of c w"
    and "list_all no_streamer (filter (\<lambda>x. \<not> isl x) xs)"
    and "r = request_open args input" and "r' = fold (request_act po user) xs r"
    and "body = squash (ht_binary r) (delivered xs)"
  shows "case c_closed (ch w c) of
      None \<Rightarrow> ht_outcomes r' = []
    | Some d \<Rightarrow>
        if truthy (opt d ''problem'') then ht_outcomes r' = [HttpProblem (new_basic_error (opt d ''problem'') JUndef po)]
        else (case last_status None xs of
            None \<Rightarrow> ht_outcomes r' = [HttpDone body]
          | Some status \<Rightarrow>
              if status_bad status then \<exists>e. ht_outcomes r' = [HttpFailed e body] \<and> he_status e = parse_int (to_str status)
              else ht_outcomes r' = [HttpDone body])"
proof -
  have live: "live_chan (w, c)"
    using assms(1,2) by (simp add: live_chan_def)
  have r: "ht_outcomes r = []" "ht_valid r" "ht_streamer r = None" "ht_resp r = None" "bf_data (ht_buffer r) = []"
    by (simp_all add: assms(5) request_open_def new_buffer_def)
  note settles = request.settles_with_channel [of "(w, c)" xs po user r, OF live, unfolded fst_conv snd_conv, OF assms(3)]
  show ?thesis
  proof (cases "c_closed (ch w c)")
    case None
    then show ?thesis
      using settles r(1) by (simp add: assms(6))
  next
    case (Some d)
    then obtain before after where xs: "xs = before @ Inl (EvClose d) # after"
      and calm: "\<forall>e \<in> set (channel_events before). \<not> is_close_event e" and after: "channel_events after = []"
      and out: "ht_outcomes r' = request_verdict po d (fold (request_act po user) before r)"
      using settles r(1) by (auto simp: assms(6))
    have body: "body = squash (ht_binary r) (delivered before)" and status: "last_status None xs = last_status None before"
      using delivered_users [OF after] last_status_users [OF after] by (simp_all add: assms(7) xs delivered_append last_status_append)
    have "list_all no_streamer before"
      using no_streamer_before [OF _ calm] assms(4) by (simp add: xs)
    note run = request_run [OF this r(2,3), of "[]" po user, unfolded Let_def]
    show ?thesis
      using Some out run r(4,5) body status
      by (auto simp: request_verdict_def new_http_error_def Let_def split: option.splits)
  qed
qed

theorem request_settles_with_channel_witness:
  "ht_outcomes (fold (request_act init_po (\<lambda>_ _. JUndef))
     [Inl (EvMessage (PStr ''hi'')), Inr (RqResponse 3),
      Inl (EvClose [(''command'', JStr ''close''), (''channel'', JStr ''1'')])] (request_open [] None))
   = [HttpDone (PStr ''hi'')]"
proof -
  let ?xs = "[Inl (EvMessage (PStr ''hi'')), Inr (RqResponse 3),
      Inl (EvClose [(''command'', JStr ''close''), (''channel'', JStr ''1'')])]"
  have "0 < length (w_chans demo_done)" "channel_events ?xs = events_of 0 demo_done"
    "list_all no_streamer (filter (\<lambda>x. \<not> isl x) ?xs)"
    by (simp_all add: demo_done_shape demo_done_events)
  note request_settles_with_channel [OF demo_done_reachable this refl refl refl, where args = "[]" and input = None and
    po = init_po and user = "\<lambda>_ _. JUndef"]
  moreover have "squash (ht_binary (request_open [] None)) (delivered ?xs) = PStr ''hi''"
    by code_simp
  ultimately show ?thesis
    by (simp add: demo_done_shape)
qed


section \<open>Headers of a post\<close>

lemma find_header_in_oset:
  "to_lower k = name \<Longrightarrow> find_header_in name kvs = JUndef \<Longrightarrow> (\<forall>(a, v) \<in> set kvs. v \<noteq> JUndef) \<Longrightarrow>
   find_header_in name (oset kvs k v) = v"
  by (induction kvs) (auto split: if_splits)

lemma find_header_in_other:
  "to_lower k \<noteq> name \<Longrightarrow> find_header_in name (oset kvs k v) = find_header_in name kvs"
  by (induction kvs) auto

text \<open>Posting an object or an array sends its JSON text with a content type: the caller's if it gave one, however
  it is capitalised, and otherwise \<open>application/json\<close>; no other header of the caller changes.\<close>

theorem post_content_type:
  assumes "is_plain_object body \<or> is_array body" and "\<forall>(a, v) \<in> set kvs. v \<noteq> JUndef"
    and "req = post_request path body (JObj kvs)"
  shows "find_header (opt req ''headers'') ''content-type'' =
           (if find_header (JObj kvs) ''Content-Type'' = JUndef then JStr ''application/json''
            else find_header (JObj kvs) ''CONTENT-TYPE'') \<and>
         (to_lower name \<noteq> to_lower ''Content-Type'' \<longrightarrow>
            find_header (opt req ''headers'') name = find_header (JObj kvs) name) \<and>
         opt req ''body'' = (case stringify body of None \<Rightarrow> JUndef | Some t \<Rightarrow> JStr t)"
proof -
  have lower: "to_lower ''content-type'' = ''content-type''" "to_lower ''Content-Type'' = ''content-type''"
    "to_lower ''CONTENT-TYPE'' = ''content-type''"
    by code_simp+
  show ?thesis
    using assms(1,2) by (auto simp: assms(3) post_request_def find_header_def Let_def lower find_header_in_oset
        find_header_in_other simp del: to_lower_def)
qed

theorem post_content_type_witness:
  "find_header (opt (post_request (JStr ''/x'') (JArr [JNum 1]) (JObj [(''X-Token'', JStr ''t'')])) ''headers'') ''content-type''
     = JStr ''application/json'' \<and>
   opt (post_request (JStr ''/x'') (JArr [JNum 1]) (JObj [(''X-Token'', JStr ''t'')])) ''body'' = JStr ''[1]''"
proof -
  have "find_header (JObj [(''X-Token'', JStr ''t'')]) ''Content-Type'' = JUndef" "stringify (JArr [JNum 1]) = Some ''[1]''"
    by code_simp+
  then show ?thesis
    using post_content_type [of "JArr [JNum 1]" "[(''X-Token'', JStr ''t'')]" _ "JStr ''/x''", OF _ _ refl] by simp
qed

section \<open>Closing a client\<close>

lemma fold_close_requests:
  "\<forall>i \<in> set is. i < length (hc_requests hc) \<Longrightarrow> distinct is \<Longrightarrow>
   hc_active (fold (\<lambda>i. client_event po user i (Inr (RqClose problem))) is hc) = hc_active hc \<and>
   length (hc_requests (fold (\<lambda>i. client_event po user i (Inr (RqClose problem))) is hc)) = length (hc_requests hc) \<and>
   (\<forall>j. ht_calls (hc_requests (fold (\<lambda>i. client_event po user i (Inr (RqClose problem))) is hc) ! j) =
      ht_calls (hc_requests hc ! j) @ (if j \<in> set is then [CallClose problem] else []))"
proof (induction "is" arbitrary: hc)
  case (Cons i js)
  let ?hc = "client_event po user i (Inr (RqClose problem)) hc"
  have hc: "length (hc_requests ?hc) = length (hc_requests hc)" "hc_active ?hc = hc_active hc"
    "ht_calls (hc_requests ?hc ! j) = ht_calls (hc_requests hc ! j) @ (if j = i then [CallClose problem] else [])" for j
    using Cons.prems(1) by (auto simp: client_event_def request_act_def Let_def nth_list_update)
  show ?case
    using Cons.IH [of ?hc] Cons.prems by (auto simp: hc)
qed simp

text \<open>Closing a client asks every request that is still active, and no other, to close, once and with the problem given.\<close>

theorem client_close_reaches_active:
  assumes "\<forall>i \<in> set (hc_active hc). i < length (hc_requests hc)" and "distinct (hc_active hc)"
  shows "ht_calls (hc_requests (client_close po user problem hc) ! j) =
           ht_calls (hc_requests hc ! j) @ (if j \<in> set (hc_active hc) then [CallClose problem] else [])"
  using fold_close_requests [OF assms, of po user problem] by (simp add: client_close_def)

end
