(* ===== verification/DBus.thy ===== *)
theory DBus
  imports JSON_Codec L10n Channel_Port
begin

text \<open>
  The D-Bus client of \<open>src/base1/cockpit.js\<close>: \<open>DBusError\<close>, \<open>DBusCache\<close>, \<open>DBusProxy\<close>, \<open>DBusProxies\<close>, \<open>DBusClient\<close> and
  \<open>cockpit.dbus\<close>.  One store holds a client with its cache, its proxies and its deferreds; callbacks that the
  module installs itself are values of a datatype, so that their effect on the store is part of the model, and what
  reaches other code is logged.

  A message sent is logged as the value whose JSON text goes out.  The handlers of a deferred run from the queue of
  \<open>later_invoke\<close>; the handlers of other code only see the log.
\<close>

section \<open>Errors\<close>

record dbus_error =
  de_problem :: js
  de_name :: js
  de_message :: js

definition dbus_problem :: "po_state \<Rightarrow> js \<Rightarrow> js \<Rightarrow> dbus_error" where
  "dbus_problem po problem message =
     \<lparr>de_problem = problem, de_name = JNull,
      de_message = (if truthy message then message else message_of problem po)\<rparr>"

text \<open>\<open>new DBusError([ name, [ message ] ])\<close>.\<close>

definition dbus_failure :: "js \<Rightarrow> dbus_error" where
  "dbus_failure arg =
     (let name = get_prop arg (JNum 0);
          message = get_prop (get_prop arg (JNum 1)) (JNum 0)
      in \<lparr>de_problem = JNull, de_name = name, de_message = (if truthy message then message else name)\<rparr>)"

section \<open>State\<close>

text \<open>What a deferred does when it settles, besides the handlers of other code.\<close>

datatype dbus_cont = ContProxy nat | ContPublish string nat

datatype dbus_outcome = DDone js options | DFail dbus_error

record dbus_dfd =
  f_state :: "dbus_outcome option"
  f_conts :: "dbus_cont list"

datatype cache_func = FuncProxy nat | FuncProxies nat | FuncUser nat

text \<open>An entry \<open>[path, iface, callback]\<close> of the cache; \<open>None\<close> is a null, or an element that was deleted.\<close>

record cache_entry =
  ce_path :: "string option"
  ce_iface :: "string option"
  ce_func :: "cache_func option"

record dbus_cache =
  dc_callbacks :: "cache_entry list"
  dc_data :: "(string, options) obj"
  dc_meta :: options

text \<open>The promise behind \<open>wait\<close> of a proxy; a rejection carries what its watch ended with, if there was one.\<close>

datatype proxy_wait = WPending | WResolved | WRejected "dbus_outcome option"

record dbus_proxy =
  px_iface :: string
  px_path :: string
  px_valid :: bool
  px_defined :: bool
  px_data :: options
  px_methods :: "string list"
  px_properties :: "(string \<times> bool) list"
  px_waits :: proxy_wait

record dbus_proxies =
  ps_iface :: string
  ps_namespace :: string
  ps_items :: "(string, nat) obj"
  ps_options :: options

datatype sub_func = SubProxy nat | SubUser nat

record subscription =
  su_match :: options
  su_func :: sub_func

datatype dbus_task = TRun nat | TMessage js | TAnswer js "js + dbus_error"

datatype dbus_effect =
    DSend js
  | DChannelClose options
  | DEvent string js
  | DSettled nat dbus_outcome
  | DSignal nat js
  | DCache nat js string
  | DProxyChanged nat js
  | DProxySignal nat js js
  | DAdded nat nat
  | DRemoved nat nat
  | DChanged nat nat
  | DInvoke nat string js js
  | DException string

record dbus =
  db_name :: js
  db_track :: bool
  db_owner :: js
  db_unique_name :: js
  db_open :: bool
  db_closed :: js
  db_cookie :: nat
  db_calls :: "(string, nat) obj"
  db_subs :: "(string, subscription) obj"
  db_published :: "(string, nat) obj"
  db_cache :: dbus_cache
  db_has_cache :: bool
  db_proxies :: "dbus_proxy list"
  db_sets :: "dbus_proxies list"
  db_dfds :: "dbus_dfd list"
  db_later :: "dbus_task list"
  db_log :: "dbus_effect list"

text \<open>The options of the channel of a client.\<close>

definition dbus_args :: "js \<Rightarrow> js \<Rightarrow> options" where
  "dbus_args name options =
     (let args = (if truthy options then (case options of JObj kvs \<Rightarrow> JS_Value.extend [] [JObj (odel kvs ''track'')] | _ \<Rightarrow> []) else []);
          args = oset args ''payload'' (JStr ''dbus-json3'')
      in if truthy name then oset args ''name'' name else args)"

definition new_dbus :: "js \<Rightarrow> js \<Rightarrow> dbus" where
  "new_dbus name options =
     \<lparr>db_name = name, db_track = truthy (fld options ''track''), db_owner = JNull, db_unique_name = JNull, db_open = True,
      db_closed = JUndef, db_cookie = 1, db_calls = [], db_subs = [], db_published = [],
      db_cache = \<lparr>dc_callbacks = [], dc_data = [], dc_meta = []\<rparr>, db_has_cache = False,
      db_proxies = [], db_sets = [], db_dfds = [], db_later = [], db_log = []\<rparr>"

definition dlog :: "dbus_effect \<Rightarrow> dbus \<Rightarrow> dbus" where
  "dlog e d = d\<lparr>db_log := db_log d @ [e]\<rparr>"

definition dlater :: "dbus_task \<Rightarrow> dbus \<Rightarrow> dbus" where
  "dlater t d = d\<lparr>db_later := db_later d @ [t]\<rparr>"

section \<open>Deferreds\<close>

definition new_dfd :: "dbus \<Rightarrow> dbus \<times> nat" where
  "new_dfd d = (d\<lparr>db_dfds := db_dfds d @ [\<lparr>f_state = None, f_conts = []\<rparr>]\<rparr>, length (db_dfds d))"

text \<open>\<open>resolve\<close> and \<open>reject\<close>: the first one counts, and its handlers run later.\<close>

definition settle :: "nat \<Rightarrow> dbus_outcome \<Rightarrow> dbus \<Rightarrow> dbus" where
  "settle f r d =
     (if f < length (db_dfds d) \<and> f_state (db_dfds d ! f) = None
      then dlater (TRun f) (d\<lparr>db_dfds := (db_dfds d)[f := (db_dfds d ! f)\<lparr>f_state := Some r\<rparr>]\<rparr>)
      else d)"

definition add_cont :: "nat \<Rightarrow> dbus_cont \<Rightarrow> dbus \<Rightarrow> dbus" where
  "add_cont f k d =
     (let d = d\<lparr>db_dfds := (db_dfds d)[f := (db_dfds d ! f)\<lparr>f_conts := f_conts (db_dfds d ! f) @ [k]\<rparr>]\<rparr>
      in if f_state (db_dfds d ! f) \<noteq> None then dlater (TRun f) d else d)"

section \<open>The cache\<close>

definition cache_connect :: "cache_entry \<Rightarrow> bool \<Rightarrow> dbus_cache \<Rightarrow> dbus_cache" where
  "cache_connect cb first dc =
     dc\<lparr>dc_callbacks := (if first then cb # dc_callbacks dc else dc_callbacks dc @ [cb])\<rparr>"

text \<open>\<open>delete cb[i]\<close>, with \<open>i\<close> the index of the entry among the callbacks.\<close>

definition delete_elem :: "nat \<Rightarrow> cache_entry \<Rightarrow> cache_entry" where
  "delete_elem i cb =
     (if i = 0 then cb\<lparr>ce_path := None\<rparr> else if i = 1 then cb\<lparr>ce_iface := None\<rparr>
      else if i = 2 then cb\<lparr>ce_func := None\<rparr> else cb)"

text \<open>\<open>remove()\<close> of what \<open>connect\<close> returned.\<close>

fun cache_disconnect_from :: "nat \<Rightarrow> cache_entry \<Rightarrow> cache_entry list \<Rightarrow> cache_entry list" where
  "cache_disconnect_from i cb [] = []"
| "cache_disconnect_from i cb (x # xs) =
     (if x = cb then delete_elem i x # xs else x # cache_disconnect_from (Suc i) cb xs)"

definition cache_disconnect :: "cache_entry \<Rightarrow> dbus_cache \<Rightarrow> dbus_cache" where
  "cache_disconnect cb dc = dc\<lparr>dc_callbacks := cache_disconnect_from 0 cb (dc_callbacks dc)\<rparr>"

definition cache_lookup :: "string \<Rightarrow> string \<Rightarrow> dbus_cache \<Rightarrow> js" where
  "cache_lookup path iface dc = (case oget (dc_data dc) path of None \<Rightarrow> JUndef | Some ifaces \<Rightarrow> opt ifaces iface)"

text \<open>The data after \<open>update\<close>, and what the callbacks are given.\<close>

definition cache_put :: "string \<Rightarrow> string \<Rightarrow> js \<Rightarrow> dbus_cache \<Rightarrow> dbus_cache \<times> js" where
  "cache_put path iface props dc =
     (let ifaces = (case oget (dc_data dc) path of None \<Rightarrow> [] | Some m \<Rightarrow> m);
          props = (if truthy (opt ifaces iface)
                   then (case opt ifaces iface of JObj old \<Rightarrow> JObj (JS_Value.extend old [props]) | v \<Rightarrow> v)
                   else props)
      in (dc\<lparr>dc_data := oset (dc_data dc) path (oset ifaces iface props)\<rparr>, props))"

definition cache_drop :: "string \<Rightarrow> string \<Rightarrow> dbus_cache \<Rightarrow> dbus_cache" where
  "cache_drop path iface dc =
     (case oget (dc_data dc) path of
        None \<Rightarrow> dc
      | Some ifaces \<Rightarrow> dc\<lparr>dc_data := oset (dc_data dc) path (odel ifaces iface)\<rparr>)"

text \<open>
  \<open>each(iface, callback)\<close>: the loop variable is the parameter itself, which is compared with a variable that
  is never assigned.  The calls it makes, as pairs of properties and path.
\<close>

definition cache_each :: "string \<Rightarrow> dbus_cache \<Rightarrow> (js \<times> string) list" where
  "cache_each iface dc =
     (let ifa = JUndef
      in concat (map (\<lambda>(path, ifaces). concat (map (\<lambda>(i, props). if ifa = JStr i then [(props, path)] else []) ifaces)) (dc_data dc)))"

text \<open>\<open>close\<close>: the entries are arrays, which have no property \<open>callback\<close>; \<open>False\<close> is the exception.\<close>

definition dbus_cache_close :: "dbus_cache \<Rightarrow> dbus_cache \<times> bool" where
  "dbus_cache_close dc = (dc\<lparr>dc_data := [], dc_callbacks := []\<rparr>, dc_callbacks dc = [])"

section \<open>Sending\<close>

definition dsend :: "js \<Rightarrow> dbus \<Rightarrow> dbus \<times> bool" where
  "dsend msg d = (if db_open d then (dlog (DSend msg) d, True) else (d, False))"

definition next_cookie :: "dbus \<Rightarrow> dbus \<times> string" where
  "next_cookie d = (d\<lparr>db_cookie := Suc (db_cookie d)\<rparr>, nat_str (db_cookie d))"

text \<open>A request with an id: its deferred waits under the id, or is rejected when the channel is gone.\<close>

definition send_call :: "po_state \<Rightarrow> string \<Rightarrow> js \<Rightarrow> nat \<Rightarrow> dbus \<Rightarrow> dbus" where
  "send_call po cookie msg f d =
     (case dsend msg d of
        (d, True) \<Rightarrow> d\<lparr>db_calls := oset (db_calls d) cookie f\<rparr>
      | (d, False) \<Rightarrow> settle f (DFail (dbus_problem po (db_closed d) JUndef)) d)"

definition dbus_call :: "po_state \<Rightarrow> js \<Rightarrow> js \<Rightarrow> js \<Rightarrow> js \<Rightarrow> js \<Rightarrow> dbus \<Rightarrow> dbus \<times> nat" where
  "dbus_call po path iface method args options d =
     (let (d, f) = new_dfd d;
          (d, cookie) = next_cookie d;
          msg = JS_Value.extend [] [options, JObj
                  [(''call'', JArr [path, iface, method, if truthy args then args else JArr []]), (''id'', JStr cookie)]]
      in (send_call po cookie (JObj msg) f d, f))"

definition dbus_signal :: "js \<Rightarrow> js \<Rightarrow> js \<Rightarrow> js \<Rightarrow> js \<Rightarrow> dbus \<Rightarrow> dbus" where
  "dbus_signal path iface member args options d =
     (if \<not> db_open d then d
      else fst (dsend (JObj (JS_Value.extend [] [options, JObj
             [(''signal'', JArr [path, iface, member, if truthy args then args else JArr []])]])) d))"

text \<open>\<open>subscribe(match, callback, rule)\<close>: the id of the subscription, if there is a callback.\<close>

definition dbus_subscribe :: "options \<Rightarrow> sub_func option \<Rightarrow> bool \<Rightarrow> dbus \<Rightarrow> dbus \<times> string option" where
  "dbus_subscribe match callback rule d =
     (let match = JS_Value.extend [] [JObj match];
          d = (if rule then fst (dsend (JObj [(''add-match'', JObj match)]) d) else d)
      in case callback of
           None \<Rightarrow> (d, None)
         | Some f \<Rightarrow>
             (case next_cookie d of
                (d, cookie) \<Rightarrow> (d\<lparr>db_subs := oset (db_subs d) cookie \<lparr>su_match = match, su_func = f\<rparr>\<rparr>, Some cookie)))"

definition dbus_unsubscribe :: "string option \<Rightarrow> bool \<Rightarrow> dbus \<Rightarrow> dbus" where
  "dbus_unsubscribe cookie rule d =
     (case cookie of
        None \<Rightarrow> d
      | Some k \<Rightarrow>
          (case oget (db_subs d) k of
             None \<Rightarrow> d
           | Some prev \<Rightarrow>
               let d = d\<lparr>db_subs := odel (db_subs d) k\<rparr>
               in if rule then fst (dsend (JObj [(''remove-match'', JObj (su_match prev))]) d) else d))"

text \<open>\<open>watch(path)\<close> with its \<open>match\<close>; gives the deferred and the cookie.\<close>

definition dbus_watch :: "po_state \<Rightarrow> js \<Rightarrow> dbus \<Rightarrow> dbus \<times> nat \<times> string" where
  "dbus_watch po path d =
     (let match = (case path of JObj kvs \<Rightarrow> JObj (JS_Value.extend [] [path]) | _ \<Rightarrow> JObj [(''path'', JStr (to_str path))]);
          (d, cookie) = next_cookie d;
          (d, f) = new_dfd d
      in (send_call po cookie (JObj [(''watch'', match), (''id'', JStr cookie)]) f d, f, cookie))"

text \<open>\<open>remove()\<close> of a watch or of a published object: a request that is out is cancelled.\<close>

definition cancel_call :: "po_state \<Rightarrow> string \<Rightarrow> nat \<Rightarrow> dbus \<Rightarrow> dbus" where
  "cancel_call po cookie f d =
     (if oget (db_calls d) cookie \<noteq> None
      then (settle f (DFail (dbus_problem po (JStr ''cancelled'') JUndef)) d)\<lparr>db_calls := odel (db_calls d) cookie\<rparr>
      else d)"

definition dbus_unwatch :: "po_state \<Rightarrow> js \<Rightarrow> string \<Rightarrow> nat \<Rightarrow> dbus \<Rightarrow> dbus" where
  "dbus_unwatch po match cookie f d = fst (dsend (JObj [(''unwatch'', match)]) (cancel_call po cookie f d))"

definition dbus_meta :: "js \<Rightarrow> dbus \<Rightarrow> dbus" where
  "dbus_meta data d =
     dlog (DEvent ''meta'' data)
       (d\<lparr>db_has_cache := True, db_cache := (db_cache d)\<lparr>dc_meta := JS_Value.extend (dc_meta (db_cache d)) [data]\<rparr>\<rparr>)"

definition dbus_send_meta :: "js \<Rightarrow> js \<Rightarrow> dbus \<Rightarrow> dbus" where
  "dbus_send_meta data options d =
     (if \<not> db_open d then d
      else dbus_meta data (fst (dsend (JObj (JS_Value.extend [] [options, JObj [(''meta'', data)]])) d)))"


section \<open>Proxies\<close>

text \<open>\<open>name[0].toLowerCase() == name[0]\<close>: only names that begin with a capital are mapped.\<close>

definition lower_case :: "char \<Rightarrow> bool" where
  "lower_case c \<longleftrightarrow> \<not> (let n = (of_char c :: nat) in 65 \<le> n \<and> n \<le> 90 \<or> 192 \<le> n \<and> n \<le> 222 \<and> n \<noteq> 215)"

definition mapped_names :: "js \<Rightarrow> string list" where
  "mapped_names v = (case v of JObj kvs \<Rightarrow> filter (\<lambda>k. k \<noteq> [] \<and> \<not> lower_case (hd k)) (okeys kvs) | _ \<Rightarrow> [])"

text \<open>\<open>define()\<close>: the methods, and the properties with whether they can be written.\<close>

definition proxy_define :: "options \<Rightarrow> dbus_proxy \<Rightarrow> dbus_proxy" where
  "proxy_define meta px =
     (let m = opt meta (px_iface px)
      in if \<not> truthy m then px
         else px\<lparr>px_defined := True, px_methods := mapped_names (fld m ''methods''),
                 px_properties := map (\<lambda>k. (k, case fld (fld (fld m ''properties'') k) ''flags'' of
                      JStr flags \<Rightarrow> index_of (CHR ''w'') flags \<noteq> None
                    | JArr flags \<Rightarrow> in_array flags (JStr ''w'') | _ \<Rightarrow> False)) (mapped_names (fld m ''properties''))\<rparr>)"

definition proxy_update :: "nat \<Rightarrow> js \<Rightarrow> dbus \<Rightarrow> dbus" where
  "proxy_update n props d =
     (let px = db_proxies d ! n;
          px = (if truthy props then
                  (let px = px\<lparr>px_data := JS_Value.extend (px_data px) [props]\<rparr>;
                       px = (if px_defined px then px else proxy_define (dc_meta (db_cache d)) px)
                   in px\<lparr>px_valid := True\<rparr>)
                else px\<lparr>px_valid := False\<rparr>)
      in dlog (DProxyChanged n props) (d\<lparr>db_proxies := (db_proxies d)[n := px]\<rparr>))"

text \<open>\<open>waited(ex)\<close>.\<close>

definition proxy_waited :: "nat \<Rightarrow> dbus_outcome option \<Rightarrow> dbus \<Rightarrow> dbus" where
  "proxy_waited n ex d =
     (let px = db_proxies d ! n
      in if px_waits px \<noteq> WPending then d
         else d\<lparr>db_proxies := (db_proxies d)[n := px\<lparr>px_waits := (if px_valid px then WResolved else WRejected ex)\<rparr>]\<rparr>)"

text \<open>\<open>new DBusProxy(client, cache, iface, path, options)\<close>.\<close>

definition new_proxy :: "po_state \<Rightarrow> string \<Rightarrow> string \<Rightarrow> options \<Rightarrow> dbus \<Rightarrow> dbus \<times> nat" where
  "new_proxy po iface path options d =
     (let n = length (db_proxies d);
          d = d\<lparr>db_proxies := db_proxies d @ [\<lparr>px_iface = iface, px_path = path, px_valid = False, px_defined = False,
                 px_data = [], px_methods = [], px_properties = [], px_waits = WPending\<rparr>],
                db_cache := cache_connect \<lparr>ce_path = Some path, ce_iface = Some iface, ce_func = Some (FuncProxy n)\<rparr>
                  True (db_cache d)\<rparr>;
          d = proxy_update n (cache_lookup path iface (db_cache d)) d;
          match = [(''path'', JStr path), (''interface'', JStr iface)];
          d = fst (dbus_subscribe match (Some (SubProxy n)) (opt options ''subscribe'' \<noteq> JBool False) d);
          d = (if opt options ''watch'' \<noteq> JBool False
               then (case dbus_watch po (JObj match) d of (d, f, _) \<Rightarrow> add_cont f (ContProxy n) d)
               else proxy_waited n None d)
      in (d, n))"

text \<open>The argument of the constructors: a name or the client's own, a path or the one made of the name.\<close>

definition default_path :: "string \<Rightarrow> string" where
  "default_path iface = ''/'' @ map (\<lambda>c. if c = CHR ''.'' then CHR ''/'' else c) iface"

definition dbus_proxy_for :: "po_state \<Rightarrow> js \<Rightarrow> js \<Rightarrow> options \<Rightarrow> dbus \<Rightarrow> dbus \<times> nat" where
  "dbus_proxy_for po iface path options d =
     (let iface = to_str (if truthy iface then iface else db_name d);
          path = (if truthy path then to_str path else default_path iface)
      in new_proxy po iface path options (d\<lparr>db_has_cache := True\<rparr>))"

text \<open>\<open>update(props, path)\<close> of a set of proxies.\<close>

definition proxies_update :: "po_state \<Rightarrow> nat \<Rightarrow> js \<Rightarrow> string \<Rightarrow> dbus \<Rightarrow> dbus" where
  "proxies_update po s props path d =
     (let ps = db_sets d ! s
      in if path = [] then d
         else case oget (ps_items ps) path of
           Some n \<Rightarrow>
             if truthy props then dlog (DChanged s n) d
             else dlog (DRemoved s n) (d\<lparr>db_sets := (db_sets d)[s := ps\<lparr>ps_items := odel (ps_items ps) path\<rparr>]\<rparr>)
         | None \<Rightarrow>
             if truthy props then
               (case dbus_proxy_for po (JStr (ps_iface ps)) (JStr path) (ps_options ps) d of
                  (d, n) \<Rightarrow>
                    dlog (DChanged s n) (dlog (DAdded s n)
                      (d\<lparr>db_sets := (db_sets d)[s := ps\<lparr>ps_items := oset (ps_items ps) path n\<rparr>]\<rparr>)))
             else d)"

definition new_proxies :: "po_state \<Rightarrow> string \<Rightarrow> string \<Rightarrow> options \<Rightarrow> dbus \<Rightarrow> dbus" where
  "new_proxies po iface path_namespace options d =
     (let s = length (db_sets d);
          match = [(''interface'', JStr iface), (''path_namespace'', JStr path_namespace)];
          d = fst (dbus_subscribe match None True d);
          d = (if opt options ''watch'' \<noteq> JBool False then fst (dbus_watch po (JObj match) d) else d);
          options = JS_Value.extend [(''watch'', JBool False), (''subscribe'', JBool False)] [JObj options];
          d = d\<lparr>db_sets := db_sets d @ [\<lparr>ps_iface = iface, ps_namespace = path_namespace, ps_items = [], ps_options = options\<rparr>],
                db_cache := cache_connect \<lparr>ce_path = None, ce_iface = Some iface, ce_func = Some (FuncProxies s)\<rparr>
                  False (db_cache d)\<rparr>
      in fold (\<lambda>(props, path). proxies_update po s props path) (cache_each iface (db_cache d)) d)"

definition dbus_proxies_for :: "po_state \<Rightarrow> js \<Rightarrow> js \<Rightarrow> options \<Rightarrow> dbus \<Rightarrow> dbus" where
  "dbus_proxies_for po iface path_namespace options d =
     new_proxies po (to_str (if truthy iface then iface else db_name d))
       (if truthy path_namespace then to_str path_namespace else ''/'') options (d\<lparr>db_has_cache := True\<rparr>)"

section \<open>Changes of the cache\<close>

text \<open>\<open>emit(path, iface, props)\<close>, over a copy of the callbacks; calling a deleted one is an exception.\<close>

definition entry_matches :: "string \<Rightarrow> string \<Rightarrow> cache_entry \<Rightarrow> bool" where
  "entry_matches path iface cb \<longleftrightarrow>
     (case ce_path cb of None \<Rightarrow> True | Some p \<Rightarrow> p = [] \<or> p = path) \<and>
     (case ce_iface cb of None \<Rightarrow> True | Some i \<Rightarrow> i = [] \<or> i = iface)"

definition run_entry :: "po_state \<Rightarrow> js \<Rightarrow> string \<Rightarrow> cache_entry \<Rightarrow> dbus \<Rightarrow> dbus \<times> bool" where
  "run_entry po props path cb d =
     (case ce_func cb of
        None \<Rightarrow> (dlog (DException ''TypeError'') d, False)
      | Some (FuncProxy n) \<Rightarrow> (proxy_update n props d, True)
      | Some (FuncProxies s) \<Rightarrow> (proxies_update po s props path d, True)
      | Some (FuncUser k) \<Rightarrow> (dlog (DCache k props path) d, True))"

fun emit_to :: "po_state \<Rightarrow> string \<Rightarrow> string \<Rightarrow> js \<Rightarrow> cache_entry list \<Rightarrow> dbus \<Rightarrow> dbus \<times> bool" where
  "emit_to po path iface props [] d = (d, True)"
| "emit_to po path iface props (cb # cbs) d =
     (if entry_matches path iface cb
      then (case run_entry po props path cb d of
              (d', True) \<Rightarrow> emit_to po path iface props cbs d' | (d', False) \<Rightarrow> (d', False))
      else emit_to po path iface props cbs d)"

definition cache_update :: "po_state \<Rightarrow> string \<Rightarrow> string \<Rightarrow> js \<Rightarrow> dbus \<Rightarrow> dbus \<times> bool" where
  "cache_update po path iface props d =
     (case cache_put path iface props (db_cache d) of
        (dc, full) \<Rightarrow> emit_to po path iface full (dc_callbacks dc) (d\<lparr>db_cache := dc\<rparr>))"

definition cache_remove :: "po_state \<Rightarrow> string \<Rightarrow> string \<Rightarrow> dbus \<Rightarrow> dbus \<times> bool" where
  "cache_remove po path iface d =
     (if oget (dc_data (db_cache d)) path = None then (d, True)
      else emit_to po path iface JNull (dc_callbacks (db_cache d)) (d\<lparr>db_cache := cache_drop path iface (db_cache d)\<rparr>))"

text \<open>\<open>notify(data)\<close>.\<close>

fun notify_ifaces :: "po_state \<Rightarrow> string \<Rightarrow> (string \<times> js) list \<Rightarrow> dbus \<Rightarrow> dbus \<times> bool" where
  "notify_ifaces po path [] d = (d, True)"
| "notify_ifaces po path ((iface, props) # rest) d =
     (case (if truthy props then cache_update po path iface props d else cache_remove po path iface d) of
        (d', True) \<Rightarrow> notify_ifaces po path rest d' | (d', False) \<Rightarrow> (d', False))"

fun notify_paths :: "po_state \<Rightarrow> (string \<times> js) list \<Rightarrow> dbus \<Rightarrow> dbus \<times> bool" where
  "notify_paths po [] d = (d, True)"
| "notify_paths po ((path, ifaces) # rest) d =
     (case notify_ifaces po path (case ifaces of JObj kvs \<Rightarrow> kvs | _ \<Rightarrow> []) d of
        (d', True) \<Rightarrow> notify_paths po rest d' | (d', False) \<Rightarrow> (d', False))"

definition dbus_notify :: "po_state \<Rightarrow> js \<Rightarrow> dbus \<Rightarrow> dbus \<times> bool" where
  "dbus_notify po data d =
     (case notify_paths po (case data of JObj kvs \<Rightarrow> kvs | _ \<Rightarrow> []) (d\<lparr>db_has_cache := True\<rparr>) of
        (d', True) \<Rightarrow> (dlog (DEvent ''notify'' data) d', True) | (d', False) \<Rightarrow> (d', False))"


section \<open>Messages\<close>

text \<open>\<open>matches(signal, match)\<close>.\<close>

definition dbus_matches :: "js \<Rightarrow> options \<Rightarrow> bool" where
  "dbus_matches sig match \<longleftrightarrow>
     (let part = (\<lambda>i. get_prop sig (JNum i));
          test = (\<lambda>k i. truthy (opt match k) \<longrightarrow> part i = opt match k)
      in test ''path'' 0 \<and>
         (truthy (opt match ''path_namespace'') \<longrightarrow>
            starts_with (to_str (opt match ''path_namespace'')) (to_str (part 0))) \<and>
         test ''interface'' 1 \<and> test ''member'' 2 \<and>
         (truthy (opt match ''arg0'') \<longrightarrow> truthy (part 3) \<and> get_prop (part 3) (JNum 0) = opt match ''arg0''))"

definition run_subscription :: "js \<Rightarrow> subscription \<Rightarrow> dbus \<Rightarrow> dbus" where
  "run_subscription sig su d =
     (if dbus_matches sig (su_match su) then
        (case su_func su of
           SubUser k \<Rightarrow> dlog (DSignal k sig) d
         | SubProxy n \<Rightarrow> dlog (DProxySignal n (get_prop sig (JNum 2)) (get_prop sig (JNum 3))) d)
      else d)"

text \<open>\<open>invoke(call)\<close>, up to the method of the object: what is wrong with the call, if anything.\<close>

definition no_such :: "string \<Rightarrow> string \<Rightarrow> dbus_error" where
  "no_such name message = dbus_failure (JArr [JStr name, JArr [JStr message]])"

definition check_call :: "(nat \<Rightarrow> string \<Rightarrow> bool) \<Rightarrow> js \<Rightarrow> dbus \<Rightarrow> dbus_error + nat" where
  "check_call implemented call d =
     (let path = to_str (get_prop call (JNum 0));
          iface = to_str (get_prop call (JNum 1));
          method = to_str (get_prop call (JNum 2));
          info = opt (dc_meta (db_cache d)) iface;
          unknown_method = no_such ''org.freedesktop.DBus.Error.UnknownMethod''
            (''DBus method '' @ iface @ '' '' @ method @ '' not available at '' @ path)
      in case oget (db_published d) (path @ CHR 0x0A # iface) of
           Some object \<Rightarrow>
             if truthy info then
               if fld (fld info ''methods'') method \<noteq> JUndef then
                 if implemented object method then Inr object else Inl unknown_method
               else Inl unknown_method
             else Inl (no_such ''org.freedesktop.DBus.Error.UnknownInterface''
                    (''DBus interface '' @ iface @ '' not available at '' @ path))
         | None \<Rightarrow> Inl (no_such ''org.freedesktop.DBus.Error.UnknownInterface''
                    (''DBus interface '' @ iface @ '' not available at '' @ path)))"

text \<open>
  \<open>handle(call, cookie)\<close>: a call that fails is answered later; one that reaches an object is logged, and its answer
  comes when the object's promise settles (\<open>dbus_answer\<close>).
\<close>

definition dbus_handle :: "(nat \<Rightarrow> string \<Rightarrow> bool) \<Rightarrow> js \<Rightarrow> js \<Rightarrow> dbus \<Rightarrow> dbus \<times> bool" where
  "dbus_handle implemented call cookie d =
     (if \<not> db_has_cache d then (dlog (DException ''TypeError'') d, False)
      else case check_call implemented call d of
        Inl e \<Rightarrow> (if truthy cookie then dlater (TAnswer cookie (Inr e)) d else d, True)
      | Inr object \<Rightarrow> (dlog (DInvoke object (to_str (get_prop call (JNum 2))) (get_prop call (JNum 3)) cookie) d, True))"

text \<open>The promise of a method call settles: its values, or the error.\<close>

definition dbus_answer :: "js \<Rightarrow> js list + dbus_error \<Rightarrow> dbus \<Rightarrow> dbus" where
  "dbus_answer cookie res d =
     (if truthy cookie
      then dlater (TAnswer cookie (case res of
             Inl out \<Rightarrow> Inl (JArr (if out = [JUndef] then [] else out)) | Inr e \<Rightarrow> Inr e)) d
      else d)"

definition error_message :: "po_state \<Rightarrow> dbus_error \<Rightarrow> js" where
  "error_message po e =
     (let name = (if truthy (de_name e) then de_name e else JStr '' org.freedesktop.DBus.Error.Failed'');
          message = (if truthy (de_message e) then de_message e
                     else if truthy (de_problem e) then message_of (de_problem e) po else JStr '''')
      in JArr [name, JArr [if truthy message then message else name]])"

section \<open>Closing\<close>

definition close_perform :: "po_state \<Rightarrow> options \<Rightarrow> dbus \<Rightarrow> dbus" where
  "close_perform po options d =
     (let problem = (if truthy (opt options ''problem'') then opt options ''problem'' else JStr ''disconnected'');
          outstanding = db_calls d;
          d = d\<lparr>db_closed := problem, db_calls := []\<rparr>;
          d = fold (\<lambda>(_, f). settle f (DFail (dbus_problem po problem (opt options ''message'')))) outstanding d
      in dlog (DEvent ''close'' (JObj options)) d)"

text \<open>The close event of the channel.\<close>

definition dbus_on_close :: "po_state \<Rightarrow> options \<Rightarrow> dbus \<Rightarrow> dbus" where
  "dbus_on_close po options d = close_perform po options (d\<lparr>db_open := False\<rparr>)"

text \<open>
  \<open>close(options)\<close>: closing the channel dispatches its close event at once, with the command added to the options
  (and the id of the channel, which the client does not look at).
\<close>

definition dbus_close :: "po_state \<Rightarrow> options \<Rightarrow> dbus \<Rightarrow> dbus" where
  "dbus_close po options d =
     (if db_open d
      then dbus_on_close po (oset options ''command'' (JStr ''close'')) (dlog (DChannelClose options) d)
      else close_perform po options d)"

section \<open>Dispatch\<close>

definition dispatch_msg :: "po_state \<Rightarrow> (nat \<Rightarrow> string \<Rightarrow> bool) \<Rightarrow> js \<Rightarrow> dbus \<Rightarrow> dbus \<times> bool" where
  "dispatch_msg po implemented msg d =
     (if truthy (fld msg ''signal'')
      then (fold (\<lambda>(_, su). run_subscription (fld msg ''signal'') su) (db_subs d) d, True)
      else if truthy (fld msg ''call'') then dbus_handle implemented (fld msg ''call'') (fld msg ''id'') d
      else if truthy (fld msg ''notify'') then dbus_notify po (fld msg ''notify'') d
      else if truthy (fld msg ''meta'') then (dbus_meta (fld msg ''meta'') d, True)
      else if fld msg ''owner'' \<noteq> JUndef then
        (let d = dlog (DEvent ''owner'' (fld msg ''owner'')) d;
             d = (if db_track d \<and> truthy (db_owner d) then dbus_close po [] d else d)
         in (d\<lparr>db_owner := fld msg ''owner''\<rparr>, True))
      else (d, True))"

definition run_cont :: "dbus_outcome \<Rightarrow> dbus_cont \<Rightarrow> dbus \<Rightarrow> dbus" where
  "run_cont r k d =
     (case k of
        ContProxy n \<Rightarrow> proxy_waited n (Some r) d
      | ContPublish key object \<Rightarrow>
          (case r of DDone _ _ \<Rightarrow> d\<lparr>db_published := oset (db_published d) key object\<rparr> | DFail _ \<Rightarrow> d))"

definition run_dfd :: "nat \<Rightarrow> dbus \<Rightarrow> dbus" where
  "run_dfd f d =
     (case f_state (db_dfds d ! f) of
        None \<Rightarrow> d
      | Some r \<Rightarrow>
          fold (run_cont r) (f_conts (db_dfds d ! f))
            (dlog (DSettled f r) (d\<lparr>db_dfds := (db_dfds d)[f := (db_dfds d ! f)\<lparr>f_conts := []\<rparr>]\<rparr>)))"

fun run_dtask :: "po_state \<Rightarrow> (nat \<Rightarrow> string \<Rightarrow> bool) \<Rightarrow> dbus_task \<Rightarrow> dbus \<Rightarrow> dbus \<times> bool" where
  "run_dtask po implemented (TRun f) d = (run_dfd f d, True)"
| "run_dtask po implemented (TMessage msg) d = dispatch_msg po implemented msg d"
| "run_dtask po implemented (TAnswer cookie (Inl out)) d =
     (fst (dsend (JObj [(''reply'', JArr [out]), (''id'', cookie)]) d), True)"
| "run_dtask po implemented (TAnswer cookie (Inr e)) d =
     (fst (dsend (JObj [(''error'', error_message po e), (''id'', cookie)]) d), True)"

text \<open>\<open>later_drain\<close>: an exception ends the loop.\<close>

fun run_dtasks :: "po_state \<Rightarrow> (nat \<Rightarrow> string \<Rightarrow> bool) \<Rightarrow> dbus_task list \<Rightarrow> dbus \<Rightarrow> dbus" where
  "run_dtasks po implemented [] d = d"
| "run_dtasks po implemented (t # ts) d =
     (case run_dtask po implemented t d of (d', True) \<Rightarrow> run_dtasks po implemented ts d' | (d', False) \<Rightarrow> d')"

definition dbus_drain :: "po_state \<Rightarrow> (nat \<Rightarrow> string \<Rightarrow> bool) \<Rightarrow> dbus \<Rightarrow> dbus" where
  "dbus_drain po implemented d = run_dtasks po implemented (db_later d) (d\<lparr>db_later := []\<rparr>)"

text \<open>The message event of the channel: replies settle their deferred at once, everything else is put off.\<close>

definition dbus_on_msg :: "po_state \<Rightarrow> js \<Rightarrow> dbus \<Rightarrow> dbus" where
  "dbus_on_msg po msg d =
     (let cookie = to_str (fld msg ''id'');
          f = (if fld msg ''id'' \<noteq> JUndef then oget (db_calls d) cookie else None)
      in if truthy (fld msg ''reply'') then
           (case f of
              None \<Rightarrow> d
            | Some f \<Rightarrow>
                let options = (if truthy (fld msg ''type'') then [(''type'', fld msg ''type'')] else []) @
                              (if truthy (fld msg ''flags'') then [(''flags'', fld msg ''flags'')] else []);
                    out = get_prop (fld msg ''reply'') (JNum 0)
                in (settle f (DDone (if truthy out then out else JArr []) options) d)\<lparr>db_calls := odel (db_calls d) cookie\<rparr>)
         else if truthy (fld msg ''error'') then
           (case f of
              None \<Rightarrow> d
            | Some f \<Rightarrow> (settle f (DFail (dbus_failure (fld msg ''error''))) d)\<lparr>db_calls := odel (db_calls d) cookie\<rparr>)
         else dlater (TMessage msg) d)"

definition dbus_on_message :: "po_state \<Rightarrow> string \<Rightarrow> dbus \<Rightarrow> dbus" where
  "dbus_on_message po text' d =
     (case json_parse text' of
        None \<Rightarrow> dbus_close po [(''problem'', JStr ''protocol-error'')] d
      | Some JNull \<Rightarrow> dlog (DException ''TypeError'') d
      | Some msg \<Rightarrow> dbus_on_msg po msg d)"

definition dbus_on_ready :: "options \<Rightarrow> dbus \<Rightarrow> dbus" where
  "dbus_on_ready message d = d\<lparr>db_unique_name := opt message ''unique-name''\<rparr>"

section \<open>Publishing\<close>

definition dbus_publish :: "po_state \<Rightarrow> string \<Rightarrow> string \<Rightarrow> nat \<Rightarrow> js \<Rightarrow> dbus \<Rightarrow> dbus \<times> nat \<times> string" where
  "dbus_publish po path iface object options d =
     (let (d, cookie) = next_cookie d;
          (d, f) = new_dfd d;
          d = d\<lparr>db_calls := oset (db_calls d) cookie f\<rparr>;
          msg = JS_Value.extend [] [options, JObj [(''publish'', JArr [JStr path, JStr iface]), (''id'', JStr cookie)]];
          d = send_call po cookie (JObj msg) f d
      in (add_cont f (ContPublish (path @ CHR 0x0A # iface) object) d, f, cookie))"

definition dbus_unpublish :: "po_state \<Rightarrow> string \<Rightarrow> string \<Rightarrow> string \<Rightarrow> nat \<Rightarrow> dbus \<Rightarrow> dbus" where
  "dbus_unpublish po path iface cookie f d =
     (let d = cancel_call po cookie f d;
          d = d\<lparr>db_published := odel (db_published d) (path @ CHR 0x0A # iface)\<rparr>
      in fst (dsend (JObj [(''unpublish'', JArr [JStr path, JStr iface])]) d))"

section \<open>Shared clients\<close>

text \<open>
  \<open>cockpit.dbus(name, options)\<close>: a client without a name on a well known bus is shared.  Clients are numbered; the
  result is the client and whether it is a new one.
\<close>

record dbus_shared =
  sh_internal :: "nat option"
  sh_session :: "nat option"
  sh_system :: "nat option"
  sh_clients :: "dbus list"

definition shared_slot :: "string \<Rightarrow> dbus_shared \<Rightarrow> nat option" where
  "shared_slot bus sh =
     (if bus = ''internal'' then sh_internal sh else if bus = ''session'' then sh_session sh else sh_system sh)"

definition set_slot :: "string \<Rightarrow> nat option \<Rightarrow> dbus_shared \<Rightarrow> dbus_shared" where
  "set_slot bus v sh =
     (if bus = ''internal'' then sh\<lparr>sh_internal := v\<rparr> else if bus = ''session'' then sh\<lparr>sh_session := v\<rparr>
      else sh\<lparr>sh_system := v\<rparr>)"

definition shared_bus :: "js \<Rightarrow> options \<Rightarrow> string option" where
  "shared_bus name options =
     (if \<not> truthy name \<and> length (okeys options) = 1 then
        (case opt options ''bus'' of
           JStr bus \<Rightarrow> if in_array [''internal'', ''session'', ''system''] bus then Some bus else None
         | _ \<Rightarrow> None)
      else None)"

definition dbus_open :: "js \<Rightarrow> js \<Rightarrow> dbus_shared \<Rightarrow> dbus_shared \<times> nat" where
  "dbus_open name options sh =
     (let options = (if truthy options then (case options of JObj kvs \<Rightarrow> kvs | _ \<Rightarrow> []) else [(''bus'', JStr ''system'')]);
          i = length (sh_clients sh);
          fresh = sh\<lparr>sh_clients := sh_clients sh @ [new_dbus name (JObj options)]\<rparr>
      in case shared_bus name options of
           None \<Rightarrow> (fresh, i)
         | Some bus \<Rightarrow>
             (case shared_slot bus sh of
                Some j \<Rightarrow> (sh, j)
              | None \<Rightarrow> (set_slot bus (Some i) fresh, i)))"

text \<open>\<open>close\<close> of a shared client: without arguments nothing happens; with one, \<open>old_close\<close> is used, which was never set.\<close>

definition shared_close :: "'a list \<Rightarrow> dbus \<Rightarrow> dbus" where
  "shared_close args d = (if args = [] then d else dlog (DException ''TypeError'') d)"

text \<open>The close event of a shared client empties its slot.\<close>

definition shared_on_close :: "po_state \<Rightarrow> string \<Rightarrow> nat \<Rightarrow> options \<Rightarrow> dbus_shared \<Rightarrow> dbus_shared" where
  "shared_on_close po bus i options sh =
     (let sh = sh\<lparr>sh_clients := (sh_clients sh)[i := dbus_on_close po options (sh_clients sh ! i)]\<rparr>
      in if shared_slot bus sh = Some i then set_slot bus None sh else sh)"

end
