(* ===== verification/DBus_Calls.thy ===== *)
theory DBus_Calls
  imports DBus "HOL-Library.Sublist"
begin

text \<open>
  The client over all its operations: reachable states, and what becomes of requests.  Every deferred that is not
  settled waits under its own cookie, so a reply finds it, and closing the channel leaves none behind.
\<close>

section \<open>Operations\<close>

datatype dbus_op =
    DoCall js js js js js
  | DoSignal js js js js js
  | DoSubscribe options "sub_func option" bool
  | DoUnsubscribe "string option" bool
  | DoWatch js
  | DoUnwatch js string nat
  | DoMeta js js
  | DoProxy js js options
  | DoProxies js js options
  | DoPublish string string nat js
  | DoUnpublish string string string nat
  | DoAnswer js "js list + dbus_error"
  | DoNotify js
  | DoClose options
  | DoDrain
  | OnMessage string
  | OnReady options
  | OnClose options

fun dexec :: "po_state \<Rightarrow> (nat \<Rightarrow> string \<Rightarrow> bool) \<Rightarrow> dbus_op \<Rightarrow> dbus \<Rightarrow> dbus" where
  "dexec po impl (DoCall path iface m args options) d = fst (dbus_call po path iface m args options d)"
| "dexec po impl (DoSignal path iface m args options) d = dbus_signal path iface m args options d"
| "dexec po impl (DoSubscribe match f rule) d = fst (dbus_subscribe match f rule d)"
| "dexec po impl (DoUnsubscribe cookie rule) d = dbus_unsubscribe cookie rule d"
| "dexec po impl (DoWatch path) d = fst (dbus_watch po path d)"
| "dexec po impl (DoUnwatch match cookie f) d = dbus_unwatch po match cookie f d"
| "dexec po impl (DoMeta data options) d = dbus_send_meta data options d"
| "dexec po impl (DoProxy iface path options) d = fst (dbus_proxy_for po iface path options d)"
| "dexec po impl (DoProxies iface ns options) d = dbus_proxies_for po iface ns options d"
| "dexec po impl (DoPublish path iface object options) d = fst (dbus_publish po path iface object options d)"
| "dexec po impl (DoUnpublish path iface cookie f) d = dbus_unpublish po path iface cookie f d"
| "dexec po impl (DoAnswer cookie res) d = dbus_answer cookie res d"
| "dexec po impl (DoNotify data) d = fst (dbus_notify po data d)"
| "dexec po impl (DoClose options) d = dbus_close po options d"
| "dexec po impl DoDrain d = dbus_drain po impl d"
| "dexec po impl (OnMessage text') d = dbus_on_message po text' d"
| "dexec po impl (OnReady message) d = dbus_on_ready message d"
| "dexec po impl (OnClose options) d = dbus_on_close po options d"

definition obj_ok :: "js \<Rightarrow> bool" where
  "obj_ok v = (case v of JObj m \<Rightarrow> owf m | _ \<Rightarrow> True)"

text \<open>What a notification may hold: objects with distinct keys, as every object has.\<close>

definition props_ok :: "js \<Rightarrow> bool" where
  "props_ok data =
     (case data of
        JObj paths \<Rightarrow> list_all (\<lambda>(_, ifaces). case ifaces of JObj kvs \<Rightarrow> list_all (\<lambda>(_, props). obj_ok props) kvs | _ \<Rightarrow> True) paths
      | _ \<Rightarrow> True)"

text \<open>
  What other code can do: \<open>remove()\<close> belongs to the request that returned it, the channel dispatches events only
  while it is open, interfaces and paths have names, and the objects it passes have distinct keys.
\<close>

fun denabled :: "dbus_op \<Rightarrow> dbus \<Rightarrow> bool" where
  "denabled (DoUnwatch match cookie f) d = (oget (db_calls d) cookie = Some f \<or> oget (db_calls d) cookie = None)"
| "denabled (DoUnpublish path iface cookie f) d = (oget (db_calls d) cookie = Some f \<or> oget (db_calls d) cookie = None)"
| "denabled (DoProxy iface path options) d =
     (to_str (if truthy iface then iface else db_name d) \<noteq> [] \<and> (truthy path \<longrightarrow> to_str path \<noteq> []))"
| "denabled (DoProxies iface ns options) d = (to_str (if truthy iface then iface else db_name d) \<noteq> [])"
| "denabled (DoNotify data) d = props_ok data"
| "denabled (OnMessage text') d =
     db_open d"
| "denabled (OnReady options) d = db_open d"
| "denabled (OnClose options) d = db_open d"
| "denabled op d = True"

inductive dreach :: "po_state \<Rightarrow> (nat \<Rightarrow> string \<Rightarrow> bool) \<Rightarrow> js \<Rightarrow> js \<Rightarrow> dbus \<Rightarrow> bool"
  for po impl name options where
  start: "dreach po impl name options (new_dbus name options)"
| move: "dreach po impl name options d \<Longrightarrow> denabled op d \<Longrightarrow> dreach po impl name options (dexec po impl op d)"

section \<open>The invariant of requests\<close>

definition unsettled :: "dbus \<Rightarrow> nat \<Rightarrow> bool" where
  "unsettled d f \<longleftrightarrow> f < length (db_dfds d) \<and> f_state (db_dfds d ! f) = None"

definition cinv :: "dbus \<Rightarrow> bool" where
  "cinv d \<longleftrightarrow>
     (\<forall>f. unsettled d f \<longrightarrow> f \<in> snd ` set (db_calls d)) \<and>
     owf (db_calls d) \<and>
     set (okeys (db_calls d)) \<subseteq> nat_str ` {..< db_cookie d} \<and>
     (\<not> db_open d \<longrightarrow> (\<forall>f. \<not> unsettled d f) \<and> truthy (db_closed d))"

lemma cinv_waits: "cinv d \<Longrightarrow> unsettled d g \<Longrightarrow> \<exists>k. (k, g) \<in> set (db_calls d)"
  by (force simp: cinv_def)

lemma oset_fresh: "k \<notin> set (okeys m) \<Longrightarrow> oset m k v = m @ [(k, v)]"
  by (induction m) (auto simp: okeys_def)

text \<open>Steps that leave the requests alone.\<close>

definition same_calls :: "dbus \<Rightarrow> dbus \<Rightarrow> bool" where
  "same_calls d' d \<longleftrightarrow> db_calls d' = db_calls d \<and> db_open d' = db_open d \<and> db_closed d' = db_closed d \<and>
     db_cookie d \<le> db_cookie d' \<and> length (db_dfds d') = length (db_dfds d) \<and> (\<forall>f. f_state (db_dfds d' ! f) = f_state (db_dfds d ! f))"

lemma same_calls_refl [simp]: "same_calls d d"
  by (simp add: same_calls_def)

lemma same_calls_trans: "same_calls d2 d1 \<Longrightarrow> same_calls d1 d0 \<Longrightarrow> same_calls d2 d0"
  by (auto simp: same_calls_def)

lemma same_calls_cinv: "same_calls d' d \<Longrightarrow> cinv d \<Longrightarrow> cinv d'"
proof -
  assume same: "same_calls d' d" and inv: "cinv d"
  have "nat_str ` {..< db_cookie d} \<subseteq> nat_str ` {..< db_cookie d'}"
    using same by (intro image_mono) (auto simp: same_calls_def)
  then show ?thesis
    using same inv by (auto simp: cinv_def same_calls_def unsettled_def)
qed

lemma same_calls_basic [simp]:
  "same_calls (dlog e d) d" "same_calls (dlater t d) d" "same_calls (fst (dsend msg d)) d"
  "same_calls (fst (next_cookie d)) d"
  "same_calls (d\<lparr>db_proxies := a\<rparr>) d" "same_calls (d\<lparr>db_cache := b\<rparr>) d" "same_calls (d\<lparr>db_sets := c\<rparr>) d"
  "same_calls (d\<lparr>db_has_cache := h\<rparr>) d" "same_calls (d\<lparr>db_published := p\<rparr>) d" "same_calls (d\<lparr>db_owner := own\<rparr>) d"
  "same_calls (d\<lparr>db_unique_name := u\<rparr>) d" "same_calls (d\<lparr>db_subs := s\<rparr>) d" "same_calls (d\<lparr>db_later := l\<rparr>) d"
  by (simp_all add: same_calls_def dlog_def dlater_def dsend_def next_cookie_def)


lemmas same_basic_cinv = same_calls_basic [THEN same_calls_cinv]

declare same_basic_cinv [inv_intros]

section \<open>Settling\<close>

lemma settle_sel [simp]:
  "db_calls (settle f r d) = db_calls d" "db_open (settle f r d) = db_open d" "db_closed (settle f r d) = db_closed d"
  "db_cookie (settle f r d) = db_cookie d" "length (db_dfds (settle f r d)) = length (db_dfds d)"
  by (simp_all add: settle_def dlater_def)

lemma unsettled_settle: "unsettled (settle f r d) g \<longleftrightarrow> unsettled d g \<and> g \<noteq> f"
  by (auto simp: unsettled_def settle_def dlater_def nth_list_update)

lemma cinv_settle [inv_intros]: "cinv d \<Longrightarrow> cinv (settle f r d)"
  by (simp add: cinv_def unsettled_settle)

lemma unsettled_fold_settle:
  "unsettled (fold (\<lambda>(_, f). settle f r) xs d) g \<longleftrightarrow> unsettled d g \<and> g \<notin> snd ` set xs"
  by (induction xs arbitrary: d) (auto simp: unsettled_settle)

lemma fold_settle_sel [simp]:
  "db_calls (fold (\<lambda>(_, f). settle f r) xs d) = db_calls d"
  "db_open (fold (\<lambda>(_, f). settle f r) xs d) = db_open d"
  "db_closed (fold (\<lambda>(_, f). settle f r) xs d) = db_closed d"
  "db_cookie (fold (\<lambda>(_, f). settle f r) xs d) = db_cookie d"
  by (induction xs arbitrary: d) auto

text \<open>An answer settles the deferred that waits under the cookie.\<close>

lemma cinv_reply:
  assumes "cinv d" and "oget (db_calls d) cookie = Some f"
  shows "cinv ((settle f r d)\<lparr>db_calls := odel (db_calls d) cookie\<rparr>)"
proof -
  have "g \<in> snd ` set (odel (db_calls d) cookie)" if g: "unsettled d g" "g \<noteq> f" for g
  proof -
    obtain k where k: "(k, g) \<in> set (db_calls d)"
      using cinv_waits [OF assms(1) g(1)] by blast
    then have "oget (db_calls d) k = Some g"
      using assms(1) by (simp add: cinv_def owf_def okeys_def oget_map_of)
    then have "k \<noteq> cookie"
      using assms(2) g(2) by auto
    then show ?thesis
      using k by (force simp: odel_def)
  qed
  moreover have "owf (odel (db_calls d) cookie)" "set (okeys (odel (db_calls d) cookie)) \<subseteq> set (okeys (db_calls d))"
    using assms(1) by (auto simp: cinv_def owf_def okeys_def odel_def distinct_map_filter)
  moreover have "unsettled ((settle f r d)\<lparr>db_calls := odel (db_calls d) cookie\<rparr>) g \<longleftrightarrow> unsettled d g \<and> g \<noteq> f" for g
    using unsettled_settle [of f r d g] by (simp add: unsettled_def)
  ultimately show ?thesis
    using assms(1) by (auto simp: cinv_def)
qed

section \<open>New requests\<close>

lemma nat_str_fresh:
  assumes "cinv d" and "db_cookie d \<le> n"
  shows "nat_str n \<notin> set (okeys (db_calls d))"
proof
  assume "nat_str n \<in> set (okeys (db_calls d))"
  then obtain j where "j < db_cookie d" "nat_str j = nat_str n"
    using assms(1) by (force simp: cinv_def)
  then show False
    using assms(2) by (simp add: nat_str_inj)
qed

definition new_request :: "dbus \<Rightarrow> dbus" where
  "new_request d = d\<lparr>db_dfds := db_dfds d @ [\<lparr>f_state = None, f_conts = []\<rparr>], db_cookie := Suc (db_cookie d)\<rparr>"

lemma unsettled_new_request: "unsettled (new_request d) f \<longleftrightarrow> unsettled d f \<or> f = length (db_dfds d)"
  by (auto simp: unsettled_def new_request_def nth_append)

lemma new_request_forms:
  "fst (next_cookie (fst (new_dfd d))) = new_request d" "fst (new_dfd (fst (next_cookie d))) = new_request d"
  "snd (next_cookie (fst (new_dfd d))) = nat_str (db_cookie d)" "snd (next_cookie d) = nat_str (db_cookie d)"
  "snd (new_dfd d) = length (db_dfds d)" "snd (new_dfd (fst (next_cookie d))) = length (db_dfds d)"
  "db_cookie (fst (new_dfd d)) = db_cookie d" "db_dfds (fst (next_cookie d)) = db_dfds d"
  by (simp_all add: new_request_def next_cookie_def new_dfd_def)

lemma cinv_new_request:
  assumes "cinv d"
  shows "cinv (send_call po (nat_str (db_cookie d)) msg (length (db_dfds d)) (new_request d))"
proof (cases "db_open d")
  case True
  let ?k = "nat_str (db_cookie d)" and ?f = "length (db_dfds d)"
  have eq: "send_call po ?k msg ?f (new_request d) = (dlog (DSend msg) (new_request d))\<lparr>db_calls := oset (db_calls d) ?k ?f\<rparr>"
    using True by (simp add: send_call_def dsend_def new_request_def dlog_def)
  have fresh: "?k \<notin> set (okeys (db_calls d))"
    by (rule nat_str_fresh [OF assms order_refl])
  have "set (oset (db_calls d) ?k ?f) = insert (?k, ?f) (set (db_calls d))"
    using oset_fresh [OF fresh] by simp
  moreover have "okeys (oset (db_calls d) ?k ?f) = okeys (db_calls d) @ [?k]"
    using fresh by (simp add: okeys_oset)
  moreover have "unsettled (send_call po ?k msg ?f (new_request d)) g \<longleftrightarrow> unsettled d g \<or> g = ?f" for g
    using unsettled_new_request [of d g] by (simp add: eq unsettled_def dlog_def)
  moreover have "db_calls (send_call po ?k msg ?f (new_request d)) = oset (db_calls d) ?k ?f"
    "db_open (send_call po ?k msg ?f (new_request d))" "db_cookie (send_call po ?k msg ?f (new_request d)) = Suc (db_cookie d)"
    using True by (simp_all add: eq dlog_def) (simp_all add: new_request_def)
  ultimately show ?thesis
    using assms fresh by (auto simp: cinv_def owf_def lessThan_Suc)
next
  case False
  then have "send_call po (nat_str (db_cookie d)) msg (length (db_dfds d)) (new_request d) =
      settle (length (db_dfds d)) (DFail (dbus_problem po (db_closed d) JUndef)) (new_request d)"
    by (simp add: send_call_def dsend_def new_request_def)
  moreover have "nat_str ` {..< db_cookie d} \<subseteq> nat_str ` {..< Suc (db_cookie d)}"
    by (intro image_mono) auto
  ultimately show ?thesis
    using assms False by (auto simp: cinv_def unsettled_settle unsettled_new_request) (auto simp: new_request_def)
qed


section \<open>Every operation keeps the invariant\<close>

lemma same_calls_add_cont [simp]: "same_calls (add_cont f k d) d"
proof -
  have "f_state ((db_dfds d)[f := (db_dfds d ! f)\<lparr>f_conts := ks\<rparr>] ! g) = f_state (db_dfds d ! g)" for ks g
    by (cases "f < length (db_dfds d)") (auto simp: nth_list_update list_update_beyond not_less)
  then show ?thesis
    by (simp add: same_calls_def add_cont_def dlater_def Let_def)
qed

lemma same_calls_proxies [simp]:
  "same_calls (proxy_update n props d) d" "same_calls (proxy_waited n ex d) d"
  by (simp_all add: same_calls_def proxy_update_def proxy_waited_def dlog_def Let_def)

lemma same_calls_subscribe [simp]: "same_calls (fst (dbus_subscribe match f rule d)) d"
  by (auto simp: same_calls_def dbus_subscribe_def dsend_def dlog_def next_cookie_def Let_def split: option.splits)

lemma same_calls_meta [simp]: "same_calls (dbus_meta data d) d" "same_calls (dbus_send_meta data options d) d"
  by (auto simp: same_calls_def dbus_meta_def dbus_send_meta_def dsend_def dlog_def)

declare same_calls_add_cont [THEN same_calls_cinv, inv_intros] same_calls_proxies [THEN same_calls_cinv, inv_intros]
  same_calls_subscribe [THEN same_calls_cinv, inv_intros] same_calls_meta [THEN same_calls_cinv, inv_intros]

lemma cinv_call [inv_intros]: "cinv d \<Longrightarrow> cinv (fst (dbus_call po path iface m args options d))"
  using cinv_new_request [of d po]
  by (simp add: dbus_call_def Let_def new_request_forms split_beta)

lemma cinv_watch [inv_intros]: "cinv d \<Longrightarrow> cinv (fst (dbus_watch po path d))"
  using cinv_new_request [of d po]
  by (simp add: dbus_watch_def Let_def new_request_forms split_beta)

lemma oset_again [simp]: "oset (oset m k v) k v' = oset m k v'"
  by (induction m) auto

lemma cinv_publish [inv_intros]: "cinv d \<Longrightarrow> cinv (fst (dbus_publish po path iface object options d))"
proof -
  assume inv: "cinv d"
  let ?k = "nat_str (db_cookie d)" and ?f = "length (db_dfds d)"
  let ?d = "(new_request d)\<lparr>db_calls := oset (db_calls (new_request d)) ?k ?f\<rparr>"
  have "cinv (send_call po ?k msg ?f ?d)" for msg
  proof (cases "db_open d")
    case True
    then have "send_call po ?k msg ?f ?d = send_call po ?k msg ?f (new_request d)"
      by (simp add: send_call_def dsend_def dlog_def new_request_def)
    then show ?thesis
      using cinv_new_request [OF inv] by simp
  next
    case False
    then have eq: "send_call po ?k msg ?f ?d = settle ?f (DFail (dbus_problem po (db_closed d) JUndef)) ?d"
      by (simp add: send_call_def dsend_def new_request_def)
    have "unsettled ?d g \<longleftrightarrow> unsettled d g \<or> g = ?f" for g
      using unsettled_new_request [of d g] by (simp add: unsettled_def)
    moreover have "?k \<notin> set (okeys (db_calls d))"
      by (rule nat_str_fresh [OF inv order_refl])
    ultimately show ?thesis
      using inv False unfolding eq
      by (auto simp: cinv_def unsettled_settle okeys_oset owf_def) (auto simp: new_request_def okeys_oset lessThan_Suc)
  qed
  then show ?thesis
    by (auto simp: dbus_publish_def Let_def new_request_forms split_beta intro!: inv_intros)
qed

lemma cinv_new_proxy [inv_intros]: "cinv d \<Longrightarrow> cinv (fst (new_proxy po iface path options d))"
  by (auto simp: new_proxy_def Let_def split_beta intro!: inv_intros)


lemma cinv_proxy_for [inv_intros]: "cinv d \<Longrightarrow> cinv (fst (dbus_proxy_for po iface path options d))"
  by (auto simp: dbus_proxy_for_def Let_def intro!: inv_intros)

lemma cinv_proxies_update [inv_intros]: "cinv d \<Longrightarrow> cinv (proxies_update po s props path d)"
  by (auto simp: proxies_update_def Let_def split_beta intro!: inv_intros split: option.split)

lemma cinv_fold_each: "cinv d \<Longrightarrow> cinv (fold (\<lambda>(props, path). proxies_update po s props path) xs d)"
  by (induction xs arbitrary: d) (auto intro!: inv_intros)

lemma cinv_new_proxies [inv_intros]: "cinv d \<Longrightarrow> cinv (new_proxies po iface ns options d)"
  by (auto simp: new_proxies_def Let_def intro!: cinv_fold_each inv_intros)

lemma cinv_proxies_for [inv_intros]: "cinv d \<Longrightarrow> cinv (dbus_proxies_for po iface ns options d)"
  by (auto simp: dbus_proxies_for_def intro!: inv_intros)

lemma cinv_run_entry [inv_intros]: "cinv d \<Longrightarrow> cinv (fst (run_entry po props path cb d))"
  by (auto simp: run_entry_def intro!: inv_intros split: option.split cache_func.split)

lemma cinv_emit [inv_intros]: "cinv d \<Longrightarrow> cinv (fst (emit_to po path iface props cbs d))"
proof (induction cbs arbitrary: d)
  case (Cons cb cbs)
  then show ?case
    using cinv_run_entry [OF Cons.prems, of po props path cb] by (auto split: prod.split bool.split)
qed simp

lemma cinv_cache [inv_intros]:
  "cinv d \<Longrightarrow> cinv (fst (cache_update po path iface props d))" "cinv d \<Longrightarrow> cinv (fst (cache_remove po path iface d))"
  by (auto simp: cache_update_def cache_remove_def intro!: inv_intros split: prod.split)

lemma cinv_notify_ifaces [inv_intros]: "cinv d \<Longrightarrow> cinv (fst (notify_ifaces po path xs d))"
proof (induction po path xs d rule: notify_ifaces.induct)
  case (2 po path iface props rest d)
  then show ?case
    using cinv_cache(1) [OF 2(2), of po path iface props] cinv_cache(2) [OF 2(2), of po path iface]
    by (auto split: prod.split bool.split if_splits)
qed simp

lemma cinv_notify_paths [inv_intros]: "cinv d \<Longrightarrow> cinv (fst (notify_paths po xs d))"
proof (induction po xs d rule: notify_paths.induct)
  case (2 po path ifaces rest d)
  then show ?case
    using cinv_notify_ifaces [OF 2(2), of po path "case ifaces of JObj kvs \<Rightarrow> kvs | _ \<Rightarrow> []"]
    by (auto split: prod.split bool.split)
qed simp

lemma cinv_notify [inv_intros]: "cinv d \<Longrightarrow> cinv (fst (dbus_notify po data d))"
proof -
  assume inv: "cinv d"
  have "cinv (fst (notify_paths po xs (d\<lparr>db_has_cache := True\<rparr>)))" for xs
    using inv by (intro inv_intros)
  then show ?thesis
    by (auto simp: dbus_notify_def intro!: inv_intros split: prod.split bool.split) (metis fst_conv)+
qed

lemma cinv_close_perform: "cinv d \<Longrightarrow> cinv (close_perform po options (d\<lparr>db_open := False\<rparr>))"
proof -
  assume inv: "cinv d"
  have "truthy (if truthy (opt options ''problem'') then opt options ''problem'' else JStr ''disconnected'')"
    by simp
  moreover have "f \<in> snd ` set (db_calls d)" if "unsettled d f" for f
    using inv that by (auto simp: cinv_def)
  moreover have "unsettled (d\<lparr>db_open := False, db_closed := p, db_calls := []\<rparr>) f \<longleftrightarrow> unsettled d f" for p f
    by (simp add: unsettled_def)
  ultimately show ?thesis
    unfolding close_perform_def Let_def
    by (intro same_basic_cinv(1)) (auto simp: cinv_def unsettled_fold_settle owf_def okeys_def)
qed

lemma cinv_on_close [inv_intros]: "cinv d \<Longrightarrow> cinv (dbus_on_close po options d)"
  by (simp add: dbus_on_close_def cinv_close_perform)

lemma cinv_close [inv_intros]: "cinv d \<Longrightarrow> cinv (dbus_close po options d)"
proof (cases "db_open d")
  case False
  assume "cinv d"
  moreover have same: "d\<lparr>db_open := False\<rparr> = d"
    using False by (cases d) simp
  ultimately show ?thesis
    using cinv_close_perform [of d po options, unfolded same] False by (simp add: dbus_close_def)
qed (auto simp: dbus_close_def intro!: inv_intros)

lemma cinv_fold_subs: "cinv d \<Longrightarrow> cinv (fold (\<lambda>(_, su). run_subscription s su) xs d)"
proof (induction xs arbitrary: d)
  case (Cons x xs)
  have "cinv (run_subscription s (snd x) d)"
    using Cons.prems by (auto simp: run_subscription_def intro!: inv_intros split: sub_func.split)
  then show ?case
    using Cons.IH by (simp add: split_beta)
qed simp

lemma cinv_dispatch [inv_intros]: "cinv d \<Longrightarrow> cinv (fst (dispatch_msg po impl msg d))"
  by (auto simp: dispatch_msg_def dbus_handle_def Let_def intro!: inv_intros cinv_fold_subs split: sum.split)

lemma same_calls_run_cont: "same_calls (run_cont r k d) d"
  by (auto simp: run_cont_def split: dbus_cont.split dbus_outcome.split)

lemma same_calls_fold_cont: "same_calls (fold (run_cont r) ks d) d"
proof (induction ks arbitrary: d)
  case (Cons k ks)
  then show ?case
    using same_calls_trans [OF Cons.IH same_calls_run_cont] by simp
qed simp

lemma same_calls_run_dfd: "same_calls (run_dfd f d) d"
proof -
  have "f_state ((db_dfds d)[f := (db_dfds d ! f)\<lparr>f_conts := ks\<rparr>] ! g) = f_state (db_dfds d ! g)" for ks g
    by (cases "f < length (db_dfds d)") (auto simp: nth_list_update list_update_beyond not_less)
  then have "same_calls (dlog e (d\<lparr>db_dfds := (db_dfds d)[f := (db_dfds d ! f)\<lparr>f_conts := []\<rparr>]\<rparr>)) d" for e
    by (simp add: same_calls_def dlog_def)
  then show ?thesis
    using same_calls_trans [OF same_calls_fold_cont] by (auto simp: run_dfd_def split: option.split)
qed

lemma cinv_run_dtask: "cinv d \<Longrightarrow> cinv (fst (run_dtask po impl t d))"
  by (cases "(po, impl, t, d)" rule: run_dtask.cases)
     (auto intro!: inv_intros same_calls_cinv [OF same_calls_run_dfd])

lemma cinv_run_dtasks: "cinv d \<Longrightarrow> cinv (run_dtasks po impl ts d)"
proof (induction ts arbitrary: d)
  case (Cons t ts)
  then show ?case
    using cinv_run_dtask [OF Cons.prems, of po impl t] by (auto split: prod.split bool.split)
qed simp

lemma cinv_on_msg [inv_intros]: "cinv d \<Longrightarrow> cinv (dbus_on_msg po msg d)"
  by (auto simp: dbus_on_msg_def Let_def intro!: inv_intros cinv_reply split: option.split if_splits)

lemma cinv_on_message [inv_intros]: "cinv d \<Longrightarrow> cinv (dbus_on_message po text' d)"
  by (auto simp: dbus_on_message_def intro!: inv_intros split: option.split js.split)

lemma cinv_cancel: "cinv d \<Longrightarrow> oget (db_calls d) cookie = Some f \<or> oget (db_calls d) cookie = None \<Longrightarrow> cinv (cancel_call po cookie f d)"
  by (auto simp: cancel_call_def intro!: cinv_reply)

lemma cinv_dexec: "cinv d \<Longrightarrow> denabled op d \<Longrightarrow> cinv (dexec po impl op d)"
  by (cases op)
     (auto simp: dbus_signal_def dbus_unwatch_def dbus_unpublish_def dbus_unsubscribe_def dbus_answer_def dbus_drain_def
        dbus_on_ready_def Let_def intro!: inv_intros cinv_cancel cinv_run_dtasks split: option.split)

lemma cinv_new_dbus: "cinv (new_dbus name options)"
  by (simp add: cinv_def new_dbus_def unsettled_def owf_def okeys_def)

lemma dreach_cinv: "dreach po impl name options d \<Longrightarrow> cinv d"
  by (induction rule: dreach.induct) (simp_all add: cinv_new_dbus cinv_dexec)


section \<open>What becomes of requests\<close>

lemma state_settle:
  "f_state (db_dfds (settle g r d) ! f) = (if f = g \<and> unsettled d f then Some r else f_state (db_dfds d ! f))"
  by (auto simp: settle_def dlater_def unsettled_def nth_list_update)

lemma state_fold_settle:
  "f_state (db_dfds (fold (\<lambda>(_, f). settle f r) xs d) ! f) =
     (if f \<in> snd ` set xs \<and> unsettled d f then Some r else f_state (db_dfds d ! f))"
proof (induction xs arbitrary: d)
  case (Cons x xs)
  then show ?case
    by (cases "snd x = f") (auto simp: split_beta state_settle unsettled_settle)
qed simp

lemma dbus_on_close_sel:
  "db_open (dbus_on_close po opts d) = False"
  "f_state (db_dfds (dbus_on_close po opts d) ! f) =
     (if f \<in> snd ` set (db_calls d) \<and> unsettled d f
      then Some (DFail (dbus_problem po (if truthy (opt opts ''problem'') then opt opts ''problem'' else JStr ''disconnected'')
             (opt opts ''message'')))
      else f_state (db_dfds d ! f))"
  by (simp_all add: dbus_on_close_def close_perform_def dlog_def Let_def state_fold_settle unsettled_def)

text \<open>C5: No request of a D-Bus client is left hanging: in every reachable state a call, watch or publication that is not
  settled waits for a reply under a cookie of an open channel; and when the channel closes, for whatever reason, all of them
  have been rejected with the problem of the close.\<close>

theorem dbus_requests_settle:
  assumes "dreach po impl name options d"
  shows "(unsettled d f \<longrightarrow> db_open d \<and> (\<exists>k. oget (db_calls d) k = Some f)) \<and>
         \<not> unsettled (dbus_on_close po opts d) f \<and>
         (unsettled d f \<longrightarrow> f_state (db_dfds (dbus_on_close po opts d) ! f) =
            Some (DFail (dbus_problem po (if truthy (opt opts ''problem'') then opt opts ''problem'' else JStr ''disconnected'')
              (opt opts ''message''))))"
proof -
  have inv: "cinv d"
    by (rule dreach_cinv [OF assms])
  have "\<not> unsettled (dbus_on_close po opts d) f"
    using cinv_on_close [OF inv, of po opts] by (simp add: cinv_def dbus_on_close_sel(1))
  moreover have "db_open d \<and> (\<exists>k. oget (db_calls d) k = Some f) \<and> f \<in> snd ` set (db_calls d)" if f: "unsettled d f"
  proof -
    obtain k where "(k, f) \<in> set (db_calls d)"
      using cinv_waits [OF inv f] by blast
    then show ?thesis
      using inv f by (force simp: cinv_def owf_def okeys_def oget_map_of)
  qed
  ultimately show ?thesis
    by (auto simp: dbus_on_close_sel(2))
qed

definition demo_dbus :: dbus where
  "demo_dbus = dexec init_po (\<lambda>_ _. False) (DoCall (JStr ''/a'') (JStr ''b.C'') (JStr ''M'') (JArr []) JUndef) (new_dbus JNull JNull)"

lemma demo_dbus_reach: "dreach init_po (\<lambda>_ _. False) JNull JNull demo_dbus"
  unfolding demo_dbus_def by (intro dreach.intros) simp

theorem dbus_requests_settle_witness:
  "unsettled demo_dbus 0 \<and> (\<exists>k. oget (db_calls demo_dbus) k = Some 0) \<and>
   f_state (db_dfds (dbus_on_close init_po [(''problem'', JStr ''terminated'')] demo_dbus) ! 0) =
     Some (DFail (dbus_problem init_po (JStr ''terminated'') JUndef))"
proof -
  have "unsettled demo_dbus 0"
    unfolding unsettled_def by code_simp
  then show ?thesis
    using dbus_requests_settle [OF demo_dbus_reach, of 0 "[(''problem'', JStr ''terminated'')]"] by simp
qed

text \<open>The reply for a cookie settles its deferred with the values of the reply, and no other one.\<close>

lemma dbus_reply_settles:
  assumes "unsettled d f" and "oget (db_calls d) k = Some f"
  shows "f_state (db_dfds (dbus_on_msg po (JObj [(''reply'', JArr [JArr out]), (''id'', JStr k)]) d) ! g) =
           (if g = f then Some (DDone (JArr out) []) else f_state (db_dfds d ! g))"
  using assms by (simp add: dbus_on_msg_def Let_def get_prop_def state_settle)

section \<open>Messages keep their order\<close>

definition puts_off :: "js \<Rightarrow> bool" where
  "puts_off msg \<longleftrightarrow> \<not> truthy (fld msg ''reply'') \<and> \<not> truthy (fld msg ''error'')"

text \<open>The task a message leads to.\<close>

definition task_for :: "dbus \<Rightarrow> js \<Rightarrow> dbus_task \<Rightarrow> bool" where
  "task_for d msg t \<longleftrightarrow>
     (if puts_off msg then t = TMessage msg
      else \<exists>f. oget (db_calls d) (to_str (fld msg ''id'')) = Some f \<and> t = TRun f)"

lemma settle_later: "db_later (settle f r d) = db_later d @ (if unsettled d f then [TRun f] else [])"
  by (simp add: settle_def dlater_def unsettled_def)

lemma on_msg_later:
  "(\<exists>t. db_later (dbus_on_msg po msg d) = db_later d @ [t] \<and> task_for d msg t) \<or>
   db_later (dbus_on_msg po msg d) = db_later d \<and> \<not> puts_off msg"
  by (auto simp: dbus_on_msg_def Let_def task_for_def puts_off_def settle_later dlater_def split: option.splits)

lemma on_msg_calls: "oget (db_calls (dbus_on_msg po msg d)) k = Some f \<Longrightarrow> oget (db_calls d) k = Some f"
  by (auto simp: dbus_on_msg_def Let_def dlater_def split: option.splits if_splits)

text \<open>The messages of a D-Bus channel are handled in the order in which they arrive: whatever replies, errors, signals,
  calls and notifications come in, the queue gets one task for each of them, in their order; only replies nobody waits
  for are dropped.  In particular a signal is handled after the handlers of the reply that came before it.\<close>

theorem dbus_messages_in_order:
  "\<exists>ms ts. db_later (fold (dbus_on_msg po) msgs d) = db_later d @ ts \<and> subseq ms msgs \<and>
     filter puts_off ms = filter puts_off msgs \<and> list_all2 (task_for d) ms ts"
proof (induction msgs arbitrary: d)
  case Nil
  then show ?case by auto
next
  case (Cons m msgs)
  let ?d = "dbus_on_msg po m d"
  obtain ms ts where IH: "db_later (fold (dbus_on_msg po) msgs ?d) = db_later ?d @ ts" "subseq ms msgs"
    "filter puts_off ms = filter puts_off msgs" "list_all2 (task_for ?d) ms ts"
    using Cons.IH [of ?d] by blast
  have tasks: "list_all2 (task_for d) ms ts"
    using IH(4) by (rule list_all2_mono) (auto simp: task_for_def dest: on_msg_calls split: if_splits)
  consider t where "db_later ?d = db_later d @ [t]" "task_for d m t" | "db_later ?d = db_later d" "\<not> puts_off m"
    using on_msg_later by blast
  then show ?case
  proof cases
    case 1
    then show ?thesis
      using IH tasks by (intro exI [of _ "m # ms"] exI [of _ "t # ts"]) auto
  next
    case 2
    then show ?thesis
      using IH tasks by (intro exI [of _ ms] exI [of _ ts]) auto
  qed
qed

section \<open>Flaws of the cache\<close>

text \<open>\<open>each\<close> never calls its callback, so a new set of proxies does not find the objects the cache has already.\<close>

lemma cache_each_nothing: "cache_each iface dc = []"
  by (simp add: cache_each_def case_prod_beta)

text \<open>\<open>remove()\<close> never takes an entry out; the first entry then is called for every path.\<close>

lemma cache_disconnect_stays:
  "length (dc_callbacks (cache_disconnect cb dc)) = length (dc_callbacks dc)"
  "dc_callbacks dc = cb # cbs \<Longrightarrow> ce_iface cb = Some iface \<Longrightarrow>
   entry_matches path iface (hd (dc_callbacks (cache_disconnect cb dc)))"
proof -
  have "length (cache_disconnect_from i cb xs) = length xs" for i xs
    by (induction i cb xs rule: cache_disconnect_from.induct) auto
  then show "length (dc_callbacks (cache_disconnect cb dc)) = length (dc_callbacks dc)"
    by (simp add: cache_disconnect_def)
  show "entry_matches path iface (hd (dc_callbacks (cache_disconnect cb dc)))"
    if "dc_callbacks dc = cb # cbs" "ce_iface cb = Some iface"
    using that by (simp add: cache_disconnect_def delete_elem_def entry_matches_def)
qed

end
