(* ===== verification/DBus_Mirror.thy ===== *)
theory DBus_Mirror
  imports DBus_Calls
begin

text \<open>
  Proxies mirror the cache of their client: over all operations, a proxy is valid exactly when the cache has its interface
  at its path, and then it shows every property the cache has.
\<close>

section \<open>The invariant\<close>

definition mirrors :: "dbus_cache \<Rightarrow> dbus_proxy \<Rightarrow> bool" where
  "mirrors dc px \<longleftrightarrow>
     (let v = cache_lookup (px_path px) (px_iface px) dc
      in (px_valid px \<longleftrightarrow> truthy v) \<and> (truthy v \<longrightarrow> (\<forall>k. fld v k \<noteq> JUndef \<longrightarrow> opt (px_data px) k = fld v k)))"

text \<open>An entry of the cache leads to a proxy, with its own path and interface, or to a set of proxies.\<close>

definition entry_ok :: "dbus \<Rightarrow> cache_entry \<Rightarrow> bool" where
  "entry_ok d cb \<longleftrightarrow>
     (case ce_func cb of
        Some (FuncProxy n) \<Rightarrow> n < length (db_proxies d) \<and> ce_path cb = Some (px_path (db_proxies d ! n)) \<and>
          ce_iface cb = Some (px_iface (db_proxies d ! n))
      | Some (FuncProxies s) \<Rightarrow> s < length (db_sets d) \<and> ps_iface (db_sets d ! s) \<noteq> []
      | _ \<Rightarrow> False)"

definition minv :: "dbus \<Rightarrow> bool" where
  "minv d \<longleftrightarrow>
     (\<forall>cb \<in> set (dc_callbacks (db_cache d)). entry_ok d cb) \<and>
     (\<forall>n < length (db_proxies d). px_path (db_proxies d ! n) \<noteq> [] \<and> px_iface (db_proxies d ! n) \<noteq> [] \<and>
        (\<exists>cb \<in> set (dc_callbacks (db_cache d)). ce_func cb = Some (FuncProxy n))) \<and>
     (\<forall>path iface. obj_ok (cache_lookup path iface (db_cache d)))"

definition mirrored :: "dbus \<Rightarrow> bool" where
  "mirrored d \<longleftrightarrow> (\<forall>n < length (db_proxies d). mirrors (db_cache d) (db_proxies d ! n))"

text \<open>Steps that do not touch proxies and cache.\<close>

definition same_view :: "dbus \<Rightarrow> dbus \<Rightarrow> bool" where
  "same_view d' d \<longleftrightarrow> db_cache d' = db_cache d \<and> db_proxies d' = db_proxies d \<and> db_sets d' = db_sets d"

lemma same_view_inv: "same_view d' d \<Longrightarrow> minv d' = minv d" "same_view d' d \<Longrightarrow> mirrored d' = mirrored d"
  by (auto simp: same_view_def minv_def mirrored_def entry_ok_def split: option.splits cache_func.splits)

lemma same_view_refl [simp]: "same_view d d"
  by (simp add: same_view_def)

lemma same_view_trans: "same_view d2 d1 \<Longrightarrow> same_view d1 d0 \<Longrightarrow> same_view d2 d0"
  by (simp add: same_view_def)

lemma same_view_basic [simp]:
  "same_view (dlog e d) d" "same_view (dlater t d) d" "same_view (fst (dsend msg d)) d"
  "same_view (settle f r d) d" "same_view (fst (dbus_subscribe match g rule d)) d" "same_view (fst (dbus_watch po p d)) d"
  "same_view (add_cont f k d) d" "same_view (fst (dbus_call po a b c x y d)) d"
  "same_view (fst (dbus_publish po pa i ob os d)) d" "same_view (cancel_call po ck f d) d"
  by (auto simp: same_view_def dlog_def dlater_def dsend_def settle_def dbus_subscribe_def dbus_watch_def add_cont_def
      next_cookie_def new_dfd_def send_call_def dbus_call_def dbus_publish_def cancel_call_def Let_def
      split: option.splits prod.splits bool.splits)

section \<open>One proxy follows the cache\<close>

lemma mirrors_update:
  assumes "obj_ok v" and "v = cache_lookup (px_path px) (px_iface px) dc" and "truthy v"
  shows "mirrors dc (px\<lparr>px_data := JS_Value.extend (px_data px) [v], px_valid := True\<rparr>)"
proof -
  have "opt (JS_Value.extend (px_data px) [v]) k = fld v k" if "fld v k \<noteq> JUndef" for k
    using that assms(1) by (cases v) (auto simp: fld_def obj_ok_def opt_extend_obj)
  then show ?thesis
    using assms(3) by (simp add: mirrors_def Let_def assms(2) [symmetric])
qed

lemma proxy_define_keys [simp]:
  "px_path (proxy_define meta px) = px_path px" "px_iface (proxy_define meta px) = px_iface px"
  "px_data (proxy_define meta px) = px_data px" "px_valid (proxy_define meta px) = px_valid px"
  by (simp_all add: proxy_define_def Let_def)

lemma mirrors_cong:
  "px_path px' = px_path px \<Longrightarrow> px_iface px' = px_iface px \<Longrightarrow> px_data px' = px_data px \<Longrightarrow> px_valid px' = px_valid px \<Longrightarrow>
   dc_data dc' = dc_data dc \<Longrightarrow> mirrors dc' px' = mirrors dc px"
  by (simp add: mirrors_def cache_lookup_def)

lemma proxy_update_sel [simp]:
  "db_cache (proxy_update n props d) = db_cache d" "db_sets (proxy_update n props d) = db_sets d"
  "length (db_proxies (proxy_update n props d)) = length (db_proxies d)"
  "px_path (db_proxies (proxy_update n props d) ! m) = px_path (db_proxies d ! m)"
  "px_iface (db_proxies (proxy_update n props d) ! m) = px_iface (db_proxies d ! m)"
  "m \<noteq> n \<Longrightarrow> db_proxies (proxy_update n props d) ! m = db_proxies d ! m"
  by (cases "n < length (db_proxies d)";
      simp add: proxy_update_def dlog_def Let_def nth_list_update list_update_beyond not_less)+

lemma proxy_update_mirrors:
  assumes "n < length (db_proxies d)" and "obj_ok props"
    and "v = cache_lookup (px_path (db_proxies d ! n)) (px_iface (db_proxies d ! n)) (db_cache d)"
    and "if truthy props then props = v else \<not> truthy v"
  shows "mirrors (db_cache d) (db_proxies (proxy_update n props d) ! n)"
proof (cases "truthy props")
  case True
  have v: "props = v"
    using assms(4) True by simp
  note upd = mirrors_update [OF assms(2) assms(3) [folded v] True]
  show ?thesis
    using assms(1) True upd by (auto simp: proxy_update_def dlog_def Let_def intro: mirrors_cong [THEN iffD1, rotated -1])
next
  case False
  then show ?thesis
    using assms by (simp add: proxy_update_def dlog_def Let_def mirrors_def)
qed


section \<open>Steps that keep what is mirrored\<close>

definition extends :: "dbus \<Rightarrow> dbus \<Rightarrow> bool" where
  "extends d' d \<longleftrightarrow>
     dc_data (db_cache d') = dc_data (db_cache d) \<and> length (db_sets d') = length (db_sets d) \<and>
     (\<forall>s. ps_iface (db_sets d' ! s) = ps_iface (db_sets d ! s)) \<and> length (db_proxies d) \<le> length (db_proxies d') \<and>
     (\<forall>m < length (db_proxies d). px_path (db_proxies d' ! m) = px_path (db_proxies d ! m) \<and>
        px_iface (db_proxies d' ! m) = px_iface (db_proxies d ! m))"

definition step_ok :: "dbus \<Rightarrow> dbus \<Rightarrow> bool" where
  "step_ok d' d \<longleftrightarrow> minv d' \<and> extends d' d \<and>
     (\<forall>m < length (db_proxies d'). (m < length (db_proxies d) \<longrightarrow> mirrors (db_cache d) (db_proxies d ! m)) \<longrightarrow>
        mirrors (db_cache d') (db_proxies d' ! m))"

lemma step_ok_refl: "minv d \<Longrightarrow> step_ok d d"
  by (simp add: step_ok_def extends_def)

lemma step_ok_trans: "step_ok d2 d1 \<Longrightarrow> step_ok d1 d0 \<Longrightarrow> step_ok d2 d0"
  unfolding step_ok_def extends_def by (auto intro: order_trans)

lemma step_ok_same_view: "minv d \<Longrightarrow> same_view d' d \<Longrightarrow> step_ok d' d"
  using same_view_inv(1) [of d' d] by (simp add: step_ok_def extends_def same_view_def)

lemma entry_ok_extends: "entry_ok d cb \<Longrightarrow> extends d' d \<Longrightarrow> entry_ok d' cb"
  by (auto simp: entry_ok_def extends_def split: option.splits cache_func.splits)

lemma minv_proxies:
  assumes "minv d" and "extends d' d" and "length (db_proxies d') = length (db_proxies d)" and "dc_callbacks (db_cache d') = dc_callbacks (db_cache d)"
  shows "minv d'"
proof -
  have "cache_lookup path iface (db_cache d') = cache_lookup path iface (db_cache d)" for path iface
    using assms(2) by (simp add: cache_lookup_def extends_def)
  then show ?thesis
    using assms entry_ok_extends [OF _ assms(2)] by (auto simp: minv_def extends_def)
qed

lemma step_ok_proxy_update:
  assumes "minv d" and "n < length (db_proxies d)" and "obj_ok props"
    and "v = cache_lookup (px_path (db_proxies d ! n)) (px_iface (db_proxies d ! n)) (db_cache d)"
    and "if truthy props then props = v else \<not> truthy v"
  shows "step_ok (proxy_update n props d) d" and "mirrors (db_cache (proxy_update n props d)) (db_proxies (proxy_update n props d) ! n)"
proof -
  show here: "mirrors (db_cache (proxy_update n props d)) (db_proxies (proxy_update n props d) ! n)"
    using proxy_update_mirrors [OF assms(2-5)] by simp
  have ext: "extends (proxy_update n props d) d"
    by (simp add: extends_def)
  have "minv (proxy_update n props d)"
    by (rule minv_proxies [OF assms(1) ext]) simp_all
  then show "step_ok (proxy_update n props d) d"
    using ext here by (auto simp: step_ok_def) (metis proxy_update_sel(6))
qed

lemma step_ok_waited:
  assumes "minv d"
  shows "step_ok (proxy_waited n ex d) d"
proof -
  have keys: "px_path (db_proxies (proxy_waited n ex d) ! m) = px_path (db_proxies d ! m)"
    "px_iface (db_proxies (proxy_waited n ex d) ! m) = px_iface (db_proxies d ! m)"
    "px_data (db_proxies (proxy_waited n ex d) ! m) = px_data (db_proxies d ! m)"
    "px_valid (db_proxies (proxy_waited n ex d) ! m) = px_valid (db_proxies d ! m)" for m
    by (cases "n < length (db_proxies d)";
        simp add: proxy_waited_def Let_def nth_list_update list_update_beyond not_less)+
  have sel: "db_cache (proxy_waited n ex d) = db_cache d" "db_sets (proxy_waited n ex d) = db_sets d"
    "length (db_proxies (proxy_waited n ex d)) = length (db_proxies d)"
    by (simp_all add: proxy_waited_def Let_def)
  have ext: "extends (proxy_waited n ex d) d"
    by (simp add: extends_def keys sel)
  have "minv (proxy_waited n ex d)"
    by (rule minv_proxies [OF assms ext]) (simp_all add: sel)
  then show ?thesis
    using ext mirrors_cong [OF keys refl] by (simp add: step_ok_def sel)
qed

section \<open>New proxies\<close>

lemma step_ok_new_proxy:
  assumes "minv d" and "path \<noteq> []" and "iface \<noteq> []"
  shows "step_ok (fst (new_proxy po iface path options d)) d"
proof -
  let ?n = "length (db_proxies d)"
  let ?px = "\<lparr>px_iface = iface, px_path = path, px_valid = False, px_defined = False, px_data = [], px_methods = [],
    px_properties = [], px_waits = WPending\<rparr>"
  let ?cb = "\<lparr>ce_path = Some path, ce_iface = Some iface, ce_func = Some (FuncProxy ?n)\<rparr>"
  define d1 where "d1 = d\<lparr>db_proxies := db_proxies d @ [?px], db_cache := cache_connect ?cb True (db_cache d)\<rparr>"
  have lookup1: "cache_lookup p i (db_cache d1) = cache_lookup p i (db_cache d)" for p i
    by (simp add: d1_def cache_lookup_def cache_connect_def)
  have ext1: "extends d1 d"
    by (simp add: extends_def d1_def cache_connect_def nth_append)
  have inv1: "minv d1"
  proof -
    have "entry_ok d1 ?cb"
      by (simp add: entry_ok_def d1_def)
    moreover have "dc_callbacks (db_cache d1) = ?cb # dc_callbacks (db_cache d)"
      by (simp add: d1_def cache_connect_def)
    moreover have "length (db_proxies d1) = Suc ?n" "db_proxies d1 ! ?n = ?px"
      "\<And>m. m < ?n \<Longrightarrow> db_proxies d1 ! m = db_proxies d ! m"
      by (simp_all add: d1_def nth_append)
    ultimately show ?thesis
      using assms entry_ok_extends [OF _ ext1] lookup1 by (fastforce simp: minv_def less_Suc_eq)
  qed
  define v where "v = cache_lookup path iface (db_cache d1)"
  have v: "v = cache_lookup (px_path (db_proxies d1 ! ?n)) (px_iface (db_proxies d1 ! ?n)) (db_cache d1)" "?n < length (db_proxies d1)"
    by (simp_all add: v_def d1_def)
  have "obj_ok v"
    using inv1 by (simp add: v_def minv_def)
  note upd = step_ok_proxy_update [OF inv1 v(2) this v(1)]
  define d2 where "d2 = proxy_update ?n v d1"
  have 2: "step_ok d2 d1" "mirrors (db_cache d2) (db_proxies d2 ! ?n)" "length (db_proxies d2) = Suc ?n"
    using upd by (simp_all add: d2_def) (simp add: d1_def)
  have "step_ok d2 d"
    unfolding step_ok_def
  proof (intro conjI allI impI)
    show "minv d2" using 2(1) by (simp add: step_ok_def)
    show "extends d2 d" using 2(1) ext1 by (auto simp: step_ok_def extends_def)
    fix m assume m: "m < length (db_proxies d2)" and old: "m < ?n \<longrightarrow> mirrors (db_cache d) (db_proxies d ! m)"
    show "mirrors (db_cache d2) (db_proxies d2 ! m)"
    proof (cases "m = ?n")
      case False
      then have "mirrors (db_cache d1) (db_proxies d1 ! m)"
        using m old 2(3) lookup1 by (simp add: mirrors_def d1_def nth_append)
      then show ?thesis
        using 2(1) m by (simp add: step_ok_def)
    qed (simp add: 2(2))
  qed
  moreover define match where "match = [(''path'', JStr path), (''interface'', JStr iface)]"
  define d3 where "d3 = fst (dbus_subscribe match (Some (SubProxy ?n)) (opt options ''subscribe'' \<noteq> JBool False) d2)"
  have "step_ok d3 d2"
    using 2(1) step_ok_same_view [of d2 d3] by (simp add: d3_def step_ok_def)
  ultimately have 3: "step_ok d3 d" "minv d3"
    using step_ok_trans by (blast, simp add: step_ok_def)
  have "fst (new_proxy po iface path options d) =
      (if opt options ''watch'' \<noteq> JBool False
       then (case dbus_watch po (JObj match) d3 of (d, f, _) \<Rightarrow> add_cont f (ContProxy ?n) d)
       else proxy_waited ?n None d3)"
    by (simp add: new_proxy_def Let_def d3_def d2_def v_def d1_def match_def)
  moreover have "step_ok (case dbus_watch po (JObj match) d3 of (d, f, _) \<Rightarrow> add_cont f (ContProxy ?n) d) d3"
    using step_ok_same_view [OF 3(2)] same_view_trans [OF same_view_basic(7) same_view_basic(6)] by (simp add: split_beta)
  ultimately show ?thesis
    using step_ok_trans [OF _ 3(1)] step_ok_waited [OF 3(2)] by simp
qed


lemma same_view_has_cache [simp]: "same_view (d\<lparr>db_has_cache := b\<rparr>) d"
  by (simp add: same_view_def)

text \<open>Changing the items of a set of proxies.\<close>

lemma step_ok_items:
  assumes "minv d" and "ps_iface ps = ps_iface (db_sets d ! s)"
  shows "step_ok (d\<lparr>db_sets := (db_sets d)[s := ps]\<rparr>) d"
proof -
  let ?d = "d\<lparr>db_sets := (db_sets d)[s := ps]\<rparr>"
  have ext: "extends ?d d"
    using assms(2) by (cases "s < length (db_sets d)") (auto simp: extends_def nth_list_update list_update_beyond not_less)
  have "minv ?d"
    by (rule minv_proxies [OF assms(1) ext]) simp_all
  then show ?thesis
    using ext by (simp add: step_ok_def)
qed

lemma sets_new_proxy: "db_sets (fst (new_proxy po iface path options d)) = db_sets d"
proof -
  have "db_sets (fst (dbus_subscribe match f rule d)) = db_sets d" "db_sets (fst (dbus_watch po p d)) = db_sets d"
    "db_sets (add_cont g k d) = db_sets d" for match f rule p g k d
    using same_view_basic(5-7) by (simp_all add: same_view_def)
  then show ?thesis
    by (simp add: new_proxy_def Let_def split_beta) (simp add: proxy_waited_def Let_def)
qed

lemma step_ok_proxies_update:
  assumes "minv d" and "ps_iface (db_sets d ! s) \<noteq> []"
  shows "step_ok (proxies_update po s props path d) d"
proof -
  define ps where "ps = db_sets d ! s"
  define d1 where "d1 = fst (dbus_proxy_for po (JStr (ps_iface ps)) (JStr path) (ps_options ps) d)"
  have log: "step_ok (dlog e d') d'" if "minv d'" for e d'
    using that by (intro step_ok_same_view) simp_all
  have "step_ok (dlog e1 (dlog e2 (d1\<lparr>db_sets := (db_sets d1)[s := ps\<lparr>ps_items := x\<rparr>]\<rparr>))) d" if "path \<noteq> []" for e1 e2 x
  proof -
    have 0: "step_ok (d\<lparr>db_has_cache := True\<rparr>) d"
      by (rule step_ok_same_view [OF assms(1)]) simp
    then have inv0: "minv (d\<lparr>db_has_cache := True\<rparr>)"
      by (simp add: step_ok_def)
    have d1: "d1 = fst (new_proxy po (ps_iface ps) path (ps_options ps) (d\<lparr>db_has_cache := True\<rparr>))"
      using that assms(2) by (simp add: d1_def dbus_proxy_for_def Let_def ps_def)
    have 1: "step_ok d1 d"
      unfolding d1 using step_ok_trans [OF step_ok_new_proxy [OF inv0 that] 0] assms(2) by (simp add: ps_def)
    have "db_sets d1 = db_sets d"
      by (simp add: d1 sets_new_proxy)
    then have 2: "step_ok (d1\<lparr>db_sets := (db_sets d1)[s := ps\<lparr>ps_items := x\<rparr>]\<rparr>) d1"
      using 1 by (intro step_ok_items) (simp_all add: step_ok_def ps_def)
    have inv2: "minv (d1\<lparr>db_sets := (db_sets d1)[s := ps\<lparr>ps_items := x\<rparr>]\<rparr>)"
      using 2 by (simp add: step_ok_def)
    have 3: "step_ok (dlog e2 (d1\<lparr>db_sets := (db_sets d1)[s := ps\<lparr>ps_items := x\<rparr>]\<rparr>)) (d1\<lparr>db_sets := (db_sets d1)[s := ps\<lparr>ps_items := x\<rparr>]\<rparr>)"
      by (rule log [OF inv2])
    have "minv (dlog e2 (d1\<lparr>db_sets := (db_sets d1)[s := ps\<lparr>ps_items := x\<rparr>]\<rparr>))"
      using 3 by (simp add: step_ok_def)
    from step_ok_trans [OF log [OF this] step_ok_trans [OF 3 step_ok_trans [OF 2 1]]] show ?thesis .
  qed
  moreover have "step_ok (dlog e (d\<lparr>db_sets := (db_sets d)[s := ps\<lparr>ps_items := x\<rparr>]\<rparr>)) d" for e x
  proof -
    have 1: "step_ok (d\<lparr>db_sets := (db_sets d)[s := ps\<lparr>ps_items := x\<rparr>]\<rparr>) d"
      by (rule step_ok_items [OF assms(1)]) (simp add: ps_def)
    then have "minv (d\<lparr>db_sets := (db_sets d)[s := ps\<lparr>ps_items := x\<rparr>]\<rparr>)"
      by (simp add: step_ok_def)
    from step_ok_trans [OF log [OF this] 1] show ?thesis .
  qed
  ultimately show ?thesis
    using log [OF assms(1)] step_ok_refl [OF assms(1)]
    by (auto simp: proxies_update_def Let_def split_beta ps_def [symmetric] d1_def [symmetric] split: option.split)
qed

section \<open>Telling the callbacks\<close>

lemma extends_lookup: "extends d' d \<Longrightarrow> cache_lookup path iface (db_cache d') = cache_lookup path iface (db_cache d)"
  by (simp add: extends_def cache_lookup_def)

definition told :: "dbus \<Rightarrow> string \<Rightarrow> string \<Rightarrow> js \<Rightarrow> bool" where
  "told d path iface props \<longleftrightarrow> obj_ok props \<and>
     (if truthy props then props = cache_lookup path iface (db_cache d) else \<not> truthy (cache_lookup path iface (db_cache d)))"

lemma told_extends: "told d path iface props \<Longrightarrow> extends d' d \<Longrightarrow> told d' path iface props"
  using extends_lookup [of d' d path iface] by (simp add: told_def)

lemma run_entry_ok:
  assumes "minv d" and "entry_ok d cb" and "told d path iface props" and "entry_matches path iface cb"
  shows "snd (run_entry po props path cb d) \<and> step_ok (fst (run_entry po props path cb d)) d \<and>
         (\<forall>n. ce_func cb = Some (FuncProxy n) \<longrightarrow>
            mirrors (db_cache (fst (run_entry po props path cb d))) (db_proxies (fst (run_entry po props path cb d)) ! n))"
proof (cases "ce_func cb")
  case None
  then show ?thesis using assms(2) by (simp add: entry_ok_def)
next
  case (Some g)
  show ?thesis
  proof (cases g)
    case (FuncProxy n)
    have n: "n < length (db_proxies d)" "ce_path cb = Some (px_path (db_proxies d ! n))" "ce_iface cb = Some (px_iface (db_proxies d ! n))"
      using assms(2) Some FuncProxy by (simp_all add: entry_ok_def)
    moreover have "px_path (db_proxies d ! n) \<noteq> []" "px_iface (db_proxies d ! n) \<noteq> []"
      using assms(1) n(1) by (simp_all add: minv_def)
    ultimately have "px_path (db_proxies d ! n) = path" "px_iface (db_proxies d ! n) = iface"
      using assms(4) by (simp_all add: entry_matches_def)
    then show ?thesis
      using step_ok_proxy_update [OF assms(1) n(1), of props] assms(3) Some FuncProxy
      by (simp add: run_entry_def told_def)
  next
    case (FuncProxies s)
    then show ?thesis
      using step_ok_proxies_update [OF assms(1), of s] assms(2) Some by (simp add: run_entry_def entry_ok_def)
  next
    case (FuncUser k)
    then show ?thesis
      using assms(2) Some by (simp add: entry_ok_def)
  qed
qed

lemma emit_ok:
  assumes "minv d" and "\<forall>cb \<in> set cbs. entry_ok d cb" and "told d path iface props"
  shows "snd (emit_to po path iface props cbs d) \<and> step_ok (fst (emit_to po path iface props cbs d)) d \<and>
         (\<forall>cb \<in> set cbs. \<forall>n. ce_func cb = Some (FuncProxy n) \<longrightarrow> entry_matches path iface cb \<longrightarrow>
            mirrors (db_cache (fst (emit_to po path iface props cbs d))) (db_proxies (fst (emit_to po path iface props cbs d)) ! n))"
  using assms
proof (induction cbs arbitrary: d)
  case Nil
  then show ?case by (simp add: step_ok_refl)
next
  case (Cons cb cbs)
  show ?case
  proof (cases "entry_matches path iface cb")
    case False
    then show ?thesis
      using Cons by simp
  next
    case True
    define d1 where "d1 = fst (run_entry po props path cb d)"
    have 1: "snd (run_entry po props path cb d)" "step_ok d1 d"
      "\<And>n. ce_func cb = Some (FuncProxy n) \<Longrightarrow> mirrors (db_cache d1) (db_proxies d1 ! n)"
      using run_entry_ok [OF Cons.prems(1) _ Cons.prems(3) True, of po] Cons.prems(2) by (simp_all add: d1_def)
    have ext: "minv d1" "extends d1 d"
      using 1(2) by (simp_all add: step_ok_def)
    have "\<forall>cb \<in> set cbs. entry_ok d1 cb"
      using Cons.prems(2) entry_ok_extends [OF _ ext(2)] by simp
    note IH = Cons.IH [OF ext(1) this told_extends [OF Cons.prems(3) ext(2)]]
    have eq: "emit_to po path iface props (cb # cbs) d = emit_to po path iface props cbs d1"
      using True 1(1) by (cases "run_entry po props path cb d") (simp add: d1_def)
    define d2 where "d2 = fst (emit_to po path iface props cbs d1)"
    have 2: "step_ok d2 d1"
      using IH by (simp add: d2_def)
    have "mirrors (db_cache d2) (db_proxies d2 ! n)" if n: "ce_func cb = Some (FuncProxy n)" for n
    proof -
      have "n < length (db_proxies d)"
        using Cons.prems(2) n by (simp add: entry_ok_def)
      then have "n < length (db_proxies d2)"
        using 2 ext(2) by (simp add: step_ok_def extends_def)
      then show ?thesis
        using 2 1(3) [OF n] by (simp add: step_ok_def)
    qed
    then show ?thesis
      unfolding eq using IH step_ok_trans [OF 2 1(2)] by (simp add: d2_def)
  qed
qed

text \<open>After the callbacks have been told, all proxies are up to date, if those of other paths and interfaces were before.\<close>

lemma emit_mirrored:
  assumes "minv d" and "told d path iface props"
    and "\<And>n. n < length (db_proxies d) \<Longrightarrow> (px_path (db_proxies d ! n), px_iface (db_proxies d ! n)) \<noteq> (path, iface) \<Longrightarrow>
           mirrors (db_cache d) (db_proxies d ! n)"
    and "d' = fst (emit_to po path iface props (dc_callbacks (db_cache d)) d)"
  shows "snd (emit_to po path iface props (dc_callbacks (db_cache d)) d) \<and> minv d' \<and> mirrored d'"
proof -
  have entries: "\<forall>cb \<in> set (dc_callbacks (db_cache d)). entry_ok d cb"
    using assms(1) by (simp add: minv_def)
  note ok = emit_ok [OF assms(1) entries assms(2), of po, folded assms(4)]
  have "mirrors (db_cache d') (db_proxies d' ! n)" if n: "n < length (db_proxies d')" for n
  proof (cases "n < length (db_proxies d) \<and> (px_path (db_proxies d ! n), px_iface (db_proxies d ! n)) = (path, iface)")
    case True
    then obtain cb where cb: "cb \<in> set (dc_callbacks (db_cache d))" "ce_func cb = Some (FuncProxy n)"
      using assms(1) by (auto simp: minv_def)
    have "entry_matches path iface cb"
      using cb(2) bspec [OF entries cb(1)] True by (simp add: entry_ok_def entry_matches_def)
    then show ?thesis
      using ok cb by blast
  next
    case False
    then show ?thesis
      using ok n assms(3) by (simp add: step_ok_def)
  qed
  then show ?thesis
    using ok by (simp add: mirrored_def step_ok_def)
qed


section \<open>Notifications\<close>

lemma cache_put_spec:
  assumes "minv d" and "obj_ok props" and "truthy props" and "cache_put path iface props (db_cache d) = (dc, full)"
  shows "truthy full" and "obj_ok full" and "dc_callbacks dc = dc_callbacks (db_cache d)"
    and "cache_lookup p i dc = (if p = path \<and> i = iface then full else cache_lookup p i (db_cache d))"
proof -
  let ?ifaces = "case oget (dc_data (db_cache d)) path of None \<Rightarrow> [] | Some m \<Rightarrow> m"
  have old: "obj_ok (opt ?ifaces iface)"
    using assms(1) by (auto simp: minv_def cache_lookup_def obj_ok_def split: option.splits)
  have full: "full = (if truthy (opt ?ifaces iface)
      then (case opt ?ifaces iface of JObj old \<Rightarrow> JObj (JS_Value.extend old [props]) | v \<Rightarrow> v) else props)"
    and dc: "dc = (db_cache d)\<lparr>dc_data := oset (dc_data (db_cache d)) path (oset ?ifaces iface full)\<rparr>"
    using assms(4) by (auto simp: cache_put_def Let_def)
  show "truthy full" "obj_ok full"
    using assms(2,3) old by (auto simp: full obj_ok_def owf_extend split: js.splits)
  show "dc_callbacks dc = dc_callbacks (db_cache d)"
    by (simp add: dc)
  show "cache_lookup p i dc = (if p = path \<and> i = iface then full else cache_lookup p i (db_cache d))"
    by (auto simp: dc cache_lookup_def split: option.split)
qed

lemma mirrors_lookup:
  "cache_lookup (px_path px) (px_iface px) dc' = cache_lookup (px_path px) (px_iface px) dc \<Longrightarrow> mirrors dc' px = mirrors dc px"
  by (simp add: mirrors_def)

text \<open>Replacing the data of the cache at one path and interface, before the callbacks are told.\<close>

lemma minv_replace:
  assumes "minv d" and "mirrored d" and "dc_callbacks dc = dc_callbacks (db_cache d)" and "obj_ok v"
    and "\<And>p i. cache_lookup p i dc = (if p = path \<and> i = iface then v else cache_lookup p i (db_cache d))"
  shows "minv (d\<lparr>db_cache := dc\<rparr>)"
    and "n < length (db_proxies d) \<Longrightarrow> (px_path (db_proxies d ! n), px_iface (db_proxies d ! n)) \<noteq> (path, iface) \<Longrightarrow>
         mirrors dc (db_proxies d ! n)"
proof -
  have "entry_ok (d\<lparr>db_cache := dc\<rparr>) cb = entry_ok d cb" for cb
    by (simp add: entry_ok_def split: option.split cache_func.split)
  then show "minv (d\<lparr>db_cache := dc\<rparr>)"
    using assms(1,3,4,5) by (simp add: minv_def)
  show "mirrors dc (db_proxies d ! n)"
    if "n < length (db_proxies d)" "(px_path (db_proxies d ! n), px_iface (db_proxies d ! n)) \<noteq> (path, iface)"
    using assms(2,5) that by (subst mirrors_lookup [of _ dc "db_cache d"]) (auto simp: mirrored_def)
qed

lemma cache_update_ok:
  assumes "minv d" and "mirrored d" and "obj_ok props" and "truthy props"
  shows "snd (cache_update po path iface props d) \<and> minv (fst (cache_update po path iface props d)) \<and>
         mirrored (fst (cache_update po path iface props d))"
proof -
  obtain dc full where put: "cache_put path iface props (db_cache d) = (dc, full)"
    by force
  note spec = cache_put_spec [OF assms(1,3,4) put]
  note repl = minv_replace [OF assms(1,2) spec(3,2) spec(4)]
  have "told (d\<lparr>db_cache := dc\<rparr>) path iface full"
    using spec by (simp add: told_def)
  from emit_mirrored [OF repl(1) this _ refl, of po] show ?thesis
    using repl(2) by (simp add: cache_update_def put)
qed

lemma cache_remove_ok:
  assumes "minv d" and "mirrored d"
  shows "snd (cache_remove po path iface d) \<and> minv (fst (cache_remove po path iface d)) \<and> mirrored (fst (cache_remove po path iface d))"
proof (cases "oget (dc_data (db_cache d)) path")
  case None
  then show ?thesis
    using assms by (simp add: cache_remove_def)
next
  case (Some ifaces)
  let ?dc = "cache_drop path iface (db_cache d)"
  have dc: "dc_callbacks ?dc = dc_callbacks (db_cache d)"
    "cache_lookup p i ?dc = (if p = path \<and> i = iface then JUndef else cache_lookup p i (db_cache d))" for p i
    using Some by (auto simp: cache_drop_def cache_lookup_def split: option.split)
  note repl = minv_replace [OF assms dc(1) _ dc(2)]
  have inv: "minv (d\<lparr>db_cache := ?dc\<rparr>)"
    using repl(1) by (simp add: obj_ok_def)
  have "told (d\<lparr>db_cache := ?dc\<rparr>) path iface JNull"
    by (simp add: told_def obj_ok_def dc(2))
  from emit_mirrored [OF inv this _ refl, of po] show ?thesis
    using repl(2) Some by (simp add: cache_remove_def dc(1) obj_ok_def)
qed

lemma notify_ifaces_ok:
  assumes "minv d" and "mirrored d" and "list_all (\<lambda>(_, props). obj_ok props) xs"
  shows "snd (notify_ifaces po path xs d) \<and> minv (fst (notify_ifaces po path xs d)) \<and> mirrored (fst (notify_ifaces po path xs d))"
  using assms
proof (induction xs arbitrary: d)
  case (Cons x xs)
  obtain iface props where x: "x = (iface, props)"
    by force
  let ?r = "if truthy props then cache_update po path iface props d else cache_remove po path iface d"
  have "snd ?r \<and> minv (fst ?r) \<and> mirrored (fst ?r)"
    using cache_update_ok [OF Cons.prems(1,2), of props po path iface] cache_remove_ok [OF Cons.prems(1,2), of po path iface]
      Cons.prems(3) by (simp add: x)
  then show ?case
    using Cons.IH [of "fst ?r"] Cons.prems(3) by (cases ?r) (auto simp: x)
qed simp

lemma notify_paths_ok:
  assumes "minv d" and "mirrored d"
    and "list_all (\<lambda>(_, ifaces). case ifaces of JObj kvs \<Rightarrow> list_all (\<lambda>(_, props). obj_ok props) kvs | _ \<Rightarrow> True) xs"
  shows "snd (notify_paths po xs d) \<and> minv (fst (notify_paths po xs d)) \<and> mirrored (fst (notify_paths po xs d))"
  using assms
proof (induction xs arbitrary: d)
  case (Cons x xs)
  obtain path ifaces where x: "x = (path, ifaces)"
    by force
  let ?kvs = "case ifaces of JObj kvs \<Rightarrow> kvs | _ \<Rightarrow> []"
  have "list_all (\<lambda>(_, props). obj_ok props) ?kvs"
    using Cons.prems(3) by (auto simp: x split: js.splits)
  note ok = notify_ifaces_ok [OF Cons.prems(1,2) this, of po path]
  then show ?case
    using Cons.IH [of "fst (notify_ifaces po path ?kvs d)"] Cons.prems(3)
    by (cases "notify_ifaces po path ?kvs d") (auto simp: x)
qed simp


section \<open>Messages that are put off\<close>

fun put_off :: "dbus_task \<Rightarrow> js option" where
  "put_off (TMessage msg) = Some msg"
| "put_off _ = None"

definition waiting_msgs :: "dbus \<Rightarrow> js list" where
  "waiting_msgs d = List.map_filter put_off (db_later d)"

lemma waiting_basic [simp]:
  "waiting_msgs (dlog e d) = waiting_msgs d"
  "waiting_msgs (dlater t d) = waiting_msgs d @ (case put_off t of None \<Rightarrow> [] | Some m \<Rightarrow> [m])"
  "waiting_msgs (fst (dsend msg d)) = waiting_msgs d" "waiting_msgs (settle f r d) = waiting_msgs d"
  "waiting_msgs (d\<lparr>db_proxies := a\<rparr>) = waiting_msgs d" "waiting_msgs (d\<lparr>db_cache := b\<rparr>) = waiting_msgs d"
  "waiting_msgs (d\<lparr>db_sets := c\<rparr>) = waiting_msgs d" "waiting_msgs (d\<lparr>db_has_cache := h\<rparr>) = waiting_msgs d"
  "waiting_msgs (d\<lparr>db_calls := cs\<rparr>) = waiting_msgs d" "waiting_msgs (d\<lparr>db_subs := ss\<rparr>) = waiting_msgs d"
  "waiting_msgs (d\<lparr>db_dfds := ds\<rparr>) = waiting_msgs d" "waiting_msgs (d\<lparr>db_cookie := k\<rparr>) = waiting_msgs d"
  "waiting_msgs (d\<lparr>db_open := op\<rparr>) = waiting_msgs d" "waiting_msgs (d\<lparr>db_closed := cl\<rparr>) = waiting_msgs d"
  "waiting_msgs (d\<lparr>db_owner := ow\<rparr>) = waiting_msgs d" "waiting_msgs (d\<lparr>db_published := pu\<rparr>) = waiting_msgs d"
  "waiting_msgs (d\<lparr>db_unique_name := un\<rparr>) = waiting_msgs d"
  by (auto simp: waiting_msgs_def dlog_def dlater_def dsend_def settle_def map_filter_append split: option.split)

lemma waiting_requests [simp]:
  "waiting_msgs (fst (dbus_subscribe match g rule d)) = waiting_msgs d" "waiting_msgs (fst (dbus_watch po p d)) = waiting_msgs d"
  "waiting_msgs (add_cont f k d) = waiting_msgs d" "waiting_msgs (fst (dbus_call po a b c x y d)) = waiting_msgs d"
  "waiting_msgs (fst (dbus_publish po pa i ob os d)) = waiting_msgs d" "waiting_msgs (cancel_call po ck f d) = waiting_msgs d"
proof -
  have base: "waiting_msgs (fst (next_cookie d)) = waiting_msgs d" "waiting_msgs (fst (new_dfd d)) = waiting_msgs d"
    "waiting_msgs (add_cont f k d) = waiting_msgs d" for d f k
    by (simp_all add: next_cookie_def new_dfd_def add_cont_def Let_def)
  have send: "waiting_msgs (send_call po k m f d) = waiting_msgs d" for k m f d
  proof -
    have "waiting_msgs (fst (dsend m d)) = waiting_msgs d"
      by simp
    then show ?thesis
      by (cases "dsend m d") (auto simp: send_call_def split: bool.split)
  qed
  show "waiting_msgs (fst (dbus_subscribe match g rule d)) = waiting_msgs d" "waiting_msgs (fst (dbus_watch po p d)) = waiting_msgs d"
    "waiting_msgs (add_cont f k d) = waiting_msgs d" "waiting_msgs (fst (dbus_call po a b c x y d)) = waiting_msgs d"
    "waiting_msgs (fst (dbus_publish po pa i ob os d)) = waiting_msgs d" "waiting_msgs (cancel_call po ck f d) = waiting_msgs d"
    by (auto simp: dbus_subscribe_def dbus_watch_def dbus_call_def dbus_publish_def cancel_call_def Let_def split_beta base send
        split: option.split)
qed

lemma waiting_proxies [simp]:
  "waiting_msgs (proxy_update n props d) = waiting_msgs d" "waiting_msgs (proxy_waited n ex d) = waiting_msgs d"
  "waiting_msgs (fst (new_proxy po iface path options d)) = waiting_msgs d"
  "waiting_msgs (fst (dbus_proxy_for po ji jp options d)) = waiting_msgs d"
  "waiting_msgs (proxies_update po s props path d) = waiting_msgs d"
  by (auto simp: proxy_update_def proxy_waited_def new_proxy_def dbus_proxy_for_def proxies_update_def Let_def split_beta
      split: option.split)

lemma waiting_emit [simp]: "waiting_msgs (fst (emit_to po path iface props cbs d)) = waiting_msgs d"
proof (induction cbs arbitrary: d)
  case (Cons cb cbs)
  have "waiting_msgs (fst (run_entry po props path cb d)) = waiting_msgs d"
    by (auto simp: run_entry_def split: option.split cache_func.split)
  then show ?case
    using Cons.IH by (cases "run_entry po props path cb d") (auto split: bool.split)
qed simp

lemma waiting_cache [simp]:
  "waiting_msgs (fst (cache_update po path iface props d)) = waiting_msgs d"
  "waiting_msgs (fst (cache_remove po path iface d)) = waiting_msgs d"
  by (auto simp: cache_update_def cache_remove_def split: prod.split)

lemma waiting_notify_ifaces [simp]: "waiting_msgs (fst (notify_ifaces po path xs d)) = waiting_msgs d"
proof (induction po path xs d rule: notify_ifaces.induct)
  case (2 po path iface props rest d)
  let ?r = "if truthy props then cache_update po path iface props d else cache_remove po path iface d"
  have "waiting_msgs (fst ?r) = waiting_msgs d"
    by simp
  then show ?case
    using 2 by (cases ?r) (auto split: bool.split)
qed simp

lemma waiting_notify_paths [simp]: "waiting_msgs (fst (notify_paths po xs d)) = waiting_msgs d"
proof (induction po xs d rule: notify_paths.induct)
  case (2 po path ifaces rest d)
  let ?r = "notify_ifaces po path (case ifaces of JObj kvs \<Rightarrow> kvs | _ \<Rightarrow> []) d"
  have "waiting_msgs (fst ?r) = waiting_msgs d"
    by simp
  then show ?case
    using 2 by (cases ?r) (auto split: bool.split)
qed simp


section \<open>All operations\<close>

definition ginv :: "dbus \<Rightarrow> bool" where
  "ginv d \<longleftrightarrow> minv d \<and> mirrored d \<and> list_all (\<lambda>m. props_ok (fld m ''notify'')) (waiting_msgs d)"

lemma ginv_same_view: "ginv d \<Longrightarrow> same_view d' d \<Longrightarrow> waiting_msgs d' = waiting_msgs d \<Longrightarrow> ginv d'"
  using same_view_inv [of d' d] by (simp add: ginv_def)

lemma ginv_step_ok: "ginv d \<Longrightarrow> step_ok d' d \<Longrightarrow> waiting_msgs d' = waiting_msgs d \<Longrightarrow> ginv d'"
  by (auto simp: ginv_def step_ok_def mirrored_def)

lemma same_view_fields [simp]:
  "same_view (d\<lparr>db_calls := cs\<rparr>) d" "same_view (d\<lparr>db_subs := ss\<rparr>) d" "same_view (d\<lparr>db_open := op\<rparr>) d"
  "same_view (d\<lparr>db_closed := cl\<rparr>) d" "same_view (d\<lparr>db_owner := ow\<rparr>) d" "same_view (d\<lparr>db_published := pu\<rparr>) d"
  "same_view (d\<lparr>db_unique_name := un\<rparr>) d" "same_view (d\<lparr>db_dfds := ds\<rparr>) d"
  by (simp_all add: same_view_def)

lemma ginv_basic:
  assumes "ginv d"
  shows "ginv (dlog e d)" "ginv (fst (dsend msg d))" "ginv (settle f r d)" "ginv (fst (dbus_subscribe match g rule d))"
    "ginv (fst (dbus_watch po p d))" "ginv (add_cont f k d)" "ginv (fst (dbus_call po a b c x y d))"
    "ginv (fst (dbus_publish po pa i ob os d))" "ginv (cancel_call po ck f d)" "ginv (d\<lparr>db_has_cache := h\<rparr>)"
    "ginv (d\<lparr>db_calls := cs\<rparr>)" "ginv (d\<lparr>db_subs := ss\<rparr>)" "ginv (d\<lparr>db_open := op\<rparr>)" "ginv (d\<lparr>db_closed := cl\<rparr>)"
    "ginv (d\<lparr>db_owner := ow\<rparr>)" "ginv (d\<lparr>db_published := pu\<rparr>)" "ginv (d\<lparr>db_unique_name := un\<rparr>)" "ginv (d\<lparr>db_dfds := ds\<rparr>)"
    "ginv (dlater (TRun f) d)" "ginv (dlater (TAnswer ck' an) d)" "ginv (proxy_waited n ex d)"
    "props_ok (fld m ''notify'') \<Longrightarrow> ginv (dlater (TMessage m) d)"
proof -
  show "ginv (proxy_waited n ex d)"
    using assms by (intro ginv_step_ok [OF assms] step_ok_waited) (simp_all add: ginv_def)
  show "props_ok (fld m ''notify'') \<Longrightarrow> ginv (dlater (TMessage m) d)"
    using assms same_view_inv [of "dlater (TMessage m) d" d] by (simp add: ginv_def)
qed (auto intro!: ginv_same_view [OF assms])

declare ginv_basic [inv_intros]

lemma ginv_meta [inv_intros]: "ginv d \<Longrightarrow> ginv (dbus_meta data d)"
proof -
  assume inv: "ginv d"
  let ?d = "d\<lparr>db_has_cache := True, db_cache := (db_cache d)\<lparr>dc_meta := JS_Value.extend (dc_meta (db_cache d)) [data]\<rparr>\<rparr>"
  have ext: "extends ?d d"
    by (simp add: extends_def)
  have "minv ?d"
    using inv by (intro minv_proxies [OF _ ext]) (simp_all add: ginv_def)
  moreover have "mirrors (db_cache ?d) px = mirrors (db_cache d) px" for px
    by (simp add: mirrors_def cache_lookup_def)
  ultimately have "step_ok ?d d"
    using ext by (simp add: step_ok_def)
  then have "ginv ?d"
    by (rule ginv_step_ok [OF inv]) simp
  then show ?thesis
    by (auto simp: dbus_meta_def intro!: inv_intros)
qed

lemma default_path_nonempty: "default_path iface \<noteq> []"
  by (simp add: default_path_def)

lemma ginv_proxy_for:
  assumes "ginv d" and "to_str (if truthy iface then iface else db_name d) \<noteq> []" and "truthy path \<longrightarrow> to_str path \<noteq> []"
  shows "ginv (fst (dbus_proxy_for po iface path options d))"
proof -
  have inv: "ginv (d\<lparr>db_has_cache := True\<rparr>)"
    using assms(1) by (intro inv_intros)
  then have "ginv (fst (new_proxy po i p options (d\<lparr>db_has_cache := True\<rparr>)))" if "i \<noteq> []" "p \<noteq> []" for i p
    using that by (intro ginv_step_ok [OF inv] step_ok_new_proxy) (simp_all add: ginv_def)
  then show ?thesis
    using assms(2,3) default_path_nonempty by (simp add: dbus_proxy_for_def Let_def)
qed

lemma ginv_new_proxies:
  assumes "ginv d" and "iface \<noteq> []"
  shows "ginv (new_proxies po iface ns options d)"
proof -
  define match where "match = [(''interface'', JStr iface), (''path_namespace'', JStr ns)]"
  define d1 where "d1 = (if opt options ''watch'' \<noteq> JBool False
    then fst (dbus_watch po (JObj match) (fst (dbus_subscribe match None True d))) else fst (dbus_subscribe match None True d))"
  define ps where "ps = \<lparr>ps_iface = iface, ps_namespace = ns, ps_items = [],
    ps_options = JS_Value.extend [(''watch'', JBool False), (''subscribe'', JBool False)] [JObj options]\<rparr>"
  define cb where "cb = \<lparr>ce_path = None, ce_iface = Some iface, ce_func = Some (FuncProxies (length (db_sets d)))\<rparr>"
  have inv1: "ginv d1"
    using assms(1) by (auto simp: d1_def intro!: inv_intros)
  have "same_view d1 d"
    by (auto simp: d1_def intro: same_view_trans [OF same_view_basic(6)])
  then have sets: "db_sets d1 = db_sets d"
    by (simp add: same_view_def)
  let ?d = "d1\<lparr>db_sets := db_sets d1 @ [ps], db_cache := cache_connect cb False (db_cache d1)\<rparr>"
  have lookup: "cache_lookup p i (db_cache ?d) = cache_lookup p i (db_cache d1)" for p i
    by (simp add: cache_lookup_def cache_connect_def)
  have "entry_ok ?d cb"
    using assms(2) by (simp add: entry_ok_def cb_def ps_def sets)
  moreover have "entry_ok ?d x" if "entry_ok d1 x" for x
    using that by (auto simp: entry_ok_def nth_append split: option.splits cache_func.splits)
  ultimately have "minv ?d"
    using inv1 lookup by (auto simp: ginv_def minv_def cache_connect_def)
  moreover have "mirrored ?d"
    using inv1 lookup by (simp add: ginv_def mirrored_def mirrors_def)
  ultimately have "ginv ?d"
    using inv1 by (simp add: ginv_def)
  moreover have "new_proxies po iface ns options d = ?d"
    by (cases "opt options ''watch'' = JBool False")
      (simp_all add: new_proxies_def Let_def cache_each_nothing d1_def match_def ps_def cb_def)
  ultimately show ?thesis by simp
qed

lemma ginv_notify: "ginv d \<Longrightarrow> props_ok data \<Longrightarrow> ginv (fst (dbus_notify po data d))"
proof -
  assume inv: "ginv d" and ok: "props_ok data"
  let ?d = "d\<lparr>db_has_cache := True\<rparr>" and ?xs = "case data of JObj kvs \<Rightarrow> kvs | _ \<Rightarrow> []"
  have 1: "ginv ?d"
    using inv by (intro inv_intros)
  have "list_all (\<lambda>(_, ifaces). case ifaces of JObj kvs \<Rightarrow> list_all (\<lambda>(_, props). obj_ok props) kvs | _ \<Rightarrow> True) ?xs"
    using ok by (auto simp: props_ok_def split: js.splits)
  note notified = notify_paths_ok [OF _ _ this, of ?d po]
  have "ginv (fst (notify_paths po ?xs ?d)) \<and> snd (notify_paths po ?xs ?d)"
    using 1 notified waiting_notify_paths [of po ?xs ?d] by (simp add: ginv_def)
  then show ?thesis
    by (cases "notify_paths po ?xs ?d") (auto simp: dbus_notify_def intro!: inv_intros)
qed

lemma ginv_settles: "ginv d \<Longrightarrow> ginv (fold (\<lambda>(_, f). settle f r) xs d)"
  by (induction xs arbitrary: d) (auto intro: ginv_basic)

lemma ginv_subscriptions: "ginv d \<Longrightarrow> ginv (fold (\<lambda>(_, su). run_subscription sig su) xs d)"
proof (induction xs arbitrary: d)
  case (Cons x xs)
  have "ginv (run_subscription sig (snd x) d)"
    using Cons.prems by (auto simp: run_subscription_def intro!: inv_intros split: sub_func.split)
  then show ?case
    using Cons.IH by (simp add: split_beta)
qed simp

lemma ginv_conts: "ginv d \<Longrightarrow> ginv (fold (run_cont r) ks d)"
  by (induction ks arbitrary: d) (auto simp: run_cont_def intro!: inv_intros split: dbus_cont.split dbus_outcome.split)

lemma ginv_closing [inv_intros]:
  assumes "ginv d"
  shows "ginv (close_perform po options d)" "ginv (dbus_on_close po options d)" "ginv (dbus_close po options d)"
proof -
  have perform: "ginv (close_perform po options d)" if "ginv d" for options d
    using that by (auto simp: close_perform_def Let_def intro!: inv_intros ginv_settles)
  have closed: "ginv (dbus_on_close po options d)" if "ginv d" for options d
    using that by (auto simp: dbus_on_close_def intro!: perform inv_intros)
  show "ginv (close_perform po options d)" "ginv (dbus_on_close po options d)" "ginv (dbus_close po options d)"
    using assms by (auto simp: dbus_close_def intro!: perform closed inv_intros)
qed

lemma ginv_dispatch:
  assumes "ginv d" and "props_ok (fld msg ''notify'')"
  shows "ginv (fst (dispatch_msg po impl msg d))"
  using assms ginv_notify
  by (auto simp: dispatch_msg_def dbus_handle_def Let_def intro!: inv_intros ginv_subscriptions split: sum.split)

lemma ginv_run_dtask:
  assumes "ginv d" and "case put_off t of None \<Rightarrow> True | Some m \<Rightarrow> props_ok (fld m ''notify'')"
  shows "ginv (fst (run_dtask po impl t d))"
proof -
  have "ginv (run_dfd f d)" for f
    using assms(1) by (auto simp: run_dfd_def intro!: inv_intros ginv_conts split: option.split)
  then show ?thesis
    using assms ginv_dispatch by (cases "(po, impl, t, d)" rule: run_dtask.cases) (auto intro!: inv_intros)
qed

lemma ginv_run_dtasks:
  assumes "ginv d" and "list_all (\<lambda>m. props_ok (fld m ''notify'')) (List.map_filter put_off ts)"
  shows "ginv (run_dtasks po impl ts d)"
  using assms
proof (induction ts arbitrary: d)
  case (Cons t ts)
  have "ginv (fst (run_dtask po impl t d))"
    using Cons.prems by (intro ginv_run_dtask) (auto simp: List.map_filter_def split: option.split)
  then show ?case
    using Cons.IH Cons.prems(2)
    by (cases "run_dtask po impl t d") (auto simp: List.map_filter_def split: bool.split option.splits if_splits)
qed simp

lemma ginv_drain: "ginv d \<Longrightarrow> ginv (dbus_drain po impl d)"
proof -
  assume inv: "ginv d"
  have "same_view (d\<lparr>db_later := []\<rparr>) d"
    by (simp add: same_view_def)
  then have "ginv (d\<lparr>db_later := []\<rparr>)"
    using inv same_view_inv [of "d\<lparr>db_later := []\<rparr>" d] by (simp add: ginv_def waiting_msgs_def List.map_filter_def)
  then show ?thesis
    using inv unfolding dbus_drain_def by (intro ginv_run_dtasks) (simp_all add: ginv_def waiting_msgs_def)
qed

lemma wf_json_fld: "wf_json v \<Longrightarrow> fld v k = JUndef \<or> wf_json (fld v k)"
  by (cases v) (auto simp: fld_def opt_def oget_map_of list_all_iff split: option.split dest!: map_of_SomeD)

lemma wf_json_props_ok: "wf_json v \<Longrightarrow> props_ok v"
  by (cases v) (fastforce simp: props_ok_def obj_ok_def list_all_iff split: js.splits)+

lemma json_parse_props_ok: "json_parse s = Some msg \<Longrightarrow> props_ok (fld msg k)"
  using wf_json_fld [OF json_parse_wf, of s msg k] wf_json_props_ok by (auto simp: props_ok_def)

lemma ginv_on_message:
  assumes "ginv d"
  shows "ginv (dbus_on_message po s d)"
proof -
  have "ginv (dbus_on_msg po msg d)" if "props_ok (fld msg ''notify'')" for msg
    using assms that by (auto simp: dbus_on_msg_def Let_def intro!: inv_intros split: option.split)
  then show ?thesis
    using assms json_parse_props_ok by (auto simp: dbus_on_message_def intro!: inv_intros split: option.splits js.split)
qed

lemma ginv_proxies_for: "ginv d \<Longrightarrow> to_str (if truthy iface then iface else db_name d) \<noteq> [] \<Longrightarrow>
  ginv (dbus_proxies_for po iface ns options d)"
  unfolding dbus_proxies_for_def by (rule ginv_new_proxies) (auto intro!: inv_intros)

lemma ginv_dexec: "ginv d \<Longrightarrow> denabled op d \<Longrightarrow> ginv (dexec po impl op d)"
  by (cases op)
    (auto simp: dbus_signal_def dbus_unsubscribe_def dbus_unwatch_def dbus_send_meta_def dbus_unpublish_def dbus_answer_def
       dbus_on_ready_def Let_def
       intro!: inv_intros ginv_proxy_for ginv_proxies_for ginv_notify ginv_drain ginv_on_message split: option.split)

lemma dreach_ginv: "dreach po impl name options d \<Longrightarrow> ginv d"
proof (induction rule: dreach.induct)
  case start
  then show ?case
    by (simp add: ginv_def minv_def mirrored_def new_dbus_def waiting_msgs_def List.map_filter_def cache_lookup_def obj_ok_def)
qed (rule ginv_dexec)

section \<open>Proxies mirror the cache\<close>

text \<open>C6: In every state a client can reach, a proxy is valid exactly when the cache has its interface at its path, and a valid
  proxy shows every property the cache has for it.
\<close>

theorem proxy_mirrors_cache:
  assumes "dreach po impl name options d" and "n < length (db_proxies d)"
    and "v = cache_lookup (px_path (db_proxies d ! n)) (px_iface (db_proxies d ! n)) (db_cache d)"
  shows "(px_valid (db_proxies d ! n) \<longleftrightarrow> truthy v) \<and>
         (px_valid (db_proxies d ! n) \<longrightarrow> (\<forall>k. fld v k \<noteq> JUndef \<longrightarrow> opt (px_data (db_proxies d ! n)) k = fld v k))"
  using dreach_ginv [OF assms(1)] assms(2,3) by (auto simp: ginv_def mirrored_def mirrors_def Let_def)

definition demo_mirror :: dbus where
  "demo_mirror =
     dexec init_po (\<lambda>_ _. False)
       (DoNotify (JObj [(''/a'', JObj [(''b.C'', JObj [(''Size'', JNum 5)])])]))
       (dexec init_po (\<lambda>_ _. False) (DoProxy (JStr ''b.C'') (JStr ''/a'') []) (new_dbus JNull JNull))"

lemma demo_mirror_reach: "dreach init_po (\<lambda>_ _. False) JNull JNull demo_mirror"
  unfolding demo_mirror_def
  by (intro dreach.intros) (simp_all add: props_ok_def obj_ok_def owf_def okeys_def)

theorem proxy_mirrors_cache_witness:
  "0 < length (db_proxies demo_mirror) \<and> px_valid (db_proxies demo_mirror ! 0) \<and>
   opt (px_data (db_proxies demo_mirror ! 0)) ''Size'' = JNum 5"
proof -
  let ?v = "cache_lookup (px_path (db_proxies demo_mirror ! 0)) (px_iface (db_proxies demo_mirror ! 0)) (db_cache demo_mirror)"
  have "0 < length (db_proxies demo_mirror)" and "truthy ?v" and "fld ?v ''Size'' = JNum 5"
    by code_simp+
  then show ?thesis
    using proxy_mirrors_cache [OF demo_mirror_reach, of 0 ?v] by simp
qed

end
