(* ===== verification/File_Access.thy ===== *)
theory File_Access
  imports JSON_Codec L10n Channel_Port Channel_Buffer
begin

text \<open>
  \<open>cockpit.file\<close> of \<open>src/base1/cockpit.js\<close>: reading, replacing, modifying and watching a file.  One record holds a file
  object with its channels and its deferreds.  What \<open>modify\<close> hangs on the promises of \<open>read\<close> and \<open>replace\<close> is a value
  of a datatype and runs from the queue of \<open>later_invoke\<close>; handlers of other code only see the log.

  The functions other code supplies are in a \<open>file_env\<close>: the syntax (\<open>parse\<close> and \<open>stringify\<close>, which may throw) and the
  callbacks of \<open>modify\<close>, where \<open>None\<close> is an \<open>undefined\<close>.
\<close>

section \<open>State\<close>

text \<open>
  The content of a file: \<open>null\<close>, a text, a typed array (its buffer, where in it the array begins, and its length), or
  what the syntax made of it.
\<close>

datatype content = CNull | CText string | CBytes "byte list" nat nat | CValue js

datatype file_exn = FBasic basic_error | FThrown js

datatype file_outcome = FDone content js | FTag js | FFail file_exn

record file_env =
  en_po :: po_state
  en_parse :: "(payload \<Rightarrow> js + content) option"
  en_stringify :: "(content \<Rightarrow> js + content) option"
  en_callback :: "nat \<Rightarrow> content \<Rightarrow> content option"

text \<open>The handlers of \<open>modify\<close>: its own deferred, its callback, and what it wrote.\<close>

datatype file_cont = AfterRead nat nat | AfterReplace nat nat content

datatype file_role = Reader | Replacer | Modifier

record file_dfd =
  fd_role :: file_role
  fd_state :: "file_outcome option"
  fd_conts :: "file_cont list"

datatype chan_kind = KRead nat "payload list" | KReplace nat content | KWatch

record file_chan =
  fc_kind :: chan_kind
  fc_opts :: options
  fc_open :: bool
  fc_sent :: "payload list"
  fc_done :: bool

datatype file_effect =
    FOpen nat options
  | FCloseChan nat options
  | FNotify nat content js "file_exn option"
  | FSettled nat file_outcome

record file_state =
  fi_path :: js
  fi_base :: options
  fi_binary :: bool
  fi_reading :: "nat option"
  fi_read_chan :: "nat option"
  fi_replace_chan :: "nat option"
  fi_watch_chan :: "nat option"
  fi_watch_tag :: js
  fi_callbacks :: "nat option list"
  fi_n_watch :: int
  fi_dfds :: "file_dfd list"
  fi_chans :: "file_chan list"
  fi_later :: "nat list"
  fi_log :: "file_effect list"

definition new_file :: "js \<Rightarrow> options \<Rightarrow> file_state" where
  "new_file path options =
     \<lparr>fi_path = path, fi_base = odel (JS_Value.extend [] [JObj options]) ''syntax'', fi_binary = truthy (opt options ''binary''),
      fi_reading = None, fi_read_chan = None, fi_replace_chan = None, fi_watch_chan = None, fi_watch_tag = JUndef,
      fi_callbacks = [], fi_n_watch = 0, fi_dfds = [], fi_chans = [], fi_later = [], fi_log = []\<rparr>"

definition file_parse :: "file_env \<Rightarrow> payload \<Rightarrow> js + content" where
  "file_parse env data =
     (case en_parse env of
        Some f \<Rightarrow> f data
      | None \<Rightarrow> Inr (case data of PStr s \<Rightarrow> CText s | PBytes b \<Rightarrow> CBytes b 0 (length b) | PArr b \<Rightarrow> CBytes b 0 (length b)))"

definition file_stringify :: "file_env \<Rightarrow> content \<Rightarrow> js + content" where
  "file_stringify env c = (case en_stringify env of Some f \<Rightarrow> f c | None \<Rightarrow> Inr c)"

definition flog :: "file_effect \<Rightarrow> file_state \<Rightarrow> file_state" where
  "flog e fi = fi\<lparr>fi_log := fi_log fi @ [e]\<rparr>"

section \<open>Deferreds and channels\<close>

definition new_fdfd :: "file_role \<Rightarrow> file_state \<Rightarrow> file_state \<times> nat" where
  "new_fdfd role fi =
     (fi\<lparr>fi_dfds := fi_dfds fi @ [\<lparr>fd_role = role, fd_state = None, fd_conts = []\<rparr>]\<rparr>, length (fi_dfds fi))"

definition fsettle :: "nat \<Rightarrow> file_outcome \<Rightarrow> file_state \<Rightarrow> file_state" where
  "fsettle f r fi =
     (if f < length (fi_dfds fi) \<and> fd_state (fi_dfds fi ! f) = None
      then fi\<lparr>fi_dfds := (fi_dfds fi)[f := (fi_dfds fi ! f)\<lparr>fd_state := Some r\<rparr>], fi_later := fi_later fi @ [f]\<rparr>
      else fi)"

definition fadd_cont :: "nat \<Rightarrow> file_cont \<Rightarrow> file_state \<Rightarrow> file_state" where
  "fadd_cont f k fi =
     (let fi = fi\<lparr>fi_dfds := (fi_dfds fi)[f := (fi_dfds fi ! f)\<lparr>fd_conts := fd_conts (fi_dfds fi ! f) @ [k]\<rparr>]\<rparr>
      in if fd_state (fi_dfds fi ! f) \<noteq> None then fi\<lparr>fi_later := fi_later fi @ [f]\<rparr> else fi)"

text \<open>\<open>cockpit.channel(extend({ }, base_channel_options, extra))\<close>.\<close>

definition open_fchan :: "chan_kind \<Rightarrow> options \<Rightarrow> file_state \<Rightarrow> file_state \<times> nat" where
  "open_fchan kind extra fi =
     (let opts = JS_Value.extend [] [JObj (fi_base fi), JObj extra]; c = length (fi_chans fi)
      in (flog (FOpen c opts) (fi\<lparr>fi_chans := fi_chans fi @
            [\<lparr>fc_kind = kind, fc_opts = opts, fc_open = True, fc_sent = [], fc_done = False\<rparr>]\<rparr>), c))"

definition set_fchan :: "nat \<Rightarrow> (file_chan \<Rightarrow> file_chan) \<Rightarrow> file_state \<Rightarrow> file_state" where
  "set_fchan c g fi = fi\<lparr>fi_chans := (fi_chans fi)[c := g (fi_chans fi ! c)]\<rparr>"

section \<open>Watch callbacks\<close>

definition fire_watch_callbacks :: "content \<Rightarrow> js \<Rightarrow> file_exn option \<Rightarrow> file_state \<Rightarrow> file_state" where
  "fire_watch_callbacks content tag error fi =
     (let fi = fi\<lparr>fi_watch_tag := (if truthy tag then tag else JNull)\<rparr>
      in fold (\<lambda>cb. case cb of None \<Rightarrow> id | Some k \<Rightarrow> flog (FNotify k content tag error)) (fi_callbacks fi) fi)"

section \<open>Reading\<close>

definition try_read :: "nat \<Rightarrow> file_state \<Rightarrow> file_state" where
  "try_read f fi =
     (case open_fchan (KRead f []) [(''payload'', JStr ''fsread1''), (''path'', fi_path fi)] fi of
        (fi, c) \<Rightarrow> fi\<lparr>fi_read_chan := Some c\<rparr>)"

definition file_read :: "file_state \<Rightarrow> file_state \<times> nat" where
  "file_read fi =
     (case fi_reading fi of
        Some f \<Rightarrow> (fi, f)
      | None \<Rightarrow> (case new_fdfd Reader fi of (fi, f) \<Rightarrow> ((try_read f fi)\<lparr>fi_reading := Some f\<rparr>, f)))"

text \<open>The close listener of a read channel, with the parts that came.\<close>

definition read_failed :: "nat \<Rightarrow> file_exn \<Rightarrow> file_state \<Rightarrow> file_state" where
  "read_failed f e fi = fsettle f (FFail e) (fire_watch_callbacks CNull JNull (Some e) fi)"

definition read_done :: "nat \<Rightarrow> content \<Rightarrow> js \<Rightarrow> file_state \<Rightarrow> file_state" where
  "read_done f content tag fi = fsettle f (FDone content tag) (fire_watch_callbacks content tag None fi)"

definition on_read_close :: "file_env \<Rightarrow> nat \<Rightarrow> payload list \<Rightarrow> options \<Rightarrow> file_state \<Rightarrow> file_state" where
  "on_read_close env f parts message fi =
     (let fi = fi\<lparr>fi_read_chan := None\<rparr>
      in if opt message ''problem'' = JStr ''change-conflict'' then try_read f fi
         else
           let fi = fi\<lparr>fi_reading := None\<rparr>
           in if truthy (opt message ''problem'')
              then read_failed f (FBasic (new_basic_error (opt message ''problem'') (opt message ''message'') (en_po env))) fi
              else if opt message ''tag'' = JStr ''-'' then read_done f CNull (opt message ''tag'') fi
              else case file_parse env (squash (fi_binary fi) parts) of
                     Inl e \<Rightarrow> read_failed f (FThrown e) fi
                   | Inr content \<Rightarrow> read_done f content (opt message ''tag'') fi)"

section \<open>Replacing\<close>

definition on_replace_close :: "file_env \<Rightarrow> nat \<Rightarrow> content \<Rightarrow> options \<Rightarrow> file_state \<Rightarrow> file_state" where
  "on_replace_close env f content message fi =
     (let fi = fi\<lparr>fi_replace_chan := None\<rparr>
      in if truthy (opt message ''problem'')
         then fsettle f (FFail (FBasic (new_basic_error (opt message ''problem'') (opt message ''message'') (en_po env)))) fi
         else fsettle f (FTag (opt message ''tag'')) (fire_watch_callbacks content (opt message ''tag'') None fi))"

text \<open>The message of a watch channel; \<open>JSON.parse\<close> of a typed array takes its text.\<close>

definition on_watch_message :: "payload \<Rightarrow> file_state \<Rightarrow> file_state" where
  "on_watch_message data fi =
     (case json_parse (text_of data) of
        None \<Rightarrow> fi
      | Some message \<Rightarrow>
          if truthy message \<and> fld message ''path'' = fi_path fi \<and> truthy (fld message ''tag'') \<and>
             fld message ''tag'' \<noteq> fi_watch_tag fi
          then fst (file_read fi) else fi)"

text \<open>An event of a channel of the file, dispatched while the channel is open.\<close>

definition file_event :: "file_env \<Rightarrow> nat \<Rightarrow> chan_event \<Rightarrow> file_state \<Rightarrow> file_state" where
  "file_event env c ev fi =
     (case ev of
        EvMessage data \<Rightarrow>
          (case fc_kind (fi_chans fi ! c) of
             KRead f parts \<Rightarrow> set_fchan c (\<lambda>ch. ch\<lparr>fc_kind := KRead f (parts @ [data])\<rparr>) fi
           | KReplace f content \<Rightarrow> fi
           | KWatch \<Rightarrow> on_watch_message data fi)
      | EvClose message \<Rightarrow>
          (let fi = set_fchan c (\<lambda>ch. ch\<lparr>fc_open := False\<rparr>) fi
           in case fc_kind (fi_chans fi ! c) of
                KRead f parts \<Rightarrow> on_read_close env f parts message fi
              | KReplace f content \<Rightarrow> on_replace_close env f content message fi
              | KWatch \<Rightarrow> fi)
      | _ \<Rightarrow> fi)"

text \<open>\<open>channel.close(problem)\<close>: nothing when it is closed, otherwise its close event comes at once.\<close>

definition close_fchan :: "file_env \<Rightarrow> nat \<Rightarrow> options \<Rightarrow> file_state \<Rightarrow> file_state" where
  "close_fchan env c options fi =
     (if fc_open (fi_chans fi ! c)
      then file_event env c (EvClose (oset options ''command'' (JStr ''close''))) (flog (FCloseChan c options) fi)
      else fi)"

text \<open>The batches of a content of a length: where each begins, and how long it is.\<close>

definition batch :: nat where
  "batch = 16 * 1024"

function batch_spans :: "nat \<Rightarrow> nat \<Rightarrow> (nat \<times> nat) list" where
  "batch_spans len i = (if i < len then (i, min (len - i) batch) # batch_spans len (i + batch) else [])"
  by pat_completeness auto
termination
  by (relation "measure (\<lambda>(len, i). len - i)") (auto simp: batch_def)

declare batch_spans.simps [simp del, code del]

text \<open>Equations that evaluate the test before the rest.\<close>

definition spans_if :: "bool \<Rightarrow> nat \<Rightarrow> nat \<Rightarrow> (nat \<times> nat) list" where
  "spans_if again len i = (if again then (i, min (len - i) batch) # batch_spans len (i + batch) else [])"

lemma spans_if_code [code]:
  "spans_if True len i = (i, min (len - i) batch) # batch_spans len (i + batch)" "spans_if False len i = []"
  by (simp_all add: spans_if_def)

lemma batch_spans_code [code]: "batch_spans len i = spans_if (i < len) len i"
  by (subst batch_spans.simps) (simp add: spans_if_def)

text \<open>
  The messages for a content: a typed array is sent from its buffer, by positions in the array; a value of the syntax
  that is not a text has no length.  (An array has one, but its \<open>substr\<close> is no function; arrays are taken to
  come with a \<open>stringify\<close>.)
\<close>

definition content_messages :: "content \<Rightarrow> payload list" where
  "content_messages c =
     (case c of
        CNull \<Rightarrow> []
      | CText s \<Rightarrow> map (\<lambda>(i, n). PStr (take n (drop i s))) (batch_spans (length s) 0)
      | CBytes buf off len \<Rightarrow> map (\<lambda>(i, n). PBytes (take n (drop i buf))) (batch_spans len 0)
      | CValue (JStr s) \<Rightarrow> map (\<lambda>(i, n). PStr (take n (drop i s))) (batch_spans (length s) 0)
      | CValue _ \<Rightarrow> [])"

definition send_content :: "nat \<Rightarrow> content \<Rightarrow> file_state \<Rightarrow> file_state" where
  "send_content c content fi =
     set_fchan c (\<lambda>ch. ch\<lparr>fc_sent := fc_sent ch @ content_messages content, fc_done := True\<rparr>) fi"

definition file_replace :: "file_env \<Rightarrow> content \<Rightarrow> js \<Rightarrow> file_state \<Rightarrow> file_state \<times> nat" where
  "file_replace env new_content expected_tag fi =
     (case new_fdfd Replacer fi of
        (fi, f) \<Rightarrow>
          (case (if new_content = CNull then Inr CNull else file_stringify env new_content) of
             Inl e \<Rightarrow> (fsettle f (FFail (FThrown e)) fi, f)
           | Inr file_content \<Rightarrow>
               let fi = (case fi_replace_chan fi of
                           None \<Rightarrow> fi | Some c \<Rightarrow> close_fchan env c [(''problem'', JStr ''abort'')] fi);
                   (fi, c) = open_fchan (KReplace f new_content)
                     [(''payload'', JStr ''fsreplace1''), (''path'', fi_path fi), (''tag'', expected_tag)] fi;
                   fi = fi\<lparr>fi_replace_chan := Some c\<rparr>
               in (send_content c file_content fi, f)))"

section \<open>Modifying\<close>

definition modify_update :: "file_env \<Rightarrow> nat \<Rightarrow> nat \<Rightarrow> content \<Rightarrow> js \<Rightarrow> file_state \<Rightarrow> file_state" where
  "modify_update env m k content tag fi =
     (let new_content = (case en_callback env k content of None \<Rightarrow> content | Some c \<Rightarrow> c)
      in case file_replace env new_content tag fi of (fi, r) \<Rightarrow> fadd_cont r (AfterReplace m k new_content) fi)"

definition read_then_update :: "nat \<Rightarrow> nat \<Rightarrow> file_state \<Rightarrow> file_state" where
  "read_then_update m k fi = (case file_read fi of (fi, r) \<Rightarrow> fadd_cont r (AfterRead m k) fi)"

definition file_modify :: "file_env \<Rightarrow> nat \<Rightarrow> (content \<times> js) option \<Rightarrow> file_state \<Rightarrow> file_state \<times> nat" where
  "file_modify env k initial fi =
     (case new_fdfd Modifier fi of
        (fi, m) \<Rightarrow>
          (case initial of
             None \<Rightarrow> (read_then_update m k fi, m)
           | Some (content, tag) \<Rightarrow> (modify_update env m k content tag fi, m)))"

definition exn_problem :: "file_exn \<Rightarrow> js" where
  "exn_problem e = (case e of FBasic b \<Rightarrow> be_problem b | FThrown v \<Rightarrow> fld v ''problem'')"

definition run_fcont :: "file_env \<Rightarrow> file_outcome \<Rightarrow> file_cont \<Rightarrow> file_state \<Rightarrow> file_state" where
  "run_fcont env r k fi =
     (case k of
        AfterRead m cb \<Rightarrow>
          (case r of
             FDone content tag \<Rightarrow> modify_update env m cb content tag fi
           | FTag tag \<Rightarrow> fi
           | FFail e \<Rightarrow> fsettle m (FFail e) fi)
      | AfterReplace m cb new_content \<Rightarrow>
          (case r of
             FTag tag \<Rightarrow> fsettle m (FDone new_content tag) fi
           | FDone _ _ \<Rightarrow> fi
           | FFail e \<Rightarrow>
               if exn_problem e = JStr ''change-conflict'' then read_then_update m cb fi
               else fsettle m (FFail e) fi))"

text \<open>The handlers of a deferred run, and a turn of \<open>later_drain\<close>.\<close>

definition run_fdfd :: "file_env \<Rightarrow> nat \<Rightarrow> file_state \<Rightarrow> file_state" where
  "run_fdfd env f fi =
     (case (if f < length (fi_dfds fi) then fd_state (fi_dfds fi ! f) else None) of
        None \<Rightarrow> fi
      | Some r \<Rightarrow>
          fold (run_fcont env r) (fd_conts (fi_dfds fi ! f))
            (flog (FSettled f r) (fi\<lparr>fi_dfds := (fi_dfds fi)[f := (fi_dfds fi ! f)\<lparr>fd_conts := []\<rparr>]\<rparr>)))"

definition file_drain :: "file_env \<Rightarrow> file_state \<Rightarrow> file_state" where
  "file_drain env fi = fold (run_fdfd env) (fi_later fi) (fi\<lparr>fi_later := []\<rparr>)"

section \<open>Watching and closing\<close>

definition ensure_watch_channel :: "file_env \<Rightarrow> file_state \<Rightarrow> file_state" where
  "ensure_watch_channel env fi =
     (if fi_n_watch fi > 0 then
        (case fi_watch_chan fi of
           Some _ \<Rightarrow> fi
         | None \<Rightarrow>
             (case open_fchan KWatch [(''payload'', JStr ''fswatch1''), (''path'', fi_path fi)] fi of
                (fi, c) \<Rightarrow> fi\<lparr>fi_watch_chan := Some c\<rparr>))
      else
        (case fi_watch_chan fi of
           None \<Rightarrow> fi
         | Some c \<Rightarrow> (close_fchan env c [] fi)\<lparr>fi_watch_chan := None\<rparr>))"

definition file_watch :: "file_env \<Rightarrow> nat option \<Rightarrow> file_state \<Rightarrow> file_state" where
  "file_watch env callback fi =
     (let fi = (case callback of None \<Rightarrow> fi | Some k \<Rightarrow> fi\<lparr>fi_callbacks := fi_callbacks fi @ [Some k]\<rparr>);
          fi = ensure_watch_channel env (fi\<lparr>fi_n_watch := fi_n_watch fi + 1\<rparr>)
      in fst (file_read (fi\<lparr>fi_watch_tag := JNull\<rparr>)))"

definition file_unwatch :: "file_env \<Rightarrow> nat option \<Rightarrow> file_state \<Rightarrow> file_state" where
  "file_unwatch env callback fi =
     (let fi = (case callback of
                  None \<Rightarrow> fi
                | Some k \<Rightarrow>
                    (case index_of (Some k) (fi_callbacks fi) of
                       None \<Rightarrow> fi | Some i \<Rightarrow> fi\<lparr>fi_callbacks := (fi_callbacks fi)[i := None]\<rparr>))
      in ensure_watch_channel env (fi\<lparr>fi_n_watch := fi_n_watch fi - 1\<rparr>))"

definition close_slot :: "file_env \<Rightarrow> nat option \<Rightarrow> file_state \<Rightarrow> file_state" where
  "close_slot env slot fi =
     (case slot of None \<Rightarrow> fi | Some c \<Rightarrow> close_fchan env c [(''problem'', JStr ''cancelled'')] fi)"

definition file_close :: "file_env \<Rightarrow> file_state \<Rightarrow> file_state" where
  "file_close env fi =
     (let fi = close_slot env (fi_read_chan fi) fi;
          fi = close_slot env (fi_replace_chan fi) fi
      in close_slot env (fi_watch_chan fi) fi)"

section \<open>What replacing sends\<close>

lemma batch_spans_concat: "concat (map (\<lambda>(i, n). take n (drop i s)) (batch_spans (length s) i)) = drop i s"
proof (induction "length s" i rule: batch_spans.induct)
  case (1 i)
  have "take (length s - i) (drop i s) = drop i s"
    by simp
  then have "take (min (length s - i) batch) (drop i s) @ drop (i + batch) s = drop i s"
    by (metis append_take_drop_id drop_drop add.commute length_drop min.commute take_all_iff min_def not_le_imp_less order_less_imp_le take_all)
  then show ?case
    using 1 by (subst batch_spans.simps) auto
qed

lemma batch_spans_bounds: "(i', n) \<in> set (batch_spans len i) \<Longrightarrow> 0 < n \<and> n \<le> batch \<and> i' + n \<le> len"
proof (induction len i rule: batch_spans.induct)
  case (1 len i)
  then show ?case
    by (subst (asm) (2) batch_spans.simps) (auto simp: batch_def split: if_splits)
qed

text \<open>The bytes of a content, as codes.\<close>

fun content_codes :: "content \<Rightarrow> nat list" where
  "content_codes (CText s) = codes (PStr s)"
| "content_codes (CBytes buf off len) = codes (PBytes (take len (drop off buf)))"
| "content_codes _ = []"

text \<open>Texts, and typed arrays that begin where their buffer does.\<close>

fun whole :: "content \<Rightarrow> bool" where
  "whole (CText s) = True"
| "whole (CBytes buf off len) = (off = 0 \<and> len \<le> length buf)"
| "whole CNull = True"
| "whole (CValue v) = False"

lemma content_messages_text:
  "concat (map codes (map (\<lambda>(i, n). PStr (take n (drop i s))) (batch_spans (length s) 0))) = map of_char s"
proof -
  have "concat (map codes (map (\<lambda>(i, n). PStr (take n (drop i s))) (batch_spans (length s) 0))) =
      map of_char (concat (map (\<lambda>(i, n). take n (drop i s)) (batch_spans (length s) 0)))"
    by (simp add: map_concat comp_def split_beta)
  then show ?thesis
    by (simp add: batch_spans_concat)
qed

lemma content_messages_bytes:
  assumes "len \<le> length buf"
  shows "concat (map codes (map (\<lambda>(i, n). PBytes (take n (drop i buf))) (batch_spans len 0))) = map unat (take len buf)"
proof -
  have "map (\<lambda>(i, n). take n (drop i buf)) (batch_spans len 0) = map (\<lambda>(i, n). take n (drop i (take len buf))) (batch_spans len 0)"
    using batch_spans_bounds [of _ _ len 0] by (fastforce simp: drop_take)
  then have "concat (map codes (map (\<lambda>(i, n). PBytes (take n (drop i buf))) (batch_spans len 0))) =
      map unat (concat (map (\<lambda>(i, n). take n (drop i (take len buf))) (batch_spans (length (take len buf)) 0)))"
    using assms by (simp add: map_concat comp_def split_beta cong: map_cong)
  then show ?thesis
    using batch_spans_concat [of "take len buf" 0] by simp
qed

lemma content_messages_whole:
  assumes "whole c"
  shows "concat (map codes (content_messages c)) = content_codes c \<and>
           (\<forall>m \<in> set (content_messages c). 0 < block_length m \<and> block_length m \<le> batch)"
proof (cases c)
  case (CText s)
  have "0 < length (take n (drop i s)) \<and> length (take n (drop i s)) \<le> batch" if "(i, n) \<in> set (batch_spans (length s) 0)" for i n
    using batch_spans_bounds [OF that] by auto
  then show ?thesis
    using content_messages_text [of s] by (auto simp: CText content_messages_def)
next
  case (CBytes buf off len)
  have "0 < length (take n (drop i buf)) \<and> length (take n (drop i buf)) \<le> batch" if "(i, n) \<in> set (batch_spans len 0)" for i n
    using batch_spans_bounds [OF that] assms CBytes by auto
  then show ?thesis
    using content_messages_bytes [of len buf] assms by (auto simp: CBytes content_messages_def)
qed (use assms in \<open>auto simp: content_messages_def\<close>)

text \<open>The channel that replacing opens.\<close>

lemma file_replace_chan:
  assumes "file_stringify env c = Inr fc" and "c \<noteq> CNull" and "file_replace env c tag fi = (fi', f)"
  shows "\<exists>k. fi_replace_chan fi' = Some k \<and> k < length (fi_chans fi') \<and> fc_kind (fi_chans fi' ! k) = KReplace f c \<and>
           fc_open (fi_chans fi' ! k) \<and> fc_sent (fi_chans fi' ! k) = content_messages fc \<and> fc_done (fi_chans fi' ! k)"
  using assms
  by (auto simp: file_replace_def new_fdfd_def open_fchan_def send_content_def set_fchan_def flog_def Let_def
      split: option.splits)


definition plain_env :: file_env where
  "plain_env = \<lparr>en_po = init_po, en_parse = None, en_stringify = None, en_callback = (\<lambda>_ _. None)\<rparr>"


text \<open>A typed array that begins later in its buffer is sent from the beginning of the buffer.\<close>

lemma subarray_sends_wrong: "content_messages (CBytes [1, 2, 3, 4] 2 2) = [PBytes [1, 2]]"
  by (simp add: content_messages_def batch_spans.simps batch_def)

text \<open>An empty text sends no message, which for the bridge means that the file is to be removed.\<close>

lemma empty_text_removes: "content_messages (CText []) = content_messages CNull"
  by (simp add: content_messages_def batch_spans.simps)

end
