(* ===== verification/File_Modify.thy ===== *)
theory File_Modify
  imports File_Access
begin

text \<open>
  A file object together with the file it is about.  The bridge is modelled by what \<open>doc/protocol.md\<close> promises of
  \<open>fsread1\<close> and \<open>fsreplace1\<close>: a read ends with the content and the tag it belongs to, and a replace with an expected tag
  succeeds only while that is the tag of the file.  Other programs may change the file at any time.

  Over all interleavings, \<open>modify\<close> loses no update: what it commits is its callback applied to what the file holds
  at that moment, and it resolves with what the file then held.
\<close>

section \<open>The file and its versions\<close>

text \<open>The tag of the file, and what it holds at each tag there ever was; \<open>None\<close> is a file that does not exist.\<close>

record disk =
  dk_tag :: js
  dk_hist :: "js \<Rightarrow> payload option option"

definition stored :: "file_env \<Rightarrow> payload option \<Rightarrow> content option" where
  "stored env v =
     (case v of None \<Rightarrow> Some CNull | Some p \<Rightarrow> (case file_parse env p of Inl _ \<Rightarrow> None | Inr c \<Rightarrow> Some c))"

definition written :: "bool \<Rightarrow> payload list \<Rightarrow> payload option" where
  "written binary msgs = (if msgs = [] then None else Some (squash binary msgs))"

section \<open>Steps\<close>

datatype file_op =
    DoRead
  | DoReplace content js
  | DoModify nat "(content \<times> js) option"
  | DoWatchFile "nat option"
  | DoUnwatchFile "nat option"
  | DoCloseFile
  | DoRunLater
  | OnFileEvent nat chan_event

fun fexec :: "file_env \<Rightarrow> file_op \<Rightarrow> file_state \<Rightarrow> file_state" where
  "fexec env DoRead fi = fst (file_read fi)"
| "fexec env (DoReplace content tag) fi = fst (file_replace env content tag fi)"
| "fexec env (DoModify k initial) fi = fst (file_modify env k initial fi)"
| "fexec env (DoWatchFile cb) fi = file_watch env cb fi"
| "fexec env (DoUnwatchFile cb) fi = file_unwatch env cb fi"
| "fexec env DoCloseFile fi = file_close env fi"
| "fexec env DoRunLater fi = file_drain env fi"
| "fexec env (OnFileEvent c ev) fi = file_event env c ev fi"

definition holds :: "file_env \<Rightarrow> (js \<Rightarrow> payload option option) \<Rightarrow> js \<Rightarrow> content \<Rightarrow> bool" where
  "holds env hist tag c = (case hist tag of None \<Rightarrow> False | Some v \<Rightarrow> stored env v = Some c)"

lemma holds_iff: "holds env hist tag c \<longleftrightarrow> (\<exists>v. hist tag = Some v \<and> stored env v = Some c)"
  by (simp add: holds_def split: option.split)

text \<open>
  What may happen without a change of the file: the user passes \<open>modify\<close> only contents with their tags, and a channel
  that reads ends without a problem only with the content of its tag.
\<close>

fun fenabled :: "file_env \<Rightarrow> (js \<Rightarrow> payload option option) \<Rightarrow> file_op \<Rightarrow> file_state \<Rightarrow> bool" where
  "fenabled env hist (DoModify k (Some (content, tag))) fi = holds env hist tag content"
| "fenabled env hist (OnFileEvent c ev) fi =
     (c < length (fi_chans fi) \<and> fc_open (fi_chans fi ! c) \<and>
      (case ev of
         EvClose message \<Rightarrow>
           (case fc_kind (fi_chans fi ! c) of
              KRead f parts \<Rightarrow> truthy (opt message ''problem'') \<or>
                hist (opt message ''tag'') =
                  Some (if opt message ''tag'' = JStr ''-'' then None else Some (squash (fi_binary fi) parts))
            | KReplace f content \<Rightarrow> truthy (opt message ''problem'')
            | KWatch \<Rightarrow> True)
       | _ \<Rightarrow> True))"
| "fenabled env hist op fi = True"

text \<open>A new version: its tag is new, or was the tag of the same content.\<close>

definition new_version :: "js \<Rightarrow> payload option \<Rightarrow> disk \<Rightarrow> disk \<Rightarrow> bool" where
  "new_version tag v dk dk' \<longleftrightarrow>
     tag \<noteq> JUndef \<and> (dk_hist dk tag = None \<or> dk_hist dk tag = Some v) \<and>
     dk' = \<lparr>dk_tag = tag, dk_hist = (dk_hist dk)(tag := Some v)\<rparr>"

inductive freach :: "file_env \<Rightarrow> js \<Rightarrow> options \<Rightarrow> file_state \<Rightarrow> disk \<Rightarrow> bool" for env path options where
  start: "dk_hist dk JUndef = None \<Longrightarrow> dk_hist dk (dk_tag dk) \<noteq> None \<Longrightarrow> freach env path options (new_file path options) dk"
| step: "freach env path options fi dk \<Longrightarrow> fenabled env (dk_hist dk) op fi \<Longrightarrow> freach env path options (fexec env op fi) dk"
| commit: "freach env path options fi dk \<Longrightarrow> c < length (fi_chans fi) \<Longrightarrow> fc_open (fi_chans fi ! c) \<Longrightarrow> fc_done (fi_chans fi ! c) \<Longrightarrow>
    fc_kind (fi_chans fi ! c) = KReplace f content \<Longrightarrow> \<not> truthy (opt message ''problem'') \<Longrightarrow>
    opt (fc_opts (fi_chans fi ! c)) ''tag'' = JUndef \<or> opt (fc_opts (fi_chans fi ! c)) ''tag'' = dk_tag dk \<Longrightarrow>
    new_version (opt message ''tag'') (written (fi_binary fi) (fc_sent (fi_chans fi ! c))) dk dk' \<Longrightarrow>
    freach env path options (file_event env c (EvClose message) fi) dk'"
| other: "freach env path options fi dk \<Longrightarrow> new_version tag v dk dk' \<Longrightarrow> freach env path options fi dk'"

section \<open>The invariant\<close>

definition writes :: "file_env \<Rightarrow> content \<Rightarrow> payload list \<Rightarrow> bool" where
  "writes env n msgs \<longleftrightarrow>
     (\<exists>fc. (if n = CNull then Inr CNull else file_stringify env n) = Inr fc \<and> msgs = content_messages fc)"

definition keeps :: "file_env \<Rightarrow> bool \<Rightarrow> (js \<Rightarrow> payload option option) \<Rightarrow> js \<Rightarrow> content \<Rightarrow> bool" where
  "keeps env binary hist tag n \<longleftrightarrow> (\<exists>msgs. writes env n msgs \<and> hist tag = Some (written binary msgs))"

definition new_of :: "file_env \<Rightarrow> nat \<Rightarrow> content \<Rightarrow> content" where
  "new_of env k old = (case en_callback env k old of None \<Rightarrow> old | Some c \<Rightarrow> c)"

definition role_of :: "file_state \<Rightarrow> nat \<Rightarrow> file_role \<Rightarrow> bool" where
  "role_of fi f r \<longleftrightarrow> f < length (fi_dfds fi) \<and> fd_role (fi_dfds fi ! f) = r"

definition modify_chan :: "file_env \<Rightarrow> (js \<Rightarrow> payload option option) \<Rightarrow> file_state \<Rightarrow> nat \<Rightarrow> nat \<Rightarrow> content \<Rightarrow> bool" where
  "modify_chan env hist fi r k n \<longleftrightarrow>
     (\<exists>c < length (fi_chans fi). fc_kind (fi_chans fi ! c) = KReplace r n \<and>
        (\<exists>old. holds env hist (opt (fc_opts (fi_chans fi ! c)) ''tag'') old \<and> n = new_of env k old))"

definition cont_ok :: "file_env \<Rightarrow> (js \<Rightarrow> payload option option) \<Rightarrow> file_state \<Rightarrow> nat \<Rightarrow> file_cont \<Rightarrow> bool" where
  "cont_ok env hist fi r k \<longleftrightarrow>
     (case k of
        AfterRead m cb \<Rightarrow> role_of fi r Reader \<and> role_of fi m Modifier
      | AfterReplace m cb n \<Rightarrow> role_of fi r Replacer \<and> role_of fi m Modifier \<and>
          ((\<exists>e. fd_state (fi_dfds fi ! r) = Some (FFail e)) \<or> modify_chan env hist fi r cb n))"

definition dfd_ok :: "file_env \<Rightarrow> (js \<Rightarrow> payload option option) \<Rightarrow> file_state \<Rightarrow> nat \<Rightarrow> bool" where
  "dfd_ok env hist fi r \<longleftrightarrow>
     (\<forall>c t. fd_role (fi_dfds fi ! r) = Reader \<longrightarrow> fd_state (fi_dfds fi ! r) = Some (FDone c t) \<longrightarrow> holds env hist t c) \<and>
     (\<forall>n t. fd_role (fi_dfds fi ! r) = Modifier \<longrightarrow> fd_state (fi_dfds fi ! r) = Some (FDone n t) \<longrightarrow>
        keeps env (fi_binary fi) hist t n) \<and>
     (\<forall>k \<in> set (fd_conts (fi_dfds fi ! r)). cont_ok env hist fi r k)"

definition chan_ok :: "file_env \<Rightarrow> (js \<Rightarrow> payload option option) \<Rightarrow> file_state \<Rightarrow> file_chan \<Rightarrow> bool" where
  "chan_ok env hist fi x \<longleftrightarrow>
     (case fc_kind x of
        KRead f parts \<Rightarrow> role_of fi f Reader
      | KReplace f n \<Rightarrow> role_of fi f Replacer \<and> (fc_done x \<longrightarrow> writes env n (fc_sent x)) \<and>
          (\<forall>t. fd_state (fi_dfds fi ! f) = Some (FTag t) \<longrightarrow> keeps env (fi_binary fi) hist t n)
      | KWatch \<Rightarrow> True)"

definition one_each :: "file_state \<Rightarrow> bool" where
  "one_each fi \<longleftrightarrow>
     (\<forall>c c' r n n'. c < length (fi_chans fi) \<longrightarrow> c' < length (fi_chans fi) \<longrightarrow>
        fc_kind (fi_chans fi ! c) = KReplace r n \<longrightarrow> fc_kind (fi_chans fi ! c') = KReplace r n' \<longrightarrow> c = c')"

definition slots_ok :: "file_state \<Rightarrow> bool" where
  "slots_ok fi \<longleftrightarrow>
     (\<forall>f. fi_reading fi = Some f \<longrightarrow> role_of fi f Reader) \<and>
     (\<forall>c. fi_read_chan fi = Some c \<longrightarrow> c < length (fi_chans fi)) \<and>
     (\<forall>c. fi_replace_chan fi = Some c \<longrightarrow> c < length (fi_chans fi)) \<and>
     (\<forall>c. fi_watch_chan fi = Some c \<longrightarrow> c < length (fi_chans fi) \<and> fc_kind (fi_chans fi ! c) = KWatch)"

definition finv :: "file_env \<Rightarrow> (js \<Rightarrow> payload option option) \<Rightarrow> file_state \<Rightarrow> bool" where
  "finv env hist fi \<longleftrightarrow>
     (\<forall>r < length (fi_dfds fi). dfd_ok env hist fi r) \<and> (\<forall>x \<in> set (fi_chans fi). chan_ok env hist fi x) \<and>
     one_each fi \<and> slots_ok fi"

section \<open>Growing\<close>

text \<open>Versions stay, roles stay, what is settled stays, and channels keep what they are.\<close>

fun kind_sig :: "chan_kind \<Rightarrow> chan_kind" where
  "kind_sig (KRead f parts) = KRead f []"
| "kind_sig k = k"

definition fext :: "file_state \<Rightarrow> file_state \<Rightarrow> bool" where
  "fext fi' fi \<longleftrightarrow>
     fi_binary fi' = fi_binary fi \<and> length (fi_dfds fi) \<le> length (fi_dfds fi') \<and>
     (\<forall>r < length (fi_dfds fi). fd_role (fi_dfds fi' ! r) = fd_role (fi_dfds fi ! r) \<and>
        (fd_state (fi_dfds fi ! r) \<noteq> None \<longrightarrow> fd_state (fi_dfds fi' ! r) = fd_state (fi_dfds fi ! r))) \<and>
     length (fi_chans fi) \<le> length (fi_chans fi') \<and>
     (\<forall>c < length (fi_chans fi). kind_sig (fc_kind (fi_chans fi' ! c)) = kind_sig (fc_kind (fi_chans fi ! c)) \<and>
        fc_opts (fi_chans fi' ! c) = fc_opts (fi_chans fi ! c))"

lemma fext_refl [simp]: "fext fi fi"
  by (simp add: fext_def)

lemma fext_trans: "fext c b \<Longrightarrow> fext b a \<Longrightarrow> fext c a"
  by (auto simp: fext_def)

lemma kind_sig_replace [simp]: "kind_sig k = KReplace r n \<longleftrightarrow> k = KReplace r n" "KReplace r n = kind_sig k \<longleftrightarrow> k = KReplace r n"
  by (cases k; auto)+

lemma role_of_fext: "role_of fi f r \<Longrightarrow> fext fi' fi \<Longrightarrow> role_of fi' f r"
  by (auto simp: role_of_def fext_def)

lemma holds_mono: "holds env hist t c \<Longrightarrow> hist \<subseteq>\<^sub>m hist' \<Longrightarrow> holds env hist' t c"
  unfolding holds_iff map_le_def by (metis domI)

lemma keeps_mono: "keeps env b hist t c \<Longrightarrow> hist \<subseteq>\<^sub>m hist' \<Longrightarrow> keeps env b hist' t c"
  unfolding keeps_def map_le_def by (metis domI)

lemma modify_chan_mono:
  assumes "modify_chan env hist fi r k n" and "fext fi' fi" and "hist \<subseteq>\<^sub>m hist'"
  shows "modify_chan env hist' fi' r k n"
proof -
  obtain c old where c: "c < length (fi_chans fi)" "fc_kind (fi_chans fi ! c) = KReplace r n"
    "holds env hist (opt (fc_opts (fi_chans fi ! c)) ''tag'') old" "n = new_of env k old"
    using assms(1) by (auto simp: modify_chan_def)
  then have "c < length (fi_chans fi')" "fc_kind (fi_chans fi' ! c) = KReplace r n" "fc_opts (fi_chans fi' ! c) = fc_opts (fi_chans fi ! c)"
    using assms(2) by (fastforce simp: fext_def)+
  then show ?thesis
    using c(3,4) holds_mono [OF _ assms(3)] unfolding modify_chan_def by metis
qed

lemma cont_ok_mono:
  assumes "cont_ok env hist fi r k" and "fext fi' fi" and "hist \<subseteq>\<^sub>m hist'"
  shows "cont_ok env hist' fi' r k"
proof -
  have "fd_state (fi_dfds fi' ! r) = Some (FFail e)" if "role_of fi r Replacer" "fd_state (fi_dfds fi ! r) = Some (FFail e)" for e
    using that assms(2) by (auto simp: fext_def role_of_def)
  then show ?thesis
    using assms role_of_fext [OF _ assms(2)] modify_chan_mono [OF _ assms(2,3)]
    by (auto simp: cont_ok_def split: file_cont.splits)
qed

lemma finv_hist:
  assumes "finv env hist fi" and "hist \<subseteq>\<^sub>m hist'"
  shows "finv env hist' fi"
proof -
  have "dfd_ok env hist' fi r" if "dfd_ok env hist fi r" for r
    using that holds_mono [OF _ assms(2)] keeps_mono [OF _ assms(2)] cont_ok_mono [OF _ fext_refl assms(2)]
    by (simp add: dfd_ok_def)
  moreover have "chan_ok env hist' fi x" if "chan_ok env hist fi x" for x
    using that keeps_mono [OF _ assms(2)] by (auto simp: chan_ok_def split: chan_kind.splits)
  ultimately show ?thesis
    using assms(1) by (simp add: finv_def)
qed

section \<open>The primitive steps\<close>

text \<open>Steps that do not touch deferreds, channels and slots.\<close>

definition same_core :: "file_state \<Rightarrow> file_state \<Rightarrow> bool" where
  "same_core fi' fi \<longleftrightarrow> fi_binary fi' = fi_binary fi \<and> fi_dfds fi' = fi_dfds fi \<and> fi_chans fi' = fi_chans fi \<and>
     fi_reading fi' = fi_reading fi \<and> fi_read_chan fi' = fi_read_chan fi \<and> fi_replace_chan fi' = fi_replace_chan fi \<and>
     fi_watch_chan fi' = fi_watch_chan fi"

lemma same_core_role: "same_core fi' fi \<Longrightarrow> role_of fi' = role_of fi"
  by (simp add: same_core_def role_of_def fun_eq_iff)

lemma same_core_fext: "same_core fi' fi \<Longrightarrow> fext fi' fi"
  by (simp add: same_core_def fext_def)

lemma same_core_finv: "same_core fi' fi \<Longrightarrow> finv env hist fi' = finv env hist fi"
proof -
  assume same: "same_core fi' fi"
  have "cont_ok env hist fi' = cont_ok env hist fi"
    using same same_core_role [OF same] by (auto simp: cont_ok_def modify_chan_def same_core_def fun_eq_iff split: file_cont.splits)
  then have "dfd_ok env hist fi' = dfd_ok env hist fi" "chan_ok env hist fi' = chan_ok env hist fi" "slots_ok fi' = slots_ok fi"
    using same same_core_role [OF same]
    by (auto simp: dfd_ok_def chan_ok_def slots_ok_def same_core_def fun_eq_iff split: chan_kind.splits)
  then show ?thesis
    using same by (simp add: finv_def one_each_def same_core_def)
qed

lemma same_core_fire [simp]: "same_core (fire_watch_callbacks content tag error fi) fi"
proof -
  have "same_core (fold (\<lambda>cb. case cb of None \<Rightarrow> id | Some k \<Rightarrow> flog (FNotify k content tag error)) cbs fi') fi'" for cbs fi'
    by (induction cbs arbitrary: fi') (auto simp: same_core_def flog_def split: option.split)
  then show ?thesis
    by (simp add: fire_watch_callbacks_def Let_def same_core_def)
qed

lemma same_core_basic [simp]:
  "same_core (flog e fi) fi" "same_core (fi\<lparr>fi_watch_tag := t\<rparr>) fi" "same_core (fi\<lparr>fi_callbacks := cbs\<rparr>) fi"
  "same_core (fi\<lparr>fi_n_watch := n\<rparr>) fi" "same_core (fi\<lparr>fi_later := l\<rparr>) fi"
  by (simp_all add: same_core_def flog_def)

lemmas finv_same [simp] = same_core_fire [THEN same_core_finv] same_core_basic [THEN same_core_finv]

lemmas fext_same [simp] = same_core_fire [THEN same_core_fext] same_core_basic [THEN same_core_fext]

lemmas role_same [simp] = same_core_fire [THEN same_core_role] same_core_basic [THEN same_core_role]

lemma finvD:
  assumes "finv env hist fi"
  shows "r < length (fi_dfds fi) \<Longrightarrow> dfd_ok env hist fi r" "c < length (fi_chans fi) \<Longrightarrow> chan_ok env hist fi (fi_chans fi ! c)"
    "one_each fi" "slots_ok fi"
  using assms by (simp_all add: finv_def)

lemma chan_ok_cong:
  assumes "chan_ok env hist fi x" and "fext fi' fi"
    and "\<And>f t. role_of fi f Replacer \<Longrightarrow> fd_state (fi_dfds fi' ! f) = Some (FTag t) \<Longrightarrow> fd_state (fi_dfds fi ! f) = Some (FTag t)"
  shows "chan_ok env hist fi' x"
  using assms role_of_fext [OF _ assms(2)] by (auto simp: chan_ok_def fext_def split: chan_kind.splits)

lemma slots_ok_fext:
  assumes "slots_ok fi" and "fext fi' fi" and "fi_reading fi' = fi_reading fi" and "fi_read_chan fi' = fi_read_chan fi"
    and "fi_replace_chan fi' = fi_replace_chan fi" and "fi_watch_chan fi' = fi_watch_chan fi"
  shows "slots_ok fi'"
proof -
  have "fc_kind (fi_chans fi' ! c) = KWatch" if "c < length (fi_chans fi)" "fc_kind (fi_chans fi ! c) = KWatch" for c
  proof -
    have "kind_sig (fc_kind (fi_chans fi' ! c)) = KWatch"
      using that assms(2) by (simp add: fext_def)
    then show ?thesis
      by (cases "fc_kind (fi_chans fi' ! c)") auto
  qed
  moreover have "length (fi_chans fi) \<le> length (fi_chans fi')"
    using assms(2) by (simp add: fext_def)
  ultimately show ?thesis
    using assms(1,3-6) role_of_fext [OF _ assms(2)] by (auto simp: slots_ok_def)
qed

text \<open>A new deferred.\<close>

lemma new_fdfd_sel [simp]:
  "snd (new_fdfd role fi) = length (fi_dfds fi)" "fi_chans (fst (new_fdfd role fi)) = fi_chans fi"
  "fi_path (fst (new_fdfd role fi)) = fi_path fi" "fi_reading (fst (new_fdfd role fi)) = fi_reading fi"
  "fi_replace_chan (fst (new_fdfd role fi)) = fi_replace_chan fi" "fi_binary (fst (new_fdfd role fi)) = fi_binary fi"
  by (simp_all add: new_fdfd_def)

lemma fext_new_fdfd [simp]: "fext (fst (new_fdfd role fi)) fi"
  by (simp add: fext_def new_fdfd_def nth_append)

lemma role_new_fdfd [simp]: "role_of (fst (new_fdfd role fi)) (length (fi_dfds fi)) role"
  by (simp add: role_of_def new_fdfd_def)

lemma finv_new_fdfd:
  assumes "finv env hist fi"
  shows "finv env hist (fst (new_fdfd role fi))"
proof -
  let ?fi = "fst (new_fdfd role fi)"
  have old: "fi_dfds ?fi ! r = fi_dfds fi ! r" if "r < length (fi_dfds fi)" for r
    using that by (simp add: new_fdfd_def nth_append)
  have "dfd_ok env hist ?fi r" if "r < Suc (length (fi_dfds fi))" for r
  proof (cases "r = length (fi_dfds fi)")
    case True
    then show ?thesis by (simp add: dfd_ok_def new_fdfd_def)
  next
    case False
    then show ?thesis
      using that finvD(1) [OF assms, of r] old [of r] cont_ok_mono [OF _ fext_new_fdfd map_le_refl, of env hist fi _ _ role]
      by (auto simp: dfd_ok_def)
  qed
  moreover have "chan_ok env hist ?fi x" if "chan_ok env hist fi x" for x
    using that by (rule chan_ok_cong) (simp_all add: role_of_def old)
  moreover have "slots_ok ?fi"
    using finvD(4) [OF assms] by (rule slots_ok_fext) (simp_all, simp_all add: new_fdfd_def)
  moreover have "length (fi_dfds ?fi) = Suc (length (fi_dfds fi))"
    by (simp add: new_fdfd_def)
  ultimately show ?thesis
    using assms by (simp add: finv_def one_each_def)
qed

text \<open>Settling.\<close>

definition outcome_ok :: "file_env \<Rightarrow> (js \<Rightarrow> payload option option) \<Rightarrow> file_state \<Rightarrow> nat \<Rightarrow> file_outcome \<Rightarrow> bool" where
  "outcome_ok env hist fi f r \<longleftrightarrow>
     (case r of
        FDone c t \<Rightarrow> (role_of fi f Reader \<longrightarrow> holds env hist t c) \<and> (role_of fi f Modifier \<longrightarrow> keeps env (fi_binary fi) hist t c)
      | FTag t \<Rightarrow> (\<forall>c < length (fi_chans fi). \<forall>n. fc_kind (fi_chans fi ! c) = KReplace f n \<longrightarrow> keeps env (fi_binary fi) hist t n)
      | FFail e \<Rightarrow> True)"

lemma fsettle_sel [simp]:
  "length (fi_dfds (fsettle f r fi)) = length (fi_dfds fi)" "fi_chans (fsettle f r fi) = fi_chans fi"
  "fd_role (fi_dfds (fsettle f r fi) ! g) = fd_role (fi_dfds fi ! g)"
  "fd_conts (fi_dfds (fsettle f r fi) ! g) = fd_conts (fi_dfds fi ! g)" "fi_binary (fsettle f r fi) = fi_binary fi"
  by (auto simp: fsettle_def nth_list_update)

lemma fsettle_state:
  "fd_state (fi_dfds (fsettle f r fi) ! g) =
     (if g = f \<and> f < length (fi_dfds fi) \<and> fd_state (fi_dfds fi ! f) = None then Some r else fd_state (fi_dfds fi ! g))"
  by (auto simp: fsettle_def nth_list_update)

lemma fext_fsettle [simp]: "fext (fsettle f r fi) fi"
  by (auto simp: fext_def fsettle_state)

lemma finv_fsettle:
  assumes inv: "finv env hist fi" and ok: "outcome_ok env hist fi f r"
  shows "finv env hist (fsettle f r fi)"
proof -
  have "dfd_ok env hist (fsettle f r fi) g" if "g < length (fi_dfds fi)" for g
    using finvD(1) [OF inv that] ok that cont_ok_mono [OF _ fext_fsettle map_le_refl, of env hist fi g _ f r]
    by (auto simp: dfd_ok_def outcome_ok_def fsettle_state role_of_def split: if_splits file_outcome.splits)
  moreover have "chan_ok env hist (fsettle f r fi) (fi_chans fi ! c)" if "c < length (fi_chans fi)" for c
    using finvD(2) [OF inv that] ok that role_of_fext [OF _ fext_fsettle, of fi _ _ f r]
    by (auto simp: chan_ok_def outcome_ok_def fsettle_state split: chan_kind.splits if_splits file_outcome.splits)
  moreover have "slots_ok (fsettle f r fi)"
    using finvD(4) [OF inv] by (rule slots_ok_fext) (simp_all, simp_all add: fsettle_def)
  ultimately show ?thesis
    using inv by (auto simp: finv_def one_each_def in_set_conv_nth)
qed

text \<open>A handler of \<open>modify\<close>.\<close>

lemma fadd_cont_sel [simp]:
  "length (fi_dfds (fadd_cont f k fi)) = length (fi_dfds fi)" "fi_chans (fadd_cont f k fi) = fi_chans fi"
  "fd_role (fi_dfds (fadd_cont f k fi) ! g) = fd_role (fi_dfds fi ! g)"
  "fd_state (fi_dfds (fadd_cont f k fi) ! g) = fd_state (fi_dfds fi ! g)"
  "fi_binary (fadd_cont f k fi) = fi_binary fi"
  by (cases "f < length (fi_dfds fi)"; auto simp: fadd_cont_def Let_def nth_list_update list_update_beyond)+

lemma fadd_cont_conts:
  "fd_conts (fi_dfds (fadd_cont f k fi) ! g) =
     (if g = f \<and> f < length (fi_dfds fi) then fd_conts (fi_dfds fi ! g) @ [k] else fd_conts (fi_dfds fi ! g))"
  by (cases "f < length (fi_dfds fi)"; auto simp: fadd_cont_def Let_def nth_list_update list_update_beyond)

lemma fext_fadd_cont [simp]: "fext (fadd_cont f k fi) fi"
  by (simp add: fext_def)

lemma finv_fadd_cont:
  assumes inv: "finv env hist fi" and ok: "cont_ok env hist fi f k"
  shows "finv env hist (fadd_cont f k fi)"
proof -
  note mono = cont_ok_mono [OF _ fext_fadd_cont map_le_refl, of env hist fi _ _ f k]
  have "dfd_ok env hist (fadd_cont f k fi) g" if "g < length (fi_dfds fi)" for g
    using finvD(1) [OF inv that] mono [OF ok] mono [of g] by (auto simp: dfd_ok_def fadd_cont_conts split: if_splits)
  moreover have "chan_ok env hist (fadd_cont f k fi) x" if "chan_ok env hist fi x" for x
    using that by (rule chan_ok_cong) simp_all
  moreover have "slots_ok (fadd_cont f k fi)"
    using finvD(4) [OF inv] by (rule slots_ok_fext) (simp_all, simp_all add: fadd_cont_def Let_def)
  ultimately show ?thesis
    using inv by (simp add: finv_def one_each_def)
qed

text \<open>A new channel.\<close>

lemma open_fchan_sel [simp]:
  "snd (open_fchan kind extra fi) = length (fi_chans fi)" "fi_dfds (fst (open_fchan kind extra fi)) = fi_dfds fi"
  "fi_binary (fst (open_fchan kind extra fi)) = fi_binary fi" "fi_reading (fst (open_fchan kind extra fi)) = fi_reading fi"
  "fi_chans (fst (open_fchan kind extra fi)) = fi_chans fi @ [\<lparr>fc_kind = kind,
     fc_opts = JS_Value.extend [] [JObj (fi_base fi), JObj extra], fc_open = True, fc_sent = [], fc_done = False\<rparr>]"
  by (simp_all add: open_fchan_def flog_def Let_def)

lemma fext_open_fchan [simp]: "fext (fst (open_fchan kind extra fi)) fi"
  by (simp add: fext_def nth_append)

lemma finv_open_fchan:
  assumes inv: "finv env hist fi" and new: "chan_ok env hist fi \<lparr>fc_kind = kind, fc_opts = opts, fc_open = True, fc_sent = [], fc_done = False\<rparr>"
    and fresh: "\<And>r n n' c. kind = KReplace r n \<Longrightarrow> c < length (fi_chans fi) \<Longrightarrow> fc_kind (fi_chans fi ! c) \<noteq> KReplace r n'"
  shows "finv env hist (fst (open_fchan kind extra fi))"
proof -
  let ?fi = "fst (open_fchan kind extra fi)"
  have "dfd_ok env hist ?fi g" if "g < length (fi_dfds fi)" for g
    using finvD(1) [OF inv that] cont_ok_mono [OF _ fext_open_fchan map_le_refl, of env hist fi g _ kind extra]
    by (auto simp: dfd_ok_def)
  moreover have "chan_ok env hist ?fi x" if "chan_ok env hist fi x" for x
    using that by (rule chan_ok_cong) simp_all
  moreover have "chan_ok env hist fi (x\<lparr>fc_opts := o1\<rparr>) = chan_ok env hist fi x" for x o1
    by (simp add: chan_ok_def split: chan_kind.split)
  then have "chan_ok env hist fi \<lparr>fc_kind = kind, fc_opts = o2, fc_open = True, fc_sent = [], fc_done = False\<rparr>" for o2
    using new by (metis file_chan.update_convs(2))
  moreover have "slots_ok ?fi"
    using finvD(4) [OF inv] by (rule slots_ok_fext) (simp_all, simp_all add: open_fchan_def flog_def Let_def)
  moreover have "one_each ?fi"
    using finvD(3) [OF inv] fresh unfolding one_each_def by (auto simp: nth_append less_Suc_eq)
  ultimately show ?thesis
    using inv by (simp add: finv_def)
qed

text \<open>A change of a channel that leaves its kind, up to what was read.\<close>

lemma set_fchan_sel [simp]:
  "length (fi_chans (set_fchan c g fi)) = length (fi_chans fi)" "fi_dfds (set_fchan c g fi) = fi_dfds fi"
  "fi_binary (set_fchan c g fi) = fi_binary fi" "fi_reading (set_fchan c g fi) = fi_reading fi"
  by (simp_all add: set_fchan_def)

lemma set_fchan_nth: "fi_chans (set_fchan c g fi) ! d = (if d = c \<and> c < length (fi_chans fi) then g (fi_chans fi ! c) else fi_chans fi ! d)"
  by (cases "c < length (fi_chans fi)") (auto simp: set_fchan_def nth_list_update list_update_beyond)

lemma fext_set_fchan:
  assumes "kind_sig (fc_kind (g (fi_chans fi ! c))) = kind_sig (fc_kind (fi_chans fi ! c))" "fc_opts (g (fi_chans fi ! c)) = fc_opts (fi_chans fi ! c)"
  shows "fext (set_fchan c g fi) fi"
  using assms by (auto simp: fext_def set_fchan_nth)

lemma finv_set_fchan:
  assumes inv: "finv env hist fi"
    and kind: "kind_sig (fc_kind (g (fi_chans fi ! c))) = kind_sig (fc_kind (fi_chans fi ! c))" "fc_opts (g (fi_chans fi ! c)) = fc_opts (fi_chans fi ! c)"
    and new: "c < length (fi_chans fi) \<Longrightarrow> chan_ok env hist fi (g (fi_chans fi ! c))"
  shows "finv env hist (set_fchan c g fi)"
proof -
  note ext = fext_set_fchan [where g = g, OF kind]
  have "dfd_ok env hist (set_fchan c g fi) r" if "r < length (fi_dfds fi)" for r
    using finvD(1) [OF inv that] cont_ok_mono [OF _ ext map_le_refl, of env hist r] by (auto simp: dfd_ok_def)
  moreover have ok: "chan_ok env hist (set_fchan c g fi) x" if "chan_ok env hist fi x" for x
    using that by (rule chan_ok_cong) (simp_all add: ext)
  then have "chan_ok env hist (set_fchan c g fi) (fi_chans (set_fchan c g fi) ! d)" if "d < length (fi_chans fi)" for d
    using finvD(2) [OF inv that] new by (auto simp: set_fchan_nth)
  moreover have "slots_ok (set_fchan c g fi)"
    using finvD(4) [OF inv] by (rule slots_ok_fext) (simp_all add: ext, simp_all add: set_fchan_def)
  moreover have "fc_kind (fi_chans (set_fchan c g fi) ! d) = KReplace r n \<longleftrightarrow> fc_kind (fi_chans fi ! d) = KReplace r n" for d r n
    using kind(1) by (simp add: set_fchan_nth) (metis kind_sig_replace(1))
  then have "one_each (set_fchan c g fi)"
    using finvD(3) [OF inv] by (simp add: one_each_def)
  ultimately show ?thesis
    by (auto simp: finv_def in_set_conv_nth)
qed

text \<open>Slots.\<close>

lemma slot_same:
  "role_of (fi\<lparr>fi_reading := a\<rparr>) = role_of fi" "role_of (fi\<lparr>fi_read_chan := b\<rparr>) = role_of fi"
  "role_of (fi\<lparr>fi_replace_chan := b\<rparr>) = role_of fi" "role_of (fi\<lparr>fi_watch_chan := b\<rparr>) = role_of fi"
  by (simp_all add: role_of_def fun_eq_iff)

lemma fext_slots [simp]:
  "fext (fi\<lparr>fi_reading := a\<rparr>) fi" "fext (fi\<lparr>fi_read_chan := b\<rparr>) fi" "fext (fi\<lparr>fi_replace_chan := b\<rparr>) fi" "fext (fi\<lparr>fi_watch_chan := b\<rparr>) fi"
  by (simp_all add: fext_def)

lemma finv_slots:
  assumes "finv env hist fi" and "fi_dfds fi' = fi_dfds fi" and "fi_chans fi' = fi_chans fi" and "fi_binary fi' = fi_binary fi" and "slots_ok fi'"
  shows "finv env hist fi'"
proof -
  have "role_of fi' = role_of fi"
    by (simp add: role_of_def fun_eq_iff assms)
  then have "cont_ok env hist fi' = cont_ok env hist fi"
    using assms by (auto simp: cont_ok_def modify_chan_def fun_eq_iff split: file_cont.splits)
  then have "dfd_ok env hist fi' = dfd_ok env hist fi" "chan_ok env hist fi' = chan_ok env hist fi"
    using assms \<open>role_of fi' = role_of fi\<close> by (auto simp: dfd_ok_def chan_ok_def fun_eq_iff split: chan_kind.splits)
  then show ?thesis
    using assms by (simp add: finv_def one_each_def)
qed

lemma finv_set_slots:
  assumes "finv env hist fi"
  shows "(\<And>f. a = Some f \<Longrightarrow> role_of fi f Reader) \<Longrightarrow> finv env hist (fi\<lparr>fi_reading := a\<rparr>)"
    "(\<And>c. b = Some c \<Longrightarrow> c < length (fi_chans fi)) \<Longrightarrow> finv env hist (fi\<lparr>fi_read_chan := b\<rparr>)"
    "(\<And>c. b = Some c \<Longrightarrow> c < length (fi_chans fi)) \<Longrightarrow> finv env hist (fi\<lparr>fi_replace_chan := b\<rparr>)"
    "(\<And>c. b = Some c \<Longrightarrow> c < length (fi_chans fi) \<and> fc_kind (fi_chans fi ! c) = KWatch) \<Longrightarrow> finv env hist (fi\<lparr>fi_watch_chan := b\<rparr>)"
  using finvD(4) [OF assms] by (auto intro!: finv_slots [OF assms] simp: slots_ok_def slot_same)

section \<open>The operations\<close>

lemma try_read_unfold:
  "try_read f fi = (fst (open_fchan (KRead f []) [(''payload'', JStr ''fsread1''), (''path'', fi_path fi)] fi))\<lparr>fi_read_chan := Some (length (fi_chans fi))\<rparr>"
  using open_fchan_sel(1) [of "KRead f []" "[(''payload'', JStr ''fsread1''), (''path'', fi_path fi)]" fi]
  by (simp add: try_read_def split_beta del: open_fchan_sel)

lemma try_read_ok:
  assumes "finv env hist fi" and "role_of fi f Reader"
  shows "finv env hist (try_read f fi)" "fext (try_read f fi) fi"
proof -
  have "finv env hist (fst (open_fchan (KRead f []) extra fi))" for extra
    by (rule finv_open_fchan [OF assms(1), where opts = "[]"]) (simp_all add: chan_ok_def assms(2))
  then show "finv env hist (try_read f fi)"
    unfolding try_read_unfold by (rule finv_set_slots(2)) simp
  show "fext (try_read f fi) fi"
    unfolding try_read_unfold by (rule fext_trans [OF fext_slots(2) fext_open_fchan])
qed

lemma file_read_ok:
  assumes "finv env hist fi"
  shows "finv env hist (fst (file_read fi))" "fext (fst (file_read fi)) fi" "role_of (fst (file_read fi)) (snd (file_read fi)) Reader"
proof -
  let ?n = "fst (new_fdfd Reader fi)" and ?f = "length (fi_dfds fi)"
  have new: "finv env hist ?n" "role_of ?n ?f Reader"
    using finv_new_fdfd [OF assms] by simp_all
  have read: "fst (file_read fi) = (try_read ?f ?n)\<lparr>fi_reading := Some ?f\<rparr>" "snd (file_read fi) = ?f" if "fi_reading fi = None"
    using that new_fdfd_sel(1) [of Reader fi] by (simp_all add: file_read_def split_beta del: new_fdfd_sel)
  have role: "role_of (try_read ?f ?n) ?f Reader"
    by (rule role_of_fext [OF new(2) try_read_ok(2) [OF new]])
  show "role_of (fst (file_read fi)) (snd (file_read fi)) Reader"
  proof (cases "fi_reading fi")
    case (Some f)
    then show ?thesis
      using finvD(4) [OF assms] by (simp add: file_read_def slots_ok_def)
  qed (simp add: read slot_same role)
  show "finv env hist (fst (file_read fi))"
  proof (cases "fi_reading fi")
    case None
    show ?thesis
      unfolding read(1) [OF None] using role by (intro finv_set_slots(1) [OF try_read_ok(1) [OF new]]) simp
  qed (simp add: file_read_def assms)
  show "fext (fst (file_read fi)) fi"
  proof (cases "fi_reading fi")
    case None
    show ?thesis
      unfolding read(1) [OF None] by (intro fext_trans [OF fext_slots(1) fext_trans [OF try_read_ok(2) [OF new] fext_new_fdfd]])
  qed (simp add: file_read_def)
qed

lemma fsettle_fire_ok:
  assumes "finv env hist fi" and "outcome_ok env hist (fire_watch_callbacks c t e fi) f r"
  shows "finv env hist (fsettle f r (fire_watch_callbacks c t e fi))" "fext (fsettle f r (fire_watch_callbacks c t e fi)) fi"
  using assms by (intro finv_fsettle, simp, simp) (rule fext_trans [OF fext_fsettle fext_same(1)])

lemma fire_sel [simp]: "fi_binary (fire_watch_callbacks c t e fi) = fi_binary fi" "fi_chans (fire_watch_callbacks c t e fi) = fi_chans fi"
  "fi_dfds (fire_watch_callbacks c t e fi) = fi_dfds fi"
  using same_core_fire [of c t e fi] by (simp_all add: same_core_def)

lemma on_read_close_ok:
  assumes inv: "finv env hist fi" and role: "role_of fi f Reader"
    and close: "truthy (opt message ''problem'') \<or>
      hist (opt message ''tag'') = Some (if opt message ''tag'' = JStr ''-'' then None else Some (squash (fi_binary fi) parts))"
  shows "finv env hist (on_read_close env f parts message fi)" "fext (on_read_close env f parts message fi) fi"
proof -
  let ?a = "fi\<lparr>fi_read_chan := None\<rparr>"
  let ?b = "?a\<lparr>fi_reading := None\<rparr>"
  have a: "finv env hist ?a" "role_of ?a f Reader"
    using finv_set_slots(2) [OF inv, of None] role by (simp_all add: slot_same)
  have b: "finv env hist ?b" "fext ?b fi"
    using finv_set_slots(1) [OF a(1), of None] fext_trans [OF fext_slots(1) fext_slots(2)] by simp_all
  have roleb: "\<not> role_of ?b f Modifier"
    using role by (simp add: slot_same role_of_def)
  have done_ok: "outcome_ok env hist (fire_watch_callbacks c t e ?b) f (FDone c t)" if "holds env hist t c" for c t e
    using that roleb by (simp add: outcome_ok_def)
  have fail_ok: "outcome_ok env hist (fire_watch_callbacks c t e ?b) f (FFail x)" for c t e x
    by (simp add: outcome_ok_def)
  note failed = fsettle_fire_ok [OF b(1) fail_ok] and success = fsettle_fire_ok [OF b(1) done_ok]
  have held: "holds env hist (opt message ''tag'') c"
    if "\<not> truthy (opt message ''problem'')" "if opt message ''tag'' = JStr ''-'' then c = CNull else file_parse env (squash (fi_binary fi) parts) = Inr c" for c
    using that close by (auto simp: holds_iff stored_def split: if_splits)
  have eq: "on_read_close env f parts message fi =
      (if opt message ''problem'' = JStr ''change-conflict'' then try_read f ?a
       else if truthy (opt message ''problem'')
       then read_failed f (FBasic (new_basic_error (opt message ''problem'') (opt message ''message'') (en_po env))) ?b
       else if opt message ''tag'' = JStr ''-'' then read_done f CNull (opt message ''tag'') ?b
       else case file_parse env (squash (fi_binary fi) parts) of
              Inl e \<Rightarrow> read_failed f (FThrown e) ?b | Inr content \<Rightarrow> read_done f content (opt message ''tag'') ?b)"
    by (simp add: on_read_close_def Let_def)
  show "finv env hist (on_read_close env f parts message fi)"
    using try_read_ok(1) [OF a] failed(1) success(1) [OF held] by (auto simp: eq read_failed_def read_done_def split: sum.split)
  show "fext (on_read_close env f parts message fi) fi"
    using fext_trans [OF try_read_ok(2) [OF a] fext_slots(2)] fext_trans [OF failed(2) b(2)] fext_trans [OF success(2) [OF held] b(2)]
    by (auto simp: eq read_failed_def read_done_def split: sum.split)
qed

lemma on_replace_close_ok:
  assumes inv: "finv env hist fi" and role: "role_of fi f Replacer"
    and close: "truthy (opt message ''problem'') \<or> outcome_ok env hist fi f (FTag (opt message ''tag''))"
  shows "finv env hist (on_replace_close env f content message fi)" "fext (on_replace_close env f content message fi) fi"
proof -
  let ?a = "fi\<lparr>fi_replace_chan := None\<rparr>"
  have a: "finv env hist ?a"
    using finv_set_slots(3) [OF inv, of None] by simp
  have ok: "outcome_ok env hist ?a f (FFail e)" "outcome_ok env hist fi f (FTag t) \<Longrightarrow> outcome_ok env hist (fire_watch_callbacks c t x ?a) f (FTag t)" for e c t x
    by (simp_all add: outcome_ok_def)
  show "finv env hist (on_replace_close env f content message fi)"
    using close finv_fsettle [OF a ok(1)] fsettle_fire_ok(1) [OF a ok(2)] by (auto simp: on_replace_close_def Let_def)
  have "fext (fsettle f r (fire_watch_callbacks c t x ?a)) fi" "fext (fsettle f r ?a) fi" for r c t x
    by (rule fext_trans [OF fext_fsettle fext_trans [OF fext_same(1) fext_slots(3)]], rule fext_trans [OF fext_fsettle fext_slots(3)])
  then show "fext (on_replace_close env f content message fi) fi"
    by (auto simp: on_replace_close_def Let_def)
qed

definition event_ok :: "file_env \<Rightarrow> (js \<Rightarrow> payload option option) \<Rightarrow> nat \<Rightarrow> chan_event \<Rightarrow> file_state \<Rightarrow> bool" where
  "event_ok env hist c ev fi \<longleftrightarrow> c < length (fi_chans fi) \<and>
     (case ev of
        EvClose message \<Rightarrow>
          (case fc_kind (fi_chans fi ! c) of
             KRead f parts \<Rightarrow> truthy (opt message ''problem'') \<or>
               hist (opt message ''tag'') =
                 Some (if opt message ''tag'' = JStr ''-'' then None else Some (squash (fi_binary fi) parts))
           | KReplace f n \<Rightarrow> truthy (opt message ''problem'') \<or> keeps env (fi_binary fi) hist (opt message ''tag'') n
           | KWatch \<Rightarrow> True)
      | _ \<Rightarrow> True)"

lemma file_close_event_ok:
  assumes inv: "finv env hist fi" and ok: "event_ok env hist c (EvClose message) fi"
  shows "finv env hist (file_event env c (EvClose message) fi)" "fext (file_event env c (EvClose message) fi) fi"
proof -
  let ?fi = "set_fchan c (\<lambda>ch. ch\<lparr>fc_open := False\<rparr>) fi"
  have c: "c < length (fi_chans fi)"
    using ok by (simp add: event_ok_def)
  have ext: "fext ?fi fi"
    by (rule fext_set_fchan) simp_all
  have "chan_ok env hist fi ((fi_chans fi ! c)\<lparr>fc_open := False\<rparr>)"
    using finvD(2) [OF inv c] by (cases "fc_kind (fi_chans fi ! c)") (simp_all add: chan_ok_def)
  then have inv': "finv env hist ?fi"
    by (intro finv_set_fchan [OF inv]) simp_all
  have kind: "fc_kind (fi_chans ?fi ! d) = fc_kind (fi_chans fi ! d)" for d
    by (simp add: set_fchan_nth)
  have role: "role_of ?fi = role_of fi"
    by (simp add: role_of_def fun_eq_iff)
  have "finv env hist (file_event env c (EvClose message) fi) \<and> fext (file_event env c (EvClose message) fi) ?fi"
  proof (cases "fc_kind (fi_chans fi ! c)")
    case (KRead f parts)
    then have r: "role_of ?fi f Reader"
      using finvD(2) [OF inv c] by (simp add: chan_ok_def role)
    have "truthy (opt message ''problem'') \<or> hist (opt message ''tag'') =
        Some (if opt message ''tag'' = JStr ''-'' then None else Some (squash (fi_binary ?fi) parts))"
      using ok KRead by (auto simp: event_ok_def split: if_splits)
    from on_read_close_ok [OF inv' r this] show ?thesis
      using KRead by (simp add: file_event_def Let_def kind)
  next
    case (KReplace f n)
    then have r: "role_of ?fi f Replacer"
      using finvD(2) [OF inv c] by (simp add: chan_ok_def role)
    have "n' = n" if "d < length (fi_chans fi)" "fc_kind (fi_chans fi ! d) = KReplace f n'" for d n'
      using finvD(3) [OF inv] that c KReplace unfolding one_each_def by (metis chan_kind.inject(2))
    then have "truthy (opt message ''problem'') \<or> outcome_ok env hist ?fi f (FTag (opt message ''tag''))"
      using ok KReplace by (auto simp: event_ok_def outcome_ok_def kind)
    from on_replace_close_ok [OF inv' r this] show ?thesis
      using KReplace by (simp add: file_event_def Let_def kind)
  qed (simp add: file_event_def Let_def kind inv')
  then show "finv env hist (file_event env c (EvClose message) fi)" "fext (file_event env c (EvClose message) fi) fi"
    using fext_trans [OF _ ext] by auto
qed

lemma file_event_ok:
  assumes inv: "finv env hist fi" and ok: "event_ok env hist c ev fi"
  shows "finv env hist (file_event env c ev fi)"
proof (cases ev)
  case (EvMessage data)
  have c: "c < length (fi_chans fi)"
    using ok by (simp add: event_ok_def)
  show ?thesis
  proof (cases "fc_kind (fi_chans fi ! c)")
    case (KRead f parts)
    then have "chan_ok env hist fi ((fi_chans fi ! c)\<lparr>fc_kind := KRead f p\<rparr>)" for p
      using finvD(2) [OF inv c] by (simp add: chan_ok_def)
    then have "finv env hist (set_fchan c (\<lambda>ch. ch\<lparr>fc_kind := KRead f p\<rparr>) fi)" for p
      using KRead by (intro finv_set_fchan [OF inv]) simp_all
    then show ?thesis
      by (simp add: file_event_def EvMessage KRead)
  next
    case KWatch
    then show ?thesis
      using inv file_read_ok(1) [OF inv] by (simp add: file_event_def EvMessage on_watch_message_def split: option.split)
  qed (simp add: file_event_def EvMessage inv)
next
  case (EvClose message)
  then show ?thesis
    using file_close_event_ok(1) [OF inv] ok by simp
qed (simp_all add: file_event_def inv)

text \<open>Closing a channel, with a problem or when it is the one that watches.\<close>

lemma close_fchan_ok:
  assumes inv: "finv env hist fi" and c: "c < length (fi_chans fi)"
    and close: "truthy (opt options ''problem'') \<or> fc_kind (fi_chans fi ! c) = KWatch"
  shows "finv env hist (close_fchan env c options fi)" "fext (close_fchan env c options fi) fi"
proof -
  let ?m = "oset options ''command'' (JStr ''close'')" and ?fi = "flog (FCloseChan c options) fi"
  have inv': "finv env hist ?fi"
    using inv by simp
  have "event_ok env hist c (EvClose ?m) ?fi"
    using c close by (auto simp: event_ok_def flog_def split: chan_kind.split)
  note closed = file_close_event_ok [OF inv' this]
  then show "finv env hist (close_fchan env c options fi)"
    by (simp add: close_fchan_def inv)
  show "fext (close_fchan env c options fi) fi"
    using fext_trans [OF closed(2) fext_same(2)] by (simp add: close_fchan_def)
qed

lemma slot_range:
  assumes "finv env hist fi"
  shows "fi_read_chan fi = Some c \<Longrightarrow> c < length (fi_chans fi)" "fi_replace_chan fi = Some c \<Longrightarrow> c < length (fi_chans fi)"
    "fi_watch_chan fi = Some c \<Longrightarrow> c < length (fi_chans fi)" "fi_watch_chan fi = Some c \<Longrightarrow> fc_kind (fi_chans fi ! c) = KWatch"
  using finvD(4) [OF assms] by (simp_all add: slots_ok_def)

lemma close_slot_ok:
  assumes "finv env hist fi" and "\<And>c. slot = Some c \<Longrightarrow> c < length (fi_chans fi)"
  shows "finv env hist (close_slot env slot fi)"
  using assms close_fchan_ok(1) [OF assms(1)] by (auto simp: close_slot_def split: option.split)

lemma file_close_ok:
  assumes "finv env hist fi"
  shows "finv env hist (file_close env fi)"
proof -
  define a where "a = close_slot env (fi_read_chan fi) fi"
  define b where "b = close_slot env (fi_replace_chan a) a"
  have "finv env hist a"
    unfolding a_def using slot_range(1) [OF assms] by (intro close_slot_ok assms)
  then have "finv env hist b"
    unfolding b_def using slot_range(2) by (intro close_slot_ok) blast+
  then have "finv env hist (close_slot env (fi_watch_chan b) b)"
    using slot_range(3) by (intro close_slot_ok) blast+
  then show ?thesis
    by (simp add: file_close_def Let_def a_def b_def)
qed

lemma ensure_watch_ok:
  assumes "finv env hist fi"
  shows "finv env hist (ensure_watch_channel env fi)"
proof -
  have opened: "finv env hist ((fst (open_fchan KWatch extra fi))\<lparr>fi_watch_chan := Some (length (fi_chans fi))\<rparr>)" for extra
    by (intro finv_set_slots(4) finv_open_fchan [OF assms, where opts = "[]"]) (auto simp: chan_ok_def)
  have closed: "finv env hist ((close_fchan env c [] fi)\<lparr>fi_watch_chan := None\<rparr>)" if "fi_watch_chan fi = Some c" for c
    using that slot_range(3,4) [OF assms] by (intro finv_set_slots(4) close_fchan_ok(1) [OF assms]) auto
  show ?thesis
    using opened closed assms open_fchan_sel(1) [of KWatch "[(''payload'', JStr ''fswatch1''), (''path'', fi_path fi)]" fi]
    by (auto simp: ensure_watch_channel_def split_beta split: option.split simp del: open_fchan_sel)
qed

lemma file_watch_ok:
  assumes "finv env hist fi"
  shows "finv env hist (file_watch env cb fi)" "finv env hist (file_unwatch env cb fi)"
proof -
  have "finv env hist (ensure_watch_channel env (fi'\<lparr>fi_n_watch := n\<rparr>))" if "finv env hist fi'" for fi' n
    using that by (intro ensure_watch_ok) simp
  then show "finv env hist (file_unwatch env cb fi)" "finv env hist (file_watch env cb fi)"
    using assms file_read_ok(1) by (auto simp: file_unwatch_def file_watch_def Let_def split: option.split)
qed

text \<open>Replacing: the channel that is in the way goes first; it neither opens another one nor succeeds.\<close>

lemma abort_chan:
  assumes inv: "finv env hist fi" and c: "c < length (fi_chans fi)" and p: "p \<noteq> ''change-conflict''" "p \<noteq> []"
  shows "map fc_kind (fi_chans (close_fchan env c [(''problem'', JStr p)] fi)) = map fc_kind (fi_chans fi)"
    and "\<And>f t. fd_state (fi_dfds (close_fchan env c [(''problem'', JStr p)] fi) ! f) = Some (FTag t) \<Longrightarrow> fd_state (fi_dfds fi ! f) = Some (FTag t)"
    and "length (fi_dfds (close_fchan env c [(''problem'', JStr p)] fi)) = length (fi_dfds fi)"
    and "fi_path (close_fchan env c [(''problem'', JStr p)] fi) = fi_path fi"
proof -
  have path: "fi_path (fire_watch_callbacks x t e fi') = fi_path fi'" for x t e fi'
  proof -
    have "fi_path (fold (\<lambda>cb. case cb of None \<Rightarrow> id | Some k \<Rightarrow> flog (FNotify k x t e)) cbs fi0) = fi_path fi0" for cbs fi0
      by (induction cbs arbitrary: fi0) (auto simp: flog_def split: option.split)
    then show ?thesis by (simp add: fire_watch_callbacks_def Let_def)
  qed
  have path': "fi_path (fsettle f r fi') = fi_path fi'" for f r fi'
    by (simp add: fsettle_def)
  have kinds: "map fc_kind (fi_chans (set_fchan c (\<lambda>ch. ch\<lparr>fc_open := False\<rparr>) fi')) = map fc_kind (fi_chans fi')" if "c < length (fi_chans fi')" for fi'
    using that by (simp add: set_fchan_def map_update) (metis list_update_id nth_map)
  note unfold = close_fchan_def file_event_def on_read_close_def on_replace_close_def read_failed_def Let_def
  show "map fc_kind (fi_chans (close_fchan env c [(''problem'', JStr p)] fi)) = map fc_kind (fi_chans fi)"
    "length (fi_dfds (close_fchan env c [(''problem'', JStr p)] fi)) = length (fi_dfds fi)"
    "fi_path (close_fchan env c [(''problem'', JStr p)] fi) = fi_path fi"
    using p c kinds by (auto simp: unfold flog_def path path' split: chan_kind.split) (simp_all add: set_fchan_def)
  fix f t
  show "fd_state (fi_dfds (close_fchan env c [(''problem'', JStr p)] fi) ! f) = Some (FTag t) \<Longrightarrow> fd_state (fi_dfds fi ! f) = Some (FTag t)"
    using p by (auto simp: unfold flog_def fsettle_state split: chan_kind.splits if_splits)
qed

lemma send_content_ok:
  assumes "finv env hist fi" and "c < length (fi_chans fi)" and "fc_kind (fi_chans fi ! c) = KReplace f n" and "fc_sent (fi_chans fi ! c) = []"
    and "writes env n (content_messages fc)"
  shows "finv env hist (send_content c fc fi)" "fext (send_content c fc fi) fi"
proof -
  have "chan_ok env hist fi ((fi_chans fi ! c)\<lparr>fc_sent := fc_sent (fi_chans fi ! c) @ content_messages fc, fc_done := True\<rparr>)"
    using finvD(2) [OF assms(1,2)] assms(3-5) by (simp add: chan_ok_def)
  then show "finv env hist (send_content c fc fi)"
    unfolding send_content_def by (intro finv_set_fchan [OF assms(1)]) simp_all
  show "fext (send_content c fc fi) fi"
    unfolding send_content_def by (rule fext_set_fchan) simp_all
qed

definition replace_spot :: "file_env \<Rightarrow> file_state \<Rightarrow> file_state" where
  "replace_spot env fi = (case fi_replace_chan fi of None \<Rightarrow> fi | Some c \<Rightarrow> close_fchan env c [(''problem'', JStr ''abort'')] fi)"

lemma replace_spot_ok:
  assumes "finv env hist fi"
  shows "finv env hist (replace_spot env fi)" "fext (replace_spot env fi) fi"
    "map fc_kind (fi_chans (replace_spot env fi)) = map fc_kind (fi_chans fi)"
    "\<And>f t. fd_state (fi_dfds (replace_spot env fi) ! f) = Some (FTag t) \<Longrightarrow> fd_state (fi_dfds fi ! f) = Some (FTag t)"
proof -
  let ?opts = "[(''problem'', JStr ''abort'')]"
  have c: "finv env hist (close_fchan env c ?opts fi) \<and> fext (close_fchan env c ?opts fi) fi \<and>
      map fc_kind (fi_chans (close_fchan env c ?opts fi)) = map fc_kind (fi_chans fi) \<and>
      (\<forall>f t. fd_state (fi_dfds (close_fchan env c ?opts fi) ! f) = Some (FTag t) \<longrightarrow> fd_state (fi_dfds fi ! f) = Some (FTag t))"
    if "fi_replace_chan fi = Some c" for c
  proof -
    have "c < length (fi_chans fi)"
      by (rule slot_range(2) [OF assms that])
    then show ?thesis
      using close_fchan_ok [OF assms, of c ?opts] abort_chan(1,2) [OF assms, of c "''abort''"] by simp
  qed
  show "finv env hist (replace_spot env fi)" "fext (replace_spot env fi) fi"
    "map fc_kind (fi_chans (replace_spot env fi)) = map fc_kind (fi_chans fi)"
    "\<And>f t. fd_state (fi_dfds (replace_spot env fi) ! f) = Some (FTag t) \<Longrightarrow> fd_state (fi_dfds fi ! f) = Some (FTag t)"
    using c assms by (auto simp: replace_spot_def split: option.splits)
qed

lemma opt_tag_extra: "tag \<noteq> JUndef \<Longrightarrow> opt (JS_Value.extend [] [JObj base, JObj [(''payload'', a), (''path'', b), (''tag'', tag)]]) ''tag'' = tag"
  by (simp add: extend_Cons extend1_def)

lemma file_replace_ok:
  assumes inv: "finv env hist fi"
  shows "finv env hist (fst (file_replace env n tag fi))" "fext (fst (file_replace env n tag fi)) fi"
    "role_of (fst (file_replace env n tag fi)) (snd (file_replace env n tag fi)) Replacer"
    "tag \<noteq> JUndef \<Longrightarrow> holds env hist tag old \<Longrightarrow> n = new_of env k old \<Longrightarrow>
       (\<exists>e. fd_state (fi_dfds (fst (file_replace env n tag fi)) ! snd (file_replace env n tag fi)) = Some (FFail e)) \<or>
       modify_chan env hist (fst (file_replace env n tag fi)) (snd (file_replace env n tag fi)) k n"
proof -
  define a where "a = fst (new_fdfd Replacer fi)"
  define f where "f = length (fi_dfds fi)"
  have a: "finv env hist a" "role_of a f Replacer" "fext a fi" "fd_state (fi_dfds a ! f) = None" "fi_chans a = fi_chans fi" "f < length (fi_dfds a)"
    using finv_new_fdfd [OF inv] by (simp_all add: a_def f_def) (simp_all add: new_fdfd_def)
  have pair: "new_fdfd Replacer fi = (a, f)"
    by (simp add: a_def f_def prod_eq_iff)
  have "(finv env hist (fst (file_replace env n tag fi)) \<and> fext (fst (file_replace env n tag fi)) a \<and> snd (file_replace env n tag fi) = f) \<and>
      (tag \<noteq> JUndef \<longrightarrow> holds env hist tag old \<longrightarrow> n = new_of env k old \<longrightarrow>
       (\<exists>e. fd_state (fi_dfds (fst (file_replace env n tag fi)) ! f) = Some (FFail e)) \<or>
       modify_chan env hist (fst (file_replace env n tag fi)) f k n)"
  proof (cases "if n = CNull then Inr CNull else file_stringify env n")
    case (Inl e)
    then have eq: "file_replace env n tag fi = (fsettle f (FFail (FThrown e)) a, f)"
      by (simp add: file_replace_def pair)
    have "finv env hist (fsettle f (FFail (FThrown e)) a)"
      by (rule finv_fsettle [OF a(1)]) (simp add: outcome_ok_def)
    moreover have "fd_state (fi_dfds (fsettle f (FFail (FThrown e)) a) ! f) = Some (FFail (FThrown e))"
      using a(4,6) by (simp add: fsettle_state)
    ultimately show ?thesis
      unfolding eq by auto
  next
    case (Inr fc)
    define b where "b = replace_spot env a"
    define extra where "extra = [(''payload'', JStr ''fsreplace1''), (''path'', fi_path b), (''tag'', tag)]"
    define c where "c = length (fi_chans b)"
    define d where "d = (fst (open_fchan (KReplace f n) extra b))\<lparr>fi_replace_chan := Some c\<rparr>"
    have eq: "file_replace env n tag fi = (send_content c fc d, f)"
    proof -
      have "open_fchan (KReplace f n) extra b = (fst (open_fchan (KReplace f n) extra b), c)"
        by (simp add: prod_eq_iff c_def)
      then show ?thesis
        using Inr by (simp add: file_replace_def pair Let_def replace_spot_def [symmetric] b_def [symmetric] extra_def [symmetric] d_def c_def split_beta)
    qed
    have b: "finv env hist b" "fext b a" "map fc_kind (fi_chans b) = map fc_kind (fi_chans a)" "fd_state (fi_dfds b ! f) \<noteq> Some (FTag t)" for t
      using replace_spot_ok [OF a(1)] a(4) by (auto simp: b_def)
    have "chan_ok env hist b \<lparr>fc_kind = KReplace f n, fc_opts = [], fc_open = True, fc_sent = [], fc_done = False\<rparr>"
      using role_of_fext [OF a(2) b(2)] b(4) by (simp add: chan_ok_def)
    moreover have "fc_kind (fi_chans b ! c') \<noteq> KReplace f n'" if "c' < length (fi_chans b)" for c' n'
    proof -
      have len: "length (fi_chans b) = length (fi_chans fi)"
        using b(3) a(5) map_eq_imp_length_eq by metis
      then have "fc_kind (fi_chans b ! c') = fc_kind (fi_chans fi ! c')"
        using that b(3) a(5) by (metis nth_map)
      then show ?thesis
        using finvD(2) [OF inv, of c'] that len by (auto simp: chan_ok_def role_of_def f_def)
    qed
    ultimately have o: "finv env hist (fst (open_fchan (KReplace f n) extra b))"
      by (intro finv_open_fchan [OF b(1)]) auto
    have d: "finv env hist d" "fext d b" "c < length (fi_chans d)" "fc_kind (fi_chans d ! c) = KReplace f n" "fc_sent (fi_chans d ! c) = []"
      using finv_set_slots(3) [OF o, of "Some c"] fext_trans [OF fext_slots(3) fext_open_fchan] by (simp_all add: d_def c_def)
    have "writes env n (content_messages fc)"
      using Inr by (auto simp: writes_def)
    note sent = send_content_ok [OF d(1,3,4,5) this]
    have "modify_chan env hist (send_content c fc d) f k n" if "tag \<noteq> JUndef" "holds env hist tag old" "n = new_of env k old"
    proof -
      have "opt (fc_opts (fi_chans d ! c)) ''tag'' = tag"
        using that(1) by (simp add: d_def c_def extra_def opt_tag_extra)
      then have "modify_chan env hist d f k n"
        using d(3,4) that by (auto simp: modify_chan_def)
      then show ?thesis
        by (rule modify_chan_mono [OF _ sent(2) map_le_refl])
    qed
    then show ?thesis
      unfolding eq using sent fext_trans [OF sent(2) fext_trans [OF d(2) b(2)]] by auto
  qed
  then show "finv env hist (fst (file_replace env n tag fi))" "fext (fst (file_replace env n tag fi)) fi"
    "role_of (fst (file_replace env n tag fi)) (snd (file_replace env n tag fi)) Replacer"
    "tag \<noteq> JUndef \<Longrightarrow> holds env hist tag old \<Longrightarrow> n = new_of env k old \<Longrightarrow>
       (\<exists>e. fd_state (fi_dfds (fst (file_replace env n tag fi)) ! snd (file_replace env n tag fi)) = Some (FFail e)) \<or>
       modify_chan env hist (fst (file_replace env n tag fi)) (snd (file_replace env n tag fi)) k n"
    using fext_trans [OF _ a(3)] role_of_fext [OF a(2)] by auto
qed

lemma modify_update_ok:
  assumes inv: "finv env hist fi" and m: "role_of fi m Modifier" and old: "holds env hist tag old" "hist JUndef = None"
  shows "finv env hist (modify_update env m k old tag fi)" "fext (modify_update env m k old tag fi) fi"
proof -
  define n where "n = new_of env k old"
  let ?r = "file_replace env n tag fi"
  have tag: "tag \<noteq> JUndef"
    using old by (auto simp: holds_iff)
  note rep = file_replace_ok [OF inv, where n = n and tag = tag]
  have "cont_ok env hist (fst ?r) (snd ?r) (AfterReplace m k n)"
    using rep(3) rep(4) [OF tag old(1) n_def] role_of_fext [OF m rep(2)] by (simp add: cont_ok_def)
  then have "finv env hist (fadd_cont (snd ?r) (AfterReplace m k n) (fst ?r))"
    by (rule finv_fadd_cont [OF rep(1)])
  moreover have eq: "modify_update env m k old tag fi = fadd_cont (snd ?r) (AfterReplace m k n) (fst ?r)"
    by (simp add: modify_update_def Let_def split_beta n_def new_of_def)
  ultimately show "finv env hist (modify_update env m k old tag fi)" "fext (modify_update env m k old tag fi) fi"
    using fext_trans [OF fext_fadd_cont rep(2)] by simp_all
qed

lemma read_then_update_ok:
  assumes inv: "finv env hist fi" and m: "role_of fi m Modifier"
  shows "finv env hist (read_then_update m k fi)" "fext (read_then_update m k fi) fi"
proof -
  note read = file_read_ok [OF inv]
  have "cont_ok env hist (fst (file_read fi)) (snd (file_read fi)) (AfterRead m k)"
    using read(3) role_of_fext [OF m read(2)] by (simp add: cont_ok_def)
  then have "finv env hist (fadd_cont (snd (file_read fi)) (AfterRead m k) (fst (file_read fi)))"
    by (rule finv_fadd_cont [OF read(1)])
  then show "finv env hist (read_then_update m k fi)" "fext (read_then_update m k fi) fi"
    using fext_trans [OF fext_fadd_cont read(2)] by (simp_all add: read_then_update_def split_beta)
qed

lemma file_modify_ok:
  assumes inv: "finv env hist fi" and initial: "\<And>c t. initial = Some (c, t) \<Longrightarrow> holds env hist t c" "hist JUndef = None"
  shows "finv env hist (fst (file_modify env k initial fi))"
proof -
  note new = finv_new_fdfd [OF inv, of Modifier] role_new_fdfd [of Modifier fi]
  show ?thesis
  proof (cases initial)
    case None
    then show ?thesis
      using read_then_update_ok(1) [OF new] by (simp add: file_modify_def split_beta)
  next
    case (Some ct)
    obtain c t where ct: "ct = (c, t)" by force
    show ?thesis
      using modify_update_ok(1) [OF new initial(1) initial(2), of c t] Some ct by (simp add: file_modify_def split_beta)
  qed
qed

text \<open>Handlers: a reader hands on what the file held, a replacer what it wrote.\<close>

lemma run_fcont_ok:
  assumes inv: "finv env hist fi" and ok: "cont_ok env hist fi f k" and r: "fd_state (fi_dfds fi ! f) = Some r" and u: "hist JUndef = None"
  shows "finv env hist (run_fcont env r k fi)" "fext (run_fcont env r k fi) fi"
proof -
  have fail: "finv env hist (fsettle m (FFail e) fi)" for m e
    by (rule finv_fsettle [OF inv]) (simp add: outcome_ok_def)
  have "finv env hist (run_fcont env r k fi) \<and> fext (run_fcont env r k fi) fi"
  proof (cases k)
    case (AfterRead m cb)
    then have role: "role_of fi f Reader" "role_of fi m Modifier"
      using ok by (simp_all add: cont_ok_def)
    have "holds env hist t c" if "r = FDone c t" for c t
      using finvD(1) [OF inv, of f] role(1) r that by (simp add: dfd_ok_def role_of_def)
    then show ?thesis
      using modify_update_ok [OF inv role(2)] u fail inv by (cases r) (simp_all add: run_fcont_def AfterRead)
  next
    case (AfterReplace m cb n)
    then have role: "role_of fi f Replacer" "role_of fi m Modifier"
      using ok by (simp_all add: cont_ok_def)
    have "finv env hist (fsettle m (FDone n t) fi)" if t: "r = FTag t" for t
    proof -
      obtain c where c: "c < length (fi_chans fi)" "fc_kind (fi_chans fi ! c) = KReplace f n"
        using ok AfterReplace r t by (auto simp: cont_ok_def modify_chan_def)
      then have "keeps env (fi_binary fi) hist t n"
        using finvD(2) [OF inv c(1)] r t by (simp add: chan_ok_def)
      then show ?thesis
        using role(2) by (intro finv_fsettle [OF inv]) (simp add: outcome_ok_def role_of_def)
    qed
    then show ?thesis
      using fail read_then_update_ok [OF inv role(2)] inv by (cases r) (simp_all add: run_fcont_def AfterReplace)
  qed
  then show "finv env hist (run_fcont env r k fi)" "fext (run_fcont env r k fi) fi"
    by simp_all
qed

lemma run_fconts_ok:
  assumes "finv env hist fi" and "\<And>k. k \<in> set ks \<Longrightarrow> cont_ok env hist fi f k" and "fd_state (fi_dfds fi ! f) = Some r"
    and "hist JUndef = None" and "f < length (fi_dfds fi)"
  shows "finv env hist (fold (run_fcont env r) ks fi)"
  using assms
proof (induction ks arbitrary: fi)
  case (Cons k ks)
  note step = run_fcont_ok [OF Cons.prems(1) Cons.prems(2) Cons.prems(3,4), of k]
  have "cont_ok env hist (run_fcont env r k fi) f k'" if "k' \<in> set ks" for k'
    using that Cons.prems(2) by (intro cont_ok_mono [OF _ step(2) map_le_refl]) simp_all
  moreover have "fd_state (fi_dfds (run_fcont env r k fi) ! f) = Some r" "f < length (fi_dfds (run_fcont env r k fi))"
    using step(2) Cons.prems(3,5) by (simp_all add: fext_def)
  ultimately show ?case
    using Cons.IH [OF step(1)] Cons.prems(4) by simp
qed simp

lemma run_fdfd_ok:
  assumes inv: "finv env hist fi" and u: "hist JUndef = None"
  shows "finv env hist (run_fdfd env f fi)"
proof (cases "if f < length (fi_dfds fi) then fd_state (fi_dfds fi ! f) else None")
  case (Some r')
  then obtain r where f: "f < length (fi_dfds fi)" and Some: "fd_state (fi_dfds fi ! f) = Some r"
    by (auto split: if_splits)
  let ?a = "fi\<lparr>fi_dfds := (fi_dfds fi)[f := (fi_dfds fi ! f)\<lparr>fd_conts := []\<rparr>]\<rparr>"
  have sel: "fd_role (fi_dfds ?a ! g) = fd_role (fi_dfds fi ! g)" "fd_state (fi_dfds ?a ! g) = fd_state (fi_dfds fi ! g)"
    "set (fd_conts (fi_dfds ?a ! g)) \<subseteq> set (fd_conts (fi_dfds fi ! g))" for g
    using f by (simp_all add: nth_list_update)
  have ext: "fext ?a fi"
    unfolding fext_def sel by simp
  have mono: "cont_ok env hist ?a g k" if "cont_ok env hist fi g k" for g k
    by (rule cont_ok_mono [OF that ext map_le_refl])
  have "dfd_ok env hist ?a g" if "g < length (fi_dfds fi)" for g
    using finvD(1) [OF inv that] mono sel(3) [of g] unfolding dfd_ok_def sel by auto
  moreover have "chan_ok env hist ?a x" if "chan_ok env hist fi x" for x
    using that ext by (rule chan_ok_cong) (simp only: sel)
  moreover have "slots_ok ?a"
    using finvD(4) [OF inv] ext by (rule slots_ok_fext) simp_all
  ultimately have "finv env hist ?a"
    using inv by (simp add: finv_def one_each_def)
  then have a: "finv env hist (flog (FSettled f r) ?a)"
    by simp
  have cont: "cont_ok env hist (flog (FSettled f r) ?a) f k" if "k \<in> set (fd_conts (fi_dfds fi ! f))" for k
    using finvD(1) [OF inv f] that by (intro cont_ok_mono [OF _ fext_trans [OF fext_same(2) ext] map_le_refl]) (simp add: dfd_ok_def)
  have st: "fd_state (fi_dfds (flog (FSettled f r) ?a) ! f) = Some r" "f < length (fi_dfds (flog (FSettled f r) ?a))"
    using f Some by (simp_all add: flog_def)
  show ?thesis
    using run_fconts_ok [OF a cont st(1) u st(2), of "fd_conts (fi_dfds fi ! f)"] by (simp add: run_fdfd_def Some f)
qed (simp add: run_fdfd_def inv)

lemma file_drain_ok:
  assumes "finv env hist fi" and "hist JUndef = None"
  shows "finv env hist (file_drain env fi)"
proof -
  have "finv env hist (fold (run_fdfd env) fs fi')" if "finv env hist fi'" for fs fi'
    using that assms(2) by (induction fs arbitrary: fi') (simp_all add: run_fdfd_ok)
  then show ?thesis
    using assms(1) by (simp add: file_drain_def)
qed

lemma fexec_ok:
  assumes "finv env hist fi" and "hist JUndef = None" and "fenabled env hist op fi"
  shows "finv env hist (fexec env op fi)"
proof (cases "(env, hist, op, fi)" rule: fenabled.cases)
  case (1 env' hist' k content tag fi')
  then show ?thesis
    using file_modify_ok [OF assms(1) _ assms(2), of "Some (content, tag)"] assms(3) by simp
next
  case (2 env' hist' c ev fi')
  then have "event_ok env hist c ev fi"
    using assms(3) by (auto simp: event_ok_def split: chan_event.splits chan_kind.splits)
  then show ?thesis
    using 2 file_event_ok [OF assms(1)] by simp
qed (use assms file_modify_ok [OF assms(1) _ assms(2)] in
    \<open>auto simp: file_read_ok(1) file_replace_ok(1) file_watch_ok file_close_ok file_drain_ok\<close>)

section \<open>No update is lost\<close>

definition disk_ok :: "disk \<Rightarrow> bool" where
  "disk_ok dk \<longleftrightarrow> dk_hist dk JUndef = None \<and> dk_hist dk (dk_tag dk) \<noteq> None"

lemma new_version_ok:
  assumes "new_version tag v dk dk'" and "disk_ok dk"
  shows "disk_ok dk'" "dk_hist dk \<subseteq>\<^sub>m dk_hist dk'" "dk_hist dk' tag = Some v"
  using assms by (auto simp: new_version_def disk_ok_def map_le_def)

lemma freach_inv: "freach env path options fi dk \<Longrightarrow> finv env (dk_hist dk) fi \<and> disk_ok dk"
proof (induction rule: freach.induct)
  case (start dk)
  then show ?case
    by (simp add: finv_def one_each_def slots_ok_def new_file_def disk_ok_def)
next
  case (step fi dk op)
  then show ?case
    using fexec_ok [of env "dk_hist dk" fi op] by (simp add: disk_ok_def)
next
  case (commit fi dk c f content message dk')
  have ver: "disk_ok dk'" "dk_hist dk \<subseteq>\<^sub>m dk_hist dk'"
    "dk_hist dk' (opt message ''tag'') = Some (written (fi_binary fi) (fc_sent (fi_chans fi ! c)))"
    using new_version_ok [OF commit.hyps(8)] commit.IH by blast+
  have "writes env content (fc_sent (fi_chans fi ! c))"
    using finvD(2) [of env "dk_hist dk" fi c] commit by (simp add: chan_ok_def)
  then have "keeps env (fi_binary fi) (dk_hist dk') (opt message ''tag'') content"
    using ver(3) by (auto simp: keeps_def)
  then have "event_ok env (dk_hist dk') c (EvClose message) fi"
    using commit by (simp add: event_ok_def)
  moreover have "finv env (dk_hist dk') fi"
    using finv_hist [OF _ ver(2)] commit.IH by blast
  ultimately show ?case
    using file_event_ok ver(1) by blast
next
  case (other fi dk tag v dk')
  then show ?case
    using new_version_ok finv_hist by blast
qed

text \<open>C7: Whenever the bridge may commit what a \<open>modify\<close> wrote, because the tag it expects is the tag of the file, what it wrote
  is its callback applied to what the file holds at that moment, in the form the syntax gives it.
\<close>

theorem modify_loses_no_update:
  assumes "freach env path options fi dk" and "c < length (fi_chans fi)" and "fc_kind (fi_chans fi ! c) = KReplace r n"
    and "fc_done (fi_chans fi ! c)" and "opt (fc_opts (fi_chans fi ! c)) ''tag'' = dk_tag dk"
    and "AfterReplace m k n' \<in> set (fd_conts (fi_dfds fi ! r))" and "fd_state (fi_dfds fi ! r) = None"
  shows "\<exists>v old. dk_hist dk (dk_tag dk) = Some v \<and> stored env v = Some old \<and> n = new_of env k old \<and>
           writes env n (fc_sent (fi_chans fi ! c))"
proof -
  have inv: "finv env (dk_hist dk) fi"
    using freach_inv [OF assms(1)] by blast
  have ok: "chan_ok env (dk_hist dk) fi (fi_chans fi ! c)"
    by (rule finvD(2) [OF inv assms(2)])
  then have "r < length (fi_dfds fi)"
    using assms(3) by (simp add: chan_ok_def role_of_def)
  then have "cont_ok env (dk_hist dk) fi r (AfterReplace m k n')"
    using finvD(1) [OF inv] assms(6) by (simp add: dfd_ok_def)
  then obtain c' old where c': "c' < length (fi_chans fi)" "fc_kind (fi_chans fi ! c') = KReplace r n'"
    "holds env (dk_hist dk) (opt (fc_opts (fi_chans fi ! c')) ''tag'') old" "n' = new_of env k old"
    using assms(7) by (auto simp: cont_ok_def modify_chan_def)
  have "c' = c"
    using finvD(3) [OF inv] c'(1,2) assms(2,3) unfolding one_each_def by blast
  then have "holds env (dk_hist dk) (dk_tag dk) old" "n = new_of env k old"
    using c' assms(3,5) by simp_all
  moreover have "writes env n (fc_sent (fi_chans fi ! c))"
    using ok assms(3,4) by (simp add: chan_ok_def)
  ultimately show ?thesis
    unfolding holds_iff by blast
qed

text \<open>A \<open>modify\<close> that resolves with a content and a tag has written that content: at that tag, the file held it.\<close>

theorem modify_resolves_with_written:
  assumes "freach env path options fi dk" and "m < length (fi_dfds fi)" and "fd_role (fi_dfds fi ! m) = Modifier"
    and "fd_state (fi_dfds fi ! m) = Some (FDone n t)"
  shows "\<exists>msgs. writes env n msgs \<and> dk_hist dk t = Some (written (fi_binary fi) msgs)"
  using freach_inv [OF assms(1)] finvD(1) [of env "dk_hist dk" fi m] assms(2-4) by (simp add: dfd_ok_def keeps_def)

section \<open>A run\<close>

definition shout_env :: file_env where
  "shout_env = plain_env\<lparr>en_callback := (\<lambda>_ c. case c of CText s \<Rightarrow> Some (CText (s @ ''!'')) | _ \<Rightarrow> None)\<rparr>"

definition demo_disk :: disk where
  "demo_disk = \<lparr>dk_tag = JStr ''t1'', dk_hist = (\<lambda>t. if t = JStr ''t1'' then Some (Some (PStr ''a'')) else None)\<rparr>"

definition demo_disk' :: disk where
  "demo_disk' = \<lparr>dk_tag = JStr ''t2'', dk_hist = (dk_hist demo_disk)(JStr ''t2'' := Some (Some (PStr ''a!'')))\<rparr>"

definition demo_ops :: "file_op list" where
  "demo_ops = [DoModify 0 None, OnFileEvent 0 (EvMessage (PStr ''a'')), OnFileEvent 0 (EvClose [(''tag'', JStr ''t1'')]), DoRunLater]"

definition demo_file :: "nat \<Rightarrow> file_state" where
  "demo_file n = fold (fexec shout_env) (take n demo_ops) (new_file (JStr ''/x'') [])"

definition demo_done_file :: file_state where
  "demo_done_file = file_drain shout_env (file_event shout_env 1 (EvClose [(''tag'', JStr ''t2'')]) (demo_file 4))"

lemma demo_file_Suc: "n < length demo_ops \<Longrightarrow> demo_file (Suc n) = fexec shout_env (demo_ops ! n) (demo_file n)"
  by (simp add: demo_file_def take_Suc_conv_app_nth)

lemma demo_file_reach: "freach shout_env (JStr ''/x'') [] (demo_file 4) demo_disk"
proof -
  have "n \<le> 4 \<longrightarrow> freach shout_env (JStr ''/x'') [] (demo_file n) demo_disk" for n
  proof (induction n)
    case 0
    show ?case
      by (simp add: demo_file_def freach.start demo_disk_def)
  next
    case (Suc n)
    have len: "length demo_ops = 4"
      by (simp add: demo_ops_def)
    have "\<forall>n \<in> set [0, 1, 2, 3]. fenabled shout_env (dk_hist demo_disk) (demo_ops ! n) (demo_file n)"
      by code_simp
    then have "n < 4 \<Longrightarrow> fenabled shout_env (dk_hist demo_disk) (demo_ops ! n) (demo_file n)"
      by (auto simp: less_Suc_eq numeral_eq_Suc)
    then show ?case
      using Suc demo_file_Suc [of n] freach.step len by simp
  qed
  then show ?thesis by blast
qed

lemma demo_file_chans:
  "tl (fi_chans (demo_file 4)) =
     [\<lparr>fc_kind = KReplace 2 (CText ''a!''), fc_opts = [(''payload'', JStr ''fsreplace1''), (''path'', JStr ''/x''), (''tag'', JStr ''t1'')],
       fc_open = True, fc_sent = [PStr ''a!''], fc_done = True\<rparr>]"
  by code_simp

lemma demo_file_dfds:
  "fi_dfds (demo_file 4) ! 2 = \<lparr>fd_role = Replacer, fd_state = None, fd_conts = [AfterReplace 0 0 (CText ''a!'')]\<rparr>"
  "fi_binary (demo_file 4) = False"
  by code_simp+

lemma demo_file_chan:
  "1 < length (fi_chans (demo_file 4))"
  "fi_chans (demo_file 4) ! 1 =
     \<lparr>fc_kind = KReplace 2 (CText ''a!''), fc_opts = [(''payload'', JStr ''fsreplace1''), (''path'', JStr ''/x''), (''tag'', JStr ''t1'')],
       fc_open = True, fc_sent = [PStr ''a!''], fc_done = True\<rparr>"
  using demo_file_chans by (cases "fi_chans (demo_file 4)"; simp)+

lemma demo_file_facts:
  "1 < length (fi_chans (demo_file 4))" "fc_open (fi_chans (demo_file 4) ! 1)" "fc_done (fi_chans (demo_file 4) ! 1)"
  "fc_kind (fi_chans (demo_file 4) ! 1) = KReplace 2 (CText ''a!'')" "opt (fc_opts (fi_chans (demo_file 4) ! 1)) ''tag'' = JStr ''t1''"
  "AfterReplace 0 0 (CText ''a!'') \<in> set (fd_conts (fi_dfds (demo_file 4) ! 2))" "fd_state (fi_dfds (demo_file 4) ! 2) = None"
  "fc_sent (fi_chans (demo_file 4) ! 1) = [PStr ''a!'']" "fi_binary (demo_file 4) = False"
  unfolding demo_file_chan(2) demo_file_dfds using demo_file_chan(1) by simp_all

theorem modify_loses_no_update_witness:
  "\<exists>v old. dk_hist demo_disk (dk_tag demo_disk) = Some v \<and> stored shout_env v = Some old \<and> CText ''a!'' = new_of shout_env 0 old \<and>
     writes shout_env (CText ''a!'') [PStr ''a!'']"
  using modify_loses_no_update [OF demo_file_reach demo_file_facts(1,4,3) _ demo_file_facts(6,7)] demo_file_facts(5,8)
  by (simp add: demo_disk_def)

lemma demo_done_reach: "freach shout_env (JStr ''/x'') [] demo_done_file demo_disk'"
proof -
  have "new_version (JStr ''t2'') (written (fi_binary (demo_file 4)) (fc_sent (fi_chans (demo_file 4) ! 1))) demo_disk demo_disk'"
    unfolding demo_file_facts
    by (simp add: new_version_def demo_disk'_def written_def squash_def join_text_def) (simp add: demo_disk_def)
  then have "freach shout_env (JStr ''/x'') [] (file_event shout_env 1 (EvClose [(''tag'', JStr ''t2'')]) (demo_file 4)) demo_disk'"
    using demo_file_facts by (intro freach.commit [OF demo_file_reach]) (simp_all add: demo_disk_def)
  from freach.step [OF this, of DoRunLater] show ?thesis
    by (simp add: demo_done_file_def)
qed

theorem modify_resolves_with_written_witness:
  "\<exists>msgs. writes shout_env (CText ''a!'') msgs \<and> dk_hist demo_disk' (JStr ''t2'') = Some (written False msgs)"
proof -
  have "take 1 (fi_dfds demo_done_file) = [\<lparr>fd_role = Modifier, fd_state = Some (FDone (CText ''a!'') (JStr ''t2'')), fd_conts = []\<rparr>]"
    by code_simp
  then have "0 < length (fi_dfds demo_done_file)" "fd_role (fi_dfds demo_done_file ! 0) = Modifier"
    "fd_state (fi_dfds demo_done_file ! 0) = Some (FDone (CText ''a!'') (JStr ''t2''))"
    by (cases "fi_dfds demo_done_file"; simp)+
  moreover have "fi_binary demo_done_file = False"
    by code_simp
  moreover note modify_resolves_with_written [OF demo_done_reach]
  ultimately show ?thesis
    by metis
qed

end
