(* ===== verification/Metrics.thy ===== *)
theory Metrics
  imports Channel_Port
begin

text \<open>
  \<open>MetricsChannel\<close> of \<open>src/base1/cockpit.js\<close>: the channels it opens one after the other, the decompression of samples
  and the mapping of names to places in a sample.  What reaches the series and other code is logged.

  A message is a value here; meta messages are objects and data messages are arrays of arrays, as in
  \<open>doc/protocol.md\<close>.  Times are integers.
\<close>

section \<open>Decompression\<close>

text \<open>The values of the instances of a metric: a null, or a missing value at the end, is as before.\<close>

fun merge_insts :: "js list \<Rightarrow> js list \<Rightarrow> js list" where
  "merge_insts ls [] = ls"
| "merge_insts [] (d # ds) = (if d = JNull then JUndef else d) # merge_insts [] ds"
| "merge_insts (l # ls) (d # ds) = (if d = JNull then l else d) # merge_insts ls ds"

definition decompress_cell :: "js \<Rightarrow> js \<Rightarrow> js" where
  "decompress_cell l d =
     (case d of
        JNull \<Rightarrow> l
      | JUndef \<Rightarrow> l
      | JArr ds \<Rightarrow> JArr (merge_insts (case l of JArr ls \<Rightarrow> ls | _ \<Rightarrow> []) ds)
      | _ \<Rightarrow> d)"

fun decompress_cells :: "js list \<Rightarrow> js list \<Rightarrow> js list" where
  "decompress_cells [] ds = ds"
| "decompress_cells (l # ls) [] = decompress_cell l JUndef # decompress_cells ls []"
| "decompress_cells (l # ls) (d # ds) = decompress_cell l d # decompress_cells ls ds"

definition decompress_row :: "js option \<Rightarrow> js \<Rightarrow> js" where
  "decompress_row prev data =
     (case (prev, data) of (Some (JArr ls), JArr ds) \<Rightarrow> JArr (decompress_cells ls ds) | _ \<Rightarrow> data)"

fun decompress_rows :: "js option \<Rightarrow> js list \<Rightarrow> js list" where
  "decompress_rows prev [] = []"
| "decompress_rows prev (d # ds) = decompress_row prev d # decompress_rows (Some (decompress_row prev d)) ds"

section \<open>Mapping\<close>

definition metric_map :: "nat \<Rightarrow> js \<Rightarrow> js" where
  "metric_map i metric =
     (let instances = (case fld metric ''instances'' of JArr xs \<Rightarrow> xs | _ \<Rightarrow> [])
      in JObj (fold (\<lambda>(k, inst) m. oset m (if to_str inst = [] then ''/'' else to_str inst) (JObj [('''', JNum (int k))]))
                (zip [0..<length instances] instances) [('''', JNum (int i))]))"

definition metric_name :: "options \<Rightarrow> nat \<Rightarrow> js \<Rightarrow> string" where
  "metric_name options i metric =
     to_str (if truthy (opt options ''metrics_path_names'') then get_prop (opt options ''metrics_path_names'') (JNum (int i))
             else fld metric ''name'')"

definition metrics_mapping :: "options \<Rightarrow> js list \<Rightarrow> js" where
  "metrics_mapping options metrics =
     JObj (fold (\<lambda>(i, metric) m. oset m (metric_name options i metric) (metric_map i metric))
             (zip [0..<length metrics] metrics) [])"

section \<open>State\<close>

record metrics_chan =
  mc_opts :: options
  mc_list :: "options list"
  mc_archive :: bool
  mc_open :: bool
  mc_meta :: "options option"
  mc_last :: "js option"
  mc_beg :: int

datatype metrics_effect =
    MOpen options
  | MInput int "js list" js
  | MChanged
  | MWarn string
  | MClose nat options
  | MSeriesClosed
  | MException

record metrics =
  mt_interval :: int
  mt_options :: "options list"
  mt_channels :: "metrics_chan list"
  mt_following :: bool
  mt_archives :: bool
  mt_meta :: "options option"
  mt_log :: "metrics_effect list"

text \<open>\<open>new MetricsChannel(interval, options_list)\<close>; a single object stands for a list of one.\<close>

definition new_metrics :: "int \<Rightarrow> js \<Rightarrow> metrics" where
  "new_metrics interval options_list =
     \<lparr>mt_interval = interval,
      mt_options = (case options_list of
          JArr xs \<Rightarrow> map (\<lambda>x. case x of JObj kvs \<Rightarrow> kvs | _ \<Rightarrow> []) xs | JObj kvs \<Rightarrow> [kvs] | _ \<Rightarrow> [[]]),
      mt_channels = [], mt_following = False, mt_archives = False, mt_meta = None, mt_log = []\<rparr>"

definition mlog :: "metrics_effect \<Rightarrow> metrics \<Rightarrow> metrics" where
  "mlog e mt = mt\<lparr>mt_log := mt_log mt @ [e]\<rparr>"

section \<open>Channels\<close>

definition transfer :: "options list \<Rightarrow> bool \<Rightarrow> metrics \<Rightarrow> metrics" where
  "transfer options_list is_archive mt =
     (case options_list of
        [] \<Rightarrow> mt
      | o1 # _ \<Rightarrow>
          if \<not> is_archive \<and> mt_following mt then mt
          else
            let options = odel (JS_Value.extend [(''payload'', JStr ''metrics1''), (''interval'', JNum (mt_interval mt)),
                    (''source'', JStr ''internal'')] [JObj o1]) ''archive_source'';
                mt = mt\<lparr>mt_following := (mt_following mt \<or> \<not> is_archive)\<rparr>
            in mlog (MOpen options) (mt\<lparr>mt_channels := mt_channels mt @
                 [\<lparr>mc_opts = options, mc_list = options_list, mc_archive = is_archive, mc_open = True,
                   mc_meta = None, mc_last = None, mc_beg = 0\<rparr>]\<rparr>))"

text \<open>The close event of a channel.\<close>

definition quiet_problem :: "bool \<Rightarrow> string \<Rightarrow> bool" where
  "quiet_problem is_archive problem \<longleftrightarrow>
     problem \<in> {''terminated'', ''disconnected'', ''authentication-failed''} \<or>
     is_archive \<and> problem \<in> {''not-found'', ''not-supported''}"

definition metrics_on_close :: "nat \<Rightarrow> options \<Rightarrow> metrics \<Rightarrow> metrics" where
  "metrics_on_close c close_options mt =
     (let mc = mt_channels mt ! c;
          mt = mt\<lparr>mt_channels := (mt_channels mt)[c := mc\<lparr>mc_open := False\<rparr>]\<rparr>;
          mt = (if mc_archive mc then mt else mt\<lparr>mt_following := False\<rparr>);
          problem = opt close_options ''problem''
      in if length (mc_list mc) > 1 \<and> (problem = JStr ''not-supported'' \<or> problem = JStr ''not-found'')
         then transfer (tl (mc_list mc)) False mt
         else if truthy problem
         then (if quiet_problem (mc_archive mc) (to_str problem) then mt
               else mlog (MWarn (''metrics channel failed: '' @ to_str problem)) mt)
         else if mc_archive mc \<and> \<not> mt_archives mt then mlog MChanged (mt\<lparr>mt_archives := True\<rparr>)
         else mt)"

text \<open>
  \<open>drain\<close>: the mapping of a meta message, made once and kept in it; \<open>None\<close> is the exception for a message without
  metrics.
\<close>

definition meta_mapping :: "options \<Rightarrow> options \<Rightarrow> options option" where
  "meta_mapping options meta =
     (if truthy (opt meta ''mapping'') then Some meta
      else case opt meta ''metrics'' of
             JArr metrics \<Rightarrow> Some (oset meta ''mapping'' (metrics_mapping options metrics)) | _ \<Rightarrow> None)"

definition meta_timestamp :: "int \<Rightarrow> options \<Rightarrow> int" where
  "meta_timestamp now meta =
     (case (opt meta ''now'', opt meta ''timestamp'') of
        (JNum n, JNum t) \<Rightarrow> if n \<noteq> 0 \<and> t \<noteq> 0 then t + (now - n) else 0 | _ \<Rightarrow> 0)"

definition set_mchan :: "nat \<Rightarrow> metrics_chan \<Rightarrow> metrics \<Rightarrow> metrics" where
  "set_mchan c mc mt = mt\<lparr>mt_channels := (mt_channels mt)[c := mc]\<rparr>"

definition bump :: "int \<Rightarrow> options \<Rightarrow> options" where
  "bump n meta = (case opt meta ''timestamp'' of JNum t \<Rightarrow> oset meta ''timestamp'' (JNum (t + n)) | _ \<Rightarrow> meta)"

text \<open>The message event of a channel, at the time \<open>now\<close>.\<close>

definition metrics_on_message :: "int \<Rightarrow> nat \<Rightarrow> js \<Rightarrow> metrics \<Rightarrow> metrics" where
  "metrics_on_message now c message mt =
     (let mc = mt_channels mt ! c
      in case message of
           JNull \<Rightarrow> mlog MException mt
         | JArr rows \<Rightarrow>
             (case mc_meta mc of
                None \<Rightarrow> mt
              | Some meta \<Rightarrow>
                  let rows = decompress_rows (mc_last mc) rows;
                      mc = mc\<lparr>mc_last := (if rows = [] then mc_last mc else Some (List.last rows))\<rparr>
                  in case meta_mapping (hd (mc_list mc)) meta of
                       None \<Rightarrow> mlog MException (set_mchan c mc mt)
                     | Some meta \<Rightarrow>
                         let mt = mlog (MInput (mc_beg mc) rows (opt meta ''mapping'')) mt
                         in set_mchan c (mc\<lparr>mc_beg := mc_beg mc + int (length rows),
                              mc_meta := Some (bump (mt_interval mt * int (length rows)) meta)\<rparr>) mt)
         | JObj meta \<Rightarrow>
             let mc = mc\<lparr>mc_meta := Some meta, mc_beg := meta_timestamp now meta div mt_interval mt\<rparr>
             in (case meta_mapping (hd (mc_list mc)) meta of
                   None \<Rightarrow> mlog MException (set_mchan c mc mt)
                 | Some meta \<Rightarrow> mlog MChanged ((set_mchan c (mc\<lparr>mc_meta := Some meta\<rparr>) mt)\<lparr>mt_meta := Some meta\<rparr>))
         | _ \<Rightarrow> mlog MException mt)"

section \<open>Operations\<close>

definition archive_options :: "int \<Rightarrow> int \<Rightarrow> options list \<Rightarrow> options list" where
  "archive_options timestamp limit options_list =
     map (\<lambda>o1. JS_Value.extend [] [JObj o1, JObj [(''source'', opt o1 ''archive_source''), (''timestamp'', JNum timestamp),
                 (''limit'', JNum limit)]])
       (filter (\<lambda>o1. truthy (opt o1 ''archive_source'')) options_list)"

definition metrics_fetch :: "int \<Rightarrow> int \<Rightarrow> int \<Rightarrow> metrics \<Rightarrow> metrics" where
  "metrics_fetch now beg end' mt =
     transfer (archive_options (beg * mt_interval mt - now) (end' - beg) (mt_options mt)) True mt"

definition metrics_follow :: "metrics \<Rightarrow> metrics" where
  "metrics_follow mt = transfer (mt_options mt) False mt"

definition fetch_for_series :: "int \<Rightarrow> int \<Rightarrow> int \<Rightarrow> bool \<Rightarrow> metrics \<Rightarrow> metrics" where
  "fetch_for_series now beg end' for_walking mt = (if \<not> for_walking then metrics_fetch now beg end' mt else metrics_follow mt)"

text \<open>\<open>channels[i].close(options)\<close>: the close event of an open channel comes at once.\<close>

definition close_mchan :: "options \<Rightarrow> nat \<Rightarrow> metrics \<Rightarrow> metrics" where
  "close_mchan options c mt =
     (if mc_open (mt_channels mt ! c) then metrics_on_close c options (mlog (MClose c options) mt) else mt)"

definition metrics_close :: "options \<Rightarrow> metrics \<Rightarrow> metrics" where
  "metrics_close options mt = fold (close_mchan options) [0..<length (mt_channels mt)] (mlog MSeriesClosed mt)"

section \<open>Decompression undoes compression\<close>

text \<open>
  Compression as \<open>doc/protocol.md\<close> has it: a value that is the same as before is sent as a null, in the instances of a metric
  as in the sample itself, and nulls at the end are not sent.
\<close>

definition trim_nulls :: "js list \<Rightarrow> js list" where
  "trim_nulls xs = rev (dropWhile (\<lambda>x. x = JNull) (rev xs))"

definition compress_insts :: "js list \<Rightarrow> js list \<Rightarrow> js list" where
  "compress_insts ls ds = trim_nulls (map2 (\<lambda>l d. if d = l then JNull else d) ls ds)"

definition compress_cell :: "js \<Rightarrow> js \<Rightarrow> js" where
  "compress_cell l d =
     (case d of JArr ds \<Rightarrow> JArr (compress_insts (case l of JArr ls \<Rightarrow> ls | _ \<Rightarrow> []) ds) | _ \<Rightarrow> if d = l then JNull else d)"

fun compress_rows :: "js list option \<Rightarrow> js list list \<Rightarrow> js list" where
  "compress_rows prev [] = []"
| "compress_rows prev (row # rows) =
     JArr (case prev of None \<Rightarrow> row | Some ls \<Rightarrow> trim_nulls (map2 compress_cell ls row)) # compress_rows (Some row) rows"

text \<open>Samples of one layout: numbers, or false for an error, and for an instanced metric an array of those.\<close>

fun sample :: "js \<Rightarrow> bool" where
  "sample (JNum i) = True"
| "sample (JBool b) = (\<not> b)"
| "sample _ = False"

fun same_layout :: "js \<Rightarrow> js \<Rightarrow> bool" where
  "same_layout (JArr ls) (JArr ds) = (length ls = length ds \<and> list_all sample ls \<and> list_all sample ds)"
| "same_layout l d = (sample l \<and> sample d)"

fun rows_ok :: "js list option \<Rightarrow> js list list \<Rightarrow> bool" where
  "rows_ok prev [] = True"
| "rows_ok prev (row # rows) = ((case prev of None \<Rightarrow> True | Some ls \<Rightarrow> list_all2 same_layout ls row) \<and> rows_ok (Some row) rows)"

lemma trim_nulls_split: "\<exists>k. xs = trim_nulls xs @ replicate k JNull"
proof -
  let ?t = "takeWhile (\<lambda>x. x = JNull) (rev xs)"
  have "?t = replicate (length ?t) JNull"
    by (auto simp: list_eq_iff_nth_eq dest: set_takeWhileD nth_mem)
  moreover have "xs = trim_nulls xs @ rev ?t"
    unfolding trim_nulls_def by (metis rev_append rev_rev_ident takeWhile_dropWhile_id)
  ultimately show ?thesis
    by (metis rev_replicate)
qed

lemma merge_insts_nulls: "length xs + k \<le> length ls \<Longrightarrow> merge_insts ls (xs @ replicate k JNull) = merge_insts ls xs"
proof (induction ls xs rule: merge_insts.induct)
  case (1 ls)
  then show ?case
  proof (induction k arbitrary: ls)
    case (Suc k)
    then show ?case by (cases ls) auto
  qed simp
qed auto

lemma merge_insts_trim: "length xs \<le> length ls \<Longrightarrow> merge_insts ls (trim_nulls xs) = merge_insts ls xs"
proof -
  assume len: "length xs \<le> length ls"
  obtain k where k: "xs = trim_nulls xs @ replicate k JNull"
    using trim_nulls_split by blast
  then have "length xs = length (trim_nulls xs) + k"
    by (metis length_append length_replicate)
  then show ?thesis
    using merge_insts_nulls [of "trim_nulls xs" k ls] len k by simp
qed

lemma sample_not_null: "sample d \<Longrightarrow> d \<noteq> JNull" "sample d \<Longrightarrow> d \<noteq> JUndef" "sample d \<Longrightarrow> \<not> (\<exists>xs. d = JArr xs)"
  by (cases d; simp)+

lemma merge_compress_insts:
  assumes "length ls = length ds" and "list_all sample ds"
  shows "merge_insts ls (compress_insts ls ds) = ds"
proof -
  have "merge_insts ls (map2 (\<lambda>l d. if d = l then JNull else d) ls ds) = ds"
    using assms by (induction ls ds rule: list_induct2) (auto simp: sample_not_null)
  then show ?thesis
    using assms(1) by (simp add: compress_insts_def merge_insts_trim)
qed

lemma decompress_compress_cell: "same_layout l d \<Longrightarrow> decompress_cell l (compress_cell l d) = d"
  by (cases "(l, d)" rule: same_layout.cases)
    (auto simp: decompress_cell_def compress_cell_def merge_compress_insts split: js.splits)

lemma decompress_cells_nulls:
  "length xs + k \<le> length ls \<Longrightarrow> decompress_cells ls (xs @ replicate k JNull) = decompress_cells ls xs"
proof (induction xs arbitrary: ls)
  case Nil
  then show ?case
  proof (induction k arbitrary: ls)
    case (Suc k)
    then show ?case by (cases ls) (auto simp: decompress_cell_def)
  qed simp
next
  case (Cons x xs)
  then show ?case by (cases ls) auto
qed

lemma decompress_compress_cells:
  assumes "list_all2 same_layout ls row"
  shows "decompress_cells ls (trim_nulls (map2 compress_cell ls row)) = row"
proof -
  let ?xs = "map2 compress_cell ls row"
  obtain k where k: "?xs = trim_nulls ?xs @ replicate k JNull"
    using trim_nulls_split by blast
  then have "length (trim_nulls ?xs) + k = length ls"
    using list_all2_lengthD [OF assms] by (metis length_append length_map length_replicate length_zip min.idem)
  then have "decompress_cells ls (trim_nulls ?xs) = decompress_cells ls ?xs"
    using decompress_cells_nulls [of "trim_nulls ?xs" k ls] k by simp
  moreover have "decompress_cells ls ?xs = row"
    using assms by (induction rule: list_all2_induct) (auto simp: decompress_compress_cell)
  ultimately show ?thesis by simp
qed


text \<open>The example of the protocol documentation.\<close>

definition doc_rows :: "js list list" where
  "doc_rows = [[JNum 21354, JArr [JNum 5, JNum 5, JNum 5], JNum 100], [JNum 21354, JArr [JNum 5, JNum 15, JNum 5], JNum 100],
     [JNum 21354, JArr [JNum 5, JNum 15, JNum 5], JNum 100]]"


section \<open>One live channel\<close>

datatype metrics_op =
    MFetch int int int
  | MFollow
  | MCloseAll options
  | MOnMessage int nat js
  | MOnClose nat options

fun mexec :: "metrics_op \<Rightarrow> metrics \<Rightarrow> metrics" where
  "mexec (MFetch now beg end') = metrics_fetch now beg end'"
| "mexec MFollow = metrics_follow"
| "mexec (MCloseAll options) = metrics_close options"
| "mexec (MOnMessage now c message) = metrics_on_message now c message"
| "mexec (MOnClose c options) = metrics_on_close c options"

fun menabled :: "metrics_op \<Rightarrow> metrics \<Rightarrow> bool" where
  "menabled (MOnMessage now c message) mt = (c < length (mt_channels mt) \<and> mc_open (mt_channels mt ! c))"
| "menabled (MOnClose c options) mt = (c < length (mt_channels mt) \<and> mc_open (mt_channels mt ! c))"
| "menabled op mt = True"

inductive mreach :: "int \<Rightarrow> js \<Rightarrow> metrics \<Rightarrow> bool" for interval options where
  start: "mreach interval options (new_metrics interval options)"
| move: "mreach interval options mt \<Longrightarrow> menabled op mt \<Longrightarrow> mreach interval options (mexec op mt)"

definition live_count :: "metrics \<Rightarrow> nat" where
  "live_count mt = length (filter (\<lambda>mc. mc_open mc \<and> \<not> mc_archive mc) (mt_channels mt))"

definition one_follower :: "metrics \<Rightarrow> bool" where
  "one_follower mt \<longleftrightarrow> live_count mt = (if mt_following mt then 1 else 0)"

lemma length_filter_update:
  "c < length xs \<Longrightarrow> length (filter P (xs[c := y])) + (if P (xs ! c) then 1 else 0) = length (filter P xs) + (if P y then 1 else 0)"
proof (induction xs arbitrary: c)
  case (Cons x xs)
  then show ?case
    by (cases c) (auto split: if_splits)
qed simp

lemma live_mlog [simp]: "live_count (mlog e mt) = live_count mt" "mt_following (mlog e mt) = mt_following mt"
  "mt_channels (mlog e mt) = mt_channels mt"
  by (simp_all add: live_count_def mlog_def)

lemma followed_transfer: "one_follower mt \<Longrightarrow> one_follower (transfer ol is_archive mt)"
  by (auto simp: one_follower_def transfer_def Let_def live_count_def mlog_def split: list.split)

lemma followed_vars [simp]: "one_follower (mlog e mt) = one_follower mt" "one_follower (mt\<lparr>mt_meta := m\<rparr>) = one_follower mt"
  "one_follower (mt\<lparr>mt_archives := b\<rparr>) = one_follower mt"
  by (simp_all add: one_follower_def live_count_def mlog_def)

lemma followed_close:
  assumes "one_follower mt" and "c < length (mt_channels mt)" and "mc_open (mt_channels mt ! c)"
  shows "one_follower (metrics_on_close c options mt)"
proof -
  let ?mc = "mt_channels mt ! c"
  define a where "a = mt\<lparr>mt_channels := (mt_channels mt)[c := ?mc\<lparr>mc_open := False\<rparr>]\<rparr>"
  define b where "b = (if mc_archive ?mc then a else a\<lparr>mt_following := False\<rparr>)"
  have "live_count a + (if mc_archive ?mc then 0 else 1) = live_count mt"
    using length_filter_update [OF assms(2), of "\<lambda>mc. mc_open mc \<and> \<not> mc_archive mc" "?mc\<lparr>mc_open := False\<rparr>"] assms(3)
    by (auto simp: live_count_def a_def split: if_splits)
  then have "one_follower b"
    using assms(1) by (auto simp: one_follower_def b_def a_def live_count_def split: if_splits)
  moreover have "metrics_on_close c options mt =
      (let problem = opt options ''problem'' in
       if length (mc_list ?mc) > 1 \<and> (problem = JStr ''not-supported'' \<or> problem = JStr ''not-found'') then transfer (tl (mc_list ?mc)) False b
       else if truthy problem
       then (if quiet_problem (mc_archive ?mc) (to_str problem) then b
             else mlog (MWarn (''metrics channel failed: '' @ to_str problem)) b)
       else if mc_archive ?mc \<and> \<not> mt_archives b then mlog MChanged (b\<lparr>mt_archives := True\<rparr>) else b)"
    unfolding metrics_on_close_def Let_def a_def b_def by (rule refl)
  ultimately show ?thesis
    by (auto simp: Let_def intro: followed_transfer)
qed

lemma followed_set_mchan:
  assumes "one_follower mt" and "c < length (mt_channels mt)" and "mc_open mc = mc_open (mt_channels mt ! c)" and "mc_archive mc = mc_archive (mt_channels mt ! c)"
  shows "one_follower (set_mchan c mc mt)"
  using assms length_filter_update [OF assms(2), of "\<lambda>mc. mc_open mc \<and> \<not> mc_archive mc" mc]
  by (simp add: one_follower_def live_count_def set_mchan_def)

lemma followed_message:
  assumes "one_follower mt" and "c < length (mt_channels mt)"
  shows "one_follower (metrics_on_message now c message mt)"
  using assms by (auto simp: metrics_on_message_def Let_def intro!: followed_set_mchan split: js.split option.split)

lemma close_mchan_length: "length (mt_channels mt) \<le> length (mt_channels (close_mchan options c mt))"
  by (auto simp: close_mchan_def metrics_on_close_def Let_def transfer_def split: list.split)

lemma followed_close_all:
  assumes "one_follower mt" and "\<forall>c \<in> set cs. c < length (mt_channels mt)"
  shows "one_follower (fold (close_mchan options) cs mt)"
  using assms
proof (induction cs arbitrary: mt)
  case (Cons c cs)
  have "one_follower (close_mchan options c mt)"
    using Cons.prems by (auto simp: close_mchan_def intro!: followed_close)
  moreover have "\<forall>c' \<in> set cs. c' < length (mt_channels (close_mchan options c mt))"
    using Cons.prems(2) close_mchan_length [of mt options c] by fastforce
  ultimately show ?case
    using Cons.IH by simp
qed simp


definition demo_metrics :: metrics where
  "demo_metrics = mexec MFollow (mexec MFollow (new_metrics 1000 (JArr [JObj [], JObj []])))"


text \<open>When a request for an archive falls back to its second source, that one is opened as a live channel.\<close>

lemma archive_fallback_is_live:
  "let mt = metrics_on_close 0 [(''problem'', JStr ''not-found'')]
     (metrics_fetch 0 0 10 (new_metrics 1000 (JArr [JObj [(''archive_source'', JStr ''a'')], JObj [(''archive_source'', JStr ''b'')]])))
   in map mc_archive (mt_channels mt) = [True, False] \<and> mt_following mt"
  by code_simp

end
