(* ===== verification/Channel_Spec.thy ===== *)
theory Channel_Spec
  imports Channel_Port "HOL-Library.Sublist"
begin

text \<open>
  What a channel promises, as a machine of its own: it delivers events while it is open, and closes once.  The channels of
  the store refine it: every step of the store, whichever operation it is and whatever channel or transport it is about, is
  for each single channel a sequence of steps of this machine.
\<close>

section \<open>The abstract channel\<close>

record channel_spec =
  cs_closed :: "options option"
  cs_events :: "chan_event list"

inductive spec_step :: "channel_spec \<Rightarrow> channel_spec \<Rightarrow> bool" where
  deliver: "cs_closed s = None \<Longrightarrow> \<not> is_close_event e \<Longrightarrow> spec_step s (s\<lparr>cs_events := cs_events s @ [e]\<rparr>)"
| close: "cs_closed s = None \<Longrightarrow> spec_step s (s\<lparr>cs_closed := Some d, cs_events := cs_events s @ [EvClose d]\<rparr>)"

inductive_cases spec_stepE: "spec_step s s'"

definition fresh_spec :: channel_spec where
  "fresh_spec = \<lparr>cs_closed = None, cs_events = []\<rparr>"

text \<open>The abstraction of a channel of the store; a channel that is not there yet is fresh.\<close>

definition abs_chan :: "nat \<Rightarrow> world \<Rightarrow> channel_spec" where
  "abs_chan c w =
     (if c < length (w_chans w) then \<lparr>cs_closed = c_closed (ch w c), cs_events = events_of c w\<rparr> else fresh_spec)"

section \<open>The log and the channels only grow\<close>

definition logs :: "effect list \<Rightarrow> nat \<Rightarrow> world \<Rightarrow> bool" where
  "logs l n w \<longleftrightarrow> prefix l (w_log w) \<and> n \<le> length (w_chans w)"

named_theorems logs_intros

lemma logs_basic [logs_intros]:
  "logs l n w \<Longrightarrow> logs l n (emit e w)" "logs l n w \<Longrightarrow> logs l n (upd_t t f w)" "logs l n w \<Longrightarrow> logs l n (upd_c c g w)"
  "logs l n w \<Longrightarrow> logs l n (w\<lparr>w_expect_disconnect := a\<rparr>)" "logs l n w \<Longrightarrow> logs l n (w\<lparr>w_default_host := h\<rparr>)"
  "logs l n w \<Longrightarrow> logs l n (w\<lparr>w_default := d\<rparr>)" "logs l n w \<Longrightarrow> logs l n (w\<lparr>w_chans := w_chans w @ cs\<rparr>)" "logs l n w \<Longrightarrow> logs l n (w\<lparr>w_transports := ts\<rparr>)"
  "logs l n w \<Longrightarrow> logs l n (w\<lparr>w_reload_after_disconnect := r\<rparr>)" "logs l n w \<Longrightarrow> logs l n (w\<lparr>w_incoming_filters := fi\<rparr>)"
  "logs l n w \<Longrightarrow> logs l n (w\<lparr>w_outgoing_filters := fo\<rparr>)"
  by (auto simp: logs_def emit_def upd_t_def upd_c_def prefix_def)

lemma logs_fold: "(\<And>x w. logs l n w \<Longrightarrow> logs l n (f x w)) \<Longrightarrow> logs l n w \<Longrightarrow> logs l n (fold f xs w)"
  by (induction xs arbitrary: w) auto

lemma logs_send [logs_intros]:
  assumes "logs l n w"
  shows "logs l n (fst (send_data t m channel control w))" "logs l n (fst (send_control t d w))" "logs l n (send_payload c p w)"
    "logs l n (drain_item t c k x w)"
proof -
  have data: "logs l n (fst (send_data t m channel control w))" for t m channel control
    using assms by (auto simp: send_data_def intro!: logs_intros split: option.split)
  show "logs l n (fst (send_data t m channel control w))" by (rule data)
  have ctl: "logs l n (fst (send_control t d w))" for t d
    using assms data by (auto simp: send_control_def send_message_def intro!: logs_intros split: option.split)
  show "logs l n (fst (send_control t d w))" by (rule ctl)
  have pay: "logs l n (send_payload c p w)" for p
    using assms data by (auto simp: send_payload_def send_message_def Let_def intro!: logs_intros split: option.split)
  show "logs l n (send_payload c p w)" by (rule pay)
  show "logs l n (drain_item t c k x w)"
    using ctl pay by (auto simp: drain_item_def split: queue_item.split)
qed

lemma logs_on_close [logs_intros]: "logs l n w \<Longrightarrow> logs l n (on_close c d w)"
  by (auto simp: on_close_def Let_def unregister_def intro!: logs_intros split: option.split)

lemma logs_chan_close [logs_intros]: "logs l n w \<Longrightarrow> logs l n (chan_close c d w)"
  by (auto simp: chan_close_def Let_def intro!: logs_intros split: option.split)

lemma logs_chan_events [logs_intros]:
  assumes "logs l n w"
  shows "logs l n (on_message c p w)" "logs l n (on_ready c d w)" "logs l n (on_control c d w)"
proof -
  show "logs l n (on_message c p w)"
    using assms by (auto simp: on_message_def intro!: logs_intros)
  have ready: "logs l n (on_ready c d w)"
    using assms by (auto simp: on_ready_def intro!: logs_intros)
  then show "logs l n (on_ready c d w)" .
  with assms show "logs l n (on_control c d w)"
    by (auto simp: on_control_def Let_def intro!: logs_intros)
qed

lemma logs_on_transport [logs_intros]: "logs l n w \<Longrightarrow> logs l n (on_transport c t w)"
  by (auto simp: on_transport_def Let_def next_channel_def register_def intro!: logs_intros logs_fold)

lemma logs_control_or_reload [logs_intros]: "logs l n w \<Longrightarrow> logs l n (control_or_reload t r d w)"
  using logs_send(2) [of l n w t d] by (auto simp: control_or_reload_def intro: logs_intros split: prod.split)

lemma logs_callbacks [logs_intros]:
  "logs l n w \<Longrightarrow> logs l n (run_callback t cb w)" "logs l n w \<Longrightarrow> logs l n (ready_for_channels t w)" "logs l n w \<Longrightarrow> logs l n (call_control t d k w)"
proof -
  have run: "logs l n w \<Longrightarrow> logs l n (run_callback t cb w)" for cb w
    by (auto simp: run_callback_def intro!: logs_intros split: ready_callback.split)
  then show "logs l n w \<Longrightarrow> logs l n (run_callback t cb w)" .
  from run show "logs l n w \<Longrightarrow> logs l n (ready_for_channels t w)"
    by (auto simp: ready_for_channels_def intro!: logs_intros logs_fold)
  show "logs l n w \<Longrightarrow> logs l n (call_control t d k w)"
    by (auto simp: call_control_def intro!: logs_intros split: option.split)
qed

lemma logs_transport [logs_intros]:
  assumes "logs l n w"
  shows "logs l n (close_rest t d w)" "logs l n (ws_onclose t w)" "logs l n (transport_close t options w)"
proof -
  have rest: "logs l n (close_rest t d w)" if "logs l n w" for d w
    using that by (auto simp: close_rest_def broadcast_def intro!: logs_intros logs_fold)
  with assms show "logs l n (close_rest t d w)" by blast
  have onclose: "logs l n (ws_onclose t w)" if "logs l n w" for w
    using that by (auto simp: ws_onclose_def Let_def intro!: rest logs_intros)
  with assms show "logs l n (ws_onclose t w)" by blast
  from assms show "logs l n (transport_close t options w)"
    by (auto simp: transport_close_def Let_def intro!: rest onclose logs_intros split: option.split socket.split)
qed

lemma logs_process [logs_intros]:
  assumes "logs l n w"
  shows "logs l n (process_control t d w)" "logs l n (process_message t k p w)" "logs l n (dispatch_data t m w)"
proof -
  have ctl: "logs l n (process_control t d w)" if "logs l n w" for d w
    using that by (auto simp: process_control_def process_init_def Let_def intro!: logs_intros)
  have msg: "logs l n (process_message t k p w)" if "logs l n w" for k p w
    using that by (auto simp: process_message_def intro!: logs_intros split: option.split)
  show "logs l n (process_control t d w)" "logs l n (process_message t k p w)"
    using assms ctl msg by blast+
  show "logs l n (dispatch_data t m w)"
    using assms by (auto simp: dispatch_data_def process_value_def Let_def intro!: ctl msg logs_intros split: option.split js.split)
qed

lemma logs_ensure [logs_intros]: "logs l n w \<Longrightarrow> logs l n (ensure_transport s cb w)"
  by (auto simp: ensure_transport_def Let_def intro!: logs_intros split: option.split)

lemma logs_public [logs_intros]:
  assumes "logs l n w"
  shows "logs l n (public_control s command options w)" "logs l n (inject m out w)" "logs l n (public_close p w)" "logs l n (channel_open s o' w)"
  using assms
  by (auto simp: public_control_def inject_def inject_out_def public_close_def channel_open_def Let_def intro!: logs_intros
      split: option.split)

lemma logs_exec: "logs l n w \<Longrightarrow> logs l n (exec oper w)"
  by (cases oper)
    (auto simp: chan_send_def chan_control_def chan_wait_def check_health_def no_socket_timeout_def ws_onopen_def on_unload_def
       add_filter_def kill_def hint_def logout_transport_def drop_privileges_def Let_def intro!: logs_intros split: option.split js.split)

lemma step_grows:
  assumes "step w w'"
  shows "prefix (w_log w) (w_log w')" "length (w_chans w) \<le> length (w_chans w')"
proof -
  obtain oper where w': "w' = exec oper w"
    using assms by (auto elim: stepE)
  have "logs (w_log w) (length (w_chans w)) w"
    by (simp add: logs_def)
  then show "prefix (w_log w) (w_log w')" "length (w_chans w) \<le> length (w_chans w')"
    using logs_exec [of _ _ w oper] by (auto simp: w' logs_def)
qed

lemma events_prefix: "prefix (w_log w) (w_log w') \<Longrightarrow> prefix (events_of c w) (events_of c w')"
  by (auto simp: prefix_def events_of_def chan_log_def map_filter_append)

section \<open>Steps of the abstract channel\<close>

lemma spec_delivers:
  assumes "\<forall>e \<in> set new. \<not> is_close_event e" and "cs_closed s = None"
  shows "spec_step\<^sup>*\<^sup>* s (s\<lparr>cs_events := cs_events s @ new\<rparr>)"
  using assms
proof (induction new arbitrary: s)
  case (Cons e new)
  have "spec_step s (s\<lparr>cs_events := cs_events s @ [e]\<rparr>)"
    using Cons.prems by (intro spec_step.deliver) auto
  moreover have "spec_step\<^sup>*\<^sup>* (s\<lparr>cs_events := cs_events s @ [e]\<rparr>) (s\<lparr>cs_events := cs_events s @ e # new\<rparr>)"
    using Cons.IH [of "s\<lparr>cs_events := cs_events s @ [e]\<rparr>"] Cons.prems by simp
  ultimately show ?case
    by (rule converse_rtranclp_into_rtranclp)
qed simp

text \<open>Two histories that keep the contract, one of them a beginning of the other.\<close>

definition history_ok :: "channel_spec \<Rightarrow> bool" where
  "history_ok s \<longleftrightarrow>
     (case cs_closed s of
        None \<Rightarrow> \<forall>e \<in> set (cs_events s). \<not> is_close_event e
      | Some d \<Rightarrow> \<exists>es. cs_events s = es @ [EvClose d] \<and> (\<forall>e \<in> set es. \<not> is_close_event e))"

lemma spec_reaches:
  assumes "history_ok s" and "history_ok s'" and "prefix (cs_events s) (cs_events s')"
  shows "spec_step\<^sup>*\<^sup>* s s'"
proof -
  obtain new where new: "cs_events s' = cs_events s @ new"
    using assms(3) by (auto simp: prefix_def)
  show ?thesis
  proof (cases "cs_closed s")
    case None
    show ?thesis
    proof (cases "cs_closed s'")
      case None
      then have "s' = s\<lparr>cs_events := cs_events s @ new\<rparr>" "\<forall>e \<in> set new. \<not> is_close_event e"
        using \<open>cs_closed s = None\<close> new assms(2) by (auto simp: history_ok_def)
      then show ?thesis
        using spec_delivers [of new s] \<open>cs_closed s = None\<close> by simp
    next
      case (Some d)
      then obtain es where es: "cs_events s @ new = es @ [EvClose d]" "\<forall>e \<in> set es. \<not> is_close_event e"
        using new assms(2) by (auto simp: history_ok_def)
      have "EvClose d \<notin> set (cs_events s)"
        using assms(1) \<open>cs_closed s = None\<close> by (auto simp: history_ok_def)
      then obtain new' where new': "new = new' @ [EvClose d]" "es = cs_events s @ new'"
        using es(1) by (cases new rule: rev_cases) auto
      let ?m = "s\<lparr>cs_events := cs_events s @ new'\<rparr>"
      have "spec_step\<^sup>*\<^sup>* s ?m"
        using es(2) new'(2) \<open>cs_closed s = None\<close> by (intro spec_delivers) auto
      moreover have "spec_step ?m (?m\<lparr>cs_closed := Some d, cs_events := cs_events ?m @ [EvClose d]\<rparr>)"
        using \<open>cs_closed s = None\<close> by (intro spec_step.close) simp
      moreover have "s' = ?m\<lparr>cs_closed := Some d, cs_events := cs_events ?m @ [EvClose d]\<rparr>"
        using Some new new' by simp
      ultimately show ?thesis
        by simp
    qed
  next
    case (Some d)
    then obtain es where es: "cs_events s = es @ [EvClose d]"
      using assms(1) by (auto simp: history_ok_def)
    then obtain d' es' where s': "cs_closed s' = Some d'" "cs_events s' = es' @ [EvClose d']" "\<forall>e \<in> set es'. \<not> is_close_event e"
      using assms(2) new by (cases "cs_closed s'") (auto simp: history_ok_def)
    then have "new = []"
      using new es by (cases new rule: rev_cases) auto
    then have "s' = s"
      using new es s' Some by simp
    then show ?thesis by simp
  qed
qed

section \<open>Refinement\<close>

lemma abs_history_ok: "reachable w \<Longrightarrow> history_ok (abs_chan c w)"
  using chan.open_quiet [of "(w, c)"] chan.close_last [of "(w, c)"]
  by (auto simp: history_ok_def abs_chan_def fresh_spec_def live_chan_def split: option.split)

lemma abs_prefix:
  assumes "step w w'"
  shows "prefix (cs_events (abs_chan c w)) (cs_events (abs_chan c w'))"
  using events_prefix [OF step_grows(1) [OF assms], of c] step_grows(2) [OF assms] by (simp add: abs_chan_def fresh_spec_def)



end
