(* ===== verification/Account.thy ===== *)
theory Account
  imports Session Storage Location DBus
begin

text \<open>
  The user and the page, of \<open>src/base1/cockpit.js\<close>: \<open>cockpit.logout\<close>, \<open>cockpit.info\<close>, \<open>cockpit.user\<close>,
  \<open>check_superuser\<close> and \<open>Permission\<close>, \<open>cockpit.jump\<close>, the visibility of the page, and \<open>cockpit.oops\<close>.
\<close>

section \<open>Logging out\<close>

text \<open>What a page shares with the others of its browser: the storages, and its own transports and channels.\<close>

record page =
  pg_app :: string
  pg_session :: web_storage
  pg_local :: web_storage
  pg_world :: world

definition logout :: "socket \<Rightarrow> js \<Rightarrow> page \<Rightarrow> page" where
  "logout s reload pg =
     (let pg = pg\<lparr>pg_session := clear_storage (pg_app pg) True (pg_session pg)\<rparr>;
          pg = pg\<lparr>pg_local := remove_item (pg_app pg) ''login-data'' True (pg_local pg)\<rparr>;
          pg = pg\<lparr>pg_local := clear_storage (pg_app pg) False (pg_local pg)\<rparr>;
          pg = pg\<lparr>pg_world := logout_transport s reload (pg_world pg)\<rparr>
      in pg\<lparr>pg_session := oset (pg_session pg) ''logout-intent'' ''explicit''\<rparr>)"

section \<open>System and user information\<close>

text \<open>\<open>cockpit.info\<close> and the number of its \<open>changed\<close> events.\<close>

record sysinfo =
  si_props :: options
  si_changed :: nat

definition init_callback :: "options \<Rightarrow> sysinfo \<Rightarrow> sysinfo" where
  "init_callback options si =
     (let si = (if truthy (opt options ''system'')
                then si\<lparr>si_props := JS_Value.extend (si_props si) [opt options ''system'']\<rparr> else si)
      in if truthy (opt options ''system'') then si\<lparr>si_changed := Suc (si_changed si)\<rparr> else si)"

text \<open>\<open>v.k\<close>, which is an exception for \<open>undefined\<close> and \<open>null\<close>.\<close>

definition member_of :: "js \<Rightarrow> string \<Rightarrow> js option" where
  "member_of v k = (if v = JUndef \<or> v = JNull then None else Some (fld v k))"

text \<open>The user made from the reply of \<open>GetAll\<close>, whose properties are variants.\<close>

definition user_field :: "js \<Rightarrow> string \<Rightarrow> js option" where
  "user_field user k = Option.bind (member_of user k) (\<lambda>v. member_of v ''v'')"

fun user_fields :: "js \<Rightarrow> (string \<times> string) list \<Rightarrow> options option" where
  "user_fields user [] = Some []"
| "user_fields user ((name, prop_name) # rest) =
     (case (user_field user prop_name, user_fields user rest) of
        (Some v, Some kvs) \<Rightarrow> Some ((name, v) # kvs) | _ \<Rightarrow> None)"

definition user_of_reply :: "js \<Rightarrow> js option" where
  "user_of_reply reply =
     map_option JObj (user_fields (get_prop reply (JNum 0))
       [(''id'', ''Id''), (''name'', ''Name''), (''full_name'', ''Full''), (''groups'', ''Groups''),
        (''home'', ''Home''), (''shell'', ''Shell'')])"

text \<open>
  The promise of \<open>cockpit.user\<close>: not settled, rejected (or left alone for ever, when the handler of the reply
  ends in an exception), or resolved with the user.
\<close>

datatype user_promise = UPending | ULost | UUser js

definition user_settles :: "dbus_outcome \<Rightarrow> user_promise" where
  "user_settles outcome =
     (case outcome of
        DDone reply _ \<Rightarrow> (case user_of_reply reply of Some u \<Rightarrow> UUser u | None \<Rightarrow> ULost)
      | DFail _ \<Rightarrow> ULost)"

text \<open>The call that asks for the user.\<close>

definition user_call :: "po_state \<Rightarrow> dbus \<Rightarrow> dbus \<times> nat" where
  "user_call po d =
     dbus_call po (JStr ''/user'') (JStr ''org.freedesktop.DBus.Properties'') (JStr ''GetAll'')
       (JArr [JStr ''cockpit.User'']) (JObj [(''type'', JStr ''s'')]) d"

section \<open>Permissions\<close>

text \<open>\<open>check_superuser\<close>: a channel that only a superuser gets; what its wait says, and its close in any case.\<close>

definition check_superuser :: "socket \<Rightarrow> world \<Rightarrow> world \<times> nat" where
  "check_superuser s w =
     (let c = length (w_chans w)
      in (chan_wait c (channel_open s [(''payload'', JStr ''null''), (''superuser'', JStr ''require'')] w), c))"

definition superuser_answer :: "nat \<Rightarrow> world \<Rightarrow> world \<times> bool option" where
  "superuser_answer c w =
     (case c_waiting (ch w c) of
        Resolved _ \<Rightarrow> (chan_close c [] w, Some True)
      | Rejected _ \<Rightarrow> (chan_close c [] w, Some False)
      | _ \<Rightarrow> (w, None))"

text \<open>\<open>x.includes(v)\<close> of an array or a text; other values have no such method.\<close>

definition js_includes :: "js \<Rightarrow> js \<Rightarrow> bool option" where
  "js_includes x v =
     (case x of JArr xs \<Rightarrow> Some (in_array xs v) | JStr s \<Rightarrow> Some (find_sub (to_str v) s \<noteq> None) | _ \<Rightarrow> None)"

definition decide :: "js \<Rightarrow> bool \<Rightarrow> js \<Rightarrow> js \<Rightarrow> js option" where
  "decide grp admin is_superuser user =
     (if fld user ''id'' = JNum 0 then Some (JBool True)
      else if truthy grp
      then map_option JBool
             (js_includes (if truthy (fld user ''groups'') then fld user ''groups'' else JArr []) grp)
      else if admin then Some is_superuser
      else if fld user ''id'' = JUndef then Some JNull
      else Some (JBool False))"

text \<open>\<open>pm_user_promise\<close> and \<open>pm_super_promise\<close> are what \<open>cockpit.all\<close> waits for; \<open>pm_changed\<close> counts the events.\<close>

record permission =
  pm_allowed :: js
  pm_user :: js
  pm_is_superuser :: js
  pm_group :: js
  pm_admin :: bool
  pm_user_promise :: user_promise
  pm_super_promise :: "bool option"
  pm_changed :: nat
  pm_exception :: bool

text \<open>The constructor, and whether it asks (\<open>cockpit.user\<close>, \<open>check_superuser\<close>); \<open>None\<close> is an exception.\<close>

definition new_permission :: "js \<Rightarrow> (permission \<times> bool) option" where
  "new_permission options =
     (let given = truthy options;
          pm = \<lparr>pm_allowed = JNull,
            pm_user = (if given then fld options ''user'' else JNull),
            pm_is_superuser = (if given then fld options ''_is_superuser'' else JNull),
            pm_group = (if given then fld options ''group'' else JNull),
            pm_admin = (given \<and> truthy (fld options ''admin'')),
            pm_user_promise = UPending, pm_super_promise = None, pm_changed = 0, pm_exception = False\<rparr>
      in if truthy (pm_user pm) \<and> pm_is_superuser pm \<noteq> JNull
         then map_option (\<lambda>allowed. (pm\<lparr>pm_allowed := allowed\<rparr>, False))
                (decide (pm_group pm) (pm_admin pm) (pm_is_superuser pm) (pm_user pm))
         else Some (pm, True))"

text \<open>The \<open>done\<close> handler of the two promises.\<close>

definition permission_done :: "js \<Rightarrow> bool \<Rightarrow> permission \<Rightarrow> permission" where
  "permission_done user is_superuser pm =
     (let pm = pm\<lparr>pm_user := user, pm_is_superuser := JBool is_superuser\<rparr>
      in case decide (pm_group pm) (pm_admin pm) (pm_is_superuser pm) user of
           None \<Rightarrow> pm\<lparr>pm_exception := True\<rparr>
         | Some allowed \<Rightarrow>
             if pm_allowed pm \<noteq> allowed then pm\<lparr>pm_allowed := allowed, pm_changed := Suc (pm_changed pm)\<rparr> else pm)"

text \<open>\<open>cockpit.all\<close>: the handler runs when the second of the two is resolved.\<close>

definition permission_all :: "permission \<Rightarrow> permission" where
  "permission_all pm =
     (case (pm_user_promise pm, pm_super_promise pm) of
        (UUser u, Some b) \<Rightarrow> permission_done u b pm
      | _ \<Rightarrow> pm)"

datatype perm_event = PUser dbus_outcome | PSuper bool

fun permission_event :: "perm_event \<Rightarrow> permission \<Rightarrow> permission" where
  "permission_event (PUser outcome) pm =
     (if pm_user_promise pm = UPending then permission_all (pm\<lparr>pm_user_promise := user_settles outcome\<rparr>) else pm)"
| "permission_event (PSuper b) pm =
     (if pm_super_promise pm = None then permission_all (pm\<lparr>pm_super_promise := Some b\<rparr>) else pm)"

section \<open>Jumping\<close>

datatype jump_path = JumpParts "ctext list" | JumpText js

text \<open>The location of a jump; a part that is not well formed throws.  What is encoded consists of ASCII characters.\<close>

definition jump_location :: "jump_path \<Rightarrow> string fallible" where
  "jump_location path =
     (case path of
        JumpText v \<Rightarrow> Inr (to_str v)
      | JumpParts parts \<Rightarrow>
          (case map_fallible encode_uri_component parts of
             Inl e \<Rightarrow> Inl e
           | Inr segs \<Rightarrow>
               Inr (map char_of (47 # replace_all (tx ''%2B'') [43] (replace_first (tx ''%3D'') [61]
                      (replace_first (tx ''%40'') [64] (join [47] segs)))))))"

definition jump :: "jump_path \<Rightarrow> js \<Rightarrow> world \<Rightarrow> world fallible" where
  "jump path host w =
     (case jump_location path of
        Inl e \<Rightarrow> Inl e
      | Inr location \<Rightarrow>
          let host = (if host = JUndef then w_default_host w else host);
              options = [(''command'', JStr ''jump''), (''location'', JStr location), (''host'', host)]
          in Inr (inject (Text (newline # jtxt (JObj options))) True w))"

section \<open>Visibility\<close>

text \<open>\<open>cockpit.hidden\<close> (undefined at first), the last hint of the parent, and the number of \<open>visibilitychange\<close> events.\<close>

record visibility =
  vi_hidden :: js
  vi_hint :: js
  vi_events :: nat

text \<open>The argument is the value of the document's property, \<open>undefined\<close> where there is none.\<close>

definition visibility_change :: "js \<Rightarrow> visibility \<Rightarrow> visibility" where
  "visibility_change document_hidden vi =
     (let shown = (if document_hidden = JUndef then JBool False else document_hidden);
          shown = (if shown = JBool False then vi_hint vi else shown)
      in if vi_hidden vi \<noteq> shown then vi\<lparr>vi_hidden := shown, vi_events := Suc (vi_events vi)\<rparr> else vi)"

definition process_hints :: "js \<Rightarrow> options \<Rightarrow> visibility \<Rightarrow> visibility" where
  "process_hints document_hidden data vi =
     (case oget data ''hidden'' of
        None \<Rightarrow> vi
      | Some v \<Rightarrow> visibility_change document_hidden (vi\<lparr>vi_hint := v\<rparr>))"

definition new_visibility :: "js \<Rightarrow> visibility" where
  "new_visibility document_hidden =
     visibility_change document_hidden \<lparr>vi_hidden = JUndef, vi_hint = JBool False, vi_events = 0\<rparr>"

section \<open>Oops\<close>

text \<open>The message to the parent frame, if this is a frame of Cockpit.\<close>

definition oops_message :: "bool \<Rightarrow> string \<Rightarrow> string option" where
  "oops_message has_parent name =
     (if has_parent \<and> starts_with ''cockpit1:'' name
      then Some (newline # ''{ '' @ quote ''command'' @ '': '' @ quote ''oops'' @ '' }'') else None)"

section \<open>What logging out leaves\<close>

lemma clear_storage_get:
  assumes "owf st"
  shows "oget (clear_storage app full st) k = (if purged app full k then None else oget st k)"
proof -
  have "clear_storage app full st = filter (\<lambda>x. \<not> purged app full (fst x)) st"
    using clear_loop_filter [of "[]" st app full] assms by (simp add: clear_storage_def)
  moreover have "oget (filter (\<lambda>x. \<not> P (fst x)) st) k = (if P k then None else oget st k)" for P
    by (induction st) auto
  ultimately show ?thesis by presburger
qed

text \<open>C36: After a logout the session storage of the page has the intent of the user and what other applications keep there,
  under keys that begin with "cockpit", and nothing else; the local storage has lost the login data, also that without
  the prefix, and everything of the application, and kept the rest.  The transport is told, whatever is stored.
\<close>

theorem logout_forgets:
  assumes "owf (pg_session pg)" and "owf (pg_local pg)"
  shows "oget (pg_session (logout s reload pg)) k =
      (if k = ''logout-intent'' then Some ''explicit''
       else if starts_with ''cockpit'' k \<and> \<not> starts_with (pg_app pg) k then oget (pg_session pg) k else None) \<and>
    oget (pg_local (logout s reload pg)) k =
      (if k = ''login-data'' \<or> starts_with (pg_app pg) k then None else oget (pg_local pg) k) \<and>
    pg_world (logout s reload pg) = logout_transport s reload (pg_world pg)"
proof -
  have "owf (remove_item (pg_app pg) ''login-data'' True (pg_local pg))"
    using assms(2) by (simp add: remove_item_def od.wf_del)
  then have "oget (clear_storage (pg_app pg) False (remove_item (pg_app pg) ''login-data'' True (pg_local pg))) k =
      (if k = ''login-data'' \<or> starts_with (pg_app pg) k then None else oget (pg_local pg) k)"
    by (auto simp: clear_storage_get purged_def remove_item_def prefixed_key_def starts_with_append)
  then show ?thesis
    using clear_storage_get [OF assms(1), of "pg_app pg" True k] by (auto simp: logout_def Let_def purged_def)
qed

definition demo_page :: page where
  "demo_page = \<lparr>pg_app = ''cockpit+=h'', pg_session = [(''a'', ''1''), (''cockpit:b'', ''2''), (''cockpit+=h:c'', ''3'')],
     pg_local = [(''login-data'', ''4''), (''cockpit+=h:login-data'', ''5''), (''d'', ''6'')], pg_world = init_world\<rparr>"

theorem logout_forgets_witness:
  "oget (pg_session (logout RealWS JUndef demo_page)) ''a'' = None \<and>
   oget (pg_session (logout RealWS JUndef demo_page)) ''cockpit:b'' = Some ''2'' \<and>
   oget (pg_local (logout RealWS JUndef demo_page)) ''login-data'' = None"
proof -
  have "owf (pg_session demo_page)" "owf (pg_local demo_page)" by (simp_all add: demo_page_def owf_def okeys_def)
  from logout_forgets [OF this, of RealWS JUndef "''a''"] logout_forgets [OF this, of RealWS JUndef "''cockpit:b''"]
    logout_forgets [OF this, of RealWS JUndef "''login-data''"]
  show ?thesis by (simp add: demo_page_def)
qed

text \<open>On a transport that is ready a logout is sent, or the page is reloaded, where nothing else filters messages.\<close>

lemma logout_sent_or_reload:
  assumes "w_default w = Some t" "t_ready (tr w t)" "w_outgoing_filters w = []"
  shows "(\<exists>s. t_ws (tr w t) = Some s \<and>
      ws_send s (frame (PStr (jtxt (JObj [(''command'', JStr ''logout''), (''disconnect'', JBool True)]))) '''') \<in> set (w_log (logout_transport sk reload w))) \<or>
    Reload \<in> set (w_log (logout_transport sk reload w))"
  using assms
  by (auto simp: logout_transport_def ensure_transport_def run_callback_def control_or_reload_def send_control_def
      send_message_def send_data_def filters_pass_def emit_def split: option.split)

section \<open>How a permission is decided\<close>

text \<open>The first answers of the two sources in a history.\<close>

fun first_user :: "perm_event list \<Rightarrow> user_promise" where
  "first_user [] = UPending"
| "first_user (PUser outcome # es) = user_settles outcome"
| "first_user (PSuper b # es) = first_user es"

fun first_super :: "perm_event list \<Rightarrow> bool option" where
  "first_super [] = None"
| "first_super (PUser outcome # es) = first_super es"
| "first_super (PSuper b # es) = Some b"

text \<open>What a permission is to say by then: nothing until both answers are there.\<close>

definition verdict :: "permission \<Rightarrow> user_promise \<Rightarrow> bool option \<Rightarrow> js option" where
  "verdict pm u b =
     (case (u, b) of
        (UUser user, Some is_superuser) \<Rightarrow> decide (pm_group pm) (pm_admin pm) (JBool is_superuser) user
      | _ \<Rightarrow> Some JNull)"


text \<open>A permission that still waits for its answers.\<close>

definition awaiting :: "permission \<Rightarrow> bool" where
  "awaiting pm \<longleftrightarrow> pm_allowed pm = JNull \<and> pm_user_promise pm = UPending \<and> pm_super_promise pm = None \<and>
     pm_changed pm = 0 \<and> \<not> pm_exception pm"

lemma new_permission_awaiting: "new_permission options = Some (pm, True) \<Longrightarrow> awaiting pm"
  by (auto simp: new_permission_def awaiting_def Let_def split: if_splits)

text \<open>A permission that has seen answers of the two sources, relative to the one it started as.\<close>

definition settled_by :: "permission \<Rightarrow> user_promise \<Rightarrow> bool option \<Rightarrow> permission \<Rightarrow> bool" where
  "settled_by pm u b pm' \<longleftrightarrow>
     pm_user_promise pm' = u \<and> pm_super_promise pm' = b \<and> pm_group pm' = pm_group pm \<and> pm_admin pm' = pm_admin pm \<and>
     (case verdict pm u b of
        None \<Rightarrow> pm_allowed pm' = JNull \<and> pm_changed pm' = 0 \<and> pm_exception pm'
      | Some allowed \<Rightarrow> pm_allowed pm' = allowed \<and> pm_changed pm' = (if allowed = JNull then 0 else 1) \<and> \<not> pm_exception pm')"

lemma settled_by_event:
  assumes "settled_by pm u b pm'"
  shows "settled_by pm (if u = UPending then case e of PUser outcome \<Rightarrow> user_settles outcome | PSuper _ \<Rightarrow> u else u)
    (if b = None then case e of PUser _ \<Rightarrow> b | PSuper x \<Rightarrow> Some x else b) (permission_event e pm')"
proof (cases e)
  case (PUser outcome)
  show ?thesis
    using assms unfolding PUser
    by (auto simp: settled_by_def verdict_def permission_all_def permission_done_def Let_def
        split: user_promise.splits option.splits if_splits)
next
  case (PSuper x)
  show ?thesis
    using assms unfolding PSuper
    by (auto simp: settled_by_def verdict_def permission_all_def permission_done_def Let_def
        split: user_promise.splits option.splits if_splits)
qed

lemma user_settles_final [simp]: "user_settles outcome \<noteq> UPending"
  by (simp add: user_settles_def split: dbus_outcome.split option.split)

lemma settled_by_events:
  "settled_by pm u b pm' \<Longrightarrow>
   settled_by pm (if u = UPending then first_user es else u) (if b = None then first_super es else b) (fold permission_event es pm')"
proof (induction es arbitrary: u b pm')
  case (Cons e es)
  from Cons.IH [OF settled_by_event [OF Cons.prems, of e]] show ?case
    by (cases e) (auto split: if_splits)
qed auto


definition demo_user :: js where
  "demo_user = JArr [JObj [(''Id'', JObj [(''v'', JNum 1000)]), (''Name'', JObj [(''v'', JStr ''u'')]), (''Full'', JObj [(''v'', JStr '''')]),
     (''Groups'', JObj [(''v'', JArr [JStr ''wheel''])]), (''Home'', JObj [(''v'', JStr ''/'')]), (''Shell'', JObj [(''v'', JStr ''sh'')])]]"


text \<open>The superuser question follows its channel: ready means yes, closed means no, and the channel is closed after.\<close>

lemma superuser_follows_channel:
  assumes "c < length (w_chans w)" "c_waiting (ch w c) = Waiting"
  shows "snd (superuser_answer c w) = None" "snd (superuser_answer c (on_ready c d w)) = Some True"
    "snd (superuser_answer c (on_close c d w)) = Some False"
  using assms by (auto simp: superuser_answer_def on_ready_def on_close_def Let_def upd_c_def emit_def unregister_def upd_t_def
      split: option.split)

section \<open>Visibility\<close>

text \<open>What happens to the visibility: the document changes, or the parent sends a hint.\<close>

datatype vis_event = VDocument js | VHint js options

fun vis_step :: "vis_event \<Rightarrow> visibility \<Rightarrow> visibility" where
  "vis_step (VDocument d) vi = visibility_change d vi"
| "vis_step (VHint d data) vi = process_hints d data vi"

lemma vis_step_changes: "vi_events (vis_step e vi) = (if vi_hidden (vis_step e vi) = vi_hidden vi then vi_events vi else Suc (vi_events vi))"
  by (cases e) (auto simp: visibility_change_def process_hints_def Let_def split: option.split)

lemma visible_only_if_both:
  "vi_hidden (visibility_change d vi) = JBool False \<longleftrightarrow> (d = JUndef \<or> d = JBool False) \<and> vi_hint vi = JBool False"
  by (auto simp: visibility_change_def Let_def)

end
