(* ===== verification/Shell_Router.thy ===== *)
theory Shell_Router
  imports Account
begin

text \<open>
  The router of the shell, of \<open>pkg/shell/base_index.js\<close>.  The frames of the components have no socket of their own:
  they post their messages to the shell, whose router gives each frame a seed for the ids of its channels, sends what
  they post through its own transport, and posts what comes back to the frame whose seed the channel begins with.

  Windows are numbers, window 0 is the shell itself.  What the browser says of them when something happens (their names,
  whether they are closed, which frame is in front) and the functions the shell only calls are a record that comes with
  every event.  What leaves the router is logged.
\<close>

section \<open>State\<close>

record router_env =
  re_name :: "nat \<Rightarrow> string"
  re_named :: "nat \<Rightarrow> bool"
  re_closed :: "nat \<Rightarrow> bool"
  re_hash :: "nat \<Rightarrow> string"
  re_current :: "nat option"
  re_options :: options
  re_host :: js
  re_privileges :: bool
  re_merge :: "options \<Rightarrow> options \<Rightarrow> options"

record route_source =
  so_name :: string
  so_window :: nat
  so_seed :: string
  so_default_host :: string
  so_inited :: bool

datatype route_effect =
    Post nat wire
  | Inject wire
  | KillGroup string
  | HintOut js js
  | JumpTo string
  | JumpHash string
  | Navigate
  | ExpectRestart js
  | ShowOops
  | Credential options
  | RouteWarning string
  | RouteException string

text \<open>The sources are objects that two tables share: they are kept in a list, the tables hold their places.\<close>

record router =
  r_unique_id :: nat
  r_sources :: "route_source list"
  r_by_seed :: "(string, nat) obj"
  r_by_name :: "(string, nat) obj"
  r_log :: "route_effect list"

definition new_router :: router where
  "new_router = \<lparr>r_unique_id = 0, r_sources = [], r_by_seed = [], r_by_name = [], r_log = []\<rparr>"

definition route :: "route_effect \<Rightarrow> router \<Rightarrow> router" where
  "route e r = r\<lparr>r_log := r_log r @ [e]\<rparr>"

abbreviation src :: "router \<Rightarrow> nat \<Rightarrow> route_source" where
  "src r i \<equiv> r_sources r ! i"

section \<open>From the server to the frames\<close>

definition post_source :: "router_env \<Rightarrow> wire \<Rightarrow> nat \<Rightarrow> router \<Rightarrow> router" where
  "post_source env message i r =
     (if \<not> re_closed env (so_window (src r i)) then route (Post (so_window (src r i)) message) r else r)"

text \<open>The filter of incoming messages; the result tells whether the message is delivered locally too.\<close>

definition router_filter :: "router_env \<Rightarrow> wire \<Rightarrow> string \<Rightarrow> js \<Rightarrow> router \<Rightarrow> router \<times> bool" where
  "router_filter env message channel control r =
     (if truthy control then
        (if fld control ''channel'' \<noteq> JUndef
         then (fold (\<lambda>(seed, i). post_source env message i) (r_by_seed r) r, True)
         else if fld control ''command'' = JStr ''hint'' \<and> truthy (fld control ''credential'') \<and> re_privileges env
         then (route (Credential (case control of JObj kvs \<Rightarrow> kvs | _ \<Rightarrow> [])) r, True)
         else (r, True))
      else if channel \<noteq> [] then
        (case index_of (CHR ''!'') channel of
           None \<Rightarrow> (r, True)
         | Some pos \<Rightarrow>
             (case oget (r_by_seed r) (take (pos + 1) channel) of
                None \<Rightarrow> (r, True)
              | Some i \<Rightarrow> (post_source env message i r, False)))
      else (r, True))"

section \<open>From the frames\<close>

text \<open>Texts are ASCII after \<open>encodeURIComponent\<close>.\<close>

definition encode_host :: "string \<Rightarrow> string" where
  "encode_host s = (case encode_uri_component (map of_char s) of None \<Rightarrow> [] | Some e \<Rightarrow> map char_of e)"

definition perform_jump :: "router_env \<Rightarrow> nat \<Rightarrow> js \<Rightarrow> router \<Rightarrow> router" where
  "perform_jump env child control r =
     (if child \<noteq> 0 \<and> re_current env \<noteq> Some child then r
      else
        let str = (if truthy (fld control ''location'') then to_str (fld control ''location'') else []);
            str = (if take 1 str \<noteq> ''/'' then ''/'' @ str else str);
            str = (if truthy (fld control ''host'') then ''/@'' @ encode_host (to_str (fld control ''host'')) @ str else str)
        in route (JumpTo str) r)"

definition perform_track :: "router_env \<Rightarrow> nat \<Rightarrow> router \<Rightarrow> router" where
  "perform_track env child r =
     (if re_current env = Some child \<and> re_name env child \<noteq> [] \<and> find_sub ''/shell/shell'' (re_name env child) = None
      then
        let hash = re_hash env child;
            hash = (if starts_with ''#'' hash then drop 1 hash else hash);
            hash = (if hash = ''/'' then [] else hash)
        in route (JumpHash hash) r
      else r)"

definition unregister_source :: "router_env \<Rightarrow> nat \<Rightarrow> router \<Rightarrow> router" where
  "unregister_source env i r =
     (let r = route (KillGroup (re_name env (so_window (src r i)))) r
      in r\<lparr>r_by_seed := odel (r_by_seed r) (so_seed (src r i)), r_by_name := odel (r_by_name r) (so_name (src r i))\<rparr>)"

text \<open>The host in the name of a frame, \<open>cockpit1:host/component\<close>.\<close>

definition frame_host :: "string \<Rightarrow> string option" where
  "frame_host name =
     (if starts_with ''cockpit1:'' name then
        (let rest = drop 9 name in Some (case index_of (CHR ''/'') rest of None \<Rightarrow> rest | Some p \<Rightarrow> take p rest))
      else None)"

definition seed_base :: "router_env \<Rightarrow> string" where
  "seed_base env =
     (if truthy (opt (re_options env) ''channel-seed'') then to_str (opt (re_options env) ''channel-seed'') else ''undefined:'')"

definition register_source :: "router_env \<Rightarrow> nat \<Rightarrow> router \<Rightarrow> router \<times> nat option" where
  "register_source env child r =
     (let name = re_name env child
      in case frame_host name of
           None \<Rightarrow> (route (RouteWarning ''invalid child window name'') r, None)
         | Some host \<Rightarrow>
             if name = [] \<or> host = [] then (route (RouteWarning ''invalid child window name'') r, None)
             else
               let r = r\<lparr>r_unique_id := Suc (r_unique_id r)\<rparr>;
                   seed = seed_base env @ nat_str (r_unique_id r) @ ''!'';
                   i = length (r_sources r);
                   r = r\<lparr>r_sources := r_sources r @ [\<lparr>so_name = name, so_window = child, so_seed = seed,
                          so_default_host = host, so_inited = False\<rparr>],
                        r_by_seed := oset (r_by_seed r) seed i, r_by_name := oset (r_by_name r) name i\<rparr>;
                   r = perform_track env child r;
                   r = route Navigate r
               in (r, Some i))"

text \<open>\<open>self.hint(child, data)\<close>.\<close>

definition router_hint :: "router_env \<Rightarrow> nat \<Rightarrow> options \<Rightarrow> router \<Rightarrow> router" where
  "router_hint env child data r =
     (case oget (r_by_name r) (re_name env child) of
        None \<Rightarrow> r
      | Some i \<Rightarrow>
          if so_inited (src r i) \<and> \<not> re_closed env (so_window (src r i))
          then route (Post (so_window (src r i)) (Text (newline # jtxt (JObj (oset data ''command'' (JStr ''hint'')))))) r
          else r)"

text \<open>A frame starts, or starts again.\<close>

definition router_init :: "router_env \<Rightarrow> nat \<Rightarrow> js \<Rightarrow> nat option \<Rightarrow> router \<Rightarrow> router \<times> nat option" where
  "router_init env child control known r =
     (let r = (case known of None \<Rightarrow> r | Some i \<Rightarrow> unregister_source env i r);
          (r, known) = (if truthy (fld control ''problem'')
                        then (route (RouteWarning (''child frame failed to init: '' @ to_str (fld control ''problem''))) r, None)
                        else register_source env child r)
      in case known of
           None \<Rightarrow> (r, None)
         | Some i \<Rightarrow>
             let reply = re_merge env (re_options env)
                   [(''command'', JStr ''init''), (''host'', JStr (so_default_host (src r i))), (''channel-seed'', JStr (so_seed (src r i)))];
                 r = route (Post child (Text (newline # jtxt (JObj reply)))) r;
                 r = r\<lparr>r_sources := (r_sources r)[i := (src r i)\<lparr>so_inited := True\<rparr>]\<rparr>;
                 r = (if re_current env \<noteq> Some child then router_hint env child [(''hidden'', JBool True)] r else r)
             in (r, Some i))"

text \<open>The end of the handler: what is not handled is sent on, but only for a frame that is registered.\<close>

definition forward :: "router_env \<Rightarrow> nat \<Rightarrow> nat option \<Rightarrow> string \<Rightarrow> router \<Rightarrow> router" where
  "forward env child known data r =
     (case known of
        None \<Rightarrow> route (RouteWarning (''child frame '' @ re_name env child @ '' sending data without init'')) r
      | Some _ \<Rightarrow> route (Inject (Text data)) r)"

definition router_control :: "router_env \<Rightarrow> nat \<Rightarrow> js \<Rightarrow> nat option \<Rightarrow> string \<Rightarrow> router \<Rightarrow> router" where
  "router_control env child control known data r =
     (let command = fld control ''command''
      in if command = JStr ''init'' then
           (case router_init env child control known r of (r, known) \<Rightarrow> forward env child known data r)
         else if command = JStr ''jump'' then perform_jump env child control r
         else if command = JStr ''logout'' \<or> command = JStr ''kill'' then forward env child known data r
         else if command = JStr ''hint'' then
           (if fld control ''hint'' = JStr ''restart''
            then (if fld control ''host'' \<noteq> re_host env then route (ExpectRestart (fld control ''host'')) r else r)
            else route (HintOut (fld control ''hint'') control) r)
         else if command = JStr ''oops'' then route ShowOops r
         else if fld control ''channel'' = JUndef then r
         else if command = JStr ''open'' then
           (case control of
              JObj kvs \<Rightarrow> forward env child known (newline # jtxt (JObj (oset kvs ''group'' (JStr (re_name env child))))) r
            | _ \<Rightarrow> r)
         else forward env child known data r)"

text \<open>
  The handler of messages from other windows, of the shell's own origin; a message that is neither an array buffer nor a
  text, or that has no window, is ignored by the source before anything else.
\<close>

definition message_handler :: "router_env \<Rightarrow> bool \<Rightarrow> nat \<Rightarrow> wire \<Rightarrow> router \<Rightarrow> router" where
  "message_handler env same_origin child data r =
     (if \<not> same_origin then r
      else case data of
        Binary _ \<Rightarrow> route (Inject data) r
      | Text s \<Rightarrow>
          if \<not> re_named env child then r
          else
            let known = oget (r_by_name r) (re_name env child)
            in if s = [] then (case known of None \<Rightarrow> r | Some i \<Rightarrow> unregister_source env i r)
               else if take 1 s = [newline] then
                 (case json_parse (drop 1 s) of
                    None \<Rightarrow> route (RouteException ''SyntaxError'') r
                  | Some JNull \<Rightarrow> route (RouteException ''TypeError'') r
                  | Some control \<Rightarrow> router_control env child control known s r)
               else forward env child known s r)"

text \<open>The events of the windows; the name is that of the window that unloads, changes or loads.\<close>

definition on_frame_unload :: "router_env \<Rightarrow> string \<Rightarrow> router \<Rightarrow> router" where
  "on_frame_unload env name r =
     (case oget (r_by_name r) name of None \<Rightarrow> r | Some i \<Rightarrow> unregister_source env i r)"

definition on_frame_change :: "router_env \<Rightarrow> string \<Rightarrow> router \<Rightarrow> router" where
  "on_frame_change env name r =
     (case oget (r_by_name r) name of None \<Rightarrow> r | Some i \<Rightarrow> perform_track env (so_window (src r i)) r)"


section \<open>The tables of the router\<close>

text \<open>What happens to a router.\<close>

datatype router_event =
    RMessage bool nat wire
  | RUnload string
  | RChange string
  | RFilter wire string js
  | RHint nat options

fun router_exec :: "router_env \<Rightarrow> router_event \<Rightarrow> router \<Rightarrow> router" where
  "router_exec env (RMessage same_origin child data) r = message_handler env same_origin child data r"
| "router_exec env (RUnload name) r = on_frame_unload env name r"
| "router_exec env (RChange name) r = on_frame_change env name r"
| "router_exec env (RFilter message channel control) r = fst (router_filter env message channel control r)"
| "router_exec env (RHint child data) r = router_hint env child data r"

text \<open>The seed the server gave to the shell stays; everything else of the environment may change at any time.\<close>

inductive rreach :: "string \<Rightarrow> router \<Rightarrow> bool" for base where
  start: "rreach base new_router"
| event: "rreach base r \<Longrightarrow> seed_base env = base \<Longrightarrow> rreach base (router_exec env e r)"

text \<open>The two tables hold the same sources, under their own seeds and names; the seeds are numbered.\<close>

definition tables_ok :: "string \<Rightarrow> router \<Rightarrow> bool" where
  "tables_ok base r \<longleftrightarrow>
     length (r_sources r) = r_unique_id r \<and>
     (\<forall>i < length (r_sources r). so_seed (src r i) = base @ nat_str (Suc i) @ ''!'') \<and>
     (\<forall>n i. oget (r_by_name r) n = Some i \<longrightarrow> i < length (r_sources r) \<and> so_name (src r i) = n \<and> oget (r_by_seed r) (so_seed (src r i)) = Some i) \<and>
     (\<forall>s i. oget (r_by_seed r) s = Some i \<longrightarrow> i < length (r_sources r) \<and> so_seed (src r i) = s \<and> oget (r_by_name r) (so_name (src r i)) = Some i)"

named_theorems tables_intros

lemma route_sel [simp]:
  "r_unique_id (route e r) = r_unique_id r" "r_sources (route e r) = r_sources r"
  "r_by_seed (route e r) = r_by_seed r" "r_by_name (route e r) = r_by_name r" "r_log (route e r) = r_log r @ [e]"
  by (simp_all add: route_def)

lemma tables_route [tables_intros]: "tables_ok base (route e r) \<longleftrightarrow> tables_ok base r"
  by (simp add: tables_ok_def)

lemma tables_fold: "(\<And>x r. tables_ok base r \<Longrightarrow> tables_ok base (f x r)) \<Longrightarrow> tables_ok base r \<Longrightarrow> tables_ok base (fold f xs r)"
  by (induction xs arbitrary: r) auto

lemma tables_post: "tables_ok base r \<Longrightarrow> tables_ok base (post_source env m i r)"
  by (simp add: post_source_def tables_intros)

lemma tables_filter: "tables_ok base r \<Longrightarrow> tables_ok base (fst (router_filter env m c ctl r))"
  by (auto simp: router_filter_def tables_intros intro!: tables_fold tables_post split: option.split prod.split)

lemma tables_calls [simp]:
  "tables_ok base (perform_jump env child control r) \<longleftrightarrow> tables_ok base r"
  "tables_ok base (perform_track env child r) \<longleftrightarrow> tables_ok base r"
  "tables_ok base (router_hint env child data r) \<longleftrightarrow> tables_ok base r"
  "tables_ok base (forward env child known txts r) \<longleftrightarrow> tables_ok base r"
  by (simp_all add: perform_jump_def perform_track_def router_hint_def forward_def tables_intros Let_def split: option.split)

lemma perform_track_sel [simp]:
  "r_sources (perform_track env child r) = r_sources r" "r_by_name (perform_track env child r) = r_by_name r"
  "r_by_seed (perform_track env child r) = r_by_seed r" "r_unique_id (perform_track env child r) = r_unique_id r"
  by (simp_all add: perform_track_def Let_def)

lemma seed_inj: "tables_ok base r \<Longrightarrow> i < length (r_sources r) \<Longrightarrow> j < length (r_sources r) \<Longrightarrow> so_seed (src r i) = so_seed (src r j) \<longleftrightarrow> i = j"
  by (auto simp: tables_ok_def nat_str_inj)

lemma tables_name:
  assumes "tables_ok base r" "oget (r_by_name r) n = Some i"
  shows "i < length (r_sources r)" "so_name (src r i) = n" "oget (r_by_seed r) (so_seed (src r i)) = Some i"
  using assms by (auto simp: tables_ok_def)

lemma tables_seed:
  assumes "tables_ok base r" "oget (r_by_seed r) s = Some i"
  shows "i < length (r_sources r)" "so_seed (src r i) = s" "oget (r_by_name r) (so_name (src r i)) = Some i"
  using assms unfolding tables_ok_def by blast+

lemma tables_okI:
  assumes "length (r_sources r) = r_unique_id r"
    and "\<And>i. i < length (r_sources r) \<Longrightarrow> so_seed (src r i) = base @ nat_str (Suc i) @ ''!''"
    and "\<And>n i. oget (r_by_name r) n = Some i \<Longrightarrow> i < length (r_sources r) \<and> so_name (src r i) = n \<and> oget (r_by_seed r) (so_seed (src r i)) = Some i"
    and "\<And>s i. oget (r_by_seed r) s = Some i \<Longrightarrow> i < length (r_sources r) \<and> so_seed (src r i) = s \<and> oget (r_by_name r) (so_name (src r i)) = Some i"
  shows "tables_ok base r"
  using assms unfolding tables_ok_def by blast

lemma tables_count: "tables_ok base r \<Longrightarrow> length (r_sources r) = r_unique_id r"
  by (simp add: tables_ok_def)

lemma tables_seeds: "tables_ok base r \<Longrightarrow> i < length (r_sources r) \<Longrightarrow> so_seed (src r i) = base @ nat_str (Suc i) @ ''!''"
  by (simp add: tables_ok_def)

lemma tables_unregister:
  assumes "tables_ok base r" "oget (r_by_name r) n = Some i"
  shows "tables_ok base (unregister_source env i r)" "oget (r_by_name (unregister_source env i r)) n = None"
proof -
  let ?r = "unregister_source env i r"
  note i = tables_name [OF assms]
  then show "oget (r_by_name ?r) n = None"
    by (simp add: unregister_source_def Let_def)
  have sel: "r_sources ?r = r_sources r" "r_unique_id ?r = r_unique_id r"
    "r_by_seed ?r = odel (r_by_seed r) (so_seed (src r i))" "r_by_name ?r = odel (r_by_name r) n"
    using i by (simp_all add: unregister_source_def Let_def)
  show "tables_ok base ?r"
  proof (rule tables_okI, unfold sel)
    fix m j assume "oget (odel (r_by_name r) n) m = Some j"
    then have m: "m \<noteq> n" "oget (r_by_name r) m = Some j" by (auto split: if_splits)
    note mj = tables_name [OF assms(1) m(2)]
    with m i have "so_seed (src r j) \<noteq> so_seed (src r i)" using seed_inj [OF assms(1)] by auto
    with mj show "j < length (r_sources r) \<and> so_name (src r j) = m \<and> oget (odel (r_by_seed r) (so_seed (src r i))) (so_seed (src r j)) = Some j"
      by simp
  next
    fix s j assume "oget (odel (r_by_seed r) (so_seed (src r i))) s = Some j"
    then have s: "s \<noteq> so_seed (src r i)" "oget (r_by_seed r) s = Some j" by (auto split: if_splits)
    note sj = tables_seed [OF assms(1) s(2)]
    with s assms(2) have "so_name (src r j) \<noteq> n" by auto
    with sj show "j < length (r_sources r) \<and> so_seed (src r j) = s \<and> oget (odel (r_by_name r) n) (so_name (src r j)) = Some j"
      by simp
  qed (use tables_count [OF assms(1)] tables_seeds [OF assms(1)] in auto)
qed

lemma tables_register:
  assumes "tables_ok base r" "oget (r_by_name r) (re_name env child) = None" "seed_base env = base"
  shows "tables_ok base (fst (register_source env child r))"
    and "snd (register_source env child r) = Some i \<Longrightarrow> i < length (r_sources (fst (register_source env child r)))"
    and "snd (register_source env child r) = Some i \<Longrightarrow> oget (r_by_name (fst (register_source env child r))) (re_name env child) = Some i"
proof -
  let ?seed = "base @ nat_str (Suc (r_unique_id r)) @ ''!''"
  have new: "oget (r_by_seed r) ?seed = None"
  proof (rule ccontr)
    assume "oget (r_by_seed r) ?seed \<noteq> None"
    then obtain i where i: "oget (r_by_seed r) ?seed = Some i" by auto
    then have "i < length (r_sources r)" "so_seed (src r i) = ?seed"
      using tables_seed [OF assms(1)] by auto
    then show False
      using assms(1) by (auto simp: tables_ok_def nat_str_inj)
  qed
  let ?r = "\<lambda>h. r\<lparr>r_unique_id := Suc (r_unique_id r), r_sources := r_sources r @ [\<lparr>so_name = re_name env child, so_window = child,
     so_seed = ?seed, so_default_host = h, so_inited = False\<rparr>],
     r_by_seed := oset (r_by_seed r) ?seed (length (r_sources r)),
     r_by_name := oset (r_by_name r) (re_name env child) (length (r_sources r))\<rparr>"
  have n: "j < length (r_sources r)" "so_seed (src r j) \<noteq> ?seed" if "oget (r_by_name r) m = Some j" for m j
    using tables_name [OF assms(1) that] new by auto
  have s: "j < length (r_sources r)" "so_name (src r j) \<noteq> re_name env child" if "oget (r_by_seed r) m = Some j" for m j
    using tables_seed [OF assms(1) that] assms(2) by auto
  have "tables_ok base (?r h)" for h
    using n s tables_name [OF assms(1)] tables_seed [OF assms(1)] tables_count [OF assms(1)] tables_seeds [OF assms(1)]
    by (intro tables_okI) (auto simp: nth_append less_Suc_eq split: if_splits)
  then show "tables_ok base (fst (register_source env child r))"
    using assms(1,3) by (auto simp: register_source_def tables_intros Let_def split: option.split)
  show "snd (register_source env child r) = Some i \<Longrightarrow> i < length (r_sources (fst (register_source env child r)))"
    "snd (register_source env child r) = Some i \<Longrightarrow> oget (r_by_name (fst (register_source env child r))) (re_name env child) = Some i"
    by (auto simp: register_source_def Let_def split: option.splits if_splits)
qed

lemma tables_inited:
  assumes "tables_ok base r" "i < length (r_sources r)"
  shows "tables_ok base (r\<lparr>r_sources := (r_sources r)[i := (src r i)\<lparr>so_inited := b\<rparr>]\<rparr>)"
proof -
  have "so_seed ((r_sources r)[i := (src r i)\<lparr>so_inited := b\<rparr>] ! j) = so_seed (src r j) \<and>
    so_name ((r_sources r)[i := (src r i)\<lparr>so_inited := b\<rparr>] ! j) = so_name (src r j)" for j
    using assms(2) by (cases "j = i") auto
  then show ?thesis
    using tables_name [OF assms(1)] tables_seed [OF assms(1)] tables_count [OF assms(1)] tables_seeds [OF assms(1)]
    by (intro tables_okI) auto
qed

lemma tables_init:
  assumes "tables_ok base r" "known = oget (r_by_name r) (re_name env child)" "seed_base env = base"
  shows "tables_ok base (fst (router_init env child control known r))"
proof -
  define r1 where "r1 = (case known of None \<Rightarrow> r | Some i \<Rightarrow> unregister_source env i r)"
  have r1: "tables_ok base r1" "oget (r_by_name r1) (re_name env child) = None"
    using tables_unregister [OF assms(1)] assms(1,2) by (auto simp: r1_def split: option.split)
  have greet: "tables_ok base ((route e v)\<lparr>r_sources := (r_sources v)[i := (src v i)\<lparr>so_inited := True\<rparr>]\<rparr>)"
    if "tables_ok base v" "i < length (r_sources v)" for e v i
    using tables_inited [of base "route e v" i True] that by (simp add: tables_intros)
  show ?thesis
    using tables_register(1,2) [OF r1 assms(3)] r1
    unfolding router_init_def r1_def [symmetric] Let_def
    by (auto simp: tables_intros intro!: greet split: prod.splits option.splits if_splits)
qed

lemma tables_message:
  assumes "tables_ok base r" "seed_base env = base"
  shows "tables_ok base (message_handler env same_origin child data r)"
proof -
  let ?known = "oget (r_by_name r) (re_name env child)"
  have "tables_ok base (router_control env child control ?known s r)" for control s
    using tables_init [OF assms(1) refl assms(2), of child control] assms(1)
    by (auto simp: router_control_def Let_def tables_intros split: prod.splits js.split)
  then show ?thesis
    using assms tables_unregister(1) [OF assms(1)]
    by (auto simp: message_handler_def Let_def tables_intros split: wire.split option.split js.split)
qed

lemma rreach_tables: "rreach base r \<Longrightarrow> tables_ok base r"
proof (induction rule: rreach.induct)
  case start
  show ?case by (simp add: tables_ok_def new_router_def)
next
  case (event r env e)
  then show ?case
    using tables_unregister(1)
    by (cases e) (auto simp: tables_message tables_filter on_frame_unload_def on_frame_change_def split: option.split)
qed


section \<open>Messages reach the frame they are for\<close>

text \<open>C15: The ids of the channels of a frame begin with its seed.  A message on one of them is posted to that frame and to no
  other, is not delivered in the shell, and in the frame its one effect is a message event on the channel.
\<close>

theorem frames_get_their_messages:
  assumes "rreach base r" and "CHR ''!'' \<notin> set base" and "newline \<notin> set base"
    and "oget (r_by_name r) name = Some i" and "\<not> re_closed env (so_window (src r i))"
    and "reachable w" and "t < length (w_transports w)" and "t_channel_seed (tr w t) = so_seed (src r i)"
    and "k = t_channel_seed (tr w t) @ nat_str n" and "oget (t_control_cbs (tr w t)) k = Some c"
    and "w_incoming_filters w = []" and "\<not> c_received_done (ch w c)"
  shows "router_filter env (frame p k) k JUndef r = (route (Post (so_window (src r i)) (frame p k)) r, False) \<and>
    dispatch_data t (frame p k) w = emit (ChanMessage c (received p)) (upd_t t (\<lambda>x. x\<lparr>t_got_message := True\<rparr>) w)"
proof
  note ok = rreach_tables [OF assms(1)]
  note i = tables_name [OF ok assms(4)]
  have seed: "so_seed (src r i) = base @ nat_str (Suc i) @ ''!''" by (rule tables_seeds [OF ok i(1)])
  have digits: "\<forall>x \<in> set (nat_str m). is_digit x" for m
    using nat_str_digits [of m] by (simp add: list_all_iff)
  then have plain: "CHR ''!'' \<notin> set (nat_str m)" "newline \<notin> set (nat_str m)" for m
    by (force simp: is_digit_def)+
  have k: "k = (base @ nat_str (Suc i)) @ CHR ''!'' # nat_str n"
    using assms(8,9) seed by simp
  have "index_of (CHR ''!'') k = Some (length (base @ nat_str (Suc i)))"
    unfolding k by (rule index_of_append_fresh) (use assms(2) plain in simp)
  moreover have "take (length (base @ nat_str (Suc i)) + 1) k = so_seed (src r i)"
    unfolding k seed by simp
  ultimately show "router_filter env (frame p k) k JUndef r = (route (Post (so_window (src r i)) (frame p k)) r, False)"
    using i(3) assms(5) k by (auto simp: router_filter_def post_source_def)
  have "newline \<notin> set k"
    using assms(3) plain by (simp add: k)
  then show "dispatch_data t (frame p k) w = emit (ChanMessage c (received p)) (upd_t t (\<lambda>x. x\<lparr>t_got_message := True\<rparr>) w)"
    using assms(11) by (intro dispatch_frame [OF assms(6,7,10) _ _ assms(12)]) (simp_all add: filters_pass_def)
qed

section \<open>What frames may send\<close>

text \<open>What a step adds to the log of the router.\<close>

definition adds :: "(route_effect \<Rightarrow> bool) \<Rightarrow> router \<Rightarrow> router \<Rightarrow> bool" where
  "adds P r r' \<longleftrightarrow> (\<exists>es. r_log r' = r_log r @ es \<and> list_all P es)"

lemma adds_refl [simp]: "adds P r r"
  by (simp add: adds_def)

lemma adds_trans: "adds P r1 r2 \<Longrightarrow> adds P r2 r3 \<Longrightarrow> adds P r1 r3"
  by (auto simp: adds_def)

lemma adds_route: "adds P r (route e r) \<longleftrightarrow> P e"
  by (simp add: adds_def)

text \<open>A text that goes on to the server is no command to open a channel, or one that names the frame as its group.\<close>

definition grouped :: "string \<Rightarrow> route_effect \<Rightarrow> bool" where
  "grouped name e \<longleftrightarrow>
     (case e of
        Inject (Text s) \<Rightarrow>
          (case s of
             [] \<Rightarrow> True
           | x # rest \<Rightarrow>
               (case json_parse rest of
                  Some control \<Rightarrow> x = newline \<and> fld control ''command'' = JStr ''open'' \<longrightarrow> fld control ''group'' = JStr name
                | None \<Rightarrow> True))
      | _ \<Rightarrow> True)"

definition no_text :: "route_effect \<Rightarrow> bool" where
  "no_text e \<longleftrightarrow> (case e of Inject (Text _) \<Rightarrow> False | _ \<Rightarrow> True)"

lemma no_text_steps:
  "adds no_text r (perform_jump env child control r)" "adds no_text r (perform_track env child r)"
  "adds no_text r (router_hint env child data r)" "adds no_text r (unregister_source env i r)"
  by (auto simp: perform_jump_def perform_track_def router_hint_def unregister_source_def Let_def adds_def no_text_def split: option.split)

lemma no_text_register: "adds no_text r (fst (register_source env child r))"
  by (auto simp: register_source_def perform_track_def Let_def adds_def no_text_def split: option.split)

lemma no_text_init: "adds no_text r (fst (router_init env child control known r))"
proof -
  define r1 where "r1 = (case known of None \<Rightarrow> r | Some i \<Rightarrow> unregister_source env i r)"
  have r1: "adds no_text r r1"
    using no_text_steps(4) by (simp add: r1_def split: option.split)
  obtain v u where v: "register_source env child r1 = (v, u)" by force
  then have rv: "adds no_text r v"
    using no_text_register [of r1 env child] adds_trans [OF r1] by simp
  have greet: "adds no_text r ((route (Post child m) x)\<lparr>r_sources := ss\<rparr>)" if "adds no_text r x" for m x ss
    using that by (auto simp: adds_def no_text_def)
  have hint: "adds no_text r (router_hint env child data x)" if "adds no_text r x" for data x
    using adds_trans [OF that no_text_steps(3)] .
  have "adds no_text r (route (RouteWarning s) x)" if "adds no_text r x" for s x
    using that by (auto simp: adds_def no_text_def)
  then show ?thesis
    using r1 rv unfolding router_init_def r1_def [symmetric] Let_def v
    by (auto intro!: greet hint split: prod.splits option.splits if_splits)
qed


lemma adds_mono: "adds P r r' \<Longrightarrow> (\<And>e. P e \<Longrightarrow> Q e) \<Longrightarrow> adds Q r r'"
  by (force simp: adds_def list_all_iff)

lemma no_text_grouped: "no_text e \<Longrightarrow> grouped name e"
  by (auto simp: no_text_def grouped_def split: route_effect.splits wire.splits)

text \<open>The frame that sent a text that goes on is registered; or it is its greeting, and it is registered by now.\<close>

definition sent_by :: "router_env \<Rightarrow> nat \<Rightarrow> router \<Rightarrow> route_effect \<Rightarrow> bool" where
  "sent_by env child r e \<longleftrightarrow>
     (case e of Inject (Text _) \<Rightarrow> oget (r_by_name r) (re_name env child) \<noteq> None | _ \<Rightarrow> True)"

lemma open_grouped:
  assumes "json_parse s = Some (JObj kvs)"
  shows "grouped name (Inject (Text (newline # jtxt (JObj (oset kvs ''group'' (JStr name))))))"
proof -
  have "wf_json (JObj kvs)" by (rule json_parse_wf [OF assms])
  then have "wf_json (JObj (oset kvs ''group'' (JStr name)))"
    using od.wf_set [of kvs] wf_fold_oset [of kvs "[(''group'', JStr name)]"] by auto
  then show ?thesis
    by (simp add: grouped_def json_roundtrip)
qed


lemma init_registers:
  assumes "tables_ok base r" "known = oget (r_by_name r) (re_name env child)" "seed_base env = base"
    and "snd (router_init env child control known r) = Some i"
  shows "oget (r_by_name (fst (router_init env child control known r))) (re_name env child) = Some i"
proof -
  define r1 where "r1 = (case known of None \<Rightarrow> r | Some i \<Rightarrow> unregister_source env i r)"
  have r1: "tables_ok base r1" "oget (r_by_name r1) (re_name env child) = None"
    using tables_unregister [OF assms(1)] assms(1,2) by (auto simp: r1_def split: option.split)
  have hint: "r_by_name (router_hint env child data v) = r_by_name v" for data v
    by (simp add: router_hint_def split: option.split)
  show ?thesis
    using tables_register(3) [OF r1 assms(3)] assms(4)
    unfolding router_init_def r1_def [symmetric] Let_def
    by (auto simp: hint split: prod.splits option.splits if_splits)
qed

lemma forward_adds:
  assumes "grouped (re_name env child) (Inject (Text s))" "known \<noteq> None \<Longrightarrow> oget (r_by_name r) (re_name env child) \<noteq> None"
  shows "adds (\<lambda>e. grouped (re_name env child) e \<and> sent_by env child (forward env child known s r) e) r (forward env child known s r)"
  using assms by (auto simp: forward_def adds_route sent_by_def grouped_def split: option.split)

text \<open>C16: Every text that goes on to the server comes from a frame that is registered, and a command to open a channel has the
  name of that frame as its group, whatever group the frame put there: killing the group closes what the frame opened.
\<close>

theorem forwarded_opens_grouped:
  assumes "rreach base r" and "seed_base env = base"
  shows "let r' = message_handler env same_origin child data r
    in \<exists>es. r_log r' = r_log r @ es \<and> (\<forall>e \<in> set es. grouped (re_name env child) e \<and> sent_by env child r' e)"
proof -
  note ok = rreach_tables [OF assms(1)]
  let ?ok = "\<lambda>r' e. grouped (re_name env child) e \<and> sent_by env child r' e"
  let ?known = "oget (r_by_name r) (re_name env child)"
  have quiet: "adds (?ok r') r r'" if "adds no_text r r'" for r'
    by (rule adds_mono [OF that]) (auto simp: no_text_grouped no_text_def sent_by_def split: route_effect.splits wire.splits)
  have one: "adds (?ok (route e r)) r (route e r)" if "no_text e" for e
    using that by (intro quiet) (simp add: adds_route)
  have greeted: "adds (?ok (case router_init env child control ?known r of (r, known) \<Rightarrow> forward env child known s r)) r
      (case router_init env child control ?known r of (r, known) \<Rightarrow> forward env child known s r)"
    if "grouped (re_name env child) (Inject (Text s))" for control s
  proof -
    obtain v known where v: "router_init env child control ?known r = (v, known)" by force
    have "adds (?ok (forward env child known s v)) r v"
      using no_text_init [of r env child control ?known] unfolding v
      by (auto intro: adds_mono simp: no_text_grouped no_text_def sent_by_def split: route_effect.splits wire.splits)
    moreover have "adds (?ok (forward env child known s v)) v (forward env child known s v)"
      using that init_registers [OF ok refl assms(2), of child control] v by (intro forward_adds) auto
    ultimately show ?thesis
      using adds_trans v by fastforce
  qed
  have control: "adds (?ok (router_control env child control ?known s r)) r (router_control env child control ?known s r)"
    if "json_parse (drop 1 s) = Some control" "take 1 s = [newline]" for control s
  proof -
    have s: "s = newline # drop 1 s" using that(2) by (cases s) auto
    have as_is: "grouped (re_name env child) (Inject (Text s))" if "fld control ''command'' \<noteq> JStr ''open''"
      using that \<open>json_parse (drop 1 s) = Some control\<close> by (subst s) (simp add: grouped_def)
    have sent: "adds (?ok (forward env child ?known s r)) r (forward env child ?known s r)" if "fld control ''command'' \<noteq> JStr ''open''"
      using forward_adds [OF as_is [OF that]] by simp
    have opened: "adds (?ok (case control of JObj kvs \<Rightarrow> forward env child ?known (newline # jtxt (JObj (oset kvs ''group'' (JStr (re_name env child))))) r | _ \<Rightarrow> r)) r
        (case control of JObj kvs \<Rightarrow> forward env child ?known (newline # jtxt (JObj (oset kvs ''group'' (JStr (re_name env child))))) r | _ \<Rightarrow> r)"
    proof (cases control)
      case (JObj kvs)
      then show ?thesis using forward_adds [OF open_grouped] that(1) by simp
    qed simp_all
    have shown: "adds (?ok (route ShowOops r)) r (route ShowOops r)" "adds (?ok (route (ExpectRestart a) r)) r (route (ExpectRestart a) r)"
      "adds (?ok (route (HintOut a b) r)) r (route (HintOut a b) r)" for a b
      by (simp_all add: one no_text_def)
    note jumped = quiet [OF no_text_steps(1)]
    consider (init) "fld control ''command'' = JStr ''init''" | (jump) "fld control ''command'' = JStr ''jump''"
      | (hint) "fld control ''command'' = JStr ''hint''" | (open') "fld control ''command'' = JStr ''open''"
      | (other) "fld control ''command'' \<notin> {JStr ''init'', JStr ''jump'', JStr ''hint'', JStr ''open''}" by blast
    then show ?thesis
    proof cases
      case init
      then show ?thesis using greeted [OF as_is, of control] by (simp add: router_control_def Let_def)
    next
      case jump
      then show ?thesis using jumped by (simp add: router_control_def Let_def)
    next
      case hint
      then show ?thesis using shown by (simp add: router_control_def Let_def)
    next
      case open'
      then show ?thesis using opened by (simp add: router_control_def Let_def)
    next
      case other
      then show ?thesis using shown sent by (simp add: router_control_def Let_def)
    qed
  qed
  have plain: "grouped (re_name env child) (Inject (Text s))" if "take 1 s \<noteq> [newline]" for s
    using that by (cases s) (auto simp: grouped_def split: option.split)
  have "adds (?ok (message_handler env same_origin child data r)) r (message_handler env same_origin child data r)"
  proof (cases data)
    case (Binary b)
    then show ?thesis using one [of "Inject data"] by (simp add: message_handler_def no_text_def)
  next
    case (Text s)
    have parse: "adds (?ok (case json_parse (drop 1 s) of None \<Rightarrow> route (RouteException ''SyntaxError'') r
          | Some JNull \<Rightarrow> route (RouteException ''TypeError'') r | Some control \<Rightarrow> router_control env child control ?known s r)) r
        (case json_parse (drop 1 s) of None \<Rightarrow> route (RouteException ''SyntaxError'') r
          | Some JNull \<Rightarrow> route (RouteException ''TypeError'') r | Some control \<Rightarrow> router_control env child control ?known s r)"
      if "take 1 s = [newline]"
    proof (cases "json_parse (drop 1 s)")
      case None
      then show ?thesis using one [of "RouteException ''SyntaxError''"] by (simp add: no_text_def)
    next
      case (Some v)
      then show ?thesis
        using one [of "RouteException ''TypeError''"] control [OF Some that] by (cases v) (simp_all add: no_text_def)
    qed
    have gone: "adds (?ok (case ?known of None \<Rightarrow> r | Some i \<Rightarrow> unregister_source env i r)) r
        (case ?known of None \<Rightarrow> r | Some i \<Rightarrow> unregister_source env i r)"
      using quiet [OF no_text_steps(4)] by (cases ?known) simp_all
    have send: "adds (?ok (forward env child ?known s r)) r (forward env child ?known s r)" if "take 1 s \<noteq> [newline]"
      using forward_adds [OF plain [OF that]] by simp
    show ?thesis
      using parse gone send unfolding message_handler_def Text wire.case Let_def
      by (cases "same_origin \<and> re_named env child"; cases "s = []"; cases "take 1 s = [newline]") simp_all
  qed
  then show ?thesis
    by (simp add: adds_def Let_def list_all_iff)
qed


section \<open>A shell with two frames\<close>

definition demo_env :: router_env where
  "demo_env = \<lparr>re_name = (\<lambda>n. if n = 1 then ''cockpit1:localhost/system'' else ''cockpit1:other/users''), re_named = (\<lambda>_. True),
     re_closed = (\<lambda>_. False), re_hash = (\<lambda>_. []), re_current = Some 1, re_options = [(''channel-seed'', JStr ''1:'')],
     re_host = JNull, re_privileges = False, re_merge = (\<lambda>a b. JS_Value.extend a [JObj b])\<rparr>"

definition frame_init :: wire where
  "frame_init = Text (newline # jtxt (JObj [(''command'', JStr ''init''), (''version'', JNum 1)]))"

definition demo_shell :: router where
  "demo_shell = router_exec demo_env (RMessage True 2 frame_init) (router_exec demo_env (RMessage True 1 frame_init) new_router)"

lemma demo_shell_reach: "rreach ''1:'' demo_shell"
  unfolding demo_shell_def by (intro rreach.intros) (simp_all add: seed_base_def demo_env_def)

lemma demo_shell_shape:
  "oget (r_by_name demo_shell) ''cockpit1:other/users'' = Some 1" "so_seed (src demo_shell 1) = ''1:2!''" "so_window (src demo_shell 1) = 2"
  by code_simp+

definition demo_frame :: world where
  "demo_frame = the (run [OpOpen ParentWS [], OpReceive 0 (Text (newline # jtxt (JObj [(''command'', JStr ''init''), (''version'', JNum 1),
     (''channel-seed'', JStr ''1:2!'')])))] init_world)"

lemma demo_frame_reachable: "reachable demo_frame"
proof -
  have "run [OpOpen ParentWS [], OpReceive 0 (Text (newline # jtxt (JObj [(''command'', JStr ''init''), (''version'', JNum 1),
     (''channel-seed'', JStr ''1:2!'')])))] init_world \<noteq> None" by code_simp
  then show ?thesis
    unfolding demo_frame_def by (metis option.collapse reachable_run reachable.start)
qed

lemma demo_frame_shape:
  "length (w_transports demo_frame) = 1" "t_channel_seed (tr demo_frame 0) = ''1:2!''" "nat_str 1 = ''1''"
  "oget (t_control_cbs (tr demo_frame 0)) ''1:2!1'' = Some 0" "w_incoming_filters demo_frame = []" "\<not> c_received_done (ch demo_frame 0)"
  by code_simp+

theorem frames_get_their_messages_witness:
  "router_filter demo_env (frame (PStr ''hi'') ''1:2!1'') ''1:2!1'' JUndef demo_shell =
     (route (Post 2 (frame (PStr ''hi'') ''1:2!1'')) demo_shell, False)"
proof -
  have "CHR ''!'' \<notin> set ''1:''" "newline \<notin> set ''1:''" "\<not> re_closed demo_env (so_window (src demo_shell 1))"
    by (simp_all add: demo_env_def)
  then show ?thesis
    using frames_get_their_messages [OF demo_shell_reach _ _ demo_shell_shape(1) _ demo_frame_reachable, of demo_env 0 "''1:2!1''" 1 0 "PStr ''hi''"]
    by (simp add: demo_shell_shape [unfolded One_nat_def] demo_frame_shape [unfolded One_nat_def])
qed

definition open_sent :: wire where
  "open_sent = Text (newline # jtxt (JObj [(''command'', JStr ''open''), (''channel'', JStr ''1:2!1''), (''group'', JStr ''fake'')]))"

theorem forwarded_opens_grouped_witness:
  "\<exists>es. r_log (message_handler demo_env True 2 open_sent demo_shell) = r_log demo_shell @ es \<and> length es = 1 \<and>
     (\<forall>e \<in> set es. grouped ''cockpit1:other/users'' e)"
proof -
  have "seed_base demo_env = ''1:''" by (simp add: seed_base_def demo_env_def)
  note fw = forwarded_opens_grouped [OF demo_shell_reach this, of True 2 open_sent, unfolded Let_def]
  have "length (r_log (message_handler demo_env True 2 open_sent demo_shell)) = length (r_log demo_shell) + 1" by code_simp
  moreover have "re_name demo_env 2 = ''cockpit1:other/users''" by (simp add: demo_env_def)
  ultimately show ?thesis
    using fw by auto
qed

end
