(* ===== verification/Shell_Index.thy ===== *)
theory Shell_Index
  imports Shell_Router "HOL-Library.Multiset"
begin

text \<open>
  Frames and navigation of the shell, of \<open>pkg/shell/base_index.js\<close>: \<open>Frames\<close> (one frame per machine and component),
  \<open>Index\<close> (the state of the navigation, its text and its history, the frame in front) and \<open>CompiledComponents\<close> (the
  menu entries of the manifests).  Texts are code point lists, as for locations.
\<close>

section \<open>Frames\<close>

text \<open>What a caller gives as machine: nothing, an address, or a machine.\<close>

record machine =
  ma_address :: ctext
  ma_connection_string :: ctext
  ma_manifests :: "(ctext, ctext) obj option"
  ma_manifests_checksum :: ctext
  ma_checksum :: ctext

datatype machine_arg = NoMachine | Address ctext | Machine machine

text \<open>\<open>component_checksum\<close>; \<open>ma_manifests\<close> maps packages to their checksums, empty for none.\<close>

definition component_checksum :: "machine \<Rightarrow> ctext \<Rightarrow> ctext option" where
  "component_checksum m component =
     (case ma_manifests m of
        None \<Rightarrow> None
      | Some manifests \<Rightarrow>
          (case oget manifests (hd (split_on 47 component)) of
             Some cs \<Rightarrow> if cs \<noteq> [] then Some (36 # cs) else None
           | None \<Rightarrow> None))"

text \<open>A frame: its attributes, its address without the hash, and the pending check with its count.\<close>

record iframe =
  if_name :: ctext
  if_url :: ctext
  if_src :: "ctext option"
  if_ready :: bool
  if_timer :: "nat option"
  if_removed :: bool

record frames =
  fr_iframes :: "(ctext, (ctext, nat) obj) obj"
  fr_heap :: "iframe list"
  fr_navigations :: nat

abbreviation fr :: "frames \<Rightarrow> nat \<Rightarrow> iframe" where
  "fr fs i \<equiv> fr_heap fs ! i"

definition upd_fr :: "nat \<Rightarrow> (iframe \<Rightarrow> iframe) \<Rightarrow> frames \<Rightarrow> frames" where
  "upd_fr i f fs = fs\<lparr>fr_heap := (fr_heap fs)[i := f (fr fs i)]\<rparr>"

definition remove_frame :: "nat \<Rightarrow> frames \<Rightarrow> frames" where
  "remove_frame i = upd_fr i (\<lambda>x. x\<lparr>if_removed := True\<rparr>)"

definition address_of :: "machine_arg \<Rightarrow> ctext" where
  "address_of m =
     (let address = (case m of NoMachine \<Rightarrow> [] | Address a \<Rightarrow> a | Machine m \<Rightarrow> ma_address m)
      in if address = [] then tx ''localhost'' else address)"

text \<open>\<open>remove(machine, component)\<close>; an empty component stands for none.\<close>

definition frames_remove :: "machine_arg \<Rightarrow> ctext \<Rightarrow> frames \<Rightarrow> frames" where
  "frames_remove m component fs =
     (let address = address_of m;
          frames = (case oget (fr_iframes fs) address of None \<Rightarrow> [] | Some l \<Rightarrow> l);
          doomed = filter (\<lambda>(key, i). component = [] \<or> component = key) frames;
          fs = fold (\<lambda>(key, i). remove_frame i) doomed fs
      in if component = [] then fs\<lparr>fr_iframes := odel (fr_iframes fs) address\<rparr>
         else if oget (fr_iframes fs) address = None then fs
         else fs\<lparr>fr_iframes := oset (fr_iframes fs) address (odel frames component)\<rparr>)"

text \<open>\<open>frame_ready(frame, count)\<close>; whether the frame shows its body, or may not be looked at, is an argument.\<close>

definition frame_ready :: "bool \<Rightarrow> nat \<Rightarrow> nat \<Rightarrow> frames \<Rightarrow> frames" where
  "frame_ready shown i tries fs =
     (let fs = upd_fr i (\<lambda>x. x\<lparr>if_timer := None\<rparr>) fs;
          tries = tries + 1
      in if shown \<or> tries > 50 then
           (if \<not> if_ready (fr fs i)
            then (upd_fr i (\<lambda>x. x\<lparr>if_ready := True\<rparr>) fs)\<lparr>fr_navigations := Suc (fr_navigations fs)\<rparr> else fs)
         else upd_fr i (\<lambda>x. x\<lparr>if_timer := Some (tries + 1)\<rparr>) fs)"

text \<open>The timer of a frame fires.\<close>

definition frame_timer :: "bool \<Rightarrow> nat \<Rightarrow> frames \<Rightarrow> frames" where
  "frame_timer shown i fs = (case if_timer (fr fs i) of None \<Rightarrow> fs | Some tries \<Rightarrow> frame_ready shown i tries fs)"

definition host_of :: "machine_arg \<Rightarrow> ctext" where
  "host_of m =
     (let host = (case m of NoMachine \<Rightarrow> [] | Address a \<Rightarrow> a | Machine m \<Rightarrow> ma_connection_string m)
      in if host = [] then tx ''localhost'' else host)"

text \<open>In \<open>lookup\<close> a missing address is the host.\<close>

definition lookup_address :: "machine_arg \<Rightarrow> ctext" where
  "lookup_address m =
     (let address = (case m of NoMachine \<Rightarrow> [] | Address a \<Rightarrow> a | Machine m \<Rightarrow> ma_address m)
      in if address = [] then host_of m else address)"

definition frame_name :: "ctext \<Rightarrow> ctext \<Rightarrow> ctext" where
  "frame_name host component = tx ''cockpit1:'' @ host @ 47 # component"

definition frame_base :: "machine_arg \<Rightarrow> ctext \<Rightarrow> ctext" where
  "frame_base m component =
     (let checksum = (case m of
            Machine x \<Rightarrow> if ma_manifests x \<noteq> None \<and> ma_manifests_checksum x \<noteq> [] then 36 # ma_manifests_checksum x else ma_checksum x
          | _ \<Rightarrow> []);
          agrees = (case m of Machine x \<Rightarrow> component_checksum x component = Some checksum | _ \<Rightarrow> False)
      in if checksum \<noteq> [] \<and> agrees
         then (if host_of m = tx ''localhost'' then tx ''..'' else tx ''../../'' @ checksum)
         else tx ''../../@'' @ host_of m)"

definition new_frame :: "machine_arg \<Rightarrow> ctext \<Rightarrow> iframe" where
  "new_frame m component =
     \<lparr>if_name = frame_name (host_of m) component,
      if_url = frame_base m component @ 47 # component @ (if 47 \<notin> set component then tx ''/index'' else []) @ tx ''.html'',
      if_src = None, if_ready = False, if_timer = None, if_removed = False\<rparr>"

text \<open>
  \<open>lookup(machine, component, hash)\<close>.  A frame of that name that the page has already, with its address, may be an
  argument; the result is the place of the frame.
\<close>

definition frames_lookup :: "(ctext \<Rightarrow> ctext option) \<Rightarrow> bool \<Rightarrow> machine_arg \<Rightarrow> ctext \<Rightarrow> ctext \<Rightarrow> frames \<Rightarrow> frames \<times> nat" where
  "frames_lookup preloaded shown m component hash fs =
     (let address = lookup_address m;
          name = frame_name (host_of m) component;
          frames = (case oget (fr_iframes fs) address of None \<Rightarrow> [] | Some l \<Rightarrow> l);
          fs = fs\<lparr>fr_iframes := oset (fr_iframes fs) address frames\<rparr>;
          found = oget frames component;
          (fs, found) = (case found of
             Some i \<Rightarrow> if if_name (fr fs i) \<noteq> name then (remove_frame i fs, None) else (fs, Some i)
           | None \<Rightarrow> (fs, None));
          put = (\<lambda>x fs. (fs\<lparr>fr_heap := fr_heap fs @ [x], fr_iframes := oset (fr_iframes fs) address (oset frames component (length (fr_heap fs)))\<rparr>,
                         length (fr_heap fs)));
          (fs, i) = (case found of
             Some i \<Rightarrow> (fs, i)
           | None \<Rightarrow>
               (case preloaded name of
                  Some src' \<Rightarrow> put ((new_frame m component)\<lparr>if_url := hd (split_on 35 src'), if_src := Some src'\<rparr>) fs
                | None \<Rightarrow> put (new_frame m component) fs));
          src' = if_url (fr fs i) @ 35 # (if hash = [] then tx ''/'' else hash);
          fs = upd_fr i (\<lambda>x. x\<lparr>if_src := Some src'\<rparr>) fs
      in (frame_ready shown i 0 fs, i))"

section \<open>Navigation\<close>

text \<open>A hash may be missing, null or a text.\<close>

datatype hash_val = HUndef | HNull | Hash ctext

definition no_hash :: "hash_val \<Rightarrow> bool" where
  "no_hash h \<longleftrightarrow> (case h of Hash s \<Rightarrow> s = [] | _ \<Rightarrow> True)"

text \<open>A state; one given to \<open>jump\<close> may lack the host (empty) and the component (\<open>None\<close>).\<close>

record nav_state =
  ns_host :: ctext
  ns_component :: "ctext option"
  ns_hash :: hash_val
  ns_sidebar :: bool

definition nav_encode :: "ctext \<Rightarrow> nav_state \<Rightarrow> bool \<Rightarrow> bool \<Rightarrow> ctext fallible" where
  "nav_encode url_root st sidebar with_root =
     (let path = (if ns_host st \<noteq> [] \<and> (sidebar \<or> ns_host st \<noteq> tx ''localhost'') then [64 # ns_host st] else []);
          component = (case ns_component st of None \<Rightarrow> [] | Some c \<Rightarrow> c);
          path = (if component \<noteq> [] then path @ split_on 47 component else path)
      in case encode_path url_root path [] with_root of
           Inl e \<Rightarrow> Inl e
         | Inr string \<Rightarrow>
             Inr (case ns_hash st of
                    Hash h \<Rightarrow> if h \<noteq> [] \<and> h \<noteq> [47] then string @ 35 # h else string
                  | _ \<Rightarrow> string))"

definition nav_decode :: "ctext \<Rightarrow> ctext list \<Rightarrow> ctext \<Rightarrow> nav_state fallible" where
  "nav_decode url_root base string =
     (let (hash, string) = (case index_of 35 string of
            None \<Rightarrow> ([], string) | Some pos \<Rightarrow> (drop (pos + 1) string, take pos string));
          string = (if take 1 string \<noteq> [47] then 47 # string else string)
      in case decode_href url_root base string [] of
           Inl e \<Rightarrow> Inl e
         | Inr (path, _) \<Rightarrow>
             let named = (path \<noteq> [] \<and> take 1 (hd path) = [64]);
                 host = (if named then tl (hd path) else tx ''localhost'');
                 path = (if named then tl path else path);
                 path = (if path \<noteq> [] \<and> List.last path = tx ''index'' then butlast path else path)
             in Inr \<lparr>ns_host = host, ns_component = Some (join [47] path), ns_hash = Hash hash, ns_sidebar = named\<rparr>)"

definition lookup_component_hash :: "ctext \<Rightarrow> ctext \<Rightarrow> frames \<Rightarrow> hash_val" where
  "lookup_component_hash address component fs =
     (let address = (if address = [] then tx ''localhost'' else address)
      in case oget (fr_iframes fs) address of
           None \<Rightarrow> HNull
         | Some frames \<Rightarrow>
             (case oget frames component of
                None \<Rightarrow> HNull
              | Some i \<Rightarrow>
                  (case if_src (fr fs i) of
                     Some src' \<Rightarrow> if src' = [] then HNull
                       else (case split_on 35 src' of _ # h # _ \<Rightarrow> Hash h | _ \<Rightarrow> HUndef)
                   | None \<Rightarrow> HNull)))"

text \<open>The history of the window: the state that is current, if it is one of ours, the ones behind it, and the address.\<close>

record nav_history =
  hi_state :: "nav_state option"
  hi_past :: "nav_state option list"
  hi_address :: ctext

definition retrieve_state :: "ctext \<Rightarrow> ctext list \<Rightarrow> nav_history \<Rightarrow> nav_state fallible" where
  "retrieve_state url_root base hi =
     (case hi_state hi of Some st \<Rightarrow> Inr st | None \<Rightarrow> nav_decode url_root base (hi_address hi))"

text \<open>\<open>jump(state, replace)\<close> when the shell is not embedded: the history, and the state to navigate to, if any.\<close>

definition complete_state :: "nav_state \<Rightarrow> nav_state \<Rightarrow> frames \<Rightarrow> nav_state" where
  "complete_state current st fs =
     (let st = (if ns_host st = [] then st\<lparr>ns_host := (if ns_host current \<noteq> [] then ns_host current else tx ''localhost'')\<rparr> else st);
          st = (if ns_component st = None
                then st\<lparr>ns_component := Some (case ns_component current of None \<Rightarrow> [] | Some c \<Rightarrow> c)\<rparr> else st);
          frame_change = (ns_host st \<noteq> ns_host current \<or> ns_component st \<noteq> ns_component current)
      in if frame_change \<and> no_hash (ns_hash st)
         then st\<lparr>ns_hash := lookup_component_hash (ns_host st) (case ns_component st of None \<Rightarrow> [] | Some c \<Rightarrow> c) fs\<rparr> else st)"

definition nav_jump :: "ctext \<Rightarrow> ctext list \<Rightarrow> frames \<Rightarrow> nav_state \<Rightarrow> bool \<Rightarrow> nav_history \<Rightarrow> (nav_history \<times> nav_state option) fallible" where
  "nav_jump url_root base fs st replace hi =
     (case retrieve_state url_root base hi of
        Inl e \<Rightarrow> Inl e
      | Inr current \<Rightarrow>
          let st = complete_state current st fs
          in case nav_encode url_root st False True of
               Inl e \<Rightarrow> Inl e
             | Inr target \<Rightarrow>
                 if replace then Inr (hi\<lparr>hi_state := Some st, hi_address := target\<rparr>, None)
                 else if ns_host st \<noteq> ns_host current \<or> ns_component st \<noteq> ns_component current \<or> ns_hash st \<noteq> ns_hash current
                 then Inr (hi\<lparr>hi_state := Some st, hi_past := hi_state hi # hi_past hi, hi_address := target\<rparr>, Some st)
                 else Inr (hi, None))"

text \<open>\<open>current_frame(frame)\<close>: the windows of the old frame and the new one are told.\<close>

definition set_current_frame :: "router_env \<Rightarrow> nat option \<Rightarrow> nat option \<Rightarrow> router \<Rightarrow> router" where
  "set_current_frame env old new r =
     (if old = new then r
      else
        let r = (case old of None \<Rightarrow> r | Some c \<Rightarrow> router_hint env c [(''hidden'', JBool True)] r)
        in case new of None \<Rightarrow> r | Some c \<Rightarrow> router_hint env c [(''hidden'', JBool False)] r)"

section \<open>Menu entries\<close>

record menu_info =
  mi_label :: ctext
  mi_order :: "int option"
  mi_path :: ctext

record menu_item =
  it_section :: ctext
  it_label :: ctext
  it_order :: int
  it_path :: ctext
  it_hash :: "ctext option"

text \<open>The path of an item, and the hash split off it.\<close>

definition item_path :: "ctext \<Rightarrow> ctext \<Rightarrow> ctext \<Rightarrow> ctext \<times> ctext option" where
  "item_path name key path0 =
     (let path = (if path0 \<noteq> [] then (if drop (length path0 - 5) path0 = tx ''.html'' then take (length path0 - 5) path0 else path0)
                  else name @ 47 # key);
          (path, hash) = (case index_of 35 path of None \<Rightarrow> (path, None) | Some pos \<Rightarrow> (take pos path, Some (drop (pos + 1) path)));
          path = (if 47 \<notin> set path then name @ 47 # path else path);
          path = (if length path \<ge> 6 \<and> drop (length path - 6) path = tx ''/index'' then take (length path - 6) path else path)
      in (path, hash))"

definition compile_item :: "(ctext \<Rightarrow> ctext) \<Rightarrow> ctext \<Rightarrow> ctext \<Rightarrow> ctext \<Rightarrow> menu_info \<Rightarrow> menu_item" where
  "compile_item tr_label section' name key info =
     (let label = tr_label (mi_label info)
      in \<lparr>it_section = section', it_label = (if label \<noteq> [] then label else key),
          it_order = (case mi_order info of None \<Rightarrow> 1000 | Some n \<Rightarrow> n),
          it_path = fst (item_path name key (mi_path info)), it_hash = snd (item_path name key (mi_path info))\<rparr>)"

text \<open>\<open>load(manifests, section)\<close>: the manifests with what they have in that section.\<close>

definition load_items :: "(ctext \<Rightarrow> ctext) \<Rightarrow> ctext \<Rightarrow> (ctext \<times> (ctext \<times> menu_info) list) list \<Rightarrow> (ctext, menu_item) obj \<Rightarrow> (ctext, menu_item) obj" where
  "load_items tr_label section' manifests items =
     fold (\<lambda>(name, infos) items.
       fold (\<lambda>(key, info) items. let item = compile_item tr_label section' name key info in oset items (it_path item) item) infos items)
       manifests items"

text \<open>\<open>sort\<close> with the comparison of the source: by order, then by label in the order of the locale.\<close>

definition item_before :: "(ctext \<Rightarrow> ctext \<Rightarrow> int) \<Rightarrow> menu_item \<Rightarrow> menu_item \<Rightarrow> int" where
  "item_before locale_compare a b =
     (let ret = it_order a - it_order b in if ret = 0 then locale_compare (it_label a) (it_label b) else ret)"

fun insert_item :: "(menu_item \<Rightarrow> menu_item \<Rightarrow> int) \<Rightarrow> menu_item \<Rightarrow> menu_item list \<Rightarrow> menu_item list" where
  "insert_item cmp x [] = [x]"
| "insert_item cmp x (y # ys) = (if cmp x y < 0 then x # y # ys else y # insert_item cmp x ys)"

definition ordered_items :: "(ctext \<Rightarrow> ctext \<Rightarrow> int) \<Rightarrow> ctext \<Rightarrow> (ctext, menu_item) obj \<Rightarrow> menu_item list" where
  "ordered_items locale_compare section' items =
     fold (insert_item (item_before locale_compare)) (filter (\<lambda>x. section' = [] \<or> it_section x = section') (map snd items)) []"

definition search_items :: "(menu_item \<Rightarrow> bool) \<Rightarrow> (ctext, menu_item) obj \<Rightarrow> menu_item option" where
  "search_items test items = List.find test (map snd items)"


section \<open>States and their texts\<close>

text \<open>The components of the shell: parts without slashes, the last of them not \<open>index\<close>.\<close>

definition good_component :: "ctext list \<Rightarrow> bool" where
  "good_component parts \<longleftrightarrow>
     good_path parts \<and> list_all (\<lambda>s. 47 \<notin> set s) parts \<and> (parts \<noteq> [] \<longrightarrow> List.last parts \<noteq> tx ''index'')"

lemma split_component:
  assumes "good_component parts"
  shows "join [47] parts \<noteq> [] \<longleftrightarrow> parts \<noteq> []" "parts \<noteq> [] \<Longrightarrow> split_on 47 (join [47] parts) = parts"
proof -
  show "parts \<noteq> [] \<Longrightarrow> split_on 47 (join [47] parts) = parts"
    using assms by (intro split_on_join) (auto simp: good_component_def list_all_iff)
  show "join [47] parts \<noteq> [] \<longleftrightarrow> parts \<noteq> []"
    using assms by (cases parts; cases "tl parts") (auto simp: good_component_def good_path_def plain_part_def)
qed

lemma decode_state:
  assumes "good_path path"
  shows "nav_decode [] base (href_text path [] @ (if h \<noteq> [] then 35 # h else [])) =
    (let named = (path \<noteq> [] \<and> take 1 (hd path) = [64]);
         rest = (if named then tl path else path)
     in Inr \<lparr>ns_host = (if named then tl (hd path) else tx ''localhost''),
          ns_component = Some (join [47] (if rest \<noteq> [] \<and> List.last rest = tx ''index'' then butlast rest else rest)),
          ns_hash = Hash h, ns_sidebar = named\<rparr>)"
proof -
  let ?h = "href_text path []"
  have free: "35 \<notin> set ?h" using undone_free [OF assms, of 35] by (simp add: href_text_def)
  have "render (undone (path_toks path)) \<noteq> [] \<and> hd (render (undone (path_toks path))) = 47"
    using undone_eq [of "path_toks path"] by (auto simp: path_toks_def list_all2_Cons1 tok_eq_def)
  then have slash: "take 1 ?h = [47]"
    by (cases "render (undone (path_toks path))") (auto simp: href_text_def)
  have "decode_href [] base ?h [] = Inr (path, [])"
    using decode_href_text [OF assms, of "[]" base] by (simp add: good_options_def)
  moreover have ix: "index_of 35 (?h @ 35 # h) = Some (length ?h)" "index_of 35 ?h = None"
    by (rule index_of_append_fresh [OF free]) (simp only: index_of_None_iff free simp_thms)
  have "(case index_of 35 (?h @ (if h \<noteq> [] then 35 # h else [])) of None \<Rightarrow> ([], ?h @ (if h \<noteq> [] then 35 # h else []))
      | Some pos \<Rightarrow> (drop (pos + 1) (?h @ (if h \<noteq> [] then 35 # h else [])), take pos (?h @ (if h \<noteq> [] then 35 # h else [])))) = (h, ?h)"
    using ix by (cases "h = []") (simp_all del: index_of_None_iff)
  note cut = this
  ultimately show ?thesis
    using slash unfolding nav_decode_def cut by (simp add: Let_def)
qed

text \<open>The text of a navigation state decodes to the state: host, component and hash come back, whether or not the host is the
  local one and is shown, and the sidebar is asked for exactly when the text names a host.  (The hash "/" is the same as
  none and is dropped; a local component must not begin with the mark of a host.)
\<close>

theorem nav_state_roundtrip:
  assumes "good_component parts" and "ns_component st = Some (join [47] parts)"
    and "ns_host st \<noteq> []" and "list_all scalar (ns_host st)"
    and "ns_hash st = Hash h" and "h \<noteq> [47]"
    and "named = (sidebar \<or> ns_host st \<noteq> tx ''localhost'')"
    and "named \<or> parts = [] \<or> take 1 (hd parts) \<noteq> [64]"
  shows "\<exists>s. nav_encode [] st sidebar False = Inr s \<and> nav_decode [] base s = Inr (st\<lparr>ns_sidebar := named\<rparr>)"
proof -
  let ?path = "(if named then [64 # ns_host st] else []) @ parts"
  have good: "good_path ?path"
    using assms(1,3,4) by (auto simp: good_component_def good_path_def plain_part_def scalar_def surrogate_def)
  let ?s = "href_text ?path [] @ (if h \<noteq> [] then 35 # h else [])"
  have "encode_path [] ?path [] False = Inr (href_text ?path [])"
    using encode_path_text [OF good, of "[]"] by (simp add: good_options_def)
  then have enc: "nav_encode [] st sidebar False = Inr ?s"
    using assms split_component [OF assms(1)] by (auto simp: nav_encode_def Let_def)
  have "nav_decode [] base ?s = Inr (st\<lparr>ns_sidebar := named\<rparr>)"
    unfolding decode_state [OF good] Let_def
    using assms by (cases named) (auto simp: good_component_def intro!: nav_state.equality)
  with enc show ?thesis by blast
qed

definition demo_nav :: nav_state where
  "demo_nav = \<lparr>ns_host = tx ''h'', ns_component = Some (tx ''system/a b''), ns_hash = Hash (tx ''/x?y=1#z''), ns_sidebar = True\<rparr>"

theorem nav_state_roundtrip_witness:
  "\<exists>s. nav_encode [] demo_nav False False = Inr s \<and> nav_decode [] [] s = Inr demo_nav"
proof -
  have "good_component [tx ''system'', tx ''a b'']"
    by (simp add: good_component_def good_path_def plain_part_def scalar_def surrogate_def)
  from nav_state_roundtrip [OF this, of demo_nav "tx ''/x?y=1#z''" True False "[]"]
  show ?thesis by (simp add: demo_nav_def scalar_def surrogate_def)
qed

section \<open>Frames become ready\<close>

definition frame_timers :: "bool list \<Rightarrow> nat \<Rightarrow> frames \<Rightarrow> frames" where
  "frame_timers shown i fs = fold (\<lambda>b. frame_timer b i) shown fs"

lemma upd_fr_sel [simp]:
  "i < length (fr_heap fs) \<Longrightarrow> fr (upd_fr i f fs) i = f (fr fs i)" "length (fr_heap (upd_fr i f fs)) = length (fr_heap fs)"
  "fr_iframes (upd_fr i f fs) = fr_iframes fs" "fr_navigations (upd_fr i f fs) = fr_navigations fs"
  by (simp_all add: upd_fr_def)

lemma frame_ready_count:
  assumes "i < length (fr_heap fs)"
  shows "length (fr_heap (frame_ready shown i tries fs)) = length (fr_heap fs)"
    and "shown \<or> tries \<ge> 50 \<Longrightarrow> if_ready (fr (frame_ready shown i tries fs) i)"
    and "\<not> (shown \<or> tries \<ge> 50) \<Longrightarrow> if_timer (fr (frame_ready shown i tries fs) i) = Some (tries + 2)"
    and "if_ready (fr fs i) \<Longrightarrow> if_ready (fr (frame_ready shown i tries fs) i)"
  using assms by (auto simp: frame_ready_def Let_def)

lemma frame_ready_stays:
  "i < length (fr_heap fs) \<Longrightarrow> if_ready (fr fs i) \<Longrightarrow> if_ready (fr (frame_timers bs i fs) i)"
proof (induction bs arbitrary: fs)
  case (Cons b bs)
  then show ?case
    using frame_ready_count(1,4) by (simp add: frame_timers_def frame_timer_def split: option.split)
qed (simp add: frame_timers_def)

lemma frame_timers_ready:
  "i < length (fr_heap fs) \<Longrightarrow> if_timer (fr fs i) = Some tries \<Longrightarrow> 50 \<le> tries + 2 * (length bs - 1) \<Longrightarrow> bs \<noteq> [] \<Longrightarrow>
   if_ready (fr (frame_timers bs i fs) i)"
proof (induction bs arbitrary: fs tries)
  case (Cons b bs)
  let ?fs = "frame_ready b i tries fs"
  have step: "frame_timers (b # bs) i fs = frame_timers bs i ?fs"
    using Cons.prems(2) by (simp add: frame_timers_def frame_timer_def)
  show ?case
  proof (cases "b \<or> tries \<ge> 50")
    case True
    then show ?thesis
      unfolding step using frame_ready_count(1,2) [OF Cons.prems(1)] Cons.prems(1) by (intro frame_ready_stays) simp_all
  next
    case False
    then have "bs \<noteq> []" using Cons.prems(3) by auto
    moreover from this have "length bs - 1 + 1 = length bs" by (cases bs) auto
    ultimately show ?thesis
      unfolding step using Cons.IH [of ?fs "tries + 2"] Cons.prems(1,3) frame_ready_count [OF Cons.prems(1)] False by auto
  qed
qed simp




section \<open>One frame per machine and component\<close>

lemma upd_fr_name: "(\<And>x. if_name (f x) = if_name x) \<Longrightarrow> if_name (fr (upd_fr i f fs) j) = if_name (fr fs j)"
  by (cases "i = j"; cases "i < length (fr_heap fs)") (auto simp: upd_fr_def list_update_beyond)

lemma frame_ready_keeps [simp]:
  "fr_iframes (frame_ready shown i tries fs) = fr_iframes fs"
  "if_name (fr (frame_ready shown i tries fs) j) = if_name (fr fs j)"
  by (simp_all add: frame_ready_def Let_def upd_fr_name)

lemma lookup_finds:
  assumes "frames_lookup preloaded shown m component hash fs = (fs', i)"
  shows "\<exists>frames. oget (fr_iframes fs') (lookup_address m) = Some frames \<and> oget frames component = Some i \<and>
    if_name (fr fs' i) = frame_name (host_of m) component"
  using assms unfolding frames_lookup_def Let_def
  by (auto simp: upd_fr_name remove_frame_def nth_append new_frame_def split: option.splits if_splits prod.splits)

lemma lookup_known:
  assumes "oget (fr_iframes fs) (lookup_address m) = Some frames" "oget frames component = Some i"
    and "if_name (fr fs i) = frame_name (host_of m) component"
  shows "snd (frames_lookup preloaded shown m component hash fs) = i"
  using assms by (simp add: frames_lookup_def Let_def)

text \<open>Looking a component of a machine up again, with whatever hash, finds the frame that was there or was made the first time.\<close>

theorem lookup_same_frame:
  "let (fs', i) = frames_lookup preloaded shown m component hash fs
   in snd (frames_lookup preloaded' shown' m component hash' fs') = i"
  using lookup_finds [of preloaded shown m component hash fs] lookup_known by (fastforce split: prod.split)

section \<open>The order of the menu\<close>

lemma insert_item_mset [simp]: "mset (insert_item cmp x ys) = add_mset x (mset ys)"
  by (induction ys) auto

lemma insert_item_sorted:
  assumes "\<And>a b. cmp a b < 0 \<Longrightarrow> cmp a b \<le> 0" "\<And>a b. \<not> cmp a b < 0 \<Longrightarrow> cmp b a \<le> 0" "transp (\<lambda>a b. cmp a b \<le> 0)"
  shows "sorted_wrt (\<lambda>a b. cmp a b \<le> 0) ys \<Longrightarrow> sorted_wrt (\<lambda>a b. cmp a b \<le> 0) (insert_item cmp x ys)"
proof (induction ys)
  case (Cons y ys)
  have "set (insert_item cmp x ys) = insert x (set ys)" by (metis insert_item_mset set_mset_add_mset_insert set_mset_mset)
  then show ?case
    using Cons assms(1) [of x y] assms(2) [of x y] by (auto intro: transpD [OF assms(3), of x y])
qed simp

lemma fold_insert_item:
  assumes "\<And>a b. \<not> cmp a b < 0 \<Longrightarrow> cmp b a \<le> 0" "transp (\<lambda>a b. cmp a b \<le> (0 :: int))"
  shows "sorted_wrt (\<lambda>a b. cmp a b \<le> 0) ys \<Longrightarrow> sorted_wrt (\<lambda>a b. cmp a b \<le> 0) (fold (insert_item cmp) xs ys)"
    and "mset (fold (insert_item cmp) xs ys) = mset xs + mset ys"
  using assms insert_item_sorted [of cmp] by (induction xs arbitrary: ys) auto

text \<open>What is ordered has the items of the section, each as often as it was there, by their order and then their labels.\<close>

lemma ordered_items_sorted:
  assumes "\<And>a b. lc a b = - lc b a" "transp (\<lambda>a b. lc a b \<le> 0)"
  shows "sorted_wrt (\<lambda>a b. item_before lc a b \<le> 0) (ordered_items lc section' items)"
    and "mset (ordered_items lc section' items) = mset (filter (\<lambda>x. section' = [] \<or> it_section x = section') (map snd items))"
proof -
  have "\<not> item_before lc a b < 0 \<Longrightarrow> item_before lc b a \<le> 0" for a b
    using assms(1) [of "it_label a" "it_label b"] by (auto simp: item_before_def Let_def split: if_splits)
  moreover have "transp (\<lambda>a b. item_before lc a b \<le> 0)"
    using assms(2) by (auto simp: transp_def item_before_def Let_def split: if_splits)
  ultimately show "sorted_wrt (\<lambda>a b. item_before lc a b \<le> 0) (ordered_items lc section' items)"
    "mset (ordered_items lc section' items) = mset (filter (\<lambda>x. section' = [] \<or> it_section x = section') (map snd items))"
    unfolding ordered_items_def
    using fold_insert_item(1) [of "item_before lc" "[]"] fold_insert_item(2) [of "item_before lc" _ "[]"] by simp_all
qed

end
