(* ===== verification/Nm_Utils.thy ===== *)
theory Nm_Utils
  imports Base64 JS_Value
begin

text \<open>
  The conversions of \<open>pkg/networkmanager/utils.js\<close> between the texts of addresses, prefixes and metrics and what
  NetworkManager has on the bus: numbers in the byte order of the machine for IPv4, encoded bytes for IPv6.
\<close>

section \<open>Texts of numbers\<close>

datatype nm_error = InvalidPrefix string | InvalidMetric string | InvalidAddress string | InvalidNetmask string

text \<open>The test \<open>/^[0-9]+$/\<close>, and \<open>parseInt(s, 10)\<close> of a text that passes it when trimmed.\<close>

definition all_digits :: "string \<Rightarrow> bool" where
  "all_digits s \<longleftrightarrow> s \<noteq> [] \<and> list_all is_digit s"

definition parse_dec :: "string \<Rightarrow> nat" where
  "parse_dec s = digits_val (takeWhile is_digit (dropWhile white s))"

definition ip_prefix_to_text :: "nat \<Rightarrow> string" where
  "ip_prefix_to_text num = nat_str num"

definition ip_prefix_from_text :: "string \<Rightarrow> nm_error + nat" where
  "ip_prefix_from_text s = (if all_digits (trim s) then Inr (parse_dec s) else Inl (InvalidPrefix s))"

definition ip_metric_to_text :: "nat \<Rightarrow> string" where
  "ip_metric_to_text num = nat_str num"

definition ip_metric_from_text :: "string \<Rightarrow> nm_error + nat" where
  "ip_metric_from_text s =
     (if s = [] then Inr 0 else if all_digits (trim s) then Inr (parse_dec s) else Inl (InvalidMetric s))"

section \<open>IPv4\<close>

text \<open>The byte order is that of the machine NetworkManager runs on; anything but "be" is little endian.\<close>

text \<open>The loop takes the low bytes off; it fills the array from its end or from its start.\<close>

fun low_bytes :: "nat \<Rightarrow> u32 \<Rightarrow> u32 list" where
  "low_bytes 0 num = []"
| "low_bytes (Suc n) num = (num AND 0xFF) # low_bytes n (drop_bit 8 num)"

definition bytes_from_nm32 :: "string \<Rightarrow> u32 \<Rightarrow> nat list" where
  "bytes_from_nm32 byteorder num =
     (let bytes = map unat (low_bytes 4 num) in if byteorder = ''be'' then rev bytes else bytes)"

definition ip4_to_text :: "string \<Rightarrow> u32 \<Rightarrow> bool \<Rightarrow> string" where
  "ip4_to_text byteorder num zero_is_empty =
     (if num = 0 \<and> zero_is_empty then [] else join ''.'' (map nat_str (bytes_from_nm32 byteorder num)))"

definition part_value :: "string \<Rightarrow> nat option" where
  "part_value s = (if all_digits (trim s) then Some (parse_dec s) else None)"

fun shift_bytes :: "nat \<Rightarrow> nat list \<Rightarrow> nat option" where
  "shift_bytes num [] = Some num"
| "shift_bytes num (b # bs) = (if b > 0xFF then None else shift_bytes (0x100 * num + b) bs)"

fun opt_all :: "'a option list \<Rightarrow> 'a list option" where
  "opt_all [] = Some []"
| "opt_all (x # xs) = (case x of None \<Rightarrow> None | Some y \<Rightarrow> map_option (Cons y) (opt_all xs))"

definition ip4_from_text :: "string \<Rightarrow> string \<Rightarrow> bool \<Rightarrow> nm_error + nat" where
  "ip4_from_text byteorder s empty_is_zero =
     (if s = [] \<and> empty_is_zero then Inr 0
      else
        let parts = split_on (CHR ''.'') s
        in if length parts \<noteq> 4 then Inl (InvalidAddress s)
           else case opt_all (map part_value parts) of
                  None \<Rightarrow> Inl (InvalidAddress s)
                | Some bytes \<Rightarrow>
                    (case shift_bytes 0 (if byteorder = ''be'' then bytes else rev bytes) of
                       None \<Rightarrow> Inl (InvalidAddress s) | Some num \<Rightarrow> Inr num))"

section \<open>Netmasks\<close>

text \<open>
  \<open>text_to_prefix_bits\<close> is an object, so what every object inherits is found in it too; such a property is no number
  (\<open>None\<close>), and adding it to the prefix makes a text of it.
\<close>

definition inherited_names :: "string list" where
  "inherited_names = [''constructor'', ''toString'', ''toLocaleString'', ''valueOf'', ''hasOwnProperty'', ''isPrototypeOf'',
     ''propertyIsEnumerable'', ''__proto__'', ''__defineGetter__'', ''__defineSetter__'', ''__lookupGetter__'', ''__lookupSetter__'']"

definition text_to_prefix_bits :: "(string \<times> nat) list" where
  "text_to_prefix_bits = [(''255'', 8), (''254'', 7), (''252'', 6), (''248'', 5), (''240'', 4), (''224'', 3), (''192'', 2), (''128'', 1), (''0'', 0)]"

definition prefix_bits :: "string \<Rightarrow> nat option option" where
  "prefix_bits s =
     (case map_of text_to_prefix_bits s of
        Some p \<Rightarrow> Some (Some p) | None \<Rightarrow> if s \<in> set inherited_names then Some None else None)"

text \<open>The two loops: the parts up to the first that is not all ones, then parts that must be zeros.\<close>

fun prefix_loop :: "nat option \<Rightarrow> string list \<Rightarrow> nat option option" where
  "prefix_loop acc [] = Some acc"
| "prefix_loop acc (s # rest) =
     (case prefix_bits (trim s) of
        None \<Rightarrow> None
      | Some None \<Rightarrow> prefix_loop None rest
      | Some (Some p) \<Rightarrow>
          let acc = map_option (\<lambda>n. n + p) acc
          in if p < 8
             then (if list_all (\<lambda>s. trim s \<noteq> [] \<and> set (trim s) \<subseteq> {CHR ''0''}) rest then Some acc else None)
             else prefix_loop acc rest)"

definition ip4_prefix_from_text :: "string \<Rightarrow> nm_error + nat option" where
  "ip4_prefix_from_text s =
     (if all_digits (trim s) then Inr (Some (parse_dec s))
      else
        let parts = split_on (CHR ''.'') s
        in if length parts \<noteq> 4 then Inl (InvalidNetmask s)
           else case prefix_loop (Some 0) parts of None \<Rightarrow> Inl (InvalidNetmask s) | Some r \<Rightarrow> Inr r)"

section \<open>IPv6\<close>

definition hex_char :: "nat \<Rightarrow> char" where
  "hex_char n = char_of (if n < 10 then 48 + n else 87 + n)"

text \<open>\<open>toString(16)\<close>.\<close>

fun hex_str :: "nat \<Rightarrow> string" where
  "hex_str n = (if n < 16 then [hex_char n] else hex_str (n div 16) @ [hex_char (n mod 16)])"

declare hex_str.simps [simp del]

text \<open>A byte that is not there makes the number a \<open>NaN\<close>.\<close>

definition ip6_part :: "byte list \<Rightarrow> nat \<Rightarrow> string" where
  "ip6_part bytes i =
     (if 2 * i + 1 < length bytes then hex_str (unat (bytes ! (2 * i)) * 256 + unat (bytes ! (2 * i + 1))) else ''NaN'')"

text \<open>\<open>None\<close> when the data does not decode.\<close>

definition ip6_to_text :: "string \<Rightarrow> bool \<Rightarrow> string option" where
  "ip6_to_text data zero_is_empty =
     (case base64_decode data of
        None \<Rightarrow> None
      | Some bytes \<Rightarrow>
          let result = join '':'' (map (ip6_part bytes) [0..<8])
          in Some (if result = ''0:0:0:0:0:0:0:0'' \<and> zero_is_empty then [] else result))"

definition is_hex :: "char \<Rightarrow> bool" where
  "is_hex c \<longleftrightarrow> is_digit c \<or> of_char c \<in> {97..102 :: nat} \<or> of_char c \<in> {65..70 :: nat}"

definition hex_value :: "char \<Rightarrow> nat" where
  "hex_value c = (let n = of_char c in if n < 58 then n - 48 else if n < 71 then n - 55 else n - 87)"

definition parse_hex :: "string \<Rightarrow> nat" where
  "parse_hex s = foldl (\<lambda>acc c. 16 * acc + hex_value c) 0 (takeWhile is_hex (dropWhile white s))"

text \<open>
  The loop over the parts, with the places \<open>i\<close> and \<open>j\<close> of the source.  The array of bytes begins as zeros: places that
  are never written are read as zeros by the encoder.
\<close>

fun ip6_loop :: "nat \<Rightarrow> string list \<Rightarrow> nat \<Rightarrow> nat \<Rightarrow> bool \<Rightarrow> byte list \<Rightarrow> (byte list \<times> nat) option" where
  "ip6_loop len [] i j empty_seen bytes = Some (bytes, j)"
| "ip6_loop len (part # parts) i j empty_seen bytes =
     (if part = [] then
        (if empty_seen then None
         else ip6_loop len parts (i + 1) (max j (i + (8 - len)) + 1) True bytes)
      else if trim part = [] \<or> \<not> list_all is_hex (trim part) then None
      else
        let n = parse_hex part
        in if n > 0xFFFF then None
           else ip6_loop len parts (i + 1) (j + 1) empty_seen
                  (bytes[2 * j := of_nat (n div 256), 2 * j + 1 := of_nat (n mod 256)]))"

definition fill_ends :: "string list \<Rightarrow> string list" where
  "fill_ends parts =
     (let parts = (if parts ! 0 = [] then parts[0 := ''0''] else parts);
          n = length parts - 1
      in if parts ! n = [] then parts[n := ''0''] else parts)"

definition ip6_from_text :: "string \<Rightarrow> bool \<Rightarrow> nm_error + string" where
  "ip6_from_text s empty_is_zero =
     (if s = [] \<and> empty_is_zero then Inr (base64_encode (replicate 16 0))
      else
        let parts = split_on (CHR '':'') s
        in if length parts > 8 then Inl (InvalidAddress s)
           else case ip6_loop (length parts) (fill_ends parts) 0 0 False (replicate 16 0) of
                  None \<Rightarrow> Inl (InvalidAddress s)
                | Some (bytes, j) \<Rightarrow> if j \<noteq> 8 then Inl (InvalidAddress s) else Inr (base64_encode bytes))"


section \<open>Texts of numbers read back\<close>

lemma digit_not_space: "is_digit c \<Longrightarrow> \<not> white c"
  by (auto simp: is_digit_def white_def)

lemma hex_not_space: "is_hex c \<Longrightarrow> \<not> white c"
  by (auto simp: is_hex_def is_digit_def white_def)

lemma trim_fresh: "\<forall>c \<in> set s. \<not> white c \<Longrightarrow> trim s = s"
  unfolding trim_def by (metis dropWhile_eq_self_iff hd_in_set rev_rev_ident set_rev)

lemma drop_space_fresh: "\<forall>c \<in> set s. \<not> white c \<Longrightarrow> dropWhile white s = s"
  by (metis dropWhile_eq_self_iff hd_in_set)

lemma nat_str_all_digits: "\<forall>c \<in> set (nat_str n). is_digit c"
  using nat_str_digits [of n] by (simp add: list_all_iff)

lemma nat_str_trim [simp]: "trim (nat_str n) = nat_str n" "all_digits (nat_str n)" "parse_dec (nat_str n) = n"
proof -
  have fresh: "\<forall>c \<in> set (nat_str n). \<not> white c" using nat_str_all_digits digit_not_space by blast
  then show "trim (nat_str n) = nat_str n" by (rule trim_fresh)
  show "all_digits (nat_str n)" using nat_str_digits [of n] by (simp add: all_digits_def)
  show "parse_dec (nat_str n) = n"
    using drop_space_fresh [OF fresh] nat_str_digits [of n] by (simp add: parse_dec_def takeWhile_eq_all_conv [THEN iffD2] list_all_iff)
qed

lemma part_value_nat_str [simp]: "part_value (nat_str n) = Some n"
  by (simp add: part_value_def)

lemma opt_all_parts: "opt_all (map part_value (map nat_str ns)) = Some ns"
  by (induction ns) auto

lemma split_numbers: "ns \<noteq> [] \<Longrightarrow> split_on (CHR ''.'') (join ''.'' (map nat_str ns)) = map nat_str ns"
  by (intro split_on_join) (auto simp: is_digit_def dest!: nat_str_all_digits [THEN bspec])

lemma low_bytes_unat: "map unat (low_bytes n num) = map (\<lambda>i. unat num div 256 ^ i mod 256) [0..<n]"
proof (induction n arbitrary: num)
  case (Suc n)
  have "unat (num AND 0xFF) = unat num mod 256"
    by (simp add: and_255 take_bit_eq_mod unat_mod_distrib)
  moreover have "unat (drop_bit 8 num) = unat num div 256"
    unfolding unat_drop_bit_eq by (simp add: drop_bit_eq_div)
  ultimately show ?case
    unfolding low_bytes.simps list.map Suc.IH upt_rec [of 0 "Suc n"]
    by (simp add: map_Suc_upt [symmetric] div_mult2_eq o_def del: upt_Suc)
qed simp


section \<open>IPv4 addresses\<close>

lemma bytes_value:
  assumes "n < 2 ^ 32"
  shows "shift_bytes 0 (rev (map (\<lambda>i. n div 256 ^ i mod 256) [0..<4])) = Some n"
proof -
  define a where "a = n div 256"
  define b where "b = a div 256"
  define c where "c = b div 256"
  have "256 * a + n mod 256 = n" "256 * b + a mod 256 = a" "256 * c + b mod 256 = b"
    by (simp_all add: a_def b_def c_def)
  moreover have "c mod 256 = c" using assms by (simp add: a_def b_def c_def)
  ultimately have "256 * (256 * (256 * (c mod 256) + b mod 256) + a mod 256) + n mod 256 = n" by simp
  moreover have "map (\<lambda>i. n div 256 ^ i mod 256) [0..<4] = [n mod 256, a mod 256, b mod 256, c mod 256]"
    by (simp add: a_def b_def c_def upt_rec numeral_3_eq_3 flip: div_mult2_eq)
  ultimately show ?thesis
    by (simp add: less_imp_le_nat leD not_less)
qed

lemma ip4_from_bytes:
  assumes "length bs = 4"
  shows "ip4_from_text byteorder (join ''.'' (map nat_str bs)) e =
    (case shift_bytes 0 (if byteorder = ''be'' then bs else rev bs) of
       None \<Rightarrow> Inl (InvalidAddress (join ''.'' (map nat_str bs))) | Some num \<Rightarrow> Inr num)"
proof -
  have "bs \<noteq> []" using assms by auto
  moreover from this have "join ''.'' (map nat_str bs) \<noteq> []"
    by (cases bs; cases "tl bs") auto
  ultimately show ?thesis
    using assms by (simp add: ip4_from_text_def split_numbers opt_all_parts del: map_map split del: if_split)
qed

text \<open>The text of an address is the address again, in either byte order, and with the empty text for zero where both sides
  agree on it.
\<close>

theorem ip4_roundtrip: "ip4_from_text byteorder (ip4_to_text byteorder num z) z = Inr (unat num)"
proof (cases "num = 0 \<and> z")
  case False
  have bytes: "length (bytes_from_nm32 byteorder num) = 4"
    by (simp add: bytes_from_nm32_def Let_def low_bytes_unat del: upt_conv_Cons)
  have "(if byteorder = ''be'' then bytes_from_nm32 byteorder num else rev (bytes_from_nm32 byteorder num)) =
    rev (map (\<lambda>i. unat num div 256 ^ i mod 256) [0..<4])"
    by (simp add: bytes_from_nm32_def Let_def low_bytes_unat)
  then show ?thesis
    using False ip4_from_bytes [OF bytes, of byteorder z] bytes_value [of "unat num"] unsigned_less [of num, where 'a = nat]
    by (auto simp: ip4_to_text_def)
qed (simp add: ip4_to_text_def ip4_from_text_def)


section \<open>Netmasks\<close>

definition netmask :: "nat \<Rightarrow> u32" where
  "netmask n = NOT (mask (32 - n))"

definition byte_table :: "(nat \<times> nat) list" where
  "byte_table = [(255, 8), (254, 7), (252, 6), (248, 5), (240, 4), (224, 3), (192, 2), (128, 1), (0, 0)]"

definition byte_bits :: "nat \<Rightarrow> nat option" where
  "byte_bits b = map_of byte_table b"

lemma not_inherited: "nat_str b \<notin> set inherited_names"
proof
  assume "nat_str b \<in> set inherited_names"
  moreover have "\<forall>s \<in> set inherited_names. \<not> all_digits s" by code_simp
  ultimately show False using nat_str_trim(2) by blast
qed

lemma prefix_bits_nat_str: "prefix_bits (nat_str b) = map_option Some (byte_bits b)"
proof -
  have keys: "map_of (map (\<lambda>(b, p). (nat_str b, p)) table) (nat_str b) = map_of table b" for table :: "(nat \<times> nat) list"
    by (induction table) (auto simp: nat_str_inj)
  have texts: "text_to_prefix_bits = map (\<lambda>(b, p). (nat_str b, p)) byte_table" by code_simp
  have "map_of text_to_prefix_bits (nat_str b) = byte_bits b"
    unfolding texts byte_bits_def by (rule keys)
  then show ?thesis
    using not_inherited [of b] by (simp add: prefix_bits_def split: option.split)
qed

lemma zeros_nat_str: "set (nat_str b) \<subseteq> {CHR ''0''} \<longleftrightarrow> b = 0"
proof
  assume zeros: "set (nat_str b) \<subseteq> {CHR ''0''}"
  have "set s \<subseteq> {CHR ''0''} \<Longrightarrow> digits_val s = 0" for s
    by (induction s rule: rev_induct) (auto simp: digits_val_snoc digit_val_def digits_val_def [of "[]"])
  then show "b = 0" using zeros nat_str_digits [of b] by metis
next
  assume "b = 0"
  moreover have "nat_str 0 = ''0''" by code_simp
  ultimately show "set (nat_str b) \<subseteq> {CHR ''0''}" by simp
qed

text \<open>The loop on numbers.\<close>

fun mask_bits :: "nat \<Rightarrow> nat list \<Rightarrow> nat option" where
  "mask_bits acc [] = Some acc"
| "mask_bits acc (b # bs) =
     (case byte_bits b of
        None \<Rightarrow> None
      | Some p \<Rightarrow> if p < 8 then (if list_all (\<lambda>b. b = 0) bs then Some (acc + p) else None) else mask_bits (acc + p) bs)"

lemma prefix_loop_numbers: "prefix_loop (Some acc) (map nat_str bs) = map_option Some (mask_bits acc bs)"
  by (induction bs arbitrary: acc) (auto simp: prefix_bits_nat_str zeros_nat_str list_all_iff Let_def split: option.split)

definition mask_byte :: "nat \<Rightarrow> nat \<Rightarrow> nat" where
  "mask_byte n i = 256 - 2 ^ (8 - min 8 (n - 8 * i))"

lemma mask_bits_tail:
  assumes "mask_bits (8 * k) bs = Some n"
  shows "8 * k \<le> n \<and> n \<le> 8 * (k + length bs) \<and> bs = map (\<lambda>i. mask_byte n (k + i)) [0..<length bs]"
  using assms
proof (induction bs arbitrary: k)
  case (Cons b bs)
  then obtain p where p: "byte_bits b = Some p" by (cases "byte_bits b") auto
  then have "(b, p) \<in> set byte_table" unfolding byte_bits_def by (rule map_of_SomeD)
  then have bp: "p \<le> 8" "b = 256 - 2 ^ (8 - p)" by (auto simp: byte_table_def)
  show ?case
  proof (cases "p < 8")
    case True
    with Cons.prems p have n: "n = 8 * k + p" "list_all (\<lambda>b. b = 0) bs" by (auto split: if_splits)
    then have "mask_byte n (k + i) = (if i = 0 then b else 0)" for i
      using True bp by (auto simp: mask_byte_def)
    moreover have "bs = map (\<lambda>i. 0) [0..<length bs]"
      using n(2) by (intro nth_equalityI) (auto simp: list_all_length)
    ultimately show ?thesis
      using n(1) True by (simp add: upt_rec [of 0 "Suc _"] map_Suc_upt [symmetric] o_def del: upt_Suc)
  next
    case False
    with bp Cons.prems p have "mask_bits (8 * (k + 1)) bs = Some n" "p = 8" "b = 255"
      by (auto simp: add.commute)
    moreover from this have "8 * k + 8 \<le> n" "mask_byte n k = 255"
      using Cons.IH [of "k + 1"] by (auto simp: mask_byte_def)
    ultimately show ?thesis
      using Cons.IH [of "k + 1"] by (auto simp: upt_rec [of 0 "Suc _"] map_Suc_upt [symmetric] o_def simp del: upt_Suc)
  qed
qed simp


lemma netmask_bytes: "n \<le> 32 \<Longrightarrow> bytes_from_nm32 ''be'' (netmask n) = map (mask_byte n) [0..<4]"
proof -
  have "\<forall>n \<in> set [0..<33]. bytes_from_nm32 ''be'' (netmask n) = map (mask_byte n) [0..<4]" by code_simp
  then show "n \<le> 32 \<Longrightarrow> ?thesis" by (simp del: upt_conv_Cons)
qed

lemma netmask_bits: "n \<le> 32 \<Longrightarrow> mask_bits 0 (bytes_from_nm32 ''be'' (netmask n)) = Some n"
proof -
  have "\<forall>n \<in> set [0..<33]. mask_bits 0 (bytes_from_nm32 ''be'' (netmask n)) = Some n" by code_simp
  then show "n \<le> 32 \<Longrightarrow> ?thesis" by simp
qed

lemma bytes_inj: "bytes_from_nm32 ''be'' a = bytes_from_nm32 ''be'' b \<Longrightarrow> a = b"
proof -
  assume "bytes_from_nm32 ''be'' a = bytes_from_nm32 ''be'' b"
  then have "rev (map (\<lambda>i. unat a div 256 ^ i mod 256) [0..<4]) = rev (map (\<lambda>i. unat b div 256 ^ i mod 256) [0..<4])"
    by (simp only: bytes_from_nm32_def Let_def low_bytes_unat if_True simp_thms)
  then have "shift_bytes 0 (rev (map (\<lambda>i. unat a div 256 ^ i mod 256) [0..<4])) = shift_bytes 0 (rev (map (\<lambda>i. unat b div 256 ^ i mod 256) [0..<4]))"
    by (simp only:)
  then have "Some (unat a) = Some (unat b)"
    using bytes_value [of "unat a"] bytes_value [of "unat b"] unsigned_less [of a, where 'a = nat] unsigned_less [of b, where 'a = nat]
    by simp
  then show "a = b" by (simp add: word_unat_eq_iff)
qed

text \<open>C34: A netmask is accepted exactly when its bits are ones followed by zeros, and the prefix it gives is the number of the
  ones; every other dotted address is refused.
\<close>

theorem netmask_prefix:
  "ip4_prefix_from_text (ip4_to_text ''be'' num False) = Inr (Some n) \<longleftrightarrow> n \<le> 32 \<and> num = netmask n"
proof -
  define bs where "bs = bytes_from_nm32 ''be'' num"
  have bs: "length bs = 4" by (simp add: bs_def bytes_from_nm32_def Let_def low_bytes_unat del: upt_conv_Cons)
  let ?s = "join ''.'' (map nat_str bs)"
  obtain a b rest where "bs = a # b # rest"
    using bs by (cases bs; cases "tl bs") auto
  then have "CHR ''.'' \<in> set ?s" by simp
  then have digits: "\<not> list_all is_digit ?s"
    by (auto simp: list_all_iff is_digit_def intro!: bexI [of _ "CHR ''.''"])
  have "\<not> white x" if "x \<in> set ?s" for x
    using set_join [OF that] nat_str_all_digits digit_not_space by (auto simp: white_def)
  then have "trim ?s = ?s" by (intro trim_fresh) blast
  then have "ip4_prefix_from_text ?s = (case mask_bits 0 bs of None \<Rightarrow> Inl (InvalidNetmask ?s) | Some n \<Rightarrow> Inr (Some n))"
    using split_numbers [of bs] prefix_loop_numbers [of 0 bs] bs digits
    by (cases "bs = []") (auto simp: ip4_prefix_from_text_def all_digits_def Let_def split: option.split)
  moreover have "mask_bits 0 bs = Some n \<longleftrightarrow> n \<le> 32 \<and> num = netmask n"
  proof
    assume "mask_bits 0 bs = Some n"
    then have "n \<le> 32 \<and> bs = map (mask_byte n) [0..<4]"
      using mask_bits_tail [of 0 bs n] bs by (simp del: upt_conv_Cons)
    then show "n \<le> 32 \<and> num = netmask n"
      using netmask_bytes bs_def bytes_inj by metis
  next
    assume "n \<le> 32 \<and> num = netmask n"
    then show "mask_bits 0 bs = Some n"
      using netmask_bits bs_def by metis
  qed
  ultimately show ?thesis
    by (auto simp: ip4_to_text_def bs_def split: option.split)
qed


section \<open>IPv6 addresses\<close>

lemma hex_char_ok: "n < 16 \<Longrightarrow> is_hex (hex_char n) \<and> hex_value (hex_char n) = n"
  by (auto simp: is_hex_def is_digit_def hex_char_def hex_value_def take_bit_eq_mod Let_def)

lemma hex_str_ok:
  "list_all is_hex (hex_str n) \<and> hex_str n \<noteq> [] \<and> foldl (\<lambda>acc c. 16 * acc + hex_value c) 0 (hex_str n) = n"
proof (induction n rule: hex_str.induct)
  case (1 n)
  show ?case
  proof (cases "n < 16")
    case True
    then show ?thesis
      using hex_char_ok [OF True] by (subst (1 2 3) hex_str.simps) simp
  next
    case False
    from 1 [OF False] hex_char_ok [of "n mod 16"] False show ?thesis
      by (subst (1 2 3) hex_str.simps) simp
  qed
qed

lemma hex_str_chars: "c \<in> set (hex_str n) \<Longrightarrow> is_hex c"
  using hex_str_ok [of n] by (simp add: list_all_iff)

lemma hex_str_trim [simp]:
  "trim (hex_str n) = hex_str n" "parse_hex (hex_str n) = n" "hex_str n \<noteq> []" "list_all is_hex (hex_str n)"
proof -
  have fresh: "\<forall>c \<in> set (hex_str n). \<not> white c" using hex_str_chars hex_not_space by blast
  then show "trim (hex_str n) = hex_str n" by (rule trim_fresh)
  show "parse_hex (hex_str n) = n"
    using drop_space_fresh [OF fresh] hex_str_ok [of n] by (simp add: parse_hex_def takeWhile_eq_all_conv [THEN iffD2] list_all_iff)
qed (use hex_str_ok in auto)

lemma hex_str_inj: "hex_str m = hex_str n \<longleftrightarrow> m = n"
  by (metis hex_str_trim(2))

lemma no_colon: "CHR '':'' \<notin> set (hex_str n)"
  using hex_str_chars [of "CHR '':''" n] by (auto simp: is_hex_def is_digit_def)

abbreviation pair_value :: "byte list \<Rightarrow> nat \<Rightarrow> nat" where
  "pair_value bs i \<equiv> unat (bs ! (2 * i)) * 256 + unat (bs ! (2 * i + 1))"

lemma pair_value_bound: "pair_value bs i < 65536"
  using unsigned_less [of "bs ! (2 * i)", where 'a = nat] unsigned_less [of "bs ! (2 * i + 1)", where 'a = nat] by simp

lemma ip6_parts: "length bs = 16 \<Longrightarrow> map (ip6_part bs) [0..<8] = map (\<lambda>i. hex_str (pair_value bs i)) [0..<8]"
  by (simp add: ip6_part_def del: upt_conv_Cons)

lemma place_pair:
  assumes "length bs = 16" "k < 8"
  shows "(take (2 * k) bs @ replicate (16 - 2 * k) 0)[2 * k := bs ! (2 * k), Suc (2 * k) := bs ! Suc (2 * k)] =
    take (2 * Suc k) bs @ replicate (16 - 2 * Suc k) 0"
  using assms by (intro nth_equalityI) (auto simp: nth_append nth_list_update)

lemma ip6_loop_parts:
  assumes "length bs = 16" "k \<le> 8"
  shows "ip6_loop 8 (map (\<lambda>i. hex_str (pair_value bs i)) [k..<8]) k k False (take (2 * k) bs @ replicate (16 - 2 * k) 0) = Some (bs, 8)"
  using assms(2)
proof (induction "8 - k" arbitrary: k)
  case 0
  then show ?case using assms(1) by simp
next
  case (Suc m)
  then have k: "k < 8" "[k..<8] = k # [Suc k..<8]" by (simp_all add: upt_conv_Cons)
  have "of_nat (pair_value bs k div 256) = bs ! (2 * k)" "of_nat (pair_value bs k mod 256) = bs ! Suc (2 * k)"
    using unsigned_less [of "bs ! Suc (2 * k)", where 'a = nat] by simp_all
  moreover have "\<not> 65535 < pair_value bs k" using pair_value_bound [of bs k] by simp
  ultimately show ?case
    using Suc.hyps(1) [of "Suc k"] Suc.hyps(2) place_pair [OF assms(1) k(1)] k by simp
qed

lemma ip6_text_back:
  assumes "length bs = 16"
  shows "\<exists>s. ip6_to_text (base64_encode bs) z = Some s \<and> ip6_from_text s z = Inr (base64_encode bs)"
proof -
  let ?parts = "map (\<lambda>i. hex_str (pair_value bs i)) [0..<8]"
  let ?s = "join '':'' ?parts"
  have "?parts \<noteq> []" "length ?parts = 8" by (simp_all del: upt_conv_Cons)
  then have split: "split_on (CHR '':'') ?s = ?parts"
    using no_colon by (intro split_on_join) auto
  have zeros: "bs = replicate 16 0" if "?s = ''0:0:0:0:0:0:0:0''"
  proof -
    have "split_on (CHR '':'') ''0:0:0:0:0:0:0:0'' = replicate 8 ''0''" by code_simp
    moreover have "hex_str 0 = ''0''" by code_simp
    ultimately have "?parts = replicate 8 (hex_str 0)" using split that by simp
    then have "\<forall>i < 8. hex_str (pair_value bs i) = hex_str 0" by (simp add: list_eq_iff_nth_eq del: upt_conv_Cons)
    then have z: "\<forall>i < 8. bs ! (2 * i) = 0 \<and> bs ! (2 * i + 1) = 0" by (simp add: hex_str_inj unat_eq_0)
    have "bs ! j = 0" if "j < 16" for j
      using z [rule_format, of "j div 2"] that by (cases "even j") (auto elim!: evenE oddE)
    then show ?thesis using assms by (intro nth_equalityI) auto
  qed
  have zero_text: "ip6_from_text [] True = Inr (base64_encode (replicate 16 0))" by (simp add: ip6_from_text_def)
  have to: "ip6_to_text (base64_encode bs) z = Some (if ?s = ''0:0:0:0:0:0:0:0'' \<and> z then [] else ?s)"
    unfolding ip6_to_text_def decode_encode option.case Let_def ip6_parts [OF assms] ..
  have "fill_ends ?parts = ?parts" by (simp add: fill_ends_def Let_def del: upt_conv_Cons)
  then have "ip6_from_text ?s z = Inr (base64_encode bs)" if "\<not> (?s = [] \<and> z)"
    using that ip6_loop_parts [OF assms, of 0] \<open>length ?parts = 8\<close>
    unfolding ip6_from_text_def split Let_def by (auto simp del: upt_conv_Cons)
  moreover have "?s \<noteq> []"
  proof
    assume "?s = []"
    then have "length (split_on (CHR '':'') ?s) = 1" by (simp only: split_on.simps list.size)
    then show False unfolding split by (simp del: upt_conv_Cons)
  qed
  ultimately have "ip6_from_text (if ?s = ''0:0:0:0:0:0:0:0'' \<and> z then [] else ?s) z = Inr (base64_encode bs)"
    using zeros zero_text by (cases "?s = ''0:0:0:0:0:0:0:0'' \<and> z") simp_all
  with to show ?thesis by blast
qed

text \<open>C33: The text of an IPv6 address is the address again, encoded as it was; the empty text stands for the zero address where
  both sides agree on it.
\<close>

theorem ip6_roundtrip:
  assumes "length bs = 16"
  shows "\<exists>s. ip6_to_text (base64_encode bs) z = Some s \<and> ip6_from_text s z = Inr (base64_encode bs)"
  using assms by (rule ip6_text_back)

theorem ip6_roundtrip_witness:
  "\<exists>s. ip6_to_text (base64_encode (replicate 15 0 @ [1])) True = Some s \<and> ip6_from_text s True = Inr (base64_encode (replicate 15 0 @ [1]))"
  by (rule ip6_roundtrip) simp


text \<open>A name that every object has passes as a part of a netmask, and the prefix is then not a number.\<close>

lemma inherited_netmask: "ip4_prefix_from_text ''toString.0.0.0'' = Inr None"
  by code_simp

end
