(* ===== verification/Nm_Settings.thy ===== *)
theory Nm_Settings
  imports Nm_Utils JSON_Codec
begin

text \<open>
  The settings of a connection, of \<open>pkg/networkmanager/interfaces.js\<close>: from what NetworkManager sends, a dictionary of
  sections with variants, to the settings the pages work with (\<open>settings_from_nm\<close>), and back (\<open>settings_to_nm\<close>).
  Addresses go through the texts of \<open>pkg/networkmanager/utils.js\<close>.  The byte order of the machine and the translation of
  "Unknown" are arguments.
\<close>

section \<open>Addresses and routes\<close>

text \<open>
  What a conversion can fail with: an error of the texts, or values that are not of the types of NetworkManager, on which
  the code throws or reads \<open>undefined\<close>.
\<close>

datatype settings_error = Invalid nm_error | Malformed

fun each_ok :: "('e + 'a) list \<Rightarrow> 'e + 'a list" where
  "each_ok [] = Inr []"
| "each_ok (x # xs) = (case x of Inl e \<Rightarrow> Inl e | Inr y \<Rightarrow> (case each_ok xs of Inl e \<Rightarrow> Inl e | Inr ys \<Rightarrow> Inr (y # ys)))"

definition lift :: "('a \<Rightarrow> js) \<Rightarrow> nm_error + 'a \<Rightarrow> settings_error + js" where
  "lift f x = (case x of Inl e \<Rightarrow> Inl (Invalid e) | Inr v \<Rightarrow> Inr (f v))"

definition nat_num :: "nat \<Rightarrow> js" where "nat_num n = JNum (int n)"

text \<open>A prefix that is not a number is passed on as such; it has no value of its own here.\<close>

definition prefix_num :: "nat option \<Rightarrow> js" where
  "prefix_num p = (case p of None \<Rightarrow> JNull | Some n \<Rightarrow> nat_num n)"

definition ip4_text :: "string \<Rightarrow> js \<Rightarrow> bool \<Rightarrow> settings_error + js" where
  "ip4_text bo v z = (case v of JNum n \<Rightarrow> Inr (JStr (ip4_to_text bo (word_of_int n) z)) | _ \<Rightarrow> Inl Malformed)"

definition ip6_text :: "js \<Rightarrow> bool \<Rightarrow> settings_error + js" where
  "ip6_text v z = (case v of JStr s \<Rightarrow> (case ip6_to_text s z of None \<Rightarrow> Inl Malformed | Some t \<Rightarrow> Inr (JStr t)) | _ \<Rightarrow> Inl Malformed)"

definition num_text :: "(nat \<Rightarrow> string) \<Rightarrow> js \<Rightarrow> settings_error + js" where
  "num_text f v = (case v of JNum n \<Rightarrow> Inr (JStr (f (nat n))) | _ \<Rightarrow> Inl Malformed)"

definition of_text :: "(string \<Rightarrow> settings_error + js) \<Rightarrow> js \<Rightarrow> settings_error + js" where
  "of_text f v = (case v of JStr s \<Rightarrow> f s | _ \<Rightarrow> Inl Malformed)"

definition ip4_num :: "string \<Rightarrow> bool \<Rightarrow> js \<Rightarrow> settings_error + js" where
  "ip4_num bo z = of_text (\<lambda>s. lift nat_num (ip4_from_text bo s z))"

definition ip6_bytes :: "bool \<Rightarrow> js \<Rightarrow> settings_error + js" where
  "ip6_bytes z = of_text (\<lambda>s. lift JStr (ip6_from_text s z))"

definition metric_num :: "js \<Rightarrow> settings_error + js" where
  "metric_num = of_text (\<lambda>s. lift nat_num (ip_metric_from_text s))"

text \<open>An array of what each element becomes.\<close>

definition tuple :: "(settings_error + js) list \<Rightarrow> settings_error + js" where
  "tuple xs = (case each_ok xs of Inl e \<Rightarrow> Inl e | Inr ys \<Rightarrow> Inr (JArr ys))"

definition ip4_address_from_nm :: "string \<Rightarrow> js \<Rightarrow> settings_error + js" where
  "ip4_address_from_nm bo addr =
     (case addr of JArr (a # p # g # _) \<Rightarrow> tuple [ip4_text bo a False, num_text ip_prefix_to_text p, ip4_text bo g True] | _ \<Rightarrow> Inl Malformed)"

definition ip4_address_to_nm :: "string \<Rightarrow> js \<Rightarrow> settings_error + js" where
  "ip4_address_to_nm bo addr =
     (case addr of
        JArr (a # p # g # _) \<Rightarrow> tuple [ip4_num bo False a, of_text (\<lambda>s. lift prefix_num (ip4_prefix_from_text s)) p, ip4_num bo True g]
      | _ \<Rightarrow> Inl Malformed)"

definition ip4_route_from_nm :: "string \<Rightarrow> js \<Rightarrow> settings_error + js" where
  "ip4_route_from_nm bo addr =
     (case addr of
        JArr (a # p # g # m # _) \<Rightarrow>
          tuple [ip4_text bo a False, num_text ip_prefix_to_text p, ip4_text bo g True, num_text ip_metric_to_text m]
      | _ \<Rightarrow> Inl Malformed)"

definition ip4_route_to_nm :: "string \<Rightarrow> js \<Rightarrow> settings_error + js" where
  "ip4_route_to_nm bo addr =
     (case addr of
        JArr (a # p # g # m # _) \<Rightarrow>
          tuple [ip4_num bo False a, of_text (\<lambda>s. lift prefix_num (ip4_prefix_from_text s)) p, ip4_num bo True g, metric_num m]
      | _ \<Rightarrow> Inl Malformed)"

definition ip6_address_from_nm :: "js \<Rightarrow> settings_error + js" where
  "ip6_address_from_nm addr =
     (case addr of JArr (a # p # g # _) \<Rightarrow> tuple [ip6_text a False, num_text ip_prefix_to_text p, ip6_text g True] | _ \<Rightarrow> Inl Malformed)"

text \<open>\<open>parseInt(addr[1], 10) || 64\<close>.\<close>

definition ip6_prefix_num :: "string \<Rightarrow> js" where
  "ip6_prefix_num s = (case parse_int s of None \<Rightarrow> JNum 64 | Some n \<Rightarrow> if n = 0 then JNum 64 else JNum n)"

definition ip6_address_to_nm :: "js \<Rightarrow> settings_error + js" where
  "ip6_address_to_nm addr =
     (case addr of
        JArr (a # p # g # _) \<Rightarrow> tuple [ip6_bytes False a, of_text (\<lambda>s. Inr (ip6_prefix_num s)) p, ip6_bytes True g]
      | _ \<Rightarrow> Inl Malformed)"

text \<open>The metric is read from the place of the prefix.\<close>

definition ip6_route_from_nm :: "js \<Rightarrow> settings_error + js" where
  "ip6_route_from_nm addr =
     (case addr of
        JArr (a # p # g # _) \<Rightarrow> tuple [ip6_text a False, num_text ip_prefix_to_text p, ip6_text g True, num_text ip_metric_to_text p]
      | _ \<Rightarrow> Inl Malformed)"

definition ip6_route_to_nm :: "js \<Rightarrow> settings_error + js" where
  "ip6_route_to_nm addr =
     (case addr of
        JArr (a # p # g # m # _) \<Rightarrow> tuple [ip6_bytes False a, of_text (\<lambda>s. lift nat_num (ip_prefix_from_text s)) p, ip6_bytes True g, metric_num m]
      | _ \<Rightarrow> Inl Malformed)"

section \<open>settings_from_nm\<close>

type_synonym sections = "(string, options) obj"

definition nm_get :: "sections \<Rightarrow> string \<Rightarrow> string \<Rightarrow> js \<Rightarrow> js" where
  "nm_get settings first second def =
     (case oget settings first of None \<Rightarrow> def | Some section \<Rightarrow> if truthy (opt section second) then fld (opt section second) ''v'' else def)"

text \<open>\<open>get(first, second, []).map(f)\<close>; the index is handed to \<open>f\<close> as well.\<close>

definition map_list :: "(nat \<Rightarrow> js \<Rightarrow> settings_error + js) \<Rightarrow> js \<Rightarrow> settings_error + js" where
  "map_list f v = (case v of JArr xs \<Rightarrow> tuple (map (\<lambda>i. f i (xs ! i)) [0..<length xs]) | _ \<Rightarrow> Inl Malformed)"

definition get_ip :: "sections \<Rightarrow> string \<Rightarrow> (js \<Rightarrow> settings_error + js) \<Rightarrow> (js \<Rightarrow> settings_error + js) \<Rightarrow>
    (js \<Rightarrow> bool \<Rightarrow> settings_error + js) \<Rightarrow> settings_error + options" where
  "get_ip settings first addr_from_nm route_from_nm ip_to_text =
     (case each_ok [map_list (\<lambda>_. addr_from_nm) (nm_get settings first ''addresses'' (JArr [])),
                    map_list (\<lambda>i v. ip_to_text v (0 < i)) (nm_get settings first ''dns'' (JArr [])),
                    map_list (\<lambda>_. route_from_nm) (nm_get settings first ''routes'' (JArr []))] of
        Inr [addresses, dns, routes] \<Rightarrow>
          Inr [(''method'', nm_get settings first ''method'' (JStr ''auto'')),
               (''ignore_auto_dns'', nm_get settings first ''ignore-auto-dns'' (JBool False)),
               (''ignore_auto_routes'', nm_get settings first ''ignore-auto-routes'' (JBool False)),
               (''addresses'', addresses), (''dns'', dns),
               (''dns_search'', nm_get settings first ''dns-search'' (JArr [])),
               (''routes'', routes)]
      | Inl e \<Rightarrow> Inl e
      | _ \<Rightarrow> Inl Malformed)"

definition json_parse_carefully :: "js \<Rightarrow> js" where
  "json_parse_carefully str = (case json_parse (to_str str) of None \<Rightarrow> JNull | Some v \<Rightarrow> v)"

definition connection_from_nm :: "string \<Rightarrow> sections \<Rightarrow> options" where
  "connection_from_nm unknown settings =
     (let get = nm_get settings ''connection''
      in [(''type'', get ''type'' JUndef), (''uuid'', get ''uuid'' JUndef), (''interface_name'', get ''interface-name'' JUndef),
          (''timestamp'', get ''timestamp'' (JNum 0)), (''id'', get ''id'' (JStr unknown)), (''autoconnect'', get ''autoconnect'' (JBool True)),
          (''autoconnect_slaves'', get ''autoconnect-slaves'' (JNum (-1))), (''slave_type'', get ''slave-type'' JUndef), (''master'', get ''master'' JUndef)])"

definition ips_from_nm :: "string \<Rightarrow> sections \<Rightarrow> settings_error + (string, options) obj" where
  "ips_from_nm bo settings =
     (case oget settings ''connection'' of
        None \<Rightarrow> Inl Malformed
      | Some connection \<Rightarrow>
          if truthy (opt connection ''master'') then Inr []
          else (case get_ip settings ''ipv4'' (ip4_address_from_nm bo) (ip4_route_from_nm bo) (ip4_text bo) of
              Inl e \<Rightarrow> Inl e
            | Inr ipv4 \<Rightarrow>
                (case get_ip settings ''ipv6'' ip6_address_from_nm ip6_route_from_nm ip6_text of
                   Inl e \<Rightarrow> Inl e
                 | Inr ipv6 \<Rightarrow> Inr [(''ipv4'', ipv4), (''ipv6'', ipv6)])))"

definition section_if :: "bool \<Rightarrow> string \<Rightarrow> options \<Rightarrow> (string, options) obj" where
  "section_if c name fields = (if c then [(name, fields)] else [])"

text \<open>The sections of the settings that depend on the kind of the connection.\<close>

definition ethernet_from_nm :: "sections \<Rightarrow> options" where
  "ethernet_from_nm settings =
     [(''mtu'', nm_get settings ''802-3-ethernet'' ''mtu'' JUndef),
      (''assigned_mac_address'', nm_get settings ''802-3-ethernet'' ''assigned-mac-address'' JUndef)]"

definition bond_from_nm :: "sections \<Rightarrow> options" where
  "bond_from_nm settings =
     [(''options'', JObj (extend [] [nm_get settings ''bond'' ''options'' (JObj [])])),
      (''interface_name'', nm_get settings ''bond'' ''interface-name'' JUndef)]"

definition team_from_nm :: "sections \<Rightarrow> options" where
  "team_from_nm settings =
     [(''config'', json_parse_carefully (nm_get settings ''team'' ''config'' (JStr ''{}''))),
      (''interface_name'', nm_get settings ''team'' ''interface-name'' JUndef)]"

definition team_port_from_nm :: "sections \<Rightarrow> options" where
  "team_port_from_nm settings = [(''config'', json_parse_carefully (nm_get settings ''team-port'' ''config'' (JStr ''{}'')))]"

definition bridge_from_nm :: "sections \<Rightarrow> options" where
  "bridge_from_nm settings =
     (let get = nm_get settings ''bridge''
      in [(''interface_name'', get ''interface-name'' JUndef), (''stp'', get ''stp'' (JBool True)),
          (''priority'', get ''priority'' (JNum 32768)), (''forward_delay'', get ''forward-delay'' (JNum 15)),
          (''hello_time'', get ''hello-time'' (JNum 2)), (''max_age'', get ''max-age'' (JNum 20)),
          (''ageing_time'', get ''ageing-time'' (JNum 300))])"

definition bridge_port_from_nm :: "sections \<Rightarrow> options" where
  "bridge_port_from_nm settings =
     (let get = nm_get settings ''bridge-port''
      in [(''priority'', get ''priority'' (JNum 32)), (''path_cost'', get ''path-cost'' (JNum 100)),
          (''hairpin_mode'', get ''hairpin-mode'' (JBool False))])"

definition vlan_from_nm :: "sections \<Rightarrow> options" where
  "vlan_from_nm settings =
     (let get = nm_get settings ''vlan''
      in [(''parent'', get ''parent'' JUndef), (''id'', get ''id'' JUndef), (''interface_name'', get ''interface-name'' JUndef)])"

definition has_section :: "sections \<Rightarrow> string \<Rightarrow> bool" where
  "has_section settings first \<longleftrightarrow> oget settings first \<noteq> None"

definition slave_of :: "sections \<Rightarrow> js" where
  "slave_of settings = nm_get settings ''connection'' ''slave-type'' JUndef"

definition kinds_from_nm :: "sections \<Rightarrow> (string, options) obj" where
  "kinds_from_nm settings =
     section_if (has_section settings ''802-3-ethernet'') ''ethernet'' (ethernet_from_nm settings) @
     section_if (has_section settings ''bond'') ''bond'' (bond_from_nm settings) @
     section_if (has_section settings ''team'') ''team'' (team_from_nm settings) @
     section_if (has_section settings ''team-port'' \<or> slave_of settings = JStr ''team'') ''team_port'' (team_port_from_nm settings) @
     section_if (has_section settings ''bridge'') ''bridge'' (bridge_from_nm settings) @
     section_if (has_section settings ''bridge-port'' \<or> slave_of settings = JStr ''bridge'') ''bridge_port'' (bridge_port_from_nm settings) @
     section_if (has_section settings ''vlan'') ''vlan'' (vlan_from_nm settings)"

definition settings_from_nm :: "string \<Rightarrow> string \<Rightarrow> sections \<Rightarrow> settings_error + (string, options) obj" where
  "settings_from_nm bo unknown settings =
     (case ips_from_nm bo settings of
        Inl e \<Rightarrow> Inl e
      | Inr ips \<Rightarrow> Inr ((''connection'', connection_from_nm unknown settings) # ips @ kinds_from_nm settings))"

section \<open>settings_to_nm\<close>

definition variant :: "string \<Rightarrow> js \<Rightarrow> js" where
  "variant sig v = JObj [(''t'', JStr sig), (''v'', v)]"

definition nm_set :: "string \<Rightarrow> string \<times> string \<times> js \<Rightarrow> sections \<Rightarrow> sections" where
  "nm_set first field result =
     (case field of (second, sig, val) \<Rightarrow>
        let section = (case oget result first of None \<Rightarrow> [] | Some section \<Rightarrow> section)
        in oset result first (if val \<noteq> JUndef then oset section second (variant sig val) else odel section second))"

definition nm_sets :: "string \<Rightarrow> (string \<times> string \<times> js) list \<Rightarrow> sections \<Rightarrow> sections" where
  "nm_sets first fields result = fold (nm_set first) fields result"

definition nm_delete :: "string \<Rightarrow> string \<Rightarrow> sections \<Rightarrow> sections" where
  "nm_delete first second result = (case oget result first of None \<Rightarrow> result | Some section \<Rightarrow> oset result first (odel section second))"

text \<open>\<open>if (list) set(first, second, sig, list.map(f))\<close>.\<close>

definition set_list :: "string \<Rightarrow> string \<Rightarrow> string \<Rightarrow> (nat \<Rightarrow> js \<Rightarrow> settings_error + js) \<Rightarrow> js \<Rightarrow> sections \<Rightarrow> settings_error + sections" where
  "set_list first second sig f v result =
     (if truthy v then (case map_list f v of Inl e \<Rightarrow> Inl e | Inr list \<Rightarrow> Inr (nm_set first (second, sig, list) result)) else Inr result)"

definition set_ip :: "string \<Rightarrow> string \<Rightarrow> (js \<Rightarrow> settings_error + js) \<Rightarrow> string \<Rightarrow> (js \<Rightarrow> settings_error + js) \<Rightarrow> string \<Rightarrow>
    (bool \<Rightarrow> js \<Rightarrow> settings_error + js) \<Rightarrow> options \<Rightarrow> sections \<Rightarrow> settings_error + sections" where
  "set_ip first addrs_sig addr_to_nm routes_sig route_to_nm ips_sig ip_from_text ip result =
     (case set_list first ''addresses'' addrs_sig (\<lambda>_. addr_to_nm) (opt ip ''addresses'')
             (nm_sets first [(''method'', ''s'', opt ip ''method''), (''ignore-auto-dns'', ''b'', opt ip ''ignore_auto_dns''),
                (''ignore-auto-routes'', ''b'', opt ip ''ignore_auto_routes'')] result) of
        Inl e \<Rightarrow> Inl e
      | Inr result \<Rightarrow>
          (case set_list first ''dns'' ips_sig (\<lambda>i. ip_from_text (0 < i)) (opt ip ''dns'') result of
             Inl e \<Rightarrow> Inl e
           | Inr result \<Rightarrow>
               (case set_list first ''routes'' routes_sig (\<lambda>_. route_to_nm) (opt ip ''routes'')
                       (nm_set first (''dns-search'', ''as'', opt ip ''dns_search'') result) of
                  Inl e \<Rightarrow> Inl e
                | Inr result \<Rightarrow> Inr (nm_delete first ''address-labels'' result))))"

text \<open>A section that the settings have is written by \<open>f\<close>, one they do not have is deleted.\<close>

definition section_to_nm :: "(string, options) obj \<Rightarrow> string \<Rightarrow> string \<Rightarrow> (options \<Rightarrow> sections \<Rightarrow> sections) \<Rightarrow> sections \<Rightarrow> sections" where
  "section_to_nm settings name first f result =
     (case oget settings name of None \<Rightarrow> odel result first | Some section \<Rightarrow> f section result)"

definition ip_to_nm :: "(string, options) obj \<Rightarrow> string \<Rightarrow> (options \<Rightarrow> sections \<Rightarrow> settings_error + sections) \<Rightarrow> sections \<Rightarrow> settings_error + sections" where
  "ip_to_nm settings first f result = (case oget settings first of None \<Rightarrow> Inr (odel result first) | Some ip \<Rightarrow> f ip result)"

definition json_text :: "js \<Rightarrow> js" where
  "json_text v = (case stringify v of None \<Rightarrow> JUndef | Some t \<Rightarrow> JStr t)"

definition connection_to_nm :: "options \<Rightarrow> sections \<Rightarrow> sections" where
  "connection_to_nm c =
     nm_sets ''connection''
       [(''id'', ''s'', opt c ''id''), (''autoconnect'', ''b'', opt c ''autoconnect''), (''autoconnect-slaves'', ''i'', opt c ''autoconnect_slaves''),
        (''uuid'', ''s'', opt c ''uuid''), (''interface-name'', ''s'', opt c ''interface_name''), (''type'', ''s'', opt c ''type''),
        (''slave-type'', ''s'', opt c ''slave_type''), (''master'', ''s'', opt c ''master'')]"

definition ethernet_to_nm :: "options \<Rightarrow> sections \<Rightarrow> sections" where
  "ethernet_to_nm e r =
     nm_delete ''802-3-ethernet'' ''cloned-mac-address'' (nm_sets ''802-3-ethernet''
       [(''mtu'', ''u'', opt e ''mtu''), (''assigned-mac-address'', ''s'', opt e ''assigned_mac_address'')] r)"

definition bond_to_nm :: "options \<Rightarrow> sections \<Rightarrow> sections" where
  "bond_to_nm b = nm_sets ''bond'' [(''options'', ''a{ss}'', opt b ''options''), (''interface-name'', ''s'', opt b ''interface_name'')]"

definition team_to_nm :: "options \<Rightarrow> sections \<Rightarrow> sections" where
  "team_to_nm t = nm_sets ''team'' [(''config'', ''s'', json_text (opt t ''config'')), (''interface-name'', ''s'', opt t ''interface_name'')]"

definition team_port_to_nm :: "options \<Rightarrow> sections \<Rightarrow> sections" where
  "team_port_to_nm t = nm_sets ''team-port'' [(''config'', ''s'', json_text (opt t ''config''))]"

definition bridge_to_nm :: "options \<Rightarrow> sections \<Rightarrow> sections" where
  "bridge_to_nm b =
     nm_sets ''bridge''
       [(''interface-name'', ''s'', opt b ''interface_name''), (''stp'', ''b'', opt b ''stp''), (''priority'', ''u'', opt b ''priority''),
        (''forward-delay'', ''u'', opt b ''forward_delay''), (''hello-time'', ''u'', opt b ''hello_time''), (''max-age'', ''u'', opt b ''max_age''),
        (''ageing-time'', ''u'', opt b ''ageing_time'')]"

definition bridge_port_to_nm :: "options \<Rightarrow> sections \<Rightarrow> sections" where
  "bridge_port_to_nm b =
     nm_sets ''bridge-port''
       [(''priority'', ''u'', opt b ''priority''), (''path-cost'', ''u'', opt b ''path_cost''), (''hairpin-mode'', ''b'', opt b ''hairpin_mode'')]"

text \<open>The default of the flags is 1, but it is set explicitly.\<close>

definition vlan_to_nm :: "options \<Rightarrow> sections \<Rightarrow> sections" where
  "vlan_to_nm v =
     nm_sets ''vlan''
       [(''parent'', ''s'', opt v ''parent''), (''id'', ''u'', opt v ''id''), (''interface-name'', ''s'', opt v ''interface_name''), (''flags'', ''u'', JNum 1)]"

definition kinds_to_nm :: "(string, options) obj \<Rightarrow> sections \<Rightarrow> sections" where
  "kinds_to_nm settings result =
     section_to_nm settings ''ethernet'' ''802-3-ethernet'' ethernet_to_nm
       (section_to_nm settings ''vlan'' ''vlan'' vlan_to_nm
         (section_to_nm settings ''bridge_port'' ''bridge-port'' bridge_port_to_nm
           (section_to_nm settings ''bridge'' ''bridge'' bridge_to_nm
             (section_to_nm settings ''team_port'' ''team-port'' team_port_to_nm
               (section_to_nm settings ''team'' ''team'' team_to_nm
                 (section_to_nm settings ''bond'' ''bond'' bond_to_nm result))))))"

definition settings_to_nm :: "string \<Rightarrow> (string, options) obj \<Rightarrow> sections \<Rightarrow> settings_error + sections" where
  "settings_to_nm bo settings orig =
     (case oget settings ''connection'' of
        None \<Rightarrow> Inl Malformed
      | Some c \<Rightarrow>
          (case ip_to_nm settings ''ipv4''
                  (set_ip ''ipv4'' ''aau'' (ip4_address_to_nm bo) ''aau'' (ip4_route_to_nm bo) ''au'' (ip4_num bo)) (connection_to_nm c orig) of
             Inl e \<Rightarrow> Inl e
           | Inr result \<Rightarrow>
               (case ip_to_nm settings ''ipv6''
                       (set_ip ''ipv6'' ''a(ayuay)'' ip6_address_to_nm ''a(ayuayu)'' ip6_route_to_nm ''aay'' ip6_bytes) result of
                  Inl e \<Rightarrow> Inl e
                | Inr result \<Rightarrow> Inr (kinds_to_nm settings result))))"

section \<open>Reading after writing\<close>

lemma nm_get_set:
  "nm_get (nm_set f (k, sig, v) r) f' k' d = (if f' = f \<and> k' = k then (if v \<noteq> JUndef then v else d) else nm_get r f' k' d)"
  by (simp add: nm_get_def nm_set_def Let_def variant_def split: option.split)

lemma oget_nm_set: "oget (nm_set f x r) f' = None \<longleftrightarrow> f' \<noteq> f \<and> oget r f' = None"
  by (simp add: nm_set_def Let_def split: prod.split)

lemma nm_get_delete: "nm_get (nm_delete f k r) f' k' d = (if f' = f \<and> k' = k then d else nm_get r f' k' d)"
  by (cases "oget r f") (auto simp: nm_get_def nm_delete_def split: option.split)

lemma oget_nm_delete: "oget (nm_delete f k r) f' = None \<longleftrightarrow> oget r f' = None"
  by (simp add: nm_delete_def split: option.split)

lemma nm_get_cong: "oget r f = oget r' f \<Longrightarrow> nm_get r f k d = nm_get r' f k d"
  by (simp add: nm_get_def)

text \<open>What writes one section leaves the others alone.\<close>

definition writes :: "string \<Rightarrow> (sections \<Rightarrow> sections) \<Rightarrow> bool" where
  "writes first g \<longleftrightarrow> (\<forall>r f. f \<noteq> first \<longrightarrow> oget (g r) f = oget r f)"

lemma writes_set: "writes first (nm_set first x)"
  by (simp add: writes_def nm_set_def Let_def split: prod.split)

lemma writes_sets: "writes first (nm_sets first fields)"
  unfolding nm_sets_def
  by (induction fields) (use writes_set in \<open>fastforce simp: writes_def\<close>)+

lemma writes_delete: "writes first (nm_delete first k)"
  by (simp add: writes_def nm_delete_def split: option.split)

lemma writes_delete_sets: "writes first (\<lambda>r. nm_delete first k (nm_sets first fields r))"
  using writes_sets [of first fields] writes_delete [of first k] by (simp add: writes_def)

lemma oget_section_other:
  "(\<And>section. writes first (f section)) \<Longrightarrow> f' \<noteq> first \<Longrightarrow> oget (section_to_nm settings name first f r) f' = oget r f'"
  by (simp add: section_to_nm_def writes_def split: option.split)

text \<open>And what it writes depends on what the section had only.\<close>

definition within :: "string \<Rightarrow> (sections \<Rightarrow> sections) \<Rightarrow> bool" where
  "within first g \<longleftrightarrow> writes first g \<and> (\<exists>h. \<forall>r. oget (g r) first = h (oget r first))"

lemma nm_set_at: "\<exists>h. \<forall>r. oget (nm_set first x r) first = h (oget r first)"
  by (rule exI [of _ "\<lambda>old. case x of (second, sig, val) \<Rightarrow>
        let old = (case old of None \<Rightarrow> [] | Some old \<Rightarrow> old)
        in Some (if val \<noteq> JUndef then oset old second (variant sig val) else odel old second)"])
    (simp add: nm_set_def Let_def split: prod.split)

lemma nm_sets_at: "\<exists>h. \<forall>r. oget (nm_sets first fields r) first = h (oget r first)"
proof (induction fields)
  case Nil
  show ?case by (rule exI [of _ id]) (simp add: nm_sets_def)
next
  case (Cons x fields)
  then obtain h where "\<forall>r. oget (nm_sets first fields r) first = h (oget r first)" by blast
  moreover obtain h' where "\<forall>r. oget (nm_set first x r) first = h' (oget r first)" using nm_set_at by blast
  ultimately show ?case by (intro exI [of _ "h \<circ> h'"]) (simp add: nm_sets_def)
qed

lemma within_sets: "within first (nm_sets first fields)"
  by (simp add: within_def writes_sets nm_sets_at)

lemma within_delete_sets: "within first (\<lambda>r. nm_delete first k (nm_sets first fields r))"
proof -
  obtain h where h: "\<And>r. oget (nm_sets first fields r) first = h (oget r first)" using nm_sets_at by blast
  have "\<exists>h. \<forall>r. oget (nm_delete first k (nm_sets first fields r)) first = h (oget r first)"
    by (rule exI [of _ "\<lambda>x. map_option (\<lambda>old. odel old k) (h x)"]) (simp add: nm_delete_def h split: option.split)
  then show ?thesis by (simp add: within_def writes_delete_sets)
qed

lemma within_writes: "within first g \<Longrightarrow> writes first g"
  by (simp add: within_def)

lemma section_at:
  assumes "\<And>x. within first (f x)" "oget r first = oget r' first"
  shows "oget (section_to_nm settings name first f r) first = oget (section_to_nm settings name first f r') first"
proof (cases "oget settings name")
  case (Some x)
  obtain h where "\<And>r. oget (f x r) first = h (oget r first)" using assms(1) [of x] unfolding within_def by blast
  then show ?thesis using Some assms(2) by (simp add: section_to_nm_def)
qed (simp add: section_to_nm_def)

lemma nm_get_sets_nil: "nm_get (nm_sets f [] r) f' k d = nm_get r f' k d"
  by (simp add: nm_sets_def)

lemma nm_get_sets_cons: "nm_get (nm_sets f (x # xs) r) f' k d = nm_get (nm_sets f xs (nm_set f x r)) f' k d"
  by (simp add: nm_sets_def)

lemma oget_nm_sets: "oget (nm_sets f xs r) f' = None \<longleftrightarrow> (f' \<noteq> f \<or> xs = []) \<and> oget r f' = None"
  unfolding nm_sets_def by (induction xs arbitrary: r) (auto simp: oget_nm_set)

lemmas nm_reads = nm_get_sets_nil nm_get_sets_cons nm_get_set nm_get_delete oget_nm_sets oget_nm_delete oget_nm_set

section \<open>What NetworkManager sends\<close>

definition variants_ok :: "sections \<Rightarrow> bool" where
  "variants_ok nm \<longleftrightarrow> (\<forall>first section second e. oget nm first = Some section \<longrightarrow> oget section second = Some e \<longrightarrow>
     (\<exists>sig v. e = variant sig v \<and> v \<noteq> JUndef))"

lemma variants_opt:
  assumes "variants_ok nm" "oget nm f = Some sec" "truthy (opt sec k)"
  shows "fld (opt sec k) ''v'' \<noteq> JUndef"
proof (cases "oget sec k")
  case (Some e)
  then obtain sig v where "e = variant sig v" "v \<noteq> JUndef" using assms(1,2) unfolding variants_ok_def by blast
  then show ?thesis using Some by (simp add: opt_def variant_def)
qed (use assms(3) in \<open>simp add: opt_def\<close>)

lemma variants_get: "variants_ok nm \<Longrightarrow> d \<noteq> JUndef \<Longrightarrow> nm_get nm f k d \<noteq> JUndef"
  by (simp add: nm_get_def variants_opt split: option.split)

section \<open>Addresses there and back\<close>

text \<open>A conversion there and back, after which the first conversion gives the same again.\<close>

definition there_and_back :: "(js \<Rightarrow> settings_error + js) \<Rightarrow> (js \<Rightarrow> settings_error + js) \<Rightarrow> js \<Rightarrow> bool" where
  "there_and_back from_nm to_nm v \<longleftrightarrow> (\<exists>t b. from_nm v = Inr t \<and> to_nm t = Inr b \<and> from_nm b = Inr t)"

definition u32_ok :: "js \<Rightarrow> bool" where
  "u32_ok v = (case v of JNum n \<Rightarrow> 0 \<le> n \<and> n < 2 ^ 32 | _ \<Rightarrow> False)"

definition nat_ok :: "js \<Rightarrow> bool" where
  "nat_ok v = (case v of JNum n \<Rightarrow> 0 \<le> n | _ \<Rightarrow> False)"

definition ip6_ok :: "js \<Rightarrow> bool" where
  "ip6_ok v \<longleftrightarrow> (\<exists>bs. length bs = 16 \<and> v = JStr (base64_encode bs))"

definition ip4_address_ok :: "js \<Rightarrow> bool" where
  "ip4_address_ok v = (case v of JArr [a, p, g] \<Rightarrow> u32_ok a \<and> nat_ok p \<and> u32_ok g | _ \<Rightarrow> False)"

definition ip4_route_ok :: "js \<Rightarrow> bool" where
  "ip4_route_ok v = (case v of JArr [a, p, g, m] \<Rightarrow> u32_ok a \<and> nat_ok p \<and> u32_ok g \<and> nat_ok m | _ \<Rightarrow> False)"

definition ip6_address_ok :: "js \<Rightarrow> bool" where
  "ip6_address_ok v = (case v of JArr [a, p, g] \<Rightarrow> ip6_ok a \<and> nat_ok p \<and> p \<noteq> JNum 0 \<and> ip6_ok g | _ \<Rightarrow> False)"

definition ip6_route_ok :: "js \<Rightarrow> bool" where
  "ip6_route_ok v = (case v of JArr [a, p, g, m] \<Rightarrow> ip6_ok a \<and> nat_ok p \<and> ip6_ok g \<and> nat_ok m | _ \<Rightarrow> False)"

lemma ip4_back: "u32_ok v \<Longrightarrow> \<exists>t. ip4_text bo v z = Inr (JStr t) \<and> ip4_num bo z (JStr t) = Inr v"
proof -
  assume "u32_ok v"
  then obtain n where n: "v = JNum n" "0 \<le> n" "n < 2 ^ 32" by (auto simp: u32_ok_def split: js.splits)
  then have "unat (word_of_int n :: u32) = nat n" by (simp add: unat_eq_nat_uint uint_word_of_int)
  then show ?thesis
    using n ip4_roundtrip [of bo "word_of_int n" z] by (simp add: ip4_text_def ip4_num_def of_text_def lift_def nat_num_def)
qed

lemma ip6_back: "ip6_ok v \<Longrightarrow> \<exists>t. ip6_text v z = Inr (JStr t) \<and> ip6_bytes z (JStr t) = Inr v"
proof -
  assume "ip6_ok v"
  then obtain bs where bs: "length bs = 16" "v = JStr (base64_encode bs)" by (auto simp: ip6_ok_def)
  then obtain s where "ip6_to_text (base64_encode bs) z = Some s" "ip6_from_text s z = Inr (base64_encode bs)"
    using ip6_text_back by blast
  then show ?thesis using bs(2) by (simp add: ip6_text_def ip6_bytes_def of_text_def lift_def)
qed

lemma prefix_back: "nat_ok v \<Longrightarrow> num_text ip_prefix_to_text v = Inr (JStr (nat_str (nat (case v of JNum n \<Rightarrow> n | _ \<Rightarrow> 0))))"
  by (auto simp: nat_ok_def num_text_def ip_prefix_to_text_def split: js.splits)

lemma nat_str_first: "\<exists>c cs. nat_str n = c # cs \<and> is_digit c"
  using nat_str_digits [of n] by (cases "nat_str n") auto

lemma parse_int_nat_str: "parse_int (nat_str n) = Some (int n)"
proof -
  obtain c cs where c: "nat_str n = c # cs" "is_digit c" using nat_str_first by blast
  then have first: "dropWhile white (nat_str n) = nat_str n" "c \<noteq> CHR ''-''" "c \<noteq> CHR ''+''"
    using digit_not_space by (auto simp: is_digit_def)
  have digits: "takeWhile is_digit cs = cs" using nat_str_digits [of n] c by (simp add: takeWhile_eq_all_conv list_all_iff)
  show ?thesis using first c nat_str_digits [of n] by (simp add: parse_int_def Let_def digits)
qed

lemma ip4_address_back: "ip4_address_ok v \<Longrightarrow> there_and_back (ip4_address_from_nm bo) (ip4_address_to_nm bo) v"
proof -
  assume "ip4_address_ok v"
  then obtain a n g where v: "v = JArr [a, JNum n, g]" "u32_ok a" "0 \<le> n" "u32_ok g"
    by (auto simp: ip4_address_ok_def nat_ok_def split: js.splits list.splits)
  obtain s where s: "ip4_text bo a False = Inr (JStr s)" "ip4_num bo False (JStr s) = Inr a" using ip4_back [OF v(2)] by blast
  obtain t where t: "ip4_text bo g True = Inr (JStr t)" "ip4_num bo True (JStr t) = Inr g" using ip4_back [OF v(4)] by blast
  show ?thesis
    unfolding there_and_back_def
    by (intro exI [of _ "JArr [JStr s, JStr (nat_str (nat n)), JStr t]"] exI [of _ v])
      (simp add: v(1,3) s t ip4_address_from_nm_def ip4_address_to_nm_def tuple_def num_text_def ip_prefix_to_text_def of_text_def lift_def
        ip4_prefix_from_text_def prefix_num_def nat_num_def)
qed

lemma ip4_route_back: "ip4_route_ok v \<Longrightarrow> there_and_back (ip4_route_from_nm bo) (ip4_route_to_nm bo) v"
proof -
  assume "ip4_route_ok v"
  then obtain a n g m where v: "v = JArr [a, JNum n, g, JNum m]" "u32_ok a" "0 \<le> n" "u32_ok g" "0 \<le> m"
    by (auto simp: ip4_route_ok_def nat_ok_def split: js.splits list.splits)
  obtain s where s: "ip4_text bo a False = Inr (JStr s)" "ip4_num bo False (JStr s) = Inr a" using ip4_back [OF v(2)] by blast
  obtain t where t: "ip4_text bo g True = Inr (JStr t)" "ip4_num bo True (JStr t) = Inr g" using ip4_back [OF v(4)] by blast
  show ?thesis
    unfolding there_and_back_def
    by (intro exI [of _ "JArr [JStr s, JStr (nat_str (nat n)), JStr t, JStr (nat_str (nat m))]"] exI [of _ v])
      (simp add: v(1,3,5) s t ip4_route_from_nm_def ip4_route_to_nm_def tuple_def num_text_def ip_prefix_to_text_def ip_metric_to_text_def
        of_text_def lift_def ip4_prefix_from_text_def prefix_num_def nat_num_def metric_num_def ip_metric_from_text_def)
qed

lemma ip6_address_back: "ip6_address_ok v \<Longrightarrow> there_and_back ip6_address_from_nm ip6_address_to_nm v"
proof -
  assume "ip6_address_ok v"
  then obtain a n g where v: "v = JArr [a, JNum n, g]" "ip6_ok a" "0 < n" "ip6_ok g"
    by (auto simp: ip6_address_ok_def nat_ok_def split: js.splits list.splits)
  obtain s where s: "ip6_text a False = Inr (JStr s)" "ip6_bytes False (JStr s) = Inr a" using ip6_back [OF v(2)] by blast
  obtain t where t: "ip6_text g True = Inr (JStr t)" "ip6_bytes True (JStr t) = Inr g" using ip6_back [OF v(4)] by blast
  show ?thesis
    unfolding there_and_back_def
    by (intro exI [of _ "JArr [JStr s, JStr (nat_str (nat n)), JStr t]"] exI [of _ v])
      (use v(3) in \<open>simp add: v(1) s t ip6_address_from_nm_def ip6_address_to_nm_def tuple_def num_text_def ip_prefix_to_text_def of_text_def
        ip6_prefix_num_def parse_int_nat_str\<close>)
qed

text \<open>A route comes back with its prefix as its metric.\<close>

lemma ip6_route_there:
  assumes "ip6_ok a" "0 \<le> n" "ip6_ok g"
  obtains t where "ip6_route_from_nm (JArr [a, JNum n, g, m]) = Inr t" "ip6_route_to_nm t = Inr (JArr [a, JNum n, g, JNum n])"
    "\<And>m'. ip6_route_from_nm (JArr [a, JNum n, g, m']) = Inr t"
proof -
  obtain s where s: "ip6_text a False = Inr (JStr s)" "ip6_bytes False (JStr s) = Inr a" using ip6_back [OF assms(1)] by blast
  obtain t where t: "ip6_text g True = Inr (JStr t)" "ip6_bytes True (JStr t) = Inr g" using ip6_back [OF assms(3)] by blast
  show ?thesis
    by (rule that [of "JArr [JStr s, JStr (nat_str (nat n)), JStr t, JStr (nat_str (nat n))]"])
      (simp_all add: assms(2) s t ip6_route_from_nm_def ip6_route_to_nm_def tuple_def num_text_def ip_prefix_to_text_def ip_metric_to_text_def
        of_text_def lift_def ip_prefix_from_text_def nat_num_def metric_num_def ip_metric_from_text_def)
qed

lemma ip6_route_back: "ip6_route_ok v \<Longrightarrow> there_and_back ip6_route_from_nm ip6_route_to_nm v"
proof -
  assume "ip6_route_ok v"
  then obtain a n g m where v: "v = JArr [a, JNum n, g, m]" "ip6_ok a" "0 \<le> n" "ip6_ok g"
    by (auto simp: ip6_route_ok_def nat_ok_def split: js.splits list.splits)
  show ?thesis
    unfolding v(1) there_and_back_def by (rule ip6_route_there [OF v(2-4), of m]) blast
qed

section \<open>Lists there and back\<close>

lemma each_ok_map: "(\<And>i. i < length ts \<Longrightarrow> f i = Inr (ts ! i)) \<Longrightarrow> each_ok (map f [0..<length ts]) = Inr ts"
proof (induction ts arbitrary: f)
  case (Cons t ts)
  have "each_ok (map (\<lambda>i. f (Suc i)) [0..<length ts]) = Inr ts"
    using Cons.prems [of "Suc _"] by (intro Cons.IH) simp
  moreover have "map f [0..<length (t # ts)] = f 0 # map (\<lambda>i. f (Suc i)) [0..<length ts]"
    by (simp add: upt_conv_Cons map_Suc_upt [symmetric] comp_def del: upt_Suc)
  ultimately show ?case using Cons.prems [of 0] by simp
qed simp

text \<open>The texts of a list, what they are written as, and that they read the same again.\<close>

lemma map_list_back:
  assumes "\<And>i. i < length xs \<Longrightarrow> there_and_back (f i) (g i) (xs ! i)"
  obtains ts bs where "map_list f (JArr xs) = Inr (JArr ts)" "map_list g (JArr ts) = Inr (JArr bs)" "map_list f (JArr bs) = Inr (JArr ts)"
proof -
  define t where "t i = (SOME t. \<exists>b. f i (xs ! i) = Inr t \<and> g i t = Inr b \<and> f i b = Inr t)" for i
  define b where "b i = (SOME b. f i (xs ! i) = Inr (t i) \<and> g i (t i) = Inr b \<and> f i b = Inr (t i))" for i
  have tb: "f i (xs ! i) = Inr (t i) \<and> g i (t i) = Inr (b i) \<and> f i (b i) = Inr (t i)" if "i < length xs" for i
  proof -
    have "\<exists>b. f i (xs ! i) = Inr (t i) \<and> g i (t i) = Inr b \<and> f i b = Inr (t i)"
      using assms [OF that] unfolding t_def there_and_back_def by (rule someI_ex)
    then show ?thesis unfolding b_def by (rule someI_ex)
  qed
  let ?ts = "map t [0..<length xs]" and ?bs = "map b [0..<length xs]"
  show ?thesis
  proof (rule that [of ?ts ?bs])
    show "map_list f (JArr xs) = Inr (JArr ?ts)"
      using each_ok_map [of ?ts "\<lambda>i. f i (xs ! i)"] tb by (simp add: map_list_def tuple_def)
    show "map_list g (JArr ?ts) = Inr (JArr ?bs)"
      using each_ok_map [of ?bs "\<lambda>i. g i (?ts ! i)"] tb by (simp add: map_list_def tuple_def)
    show "map_list f (JArr ?bs) = Inr (JArr ?ts)"
      using each_ok_map [of ?ts "\<lambda>i. f i (?bs ! i)"] tb by (simp add: map_list_def tuple_def)
  qed
qed

definition list_ok :: "(js \<Rightarrow> bool) \<Rightarrow> js \<Rightarrow> bool" where
  "list_ok P v = (case v of JArr xs \<Rightarrow> list_all P xs | _ \<Rightarrow> False)"

lemma list_back:
  assumes "list_ok P v" "\<And>i x. P x \<Longrightarrow> there_and_back (f i) (g i) x"
  obtains ts bs where "map_list f v = Inr (JArr ts)" "map_list g (JArr ts) = Inr (JArr bs)" "map_list f (JArr bs) = Inr (JArr ts)"
proof -
  obtain xs where xs: "v = JArr xs" "list_all P xs" using assms(1) by (auto simp: list_ok_def split: js.splits)
  then show ?thesis using that assms(2) by (auto simp: list_all_length intro: map_list_back [of xs f g])
qed

lemma ip4_text_both: "u32_ok v \<Longrightarrow> there_and_back (\<lambda>v. ip4_text bo v z) (ip4_num bo z) v"
  unfolding there_and_back_def using ip4_back by blast

lemma ip6_text_both: "ip6_ok v \<Longrightarrow> there_and_back (\<lambda>v. ip6_text v z) (ip6_bytes z) v"
  unfolding there_and_back_def using ip6_back by blast

section \<open>The settings of an address family\<close>

definition ip_ok :: "sections \<Rightarrow> string \<Rightarrow> (js \<Rightarrow> bool) \<Rightarrow> (js \<Rightarrow> bool) \<Rightarrow> (js \<Rightarrow> bool) \<Rightarrow> bool" where
  "ip_ok nm first addr_ok route_ok dns_ok \<longleftrightarrow>
     list_ok addr_ok (nm_get nm first ''addresses'' (JArr [])) \<and> list_ok dns_ok (nm_get nm first ''dns'' (JArr [])) \<and>
     list_ok route_ok (nm_get nm first ''routes'' (JArr []))"

lemma ip_back:
  assumes ok: "ip_ok nm first addr_ok route_ok dns_ok" "variants_ok nm"
    and conv: "\<And>v. addr_ok v \<Longrightarrow> there_and_back addr_from addr_to v" "\<And>v. route_ok v \<Longrightarrow> there_and_back route_from route_to v"
      "\<And>v z. dns_ok v \<Longrightarrow> there_and_back (\<lambda>v. dns_from v z) (dns_to z) v"
    and r: "oget r first = oget nm first"
  obtains ip r' where "get_ip nm first addr_from route_from dns_from = Inr ip"
    "set_ip first s1 addr_to s2 route_to s3 dns_to ip r = Inr r'"
    "get_ip r' first addr_from route_from dns_from = Inr ip" "oget r' first \<noteq> None" "\<And>f. f \<noteq> first \<Longrightarrow> oget r' f = oget r f"
proof -
  obtain ta ba where a: "map_list (\<lambda>_. addr_from) (nm_get nm first ''addresses'' (JArr [])) = Inr (JArr ta)"
    "map_list (\<lambda>_. addr_to) (JArr ta) = Inr (JArr ba)" "map_list (\<lambda>_. addr_from) (JArr ba) = Inr (JArr ta)"
    by (rule list_back [of addr_ok "nm_get nm first ''addresses'' (JArr [])" "\<lambda>_. addr_from" "\<lambda>_. addr_to"]) (use ok(1) conv(1) in \<open>auto simp: ip_ok_def\<close>)
  obtain td bd where d: "map_list (\<lambda>i v. dns_from v (0 < i)) (nm_get nm first ''dns'' (JArr [])) = Inr (JArr td)"
    "map_list (\<lambda>i. dns_to (0 < i)) (JArr td) = Inr (JArr bd)" "map_list (\<lambda>i v. dns_from v (0 < i)) (JArr bd) = Inr (JArr td)"
    by (rule list_back [of dns_ok "nm_get nm first ''dns'' (JArr [])" "\<lambda>i v. dns_from v (0 < i)" "\<lambda>i. dns_to (0 < i)"])
      (use ok(1) conv(3) in \<open>auto simp: ip_ok_def\<close>)
  obtain tr br where u: "map_list (\<lambda>_. route_from) (nm_get nm first ''routes'' (JArr [])) = Inr (JArr tr)"
    "map_list (\<lambda>_. route_to) (JArr tr) = Inr (JArr br)" "map_list (\<lambda>_. route_from) (JArr br) = Inr (JArr tr)"
    by (rule list_back [of route_ok "nm_get nm first ''routes'' (JArr [])" "\<lambda>_. route_from" "\<lambda>_. route_to"]) (use ok(1) conv(2) in \<open>auto simp: ip_ok_def\<close>)
  let ?get = "nm_get nm first"
  let ?ip = "[(''method'', ?get ''method'' (JStr ''auto'')), (''ignore_auto_dns'', ?get ''ignore-auto-dns'' (JBool False)),
    (''ignore_auto_routes'', ?get ''ignore-auto-routes'' (JBool False)), (''addresses'', JArr ta), (''dns'', JArr td),
    (''dns_search'', ?get ''dns-search'' (JArr [])), (''routes'', JArr tr)]"
  let ?r = "nm_delete first ''address-labels'' (nm_set first (''routes'', s2, JArr br) (nm_set first (''dns-search'', ''as'', ?get ''dns-search'' (JArr []))
    (nm_set first (''dns'', s3, JArr bd) (nm_set first (''addresses'', s1, JArr ba)
      (nm_sets first [(''method'', ''s'', ?get ''method'' (JStr ''auto'')), (''ignore-auto-dns'', ''b'', ?get ''ignore-auto-dns'' (JBool False)),
         (''ignore-auto-routes'', ''b'', ?get ''ignore-auto-routes'' (JBool False))] r)))))"
  show ?thesis
  proof (rule that [of ?ip ?r])
    show "get_ip nm first addr_from route_from dns_from = Inr ?ip" by (simp add: get_ip_def a(1) d(1) u(1))
    show "set_ip first s1 addr_to s2 route_to s3 dns_to ?ip r = Inr ?r" by (simp add: set_ip_def set_list_def a(2) d(2) u(2))
    show "get_ip ?r first addr_from route_from dns_from = Inr ?ip"
      using variants_get [OF ok(2)] by (simp add: get_ip_def nm_reads a(3) d(3) u(3))
    show "oget ?r first \<noteq> None" by (simp add: nm_reads)
    show "oget ?r f = oget r f" if "f \<noteq> first" for f
      using that writes_set writes_sets writes_delete by (simp add: writes_def)
  qed
qed

section \<open>The sections by kind\<close>

lemma kind_within: "within ''bond'' (bond_to_nm b)" "within ''team'' (team_to_nm t)" "within ''team-port'' (team_port_to_nm t)"
  "within ''bridge'' (bridge_to_nm b)" "within ''bridge-port'' (bridge_port_to_nm b)" "within ''vlan'' (vlan_to_nm v)"
  "within ''802-3-ethernet'' (ethernet_to_nm e)"
  unfolding bond_to_nm_def team_to_nm_def team_port_to_nm_def bridge_to_nm_def bridge_port_to_nm_def vlan_to_nm_def ethernet_to_nm_def [abs_def]
  by (rule within_sets within_delete_sets)+

lemmas kind_writes = kind_within [THEN within_writes]

lemma oget_kinds_to_nm_other:
  assumes "f \<notin> {''802-3-ethernet'', ''vlan'', ''bridge-port'', ''bridge'', ''team-port'', ''team'', ''bond''}"
  shows "oget (kinds_to_nm settings r) f = oget r f"
  using assms unfolding kinds_to_nm_def by (simp add: oget_section_other kind_writes)

lemma kinds_to_nm_at:
  assumes "\<forall>f. f \<notin> {''connection'', ''ipv4'', ''ipv6''} \<longrightarrow> oget r f = oget nm f"
  shows "oget (kinds_to_nm s r) ''bond'' = oget (section_to_nm s ''bond'' ''bond'' bond_to_nm nm) ''bond''"
    and "oget (kinds_to_nm s r) ''team'' = oget (section_to_nm s ''team'' ''team'' team_to_nm nm) ''team''"
    and "oget (kinds_to_nm s r) ''team-port'' = oget (section_to_nm s ''team_port'' ''team-port'' team_port_to_nm nm) ''team-port''"
    and "oget (kinds_to_nm s r) ''bridge'' = oget (section_to_nm s ''bridge'' ''bridge'' bridge_to_nm nm) ''bridge''"
    and "oget (kinds_to_nm s r) ''bridge-port'' = oget (section_to_nm s ''bridge_port'' ''bridge-port'' bridge_port_to_nm nm) ''bridge-port''"
    and "oget (kinds_to_nm s r) ''vlan'' = oget (section_to_nm s ''vlan'' ''vlan'' vlan_to_nm nm) ''vlan''"
    and "oget (kinds_to_nm s r) ''802-3-ethernet'' = oget (section_to_nm s ''ethernet'' ''802-3-ethernet'' ethernet_to_nm nm) ''802-3-ethernet''"
  unfolding kinds_to_nm_def
  by ((simp add: oget_section_other kind_writes)?, rule section_at, rule kind_within, simp add: oget_section_other kind_writes assms)+

text \<open>Where the settings are found again.\<close>

lemma oget_append: "oget (xs @ ys) k = (case oget xs k of None \<Rightarrow> oget ys k | Some v \<Rightarrow> Some v)"
  by (simp add: oget_map_of map_add_def split: option.split)

lemma oget_section_if: "oget (section_if c n fs) k = (if c \<and> k = n then Some fs else None)"
  by (simp add: section_if_def)

lemma json_text_back: "json_parse_carefully (json_text (json_parse_carefully v)) = json_parse_carefully v"
  and json_text_defined: "json_text (json_parse_carefully v) \<noteq> JUndef"
proof -
  have "wf_json (json_parse_carefully v)"
    by (simp add: json_parse_carefully_def json_parse_wf split: option.split)
  then have "json_text (json_parse_carefully v) = JStr (jtxt (json_parse_carefully v))" "json_parse (jtxt (json_parse_carefully v)) = Some (json_parse_carefully v)"
    by (simp_all add: json_text_def wf_json_stringify json_roundtrip)
  then show "json_parse_carefully (json_text (json_parse_carefully v)) = json_parse_carefully v" "json_text (json_parse_carefully v) \<noteq> JUndef"
    by (simp_all add: json_parse_carefully_def [of "JStr _"])
qed

lemma extend_again: "extend [] [JObj (extend [] [v])] = extend [] [v]"
proof -
  let ?m = "extend [] [v]"
  have wf: "owf ?m" by (rule owf_extend) (simp add: owf_def okeys_def)
  have "v' \<noteq> JUndef" if "(k, v') \<in> set ?m" for k v'
  proof -
    have "map_of ?m k = Some v'" using wf that by (simp add: owf_def okeys_def)
    then have "oget (extend [] [v]) k = Some v'" by (simp add: oget_map_of)
    then have "map_of (rev (concat (map defined_props [v]))) k = Some v'" by (simp add: oget_extend split: option.splits)
    then have "(k, v') \<in> set (defined_props v)" by (auto dest: map_of_SomeD)
    then show ?thesis by (auto simp: defined_props_def split: js.splits)
  qed
  then have "defined_props (JObj ?m) = ?m" by (auto simp: defined_props_def filter_id_conv)
  then have "extend [] [JObj ?m] = od.put_all ?m []" by (simp add: extend_put_all)
  also have "\<dots> = ?m" using fold_oset_distinct [of "[]" ?m] wf by (simp add: od.put_all_def owf_def okeys_def)
  finally show ?thesis .
qed

text \<open>A section by kind, read after what was read of it was written.\<close>

lemma written_back:
  assumes "oget R first = oget (section_to_nm s name first f nm) first" "oget s name = (if c then Some x else None)"
  shows "oget R first = (if c then oget (f x nm) first else None)" "c \<Longrightarrow> nm_get R first k d = nm_get (f x nm) first k d"
  using assms by (simp_all add: section_to_nm_def nm_get_def)

lemma kind_cong:
  "\<forall>R R'. oget R ''bond'' = oget R' ''bond'' \<longrightarrow> bond_from_nm R = bond_from_nm R'"
  "\<forall>R R'. oget R ''team'' = oget R' ''team'' \<longrightarrow> team_from_nm R = team_from_nm R'"
  "\<forall>R R'. oget R ''team-port'' = oget R' ''team-port'' \<longrightarrow> team_port_from_nm R = team_port_from_nm R'"
  "\<forall>R R'. oget R ''bridge'' = oget R' ''bridge'' \<longrightarrow> bridge_from_nm R = bridge_from_nm R'"
  "\<forall>R R'. oget R ''bridge-port'' = oget R' ''bridge-port'' \<longrightarrow> bridge_port_from_nm R = bridge_port_from_nm R'"
  "\<forall>R R'. oget R ''vlan'' = oget R' ''vlan'' \<longrightarrow> vlan_from_nm R = vlan_from_nm R'"
  "\<forall>R R'. oget R ''802-3-ethernet'' = oget R' ''802-3-ethernet'' \<longrightarrow> ethernet_from_nm R = ethernet_from_nm R'"
  by (simp_all add: bond_from_nm_def team_from_nm_def team_port_from_nm_def bridge_from_nm_def bridge_port_from_nm_def vlan_from_nm_def
      ethernet_from_nm_def nm_get_def Let_def)

lemma bond_back: "bond_from_nm (bond_to_nm (bond_from_nm nm) nm) = bond_from_nm nm"
  by (simp add: bond_from_nm_def bond_to_nm_def nm_reads extend_again)

lemma team_back: "team_from_nm (team_to_nm (team_from_nm nm) nm) = team_from_nm nm"
  by (simp add: team_from_nm_def team_to_nm_def nm_reads json_text_back json_text_defined)

lemma team_port_back: "team_port_from_nm (team_port_to_nm (team_port_from_nm nm) nm) = team_port_from_nm nm"
  by (simp add: team_port_from_nm_def team_port_to_nm_def nm_reads json_text_back json_text_defined)

lemma bridge_back: "variants_ok nm \<Longrightarrow> bridge_from_nm (bridge_to_nm (bridge_from_nm nm) nm) = bridge_from_nm nm"
  by (simp add: bridge_from_nm_def Let_def bridge_to_nm_def nm_reads variants_get)

lemma bridge_port_back: "variants_ok nm \<Longrightarrow> bridge_port_from_nm (bridge_port_to_nm (bridge_port_from_nm nm) nm) = bridge_port_from_nm nm"
  by (simp add: bridge_port_from_nm_def Let_def bridge_port_to_nm_def nm_reads variants_get)

lemma vlan_back: "vlan_from_nm (vlan_to_nm (vlan_from_nm nm) nm) = vlan_from_nm nm"
  by (simp add: vlan_from_nm_def Let_def vlan_to_nm_def nm_reads)

lemma ethernet_back: "ethernet_from_nm (ethernet_to_nm (ethernet_from_nm nm) nm) = ethernet_from_nm nm"
  by (simp add: ethernet_from_nm_def ethernet_to_nm_def nm_reads)

lemma kind_written: "oget (bond_to_nm b nm) ''bond'' \<noteq> None" "oget (team_to_nm t nm) ''team'' \<noteq> None" "oget (team_port_to_nm t nm) ''team-port'' \<noteq> None"
  "oget (bridge_to_nm b nm) ''bridge'' \<noteq> None" "oget (bridge_port_to_nm b nm) ''bridge-port'' \<noteq> None" "oget (vlan_to_nm v nm) ''vlan'' \<noteq> None"
  "oget (ethernet_to_nm e nm) ''802-3-ethernet'' \<noteq> None"
  by (simp_all add: bond_to_nm_def team_to_nm_def team_port_to_nm_def bridge_to_nm_def bridge_port_to_nm_def vlan_to_nm_def ethernet_to_nm_def nm_reads)

lemma section_back:
  assumes "oget R first = oget (section_to_nm s name first f nm) first" "oget s name = (if c then Some x else None)"
    and "oget (f x nm) first \<noteq> None" "\<forall>R R'. oget R first = oget R' first \<longrightarrow> from_nm R = from_nm R'" "from_nm (f x nm) = from_nm nm"
  shows "has_section R first \<longleftrightarrow> c" "section_if c name (from_nm R) = section_if c name (from_nm nm)"
proof -
  have at: "oget R first = (if c then oget (f x nm) first else None)" by (rule written_back(1) [OF assms(1,2)])
  show "has_section R first \<longleftrightarrow> c" using at assms(3) by (simp add: has_section_def)
  show "section_if c name (from_nm R) = section_if c name (from_nm nm)"
    using at assms(4) [rule_format, of R "f x nm"] assms(5) by (simp add: section_if_def)
qed

lemma kinds_back:
  assumes s: "\<And>name. name \<notin> {''connection'', ''ipv4'', ''ipv6''} \<Longrightarrow> oget s name = oget (kinds_from_nm nm) name"
    and r: "\<forall>f. f \<notin> {''connection'', ''ipv4'', ''ipv6''} \<longrightarrow> oget r f = oget nm f"
    and slave: "slave_of r = slave_of nm" and ok: "variants_ok nm"
  shows "kinds_from_nm (kinds_to_nm s r) = kinds_from_nm nm"
proof -
  let ?r = "kinds_to_nm s r"
  note at = kinds_to_nm_at [of r nm s, OF r]
  have slave': "slave_of ?r = slave_of nm"
    using slave oget_kinds_to_nm_other [of "''connection''" s r] by (simp add: slave_of_def nm_get_def)
  note found = s kinds_from_nm_def oget_append oget_section_if
  have bond: "oget s ''bond'' = (if has_section nm ''bond'' then Some (bond_from_nm nm) else None)" by (simp add: found)
  have team: "oget s ''team'' = (if has_section nm ''team'' then Some (team_from_nm nm) else None)" by (simp add: found)
  have team_port: "oget s ''team_port'' = (if has_section nm ''team-port'' \<or> slave_of nm = JStr ''team'' then Some (team_port_from_nm nm) else None)"
    by (simp add: found)
  have bridge: "oget s ''bridge'' = (if has_section nm ''bridge'' then Some (bridge_from_nm nm) else None)" by (simp add: found)
  have bridge_port: "oget s ''bridge_port'' = (if has_section nm ''bridge-port'' \<or> slave_of nm = JStr ''bridge'' then Some (bridge_port_from_nm nm) else None)"
    by (simp add: found)
  have vlan: "oget s ''vlan'' = (if has_section nm ''vlan'' then Some (vlan_from_nm nm) else None)" by (simp add: found)
  have ethernet: "oget s ''ethernet'' = (if has_section nm ''802-3-ethernet'' then Some (ethernet_from_nm nm) else None)" by (simp add: found)
  note again = section_back [where from_nm = bond_from_nm, OF at(1) bond kind_written(1) kind_cong(1) bond_back] section_back [where from_nm = team_from_nm, OF at(2) team kind_written(2) kind_cong(2) team_back]
    section_back [where from_nm = team_port_from_nm, OF at(3) team_port kind_written(3) kind_cong(3) team_port_back]
    section_back [where from_nm = bridge_from_nm, OF at(4) bridge kind_written(4) kind_cong(4) bridge_back [OF ok]]
    section_back [where from_nm = bridge_port_from_nm, OF at(5) bridge_port kind_written(5) kind_cong(5) bridge_port_back [OF ok]]
    section_back [where from_nm = vlan_from_nm, OF at(6) vlan kind_written(6) kind_cong(6) vlan_back] section_back [where from_nm = ethernet_from_nm, OF at(7) ethernet kind_written(7) kind_cong(7) ethernet_back]
  have "(has_section ?r ''team-port'' \<or> slave_of ?r = JStr ''team'') = (has_section nm ''team-port'' \<or> slave_of nm = JStr ''team'')"
    "(has_section ?r ''bridge-port'' \<or> slave_of ?r = JStr ''bridge'') = (has_section nm ''bridge-port'' \<or> slave_of nm = JStr ''bridge'')"
    using again slave' by auto
  then show ?thesis unfolding kinds_from_nm_def by (simp only: again)
qed

section \<open>All of the settings\<close>

lemma connection_back:
  assumes "variants_ok nm" "oget R ''connection'' = oget (connection_to_nm (connection_from_nm unknown nm) nm) ''connection''"
  shows "connection_from_nm unknown R = connection_from_nm unknown nm" "slave_of R = slave_of nm"
proof -
  define w where "w = connection_to_nm (connection_from_nm unknown nm) nm"
  have get: "nm_get R ''connection'' k d = nm_get w ''connection'' k d" for k d using assms(2) by (simp add: nm_get_def w_def)
  have reads:
    "nm_get w ''connection'' ''type'' JUndef = nm_get nm ''connection'' ''type'' JUndef"
    "nm_get w ''connection'' ''uuid'' JUndef = nm_get nm ''connection'' ''uuid'' JUndef"
    "nm_get w ''connection'' ''interface-name'' JUndef = nm_get nm ''connection'' ''interface-name'' JUndef"
    "nm_get w ''connection'' ''timestamp'' (JNum 0) = nm_get nm ''connection'' ''timestamp'' (JNum 0)"
    "nm_get w ''connection'' ''id'' (JStr unknown) = nm_get nm ''connection'' ''id'' (JStr unknown)"
    "nm_get w ''connection'' ''autoconnect'' (JBool True) = nm_get nm ''connection'' ''autoconnect'' (JBool True)"
    "nm_get w ''connection'' ''autoconnect-slaves'' (JNum (-1)) = nm_get nm ''connection'' ''autoconnect-slaves'' (JNum (-1))"
    "nm_get w ''connection'' ''slave-type'' JUndef = nm_get nm ''connection'' ''slave-type'' JUndef"
    "nm_get w ''connection'' ''master'' JUndef = nm_get nm ''connection'' ''master'' JUndef"
    by (simp_all add: w_def connection_to_nm_def connection_from_nm_def Let_def nm_reads variants_get [OF assms(1)])
  show "connection_from_nm unknown R = connection_from_nm unknown nm" by (simp add: connection_from_nm_def Let_def get reads)
  show "slave_of R = slave_of nm" by (simp add: slave_of_def get reads)
qed

lemma master_back:
  assumes "variants_ok nm" "oget nm ''connection'' = Some c"
  obtains c' where "oget (connection_to_nm (connection_from_nm unknown nm) nm) ''connection'' = Some c'" "truthy (opt c' ''master'') \<longleftrightarrow> truthy (opt c ''master'')"
proof -
  have "nm_get nm ''connection'' ''master'' JUndef \<noteq> JUndef \<longleftrightarrow> truthy (opt c ''master'')"
    using assms variants_opt [OF assms] by (simp add: nm_get_def)
  moreover obtain c' where "oget (connection_to_nm (connection_from_nm unknown nm) nm) ''connection'' = Some c'"
    "opt c' ''master'' = (if nm_get nm ''connection'' ''master'' JUndef \<noteq> JUndef then variant ''s'' (nm_get nm ''connection'' ''master'' JUndef) else JUndef)"
    by (simp add: connection_to_nm_def connection_from_nm_def Let_def nm_sets_def nm_set_def)
  ultimately show ?thesis using that by (simp add: variant_def)
qed

text \<open>The settings that NetworkManager sends, by the types of its interface.\<close>

definition nm_ok :: "sections \<Rightarrow> bool" where
  "nm_ok nm \<longleftrightarrow> variants_ok nm \<and> has_section nm ''connection'' \<and>
     ip_ok nm ''ipv4'' ip4_address_ok ip4_route_ok u32_ok \<and> ip_ok nm ''ipv6'' ip6_address_ok ip6_route_ok ip6_ok"

lemma get_ip_cong: "oget r first = oget r' first \<Longrightarrow> get_ip r first a b d = get_ip r' first a b d"
proof -
  assume "oget r first = oget r' first"
  then have "nm_get r first = nm_get r' first" by (intro ext) (simp add: nm_get_def)
  then show ?thesis by (simp only: get_ip_def)
qed

lemma from_nm_parts:
  assumes "oget R ''connection'' = Some c" "truthy (opt c ''master'') \<longleftrightarrow> slave"
    and "\<not> slave \<Longrightarrow> get_ip R ''ipv4'' (ip4_address_from_nm bo) (ip4_route_from_nm bo) (ip4_text bo) = Inr ip4"
    and "\<not> slave \<Longrightarrow> get_ip R ''ipv6'' ip6_address_from_nm ip6_route_from_nm ip6_text = Inr ip6"
  shows "settings_from_nm bo unknown R =
    Inr ((''connection'', connection_from_nm unknown R) # (if slave then [] else [(''ipv4'', ip4), (''ipv6'', ip6)]) @ kinds_from_nm R)"
  using assms by (simp add: settings_from_nm_def ips_from_nm_def)

text \<open>C32: Settings that are read from NetworkManager and written back as they are read the same again: applying the settings of
  a connection without a change keeps what the pages show of it, for every kind of connection, with its addresses, name
  servers and routes going through their texts and back.  What NetworkManager sends is of the types of its interface; an
  IPv6 address has a prefix that is not 0.
\<close>

theorem settings_roundtrip:
  assumes "nm_ok nm"
  shows "\<exists>s nm'. settings_from_nm bo unknown nm = Inr s \<and> settings_to_nm bo s nm = Inr nm' \<and> settings_from_nm bo unknown nm' = Inr s"
proof -
  have ok: "variants_ok nm" using assms by (simp add: nm_ok_def)
  obtain c where c: "oget nm ''connection'' = Some c" using assms by (auto simp: nm_ok_def has_section_def)
  define slave where "slave \<longleftrightarrow> truthy (opt c ''master'')"
  let ?conn = "connection_from_nm unknown nm" and ?r0 = "connection_to_nm (connection_from_nm unknown nm) nm"
  have r0: "oget ?r0 f = oget nm f" if "f \<noteq> ''connection''" for f
    using that writes_sets by (simp add: connection_to_nm_def writes_def)
  obtain c' where c': "oget ?r0 ''connection'' = Some c'" "truthy (opt c' ''master'') \<longleftrightarrow> slave"
    using master_back [OF ok c, of unknown] unfolding slave_def by blast
  obtain ip4 r1 where v4: "get_ip nm ''ipv4'' (ip4_address_from_nm bo) (ip4_route_from_nm bo) (ip4_text bo) = Inr ip4"
    "set_ip ''ipv4'' ''aau'' (ip4_address_to_nm bo) ''aau'' (ip4_route_to_nm bo) ''au'' (ip4_num bo) ip4 ?r0 = Inr r1"
    "get_ip r1 ''ipv4'' (ip4_address_from_nm bo) (ip4_route_from_nm bo) (ip4_text bo) = Inr ip4" "\<And>f. f \<noteq> ''ipv4'' \<Longrightarrow> oget r1 f = oget ?r0 f"
    by (rule ip_back [of nm "''ipv4''" ip4_address_ok ip4_route_ok u32_ok "ip4_address_from_nm bo" "ip4_address_to_nm bo" "ip4_route_from_nm bo"
          "ip4_route_to_nm bo" "ip4_text bo" "ip4_num bo" ?r0 "''aau''" "''aau''" "''au''"])
      (use assms ok r0 ip4_address_back ip4_route_back ip4_text_both in \<open>simp_all add: nm_ok_def\<close>)
  obtain ip6 r2 where v6: "get_ip nm ''ipv6'' ip6_address_from_nm ip6_route_from_nm ip6_text = Inr ip6"
    "set_ip ''ipv6'' ''a(ayuay)'' ip6_address_to_nm ''a(ayuayu)'' ip6_route_to_nm ''aay'' ip6_bytes ip6 r1 = Inr r2"
    "get_ip r2 ''ipv6'' ip6_address_from_nm ip6_route_from_nm ip6_text = Inr ip6" "\<And>f. f \<noteq> ''ipv6'' \<Longrightarrow> oget r2 f = oget r1 f"
    by (rule ip_back [of nm "''ipv6''" ip6_address_ok ip6_route_ok ip6_ok ip6_address_from_nm ip6_address_to_nm ip6_route_from_nm
          ip6_route_to_nm ip6_text ip6_bytes r1 "''a(ayuay)''" "''a(ayuayu)''" "''aay''"])
      (use assms ok r0 v4(4) ip6_address_back ip6_route_back ip6_text_both in \<open>simp_all add: nm_ok_def\<close>)
  define r where "r = (if slave then odel (odel ?r0 ''ipv4'') ''ipv6'' else r2)"
  define s where "s = (''connection'', ?conn) # (if slave then [] else [(''ipv4'', ip4), (''ipv6'', ip6)]) @ kinds_from_nm nm"
  have from_nm: "settings_from_nm bo unknown nm = Inr s"
    unfolding s_def by (rule from_nm_parts [OF c slave_def [symmetric] v4(1) v6(1)])
  have to_nm: "settings_to_nm bo s nm = Inr (kinds_to_nm s r)"
    using v4(2) v6(2) by (simp add: settings_to_nm_def s_def r_def ip_to_nm_def oget_append oget_section_if kinds_from_nm_def)
  have rest: "\<forall>f. f \<notin> {''connection'', ''ipv4'', ''ipv6''} \<longrightarrow> oget r f = oget nm f"
    using r0 v4(4) v6(4) by (simp add: r_def)
  have conn: "oget r ''connection'' = oget ?r0 ''connection''" using v4(4) v6(4) by (simp add: r_def)
  note again = connection_back [OF ok conn]
  have kinds: "kinds_from_nm (kinds_to_nm s r) = kinds_from_nm nm"
    by (rule kinds_back [OF _ rest again(2) ok]) (auto simp: s_def oget_append split: option.splits)
  have other: "oget (kinds_to_nm s r) f = oget r f" if "f \<in> {''connection'', ''ipv4'', ''ipv6''}" for f
    using that by (auto intro: oget_kinds_to_nm_other)
  have "settings_from_nm bo unknown (kinds_to_nm s r) =
    Inr ((''connection'', connection_from_nm unknown (kinds_to_nm s r)) # (if slave then [] else [(''ipv4'', ip4), (''ipv6'', ip6)]) @ kinds_from_nm (kinds_to_nm s r))"
  proof (rule from_nm_parts)
    show "oget (kinds_to_nm s r) ''connection'' = Some c'" using other conn c'(1) by simp
    show "truthy (opt c' ''master'') \<longleftrightarrow> slave" by (rule c'(2))
    show "get_ip (kinds_to_nm s r) ''ipv4'' (ip4_address_from_nm bo) (ip4_route_from_nm bo) (ip4_text bo) = Inr ip4" if "\<not> slave"
      using that other v4(3) v6(4) get_ip_cong [of "kinds_to_nm s r" "''ipv4''" r1] by (simp add: r_def)
    show "get_ip (kinds_to_nm s r) ''ipv6'' ip6_address_from_nm ip6_route_from_nm ip6_text = Inr ip6" if "\<not> slave"
      using that other v6(3) get_ip_cong [of "kinds_to_nm s r" "''ipv6''" r2] by (simp add: r_def)
  qed
  moreover have "connection_from_nm unknown (kinds_to_nm s r) = ?conn"
    by (rule connection_back(1) [OF ok]) (use other conn in simp)
  ultimately have "settings_from_nm bo unknown (kinds_to_nm s r) = Inr s"
    by (simp only: kinds) (simp only: s_def)
  then show ?thesis using from_nm to_nm by blast
qed

definition sample_nm :: sections where
  "sample_nm = [(''connection'', [(''id'', variant ''s'' (JStr ''eth0''))]),
     (''ipv4'', [(''addresses'', variant ''aau'' (JArr [JArr [JNum 16777343, JNum 8, JNum 0]]))]),
     (''bridge'', [(''stp'', variant ''b'' (JBool False))])]"

theorem settings_roundtrip_witness:
  "\<exists>s nm'. settings_from_nm ''le'' ''Unknown'' sample_nm = Inr s \<and> settings_to_nm ''le'' s sample_nm = Inr nm' \<and>
     settings_from_nm ''le'' ''Unknown'' nm' = Inr s"
proof (rule settings_roundtrip)
  have "variants_ok sample_nm" by (auto simp: variants_ok_def sample_nm_def split: if_splits)
  then show "nm_ok sample_nm"
    by (simp add: nm_ok_def has_section_def ip_ok_def nm_get_def sample_nm_def variant_def list_ok_def ip4_address_ok_def u32_ok_def nat_ok_def)
qed

text \<open>
  The metric of an IPv6 route is read from the place of its prefix: writing settings that were not changed replaces the
  metric by the prefix.
\<close>

lemma ip6_metric_replaced:
  assumes "ip6_ok a" "0 \<le> n" "ip6_ok g" "m \<noteq> JNum n"
  shows "\<exists>t. ip6_route_from_nm (JArr [a, JNum n, g, m]) = Inr t \<and> ip6_route_to_nm t = Inr (JArr [a, JNum n, g, JNum n]) \<and>
    JArr [a, JNum n, g, JNum n] \<noteq> JArr [a, JNum n, g, m]"
  using ip6_route_there [OF assms(1-3), of m] assms(4) by (metis js.inject(4) list.inject)

text \<open>A prefix of 0 of an IPv6 address is written as 64.\<close>

lemma ip6_prefix_zero: "ip6_prefix_num (nat_str 0) = JNum 64"
  by (simp add: ip6_prefix_num_def parse_int_nat_str)

text \<open>The index of a name server is taken for the flag that lets an empty text stand for the address zero.\<close>

lemma dns_empty_by_place:
  "map_list (\<lambda>i. ip4_num ''le'' (0 < i)) (JArr [JStr ''1.0.0.0'', JStr '''']) = Inr (JArr [JNum 1, JNum 0])"
  "map_list (\<lambda>i. ip4_num ''le'' (0 < i)) (JArr [JStr '''']) = Inl (Invalid (InvalidAddress ''''))"
  by code_simp+

end
