(* ===== verification/Journal.thy ===== *)
theory Journal
  imports JSON_Codec L10n Format
begin

text \<open>
  The journal of \<open>pkg/lib/journal.js\<close>: running \<open>journalctl\<close> and reading the entries off its output (\<open>journalctl\<close>), and
  the renderer that shows entries as lines with day headers and reboot markers, collapses repeated lines, and can be
  extended at both ends.  How dates are written and how a template becomes markup are arguments.
\<close>

section \<open>The command\<close>

definition push_opt :: "options \<Rightarrow> string \<Rightarrow> string \<Rightarrow> string list" where
  "push_opt options key flag = (if truthy (opt options key) then [flag @ to_str (opt options key)] else [])"

definition journal_count :: "options \<Rightarrow> js" where
  "journal_count options =
     (if opt options ''count'' = JUndef then (if truthy (opt options ''follow'') then JNum 10 else JNull) else opt options ''count'')"

definition journal_command :: "options \<Rightarrow> string list \<Rightarrow> string list" where
  "journal_command options matches =
     [''journalctl'', ''-q'', ''--output=json''] @
     (if \<not> truthy (journal_count options) then [''--no-tail''] else [''--lines='' @ to_str (journal_count options)]) @
     push_opt options ''directory'' ''--directory='' @
     (if truthy (opt options ''boot'') then [''--boot='' @ to_str (opt options ''boot'')]
      else if opt options ''boot'' \<noteq> JUndef then [''--boot''] else []) @
     push_opt options ''since'' ''--since='' @ push_opt options ''until'' ''--until='' @
     push_opt options ''cursor'' ''--cursor='' @ push_opt options ''after'' ''--after='' @
     (if truthy (opt options ''reverse'') then [''--reverse'']
      else if truthy (opt options ''follow'') then [''--follow''] else []) @
     [''--''] @ matches"

text \<open>The arguments: texts and arrays of texts are matches; an object gives the options and ends the list.\<close>

fun journal_args :: "js list \<Rightarrow> string list \<Rightarrow> options \<Rightarrow> string list \<times> options" where
  "journal_args [] matches options = (matches, options)"
| "journal_args (arg # args) matches options =
     (case arg of
        JStr s \<Rightarrow> journal_args args (matches @ [s]) options
      | JArr xs \<Rightarrow> journal_args args (matches @ map to_str xs) options
      | JObj _ \<Rightarrow> (matches, JS_Value.extend options [arg])
      | JNull \<Rightarrow> (matches, options)
      | _ \<Rightarrow> journal_args args matches options)"

definition journalctl :: "js list \<Rightarrow> string list" where
  "journalctl args =
     (case journal_args args [] [(''follow'', JBool True)] of (matches, options) \<Rightarrow> journal_command options matches)"

section \<open>Its output\<close>

text \<open>\<open>jc_fired\<close> are the batches the streamers were called with; \<open>jc_result\<close> the entries the promise is resolved with.\<close>

record journal_run =
  jc_buffer :: string
  jc_entries :: "js list"
  jc_streamers :: nat
  jc_interval :: bool
  jc_fired :: "js list list"
  jc_result :: "(js + js list) option"

definition new_run :: journal_run where
  "new_run = \<lparr>jc_buffer = [], jc_entries = [], jc_streamers = 0, jc_interval = False, jc_fired = [], jc_result = None\<rparr>"

definition fire_streamers :: "journal_run \<Rightarrow> journal_run" where
  "fire_streamers jc =
     (if jc_streamers jc > 0 \<and> jc_entries jc \<noteq> []
      then jc\<lparr>jc_fired := jc_fired jc @ [jc_entries jc], jc_entries := []\<rparr>
      else jc\<lparr>jc_interval := False\<rparr>)"

text \<open>A complete line is an entry, unless it is empty, a comment, or not JSON.\<close>

definition line_entry :: "string \<Rightarrow> js option" where
  "line_entry line = (if line = [] \<or> starts_with ''-- '' line then None else json_parse line)"

definition journal_data :: "string \<Rightarrow> journal_run \<Rightarrow> journal_run" where
  "journal_data data jc =
     (let lines = split_on (CHR 0x0A) (jc_buffer jc @ data);
          jc = jc\<lparr>jc_buffer := List.last lines, jc_entries := jc_entries jc @ List.map_filter line_entry (butlast lines)\<rparr>
      in if jc_streamers jc > 0 \<and> \<not> jc_interval jc then jc\<lparr>jc_interval := True\<rparr> else jc)"

definition journal_done :: "journal_run \<Rightarrow> journal_run" where
  "journal_done jc =
     (let jc = fire_streamers jc in jc\<lparr>jc_result := Some (Inr (jc_entries jc)), jc_interval := False\<rparr>)"

definition journal_fail :: "js \<Rightarrow> journal_run \<Rightarrow> journal_run" where
  "journal_fail ex jc =
     (if fld ex ''problem'' = JStr ''cancelled'' \<or> fld ex ''exit_status'' = JNum 1 then journal_done jc
      else jc\<lparr>jc_result := Some (Inl ex), jc_interval := False\<rparr>)"

definition journal_stream :: "journal_run \<Rightarrow> journal_run" where
  "journal_stream jc = jc\<lparr>jc_streamers := Suc (jc_streamers jc)\<rparr>"

section \<open>Entries\<close>

definition printable :: "po_state \<Rightarrow> js \<Rightarrow> js" where
  "printable po v =
     (case v of
        JUndef \<Rightarrow> gettext [] ''[no data]'' po
      | JNull \<Rightarrow> gettext [] ''[no data]'' po
      | JStr s \<Rightarrow> JStr s
      | JArr xs \<Rightarrow> JStr (format (list_args [JNum (int (length xs))]) (to_str (gettext [] ''[$0 bytes of binary data]'' po)))
      | JObj kvs \<Rightarrow> (if opt kvs ''length'' \<noteq> JUndef
          then JStr (format (list_args [opt kvs ''length'']) (to_str (gettext [] ''[$0 bytes of binary data]'' po)))
          else gettext [] ''[binary data]'' po)
      | _ \<Rightarrow> gettext [] ''[binary data]'' po)"

record jentry =
  je_full :: js
  je_day :: string
  je_time :: string
  je_bootid :: js
  je_ident :: js
  je_prio :: js
  je_message :: js

text \<open>\<open>format_entry\<close>; the day and the time of a timestamp in the zone of the browser are arguments.\<close>

definition format_entry :: "po_state \<Rightarrow> (js \<Rightarrow> string) \<Rightarrow> (js \<Rightarrow> string) \<Rightarrow> js \<Rightarrow> jentry" where
  "format_entry po day_of time_of entry =
     \<lparr>je_full = entry, je_day = day_of (fld entry ''__REALTIME_TIMESTAMP''), je_time = time_of (fld entry ''__REALTIME_TIMESTAMP''),
      je_bootid = fld entry ''_BOOT_ID'',
      je_ident = (if truthy (fld entry ''SYSLOG_IDENTIFIER'') then fld entry ''SYSLOG_IDENTIFIER'' else fld entry ''_COMM''),
      je_prio = fld entry ''PRIORITY'', je_message = printable po (fld entry ''MESSAGE'')\<rparr>"

definition entry_is_equal :: "jentry \<Rightarrow> jentry \<Rightarrow> bool" where
  "entry_is_equal a b \<longleftrightarrow> je_day a = je_day b \<and> je_bootid a = je_bootid b \<and> je_ident a = je_ident b \<and>
     je_prio a = je_prio b \<and> je_message a = je_message b"

section \<open>The renderer\<close>

text \<open>What is handed to the output functions.\<close>

datatype rendered = Line js js js nat string js | DayHeader string | RebootMark

text \<open>The state of the first or the last line.\<close>

record line_state =
  ls_entry :: "jentry option"
  ls_count :: nat
  ls_first_time :: string
  ls_last_time :: string
  ls_line_present :: bool
  ls_header_present :: bool

text \<open>As long as there is one line, \<open>top_state\<close> and \<open>bottom_state\<close> are the same object (\<open>rn_same\<close>).\<close>

record renderer =
  rn_same :: bool
  rn_top :: line_state
  rn_bottom :: line_state
  rn_box :: "rendered list"

definition blank_state :: line_state where
  "blank_state = \<lparr>ls_entry = None, ls_count = 0, ls_first_time = [], ls_last_time = [], ls_line_present = False, ls_header_present = False\<rparr>"

definition new_renderer :: renderer where
  "new_renderer = \<lparr>rn_same = True, rn_top = blank_state, rn_bottom = blank_state, rn_box = []\<rparr>"

definition set_top :: "line_state \<Rightarrow> renderer \<Rightarrow> renderer" where
  "set_top s rn = (if rn_same rn then rn\<lparr>rn_top := s, rn_bottom := s\<rparr> else rn\<lparr>rn_top := s\<rparr>)"

definition set_bottom :: "line_state \<Rightarrow> renderer \<Rightarrow> renderer" where
  "set_bottom s rn = (if rn_same rn then rn\<lparr>rn_top := s, rn_bottom := s\<rparr> else rn\<lparr>rn_bottom := s\<rparr>)"

text \<open>The output functions of a box.\<close>

definition box_append :: "rendered \<Rightarrow> renderer \<Rightarrow> renderer" where
  "box_append x rn = rn\<lparr>rn_box := rn_box rn @ [x]\<rparr>"

definition box_prepend :: "rendered \<Rightarrow> renderer \<Rightarrow> renderer" where
  "box_prepend x rn = rn\<lparr>rn_box := x # rn_box rn\<rparr>"

definition remove_last :: "renderer \<Rightarrow> renderer" where
  "remove_last rn = rn\<lparr>rn_box := butlast (rn_box rn)\<rparr>"

definition remove_first :: "renderer \<Rightarrow> renderer" where
  "remove_first rn = rn\<lparr>rn_box := tl (rn_box rn)\<rparr>"

definition render_state_line :: "line_state \<Rightarrow> jentry \<Rightarrow> rendered" where
  "render_state_line s e = Line (je_ident e) (je_prio e) (je_message e) (ls_count s) (ls_last_time s) (je_full e)"

definition start_new_line :: "renderer \<Rightarrow> renderer" where
  "start_new_line rn =
     (if rn_same rn \<and> ls_entry (rn_top rn) \<noteq> None then rn\<lparr>rn_same := False, rn_top := rn_bottom rn\<rparr> else rn)"

definition top_output :: "renderer \<Rightarrow> renderer" where
  "top_output rn =
     (let rn = (if ls_header_present (rn_top rn) then set_top ((rn_top rn)\<lparr>ls_header_present := False\<rparr>) (remove_first rn) else rn);
          rn = (if ls_line_present (rn_top rn) then set_top ((rn_top rn)\<lparr>ls_line_present := False\<rparr>) (remove_first rn) else rn)
      in case ls_entry (rn_top rn) of
           None \<Rightarrow> rn
         | Some e \<Rightarrow> set_top ((rn_top rn)\<lparr>ls_line_present := True\<rparr>) (box_prepend (render_state_line (rn_top rn) e) rn))"

definition bottom_output :: "renderer \<Rightarrow> renderer" where
  "bottom_output rn =
     (let rn = (if ls_line_present (rn_bottom rn) then set_bottom ((rn_bottom rn)\<lparr>ls_line_present := False\<rparr>) (remove_last rn) else rn)
      in case ls_entry (rn_bottom rn) of
           None \<Rightarrow> rn
         | Some e \<Rightarrow> set_bottom ((rn_bottom rn)\<lparr>ls_line_present := True\<rparr>) (box_append (render_state_line (rn_bottom rn) e) rn))"

text \<open>The fields of a state that begins a line.\<close>

definition begin_line :: "jentry \<Rightarrow> line_state \<Rightarrow> line_state" where
  "begin_line e s = s\<lparr>ls_entry := Some e, ls_count := 1, ls_first_time := je_time e, ls_last_time := je_time e, ls_line_present := False\<rparr>"

definition prepend :: "jentry \<Rightarrow> renderer \<Rightarrow> renderer" where
  "prepend e rn =
     (if (case ls_entry (rn_top rn) of None \<Rightarrow> False | Some t \<Rightarrow> entry_is_equal t e)
      then set_top ((rn_top rn)\<lparr>ls_count := ls_count (rn_top rn) + 1, ls_first_time := je_time e\<rparr>) rn
      else
        let rn = top_output rn;
            rn = (case ls_entry (rn_top rn) of
                    None \<Rightarrow> rn
                  | Some t \<Rightarrow>
                      let rn = (if je_bootid e \<noteq> je_bootid t then box_prepend RebootMark rn else rn)
                      in if je_day e \<noteq> je_day t then box_prepend (DayHeader (je_day t)) rn else rn);
            rn = start_new_line rn
        in set_top (begin_line e (rn_top rn)) rn)"

definition prepend_flush :: "renderer \<Rightarrow> renderer" where
  "prepend_flush rn =
     (let rn = top_output rn
      in case ls_entry (rn_top rn) of
           None \<Rightarrow> rn
         | Some t \<Rightarrow> set_top ((rn_top rn)\<lparr>ls_header_present := True\<rparr>) (box_prepend (DayHeader (je_day t)) rn))"

definition append_entry :: "jentry \<Rightarrow> renderer \<Rightarrow> renderer" where
  "append_entry e rn =
     (if (case ls_entry (rn_bottom rn) of None \<Rightarrow> False | Some b \<Rightarrow> entry_is_equal b e)
      then set_bottom ((rn_bottom rn)\<lparr>ls_count := ls_count (rn_bottom rn) + 1, ls_last_time := je_time e\<rparr>) rn
      else
        let rn = bottom_output rn;
            rn = (if (case ls_entry (rn_bottom rn) of None \<Rightarrow> True | Some b \<Rightarrow> je_day e \<noteq> je_day b)
                  then set_bottom ((rn_bottom rn)\<lparr>ls_header_present := True\<rparr>) (box_append (DayHeader (je_day e)) rn) else rn);
            rn = (if (case ls_entry (rn_bottom rn) of None \<Rightarrow> False | Some b \<Rightarrow> je_bootid e \<noteq> je_bootid b)
                  then box_append RebootMark rn else rn);
            rn = start_new_line rn
        in set_bottom (begin_line e (rn_bottom rn)) rn)"

definition append_flush :: "renderer \<Rightarrow> renderer" where
  "append_flush rn = bottom_output rn"

text \<open>The values the template of a line is rendered with; a priority is a number or a text of one digit.\<close>

definition line_parts :: "rendered \<Rightarrow> options" where
  "line_parts x =
     (case x of
        Line ident prio message n time full \<Rightarrow>
          let parts = [(''cursor'', fld full ''__CURSOR''), (''time'', JStr time), (''message'', message), (''service'', ident)];
              parts = (if n > 1 then oset parts ''count'' (JNum (int n)) else parts)
          in if ident = JStr ''abrt-notification''
             then oset (oset parts ''problem'' (JBool True)) ''service'' (fld full ''PROBLEM_BINARY'')
             else if (case prio of JNum p \<Rightarrow> p < 4 | JStr s \<Rightarrow> s \<in> set [[], ''0'', ''1'', ''2'', ''3'']
                 | JNull \<Rightarrow> True | JBool _ \<Rightarrow> True | _ \<Rightarrow> False)
             then oset parts ''warning'' (JBool True) else parts
      | _ \<Rightarrow> [])"

section \<open>The log box\<close>

text \<open>\<open>render\<close>: all entries, in the order of the box from its end.\<close>

definition logbox_render :: "jentry list \<Rightarrow> rendered list" where
  "logbox_render entries = rn_box (prepend_flush (fold prepend entries new_renderer))"

text \<open>What is kept when entries arrive; \<open>slice(-0)\<close> keeps everything.\<close>

definition logbox_tail :: "nat \<Rightarrow> jentry list \<Rightarrow> jentry list \<Rightarrow> jentry list" where
  "logbox_tail max_entries entries tail =
     (let entries = entries @ tail
      in if length entries > max_entries \<and> max_entries > 0 then drop (length entries - max_entries) entries else entries)"


section \<open>Entries do not depend on how the output is cut\<close>

lemma split_on_append_last:
  "split_on c (xs @ ys) = butlast (split_on c xs) @ split_on c (List.last (split_on c xs) @ ys)"
proof (induction xs)
  case (Cons x xs)
  obtain p ps where ps: "split_on c xs = p # ps" by (cases "split_on c xs") auto
  show ?case
  proof (cases "x = c")
    case True
    then show ?thesis using Cons by simp
  next
    case False
    then show ?thesis using Cons ps by (cases ps) auto
  qed
qed simp

text \<open>What happens while the command runs: output, the timer of the streamers, a new streamer.\<close>

datatype journal_event = JData string | JTimer | JStream

fun journal_exec :: "journal_event \<Rightarrow> journal_run \<Rightarrow> journal_run" where
  "journal_exec (JData s) jc = journal_data s jc"
| "journal_exec JTimer jc = fire_streamers jc"
| "journal_exec JStream jc = journal_stream jc"

fun output_of :: "journal_event list \<Rightarrow> string" where
  "output_of [] = []"
| "output_of (JData s # es) = s @ output_of es"
| "output_of (_ # es) = output_of es"

lemma output_of_append [simp]: "output_of (xs @ ys) = output_of xs @ output_of ys"
  by (induction xs rule: output_of.induct) auto

definition line_entries :: "string \<Rightarrow> js list" where
  "line_entries s = List.map_filter line_entry (butlast (split_on (CHR 0x0A) s))"

lemma split_on_ne [simp]: "split_on c s \<noteq> []"
  by (induction s) (auto split: list.split)

lemma journal_run_entries:
  "let jc = fold journal_exec es new_run
   in concat (jc_fired jc) @ jc_entries jc = line_entries (output_of es) \<and> jc_buffer jc = List.last (split_on (CHR 0x0A) (output_of es))"
proof (induction es rule: rev_induct)
  case Nil
  show ?case by (simp add: new_run_def line_entries_def List.map_filter_def)
next
  case (snoc e es)
  show ?case
  proof (cases e)
    case (JData s)
    let ?jc = "fold journal_exec es new_run"
    have cut: "split_on (CHR 0x0A) (output_of es @ s) =
      butlast (split_on (CHR 0x0A) (output_of es)) @ split_on (CHR 0x0A) (jc_buffer ?jc @ s)"
      using snoc by (simp add: split_on_append_last [of _ "output_of es"] Let_def)
    show ?thesis
      using snoc unfolding JData Let_def
      by (simp add: journal_data_def Let_def cut line_entries_def butlast_append List.map_filter_def)
  qed (use snoc in \<open>simp_all add: fire_streamers_def journal_stream_def Let_def\<close>)
qed

text \<open>C25: However the output of the command is cut into pieces, and whenever streamers are added and called, the entries they
  are called with and those the promise is resolved with are together the entries of the complete lines of the output,
  in order.
\<close>

theorem journal_entries_complete:
  "\<exists>rest. jc_result (journal_done (fold journal_exec es new_run)) = Some (Inr rest) \<and>
     concat (jc_fired (journal_done (fold journal_exec es new_run))) @ rest = line_entries (output_of es) \<and>
     (if JStream \<in> set es then rest = [] else jc_fired (journal_done (fold journal_exec es new_run)) = [])"
proof -
  let ?jc = "fold journal_exec es new_run"
  have "(jc_streamers ?jc > 0 \<longleftrightarrow> JStream \<in> set es) \<and> (JStream \<notin> set es \<longrightarrow> jc_fired ?jc = [])"
  proof (induction es rule: rev_induct)
    case (snoc e es)
    then show ?case
      by (cases e) (auto simp: journal_data_def fire_streamers_def journal_stream_def Let_def)
  qed (simp add: new_run_def)
  then show ?thesis
    using journal_run_entries [of es] by (auto simp: journal_done_def fire_streamers_def Let_def)
qed

section \<open>What the renderer is to show\<close>

text \<open>The lines: an entry, how many there are of it, and the time of the last of them.\<close>

record jline =
  jl_entry :: jentry
  jl_count :: nat
  jl_last :: string

definition new_line :: "jentry \<Rightarrow> jline" where
  "new_line e = \<lparr>jl_entry = e, jl_count = 1, jl_last = je_time e\<rparr>"

definition lines_append :: "jentry \<Rightarrow> jline list \<Rightarrow> jline list" where
  "lines_append e ls =
     (if ls \<noteq> [] \<and> entry_is_equal (jl_entry (List.last ls)) e
      then butlast ls @ [(List.last ls)\<lparr>jl_count := jl_count (List.last ls) + 1, jl_last := je_time e\<rparr>]
      else ls @ [new_line e])"

definition lines_prepend :: "jentry \<Rightarrow> jline list \<Rightarrow> jline list" where
  "lines_prepend e ls =
     (if ls \<noteq> [] \<and> entry_is_equal (jl_entry (hd ls)) e
      then (hd ls)\<lparr>jl_count := jl_count (hd ls) + 1\<rparr> # tl ls
      else new_line e # ls)"

definition show_line :: "jline \<Rightarrow> rendered" where
  "show_line l = Line (je_ident (jl_entry l)) (je_prio (jl_entry l)) (je_message (jl_entry l)) (jl_count l) (jl_last l) (je_full (jl_entry l))"

text \<open>Between two lines: the header of a new day, and a marker when the machine was started again.\<close>

definition between :: "jline \<Rightarrow> jline \<Rightarrow> rendered list" where
  "between a b =
     (if je_day (jl_entry b) \<noteq> je_day (jl_entry a) then [DayHeader (je_day (jl_entry b))] else []) @
     (if je_bootid (jl_entry b) \<noteq> je_bootid (jl_entry a) then [RebootMark] else [])"

fun show_lines :: "jline list \<Rightarrow> rendered list" where
  "show_lines [] = []"
| "show_lines [l] = [show_line l]"
| "show_lines (l # m # ls) = show_line l # between l m @ show_lines (m # ls)"

definition layout :: "jline list \<Rightarrow> rendered list" where
  "layout ls = (case ls of [] \<Rightarrow> [] | l # _ \<Rightarrow> DayHeader (je_day (jl_entry l)) # show_lines ls)"

text \<open>What is between the first line and the last one.\<close>

fun inner :: "jline list \<Rightarrow> rendered list" where
  "inner (l # m # ls) = between l m @ (if ls = [] then [] else show_line m # inner (m # ls))"
| "inner _ = []"

lemma show_lines_inner:
  "show_lines (l # ls) = show_line l # (if ls = [] then [] else inner (l # ls) @ [show_line (List.last ls)])"
  by (induction ls arbitrary: l) auto

lemma between_cong: "jl_entry a = jl_entry a' \<Longrightarrow> jl_entry b = jl_entry b' \<Longrightarrow> between a b = between a' b'"
  by (simp add: between_def)

lemma inner_hd: "jl_entry l = jl_entry l' \<Longrightarrow> inner (l # ls) = inner (l' # ls)"
  by (cases ls) (auto intro: between_cong)

lemma inner_last: "ls \<noteq> [] \<Longrightarrow> jl_entry l = jl_entry l' \<Longrightarrow> inner (ls @ [l]) = inner (ls @ [l'])"
proof (induction ls rule: inner.induct)
  case (1 a b ls)
  then show ?case by (cases ls) (auto intro: between_cong)
qed (auto intro: between_cong)

lemma inner_snoc: "ls \<noteq> [] \<Longrightarrow> inner (ls @ [a, b]) = inner (ls @ [a]) @ show_line a # between a b"
proof (induction ls rule: inner.induct)
  case (1 l m ls)
  then show ?case by (cases ls) auto
qed auto

section \<open>The renderer shows it\<close>

definition showing :: "line_state \<Rightarrow> jline \<Rightarrow> bool" where
  "showing s l \<longleftrightarrow> ls_entry s = Some (jl_entry l) \<and> ls_count s = jl_count l \<and> ls_last_time s = jl_last l"

definition header_part :: "line_state \<Rightarrow> jline \<Rightarrow> rendered list" where
  "header_part s l = (if ls_header_present s then [DayHeader (je_day (jl_entry l))] else [])"

definition line_part :: "line_state \<Rightarrow> rendered \<Rightarrow> rendered list" where
  "line_part s x = (if ls_line_present s then [x] else [])"

text \<open>
  The state for the lines so far.  The first and the last line may be missing from the box or be there in an older form.
\<close>

definition rn_inv :: "renderer \<Rightarrow> jline list \<Rightarrow> bool" where
  "rn_inv rn ls \<longleftrightarrow>
     (case ls of
        [] \<Rightarrow> rn = new_renderer
      | [l] \<Rightarrow> rn_same rn \<and> rn_bottom rn = rn_top rn \<and> showing (rn_top rn) l \<and>
          (\<exists>x. rn_box rn = header_part (rn_top rn) l @ line_part (rn_top rn) x)
      | l # _ \<Rightarrow> \<not> rn_same rn \<and> showing (rn_top rn) l \<and> showing (rn_bottom rn) (List.last ls) \<and>
          (\<exists>x y. rn_box rn = header_part (rn_top rn) l @ line_part (rn_top rn) x @ inner ls @ line_part (rn_bottom rn) y))"


lemma rn_inv_two:
  "ls \<noteq> [] \<Longrightarrow> rn_inv rn (l # ls) \<longleftrightarrow>
     \<not> rn_same rn \<and> showing (rn_top rn) l \<and> showing (rn_bottom rn) (List.last ls) \<and>
     (\<exists>x y. rn_box rn = header_part (rn_top rn) l @ line_part (rn_top rn) x @ inner (l # ls) @ line_part (rn_bottom rn) y)"
  by (cases ls) (simp_all add: rn_inv_def)

lemma rn_inv_one:
  "rn_inv rn [l] \<longleftrightarrow> rn_same rn \<and> rn_bottom rn = rn_top rn \<and> showing (rn_top rn) l \<and>
     (\<exists>x. rn_box rn = header_part (rn_top rn) l @ line_part (rn_top rn) x)"
  by (simp add: rn_inv_def)

lemmas box_defs = box_append_def box_prepend_def remove_first_def remove_last_def set_top_def set_bottom_def
lemmas part_defs = header_part_def line_part_def showing_def render_state_line_def show_line_def

text \<open>Writing the first line: it is there with its current numbers, and there is no header above it.\<close>

lemma top_output_one:
  assumes "rn_inv rn [l]"
  shows "rn_inv (top_output rn) [l]" "rn_box (top_output rn) = [show_line l]"
    "ls_line_present (rn_top (top_output rn))" "\<not> ls_header_present (rn_top (top_output rn))"
  using assms unfolding rn_inv_one
  by (cases "ls_header_present (rn_top rn)"; cases "ls_line_present (rn_top rn)";
      auto simp: top_output_def Let_def box_defs part_defs)+

lemma top_output_two:
  assumes "rn_inv rn (l # ls)" "ls \<noteq> []"
  shows "rn_inv (top_output rn) (l # ls)" "\<exists>y. rn_box (top_output rn) = show_line l # inner (l # ls) @ line_part (rn_bottom rn) y"
    "ls_line_present (rn_top (top_output rn))" "\<not> ls_header_present (rn_top (top_output rn))" "rn_bottom (top_output rn) = rn_bottom rn"
  using assms(1) unfolding rn_inv_two [OF assms(2)]
  by (cases "ls_header_present (rn_top rn)"; cases "ls_line_present (rn_top rn)";
      auto simp: top_output_def Let_def box_defs part_defs)+

lemma bottom_output_one:
  assumes "rn_inv rn [l]"
  shows "rn_inv (bottom_output rn) [l]" "rn_box (bottom_output rn) = header_part (rn_top rn) l @ [show_line l]"
    "ls_line_present (rn_top (bottom_output rn))" "ls_header_present (rn_top (bottom_output rn)) = ls_header_present (rn_top rn)"
  using assms unfolding rn_inv_one
  by (cases "ls_header_present (rn_top rn)"; cases "ls_line_present (rn_top rn)";
      auto simp: bottom_output_def Let_def box_defs part_defs)+

lemma bottom_output_two:
  assumes "rn_inv rn (l # ls)" "ls \<noteq> []"
  shows "rn_inv (bottom_output rn) (l # ls)"
    "\<exists>x. rn_box (bottom_output rn) = header_part (rn_top rn) l @ line_part (rn_top rn) x @ inner (l # ls) @ [show_line (List.last ls)]"
    "ls_line_present (rn_bottom (bottom_output rn))" "rn_top (bottom_output rn) = rn_top rn"
  using assms(1) unfolding rn_inv_two [OF assms(2)]
  by (cases "ls_line_present (rn_bottom rn)"; force simp: bottom_output_def Let_def box_defs part_defs butlast_append)+


lemma rn_inv_entries:
  "rn_inv rn (l # ls) \<Longrightarrow> ls_entry (rn_top rn) = Some (jl_entry l)" "rn_inv rn (ls @ [l]) \<Longrightarrow> ls_entry (rn_bottom rn) = Some (jl_entry l)"
proof -
  show "rn_inv rn (l # ls) \<Longrightarrow> ls_entry (rn_top rn) = Some (jl_entry l)"
    by (cases "ls = []") (auto simp: rn_inv_one rn_inv_two showing_def)
  show "rn_inv rn (ls @ [l]) \<Longrightarrow> ls_entry (rn_bottom rn) = Some (jl_entry l)"
    by (cases ls) (auto simp: rn_inv_one rn_inv_two showing_def)
qed

lemma output_inv:
  assumes "rn_inv rn ls"
  shows "rn_inv (top_output rn) ls" "rn_inv (bottom_output rn) ls"
proof -
  have blank: "top_output new_renderer = new_renderer" "bottom_output new_renderer = new_renderer"
    by (simp_all add: top_output_def bottom_output_def new_renderer_def blank_state_def)
  consider "ls = []" | l where "ls = [l]" | l ls' where "ls = l # ls'" "ls' \<noteq> []"
    by (cases ls; cases "tl ls") auto
  then have "rn_inv (top_output rn) ls \<and> rn_inv (bottom_output rn) ls"
  proof cases
    case 1
    then show ?thesis using assms blank by (simp add: rn_inv_def)
  qed (use assms top_output_one(1) bottom_output_one(1) top_output_two(1) bottom_output_two(1) in auto)
  then show "rn_inv (top_output rn) ls" "rn_inv (bottom_output rn) ls" by auto
qed

lemma prepend_inv:
  assumes "rn_inv rn ls"
  shows "rn_inv (prepend e rn) (lines_prepend e ls)"
proof (cases ls)
  case Nil
  then show ?thesis
    using assms by (simp add: rn_inv_def new_renderer_def blank_state_def prepend_def lines_prepend_def top_output_def start_new_line_def
        begin_line_def new_line_def box_defs part_defs)
next
  case (Cons l ls')
  have entry: "ls_entry (rn_top rn) = Some (jl_entry l)"
    using assms Cons rn_inv_entries(1) by blast
  show ?thesis
  proof (cases "entry_is_equal (jl_entry l) e")
    case True
    then have p: "prepend e rn = set_top ((rn_top rn)\<lparr>ls_count := ls_count (rn_top rn) + 1, ls_first_time := je_time e\<rparr>) rn"
      by (simp add: prepend_def entry)
    show ?thesis
    proof (cases "ls' = []")
      case one: True
      then show ?thesis
        using assms Cons True unfolding p by (auto simp: rn_inv_one lines_prepend_def set_top_def part_defs)
    next
      case False
      let ?l = "l\<lparr>jl_count := jl_count l + 1\<rparr>"
      have "inner (?l # ls') = inner (l # ls')" by (rule inner_hd) simp
      then show ?thesis
        using assms Cons True False unfolding p
        by (auto simp: rn_inv_two [OF False] lines_prepend_def set_top_def part_defs)
    qed
  next
    case False
    let ?rn = "top_output rn"
    have entry': "ls_entry (rn_top ?rn) = Some (jl_entry l)"
      using output_inv(1) [OF assms] rn_inv_entries(1) Cons by blast
    have box: "rn_box (prepend e rn) = between (new_line e) l @ rn_box ?rn"
      using False by (auto simp: prepend_def entry entry' Let_def between_def new_line_def start_new_line_def box_defs)
    have top: "rn_top (prepend e rn) = begin_line e (if rn_same ?rn then rn_bottom ?rn else rn_top ?rn)" "\<not> rn_same (prepend e rn)"
      "rn_bottom (prepend e rn) = rn_bottom ?rn"
      using False by (auto simp: prepend_def entry entry' Let_def start_new_line_def box_defs)
    have new: "lines_prepend e ls = new_line e # l # ls'"
      using False Cons by (simp add: lines_prepend_def)
    show ?thesis
    proof (cases "ls' = []")
      case True
      then show ?thesis
        using top_output_one [of rn l] assms Cons top unfolding new
        by (auto simp: rn_inv_two rn_inv_one box part_defs begin_line_def new_line_def)
    next
      case two: False
      then show ?thesis
        using top_output_two [OF _ two, of rn l] assms Cons top unfolding new
        by (auto simp: rn_inv_two box part_defs begin_line_def new_line_def)
    qed
  qed
qed

text \<open>
  Appending an entry of another day below a single line that has no header yet marks that line as having one.
\<close>

definition safe_append :: "jentry \<Rightarrow> renderer \<Rightarrow> bool" where
  "safe_append e rn \<longleftrightarrow>
     \<not> (rn_same rn \<and> \<not> ls_header_present (rn_top rn) \<and> (case ls_entry (rn_top rn) of None \<Rightarrow> False | Some t \<Rightarrow> je_day t \<noteq> je_day e))"

lemma append_inv:
  assumes "rn_inv rn ls" "safe_append e rn"
  shows "rn_inv (append_entry e rn) (lines_append e ls)"
proof (cases ls rule: rev_cases)
  case Nil
  then show ?thesis
    using assms by (simp add: rn_inv_def new_renderer_def blank_state_def append_entry_def lines_append_def bottom_output_def start_new_line_def
        begin_line_def new_line_def box_defs part_defs)
next
  case (snoc ls' l)
  have entry: "ls_entry (rn_bottom rn) = Some (jl_entry l)"
    using assms(1) snoc rn_inv_entries(2) by blast
  show ?thesis
  proof (cases "entry_is_equal (jl_entry l) e")
    case True
    then have p: "append_entry e rn = set_bottom ((rn_bottom rn)\<lparr>ls_count := ls_count (rn_bottom rn) + 1, ls_last_time := je_time e\<rparr>) rn"
      by (simp add: append_entry_def entry)
    let ?l = "l\<lparr>jl_count := jl_count l + 1, jl_last := je_time e\<rparr>"
    have new: "lines_append e ls = ls' @ [?l]"
      using True snoc by (simp add: lines_append_def)
    show ?thesis
    proof (cases ls')
      case one: Nil
      then show ?thesis
        using assms(1) snoc unfolding p new by (auto simp: rn_inv_one set_bottom_def part_defs)
    next
      case (Cons a as)
      have "inner (ls' @ [?l]) = inner (ls' @ [l])" using Cons by (intro inner_last) simp_all
      then show ?thesis
        using assms(1) snoc Cons unfolding p new
        by (auto simp: rn_inv_two set_bottom_def part_defs)
    qed
  next
    case False
    let ?rn = "bottom_output rn"
    have entry': "ls_entry (rn_bottom ?rn) = Some (jl_entry l)"
      using output_inv(2) [OF assms(1)] rn_inv_entries(2) snoc by blast
    have new: "lines_append e ls = ls' @ [l, new_line e]"
      using False snoc by (simp add: lines_append_def)
    have box: "rn_box (append_entry e rn) = rn_box ?rn @ between l (new_line e)"
      using False by (auto simp: append_entry_def entry entry' Let_def between_def new_line_def start_new_line_def box_defs)
    have "ls_entry (rn_top ?rn) \<noteq> None"
      using output_inv(2) [OF assms(1)] rn_inv_entries(1) [of ?rn "hd ls" "tl ls"] snoc by (cases ls') auto
    then have same: "\<not> rn_same (append_entry e rn)"
      "showing (rn_bottom (append_entry e rn)) (new_line e)" "\<not> ls_line_present (rn_bottom (append_entry e rn))"
      using False by (auto simp: append_entry_def entry entry' Let_def start_new_line_def box_defs begin_line_def showing_def new_line_def)
    show ?thesis
    proof (cases ls')
      case Nil
      note one = bottom_output_one [of rn l]
      have "rn_inv ?rn [l]" using output_inv(2) [OF assms(1)] snoc Nil by simp
      then have "rn_same ?rn" "rn_bottom ?rn = rn_top ?rn" "showing (rn_top ?rn) l" by (simp_all add: rn_inv_one)
      then have top: "showing (rn_top (append_entry e rn)) l" "ls_line_present (rn_top (append_entry e rn)) = ls_line_present (rn_top ?rn)"
        "ls_header_present (rn_top (append_entry e rn)) = (ls_header_present (rn_top ?rn) \<or> je_day e \<noteq> je_day (jl_entry l))"
        using False by (auto simp: append_entry_def entry Let_def start_new_line_def box_defs showing_def)
      have "je_day e \<noteq> je_day (jl_entry l) \<Longrightarrow> ls_header_present (rn_top rn)"
        using assms snoc Nil by (auto simp: safe_append_def rn_inv_one showing_def)
      then show ?thesis
        using one(2-4) assms(1) snoc Nil same unfolding new
        by (auto simp: rn_inv_two box top header_part_def line_part_def)
    next
      case (Cons a as)
      note two = bottom_output_two [of rn a "as @ [l]"]
      have top: "rn_top (append_entry e rn) = rn_top rn"
        using False two(1,4) assms(1) snoc Cons by (auto simp: append_entry_def entry entry' Let_def start_new_line_def box_defs rn_inv_two)
      show ?thesis
        using two assms(1) snoc Cons same inner_snoc [of ls' l "new_line e"] unfolding new
        by (auto simp: rn_inv_two box top header_part_def line_part_def)
    qed
  qed
qed


text \<open>Everything below the first line is left alone when that is written.\<close>

lemma top_output_rest:
  assumes "rn_inv rn (l # ls)" "ls \<noteq> []" "rn_box rn = header_part (rn_top rn) l @ line_part (rn_top rn) x @ rest"
  shows "rn_box (top_output rn) = show_line l # rest"
  using assms(1,3) unfolding rn_inv_two [OF assms(2)]
  by (cases "ls_header_present (rn_top rn)"; cases "ls_line_present (rn_top rn)")
     (auto simp: top_output_def Let_def box_defs part_defs)

lemma prepend_flush_box:
  assumes "rn_inv rn (l # ls)"
  shows "rn_box (prepend_flush rn) = DayHeader (je_day (jl_entry l)) # rn_box (top_output rn)"
  using rn_inv_entries(1) [OF output_inv(1) [OF assms]] by (simp add: prepend_flush_def Let_def box_defs)

lemma flush_inv:
  assumes "rn_inv rn ls"
  shows "rn_inv (append_flush rn) ls" "rn_inv (prepend_flush rn) ls"
proof -
  show "rn_inv (append_flush rn) ls" unfolding append_flush_def by (rule output_inv(2) [OF assms])
  show "rn_inv (prepend_flush rn) ls"
  proof (cases ls)
    case Nil
    then show ?thesis
      using assms by (simp add: rn_inv_def prepend_flush_def top_output_def new_renderer_def blank_state_def)
  next
    case (Cons l ls')
    have inv: "rn_inv (top_output rn) (l # ls')" using output_inv(1) [OF assms] Cons by simp
    note entry = rn_inv_entries(1) [OF inv]
    show ?thesis
    proof (cases "ls' = []")
      case True
      then show ?thesis
        using inv entry top_output_one [of rn l] assms Cons
        by (auto simp: prepend_flush_def Let_def rn_inv_one box_defs part_defs)
    next
      case False
      then show ?thesis
        using inv entry top_output_two [OF _ False, of rn l] assms Cons
        by (auto simp: prepend_flush_def Let_def rn_inv_two box_defs part_defs)
    qed
  qed
qed

inductive rendering :: "renderer \<Rightarrow> jline list \<Rightarrow> bool" where
  start: "rendering new_renderer []"
| append: "rendering rn ls \<Longrightarrow> safe_append e rn \<Longrightarrow> rendering (append_entry e rn) (lines_append e ls)"
| prepend: "rendering rn ls \<Longrightarrow> rendering (prepend e rn) (lines_prepend e ls)"
| append_flush: "rendering rn ls \<Longrightarrow> rendering (append_flush rn) ls"
| prepend_flush: "rendering rn ls \<Longrightarrow> rendering (prepend_flush rn) ls"

lemma rendering_inv: "rendering rn ls \<Longrightarrow> rn_inv rn ls"
proof (induction rule: rendering.induct)
  case start
  show ?case by (simp add: rn_inv_def)
qed (simp_all add: append_inv prepend_inv flush_inv)


definition demo_entry :: "string \<Rightarrow> string \<Rightarrow> string \<Rightarrow> jentry" where
  "demo_entry day boot msg = \<lparr>je_full = JNull, je_day = day, je_time = ''12:00'', je_bootid = JStr boot, je_ident = JStr ''x'',
     je_prio = JStr ''6'', je_message = JStr msg\<rparr>"


text \<open>Without the condition a header is lost: the first line counts as having the header that was put below it.\<close>

lemma header_lost:
  "rn_box (prepend_flush (append_flush (append_entry (demo_entry ''d2'' ''a'' ''n'') (prepend (demo_entry ''d1'' ''a'' ''m'') new_renderer)))) =
   [DayHeader ''d1'', Line (JStr ''x'') (JStr ''6'') (JStr ''m'') 1 ''12:00'' JNull, Line (JStr ''x'') (JStr ''6'') (JStr ''n'') 1 ''12:00'' JNull]"
  by code_simp

end
