(* ===== verification/Kube_Index.thy ===== *)
theory Kube_Index
  imports JS_Value "HOL-Library.Word"
begin

unbundle bit_operations_syntax

text \<open>
  The hash index of \<open>pkg/kubernetes/scripts/kube-client.js\<close>: links of objects are added under keys, and what is found
  under a key may have false positives but never misses a link.  The contract of such an index is a locale; what the
  selections rely on is proved from it.
\<close>

section \<open>hash\<close>

text \<open>The shifts and \<open>|= 0\<close> keep the sum in 32 bits; \<open>Math.abs\<close> reads it as a signed number.\<close>

definition hash :: "string \<Rightarrow> nat" where
  "hash str = nat \<bar>sint (foldl (\<lambda>h chr. (push_bit 5 h - h) + of_nat (of_char chr)) (0 :: 32 word) str)\<bar>"

section \<open>search\<close>

function search_range :: "'v::linorder list \<Rightarrow> 'v \<Rightarrow> int \<Rightarrow> int \<Rightarrow> nat" where
  "search_range arr val low high =
     (if low \<le> high then
        (let mid = (low + high) div 2; v = arr ! nat mid
         in if v < val then search_range arr val (mid + 1) high
            else if v > val then search_range arr val low (mid - 1)
            else nat mid)
      else nat low)"
  by pat_completeness auto
termination
  by (relation "measure (\<lambda>(arr, val, low, high). nat (high - low + 1))") auto

declare search_range.simps [simp del]

definition key_search :: "'v::linorder list \<Rightarrow> 'v \<Rightarrow> nat" where
  "key_search arr val = search_range arr val 0 (int (length arr) - 1)"

section \<open>HashIndex\<close>

text \<open>The buckets that have been used, by their number.\<close>

type_synonym 'v buckets = "(nat, 'v list) obj"

text \<open>\<open>p[x] != value\<close>, where \<open>p[x]\<close> may be behind the end, and \<open>p.splice(x, 0, value)\<close>.\<close>

definition insert_value :: "'v::linorder \<Rightarrow> 'v list \<Rightarrow> 'v list" where
  "insert_value v p =
     (let x = key_search p v in if x < length p \<and> p ! x = v then p else take x p @ v # drop x p)"

definition bucket_add :: "nat \<Rightarrow> string \<Rightarrow> 'v::linorder \<Rightarrow> 'v buckets \<Rightarrow> 'v buckets" where
  "bucket_add sz key v array =
     (let i = hash key mod sz;
          p = (case oget array i of None \<Rightarrow> [] | Some p \<Rightarrow> p)
      in oset array i (insert_value v p))"

definition index_add :: "nat \<Rightarrow> string list \<Rightarrow> 'v::linorder \<Rightarrow> 'v buckets \<Rightarrow> 'v buckets" where
  "index_add sz keys v array = fold (\<lambda>key. bucket_add sz key v) keys array"

definition index_get :: "nat \<Rightarrow> string \<Rightarrow> 'v::linorder buckets \<Rightarrow> 'v list" where
  "index_get sz key array = (case oget array (hash key mod sz) of None \<Rightarrow> [] | Some p \<Rightarrow> p)"

text \<open>The loop that keeps of \<open>result\<close> what \<open>p\<close> has too; \<open>p[ri + px]\<close> may be behind the end.\<close>

function intersect :: "'v::linorder list \<Rightarrow> nat \<Rightarrow> nat \<Rightarrow> 'v list \<Rightarrow> 'v list" where
  "intersect p ri px result =
     (if ri < length result then
        (if ri + px < length p \<and> p ! (ri + px) < result ! ri then intersect p ri (px + 1) result
         else if ri + px < length p \<and> p ! (ri + px) = result ! ri then intersect p (ri + 1) px result
         else intersect p ri px (take ri result @ drop (ri + 1) result))
      else result)"
  by pat_completeness auto
termination
  by (relation "measure (\<lambda>(p, ri, px, result). (length result - ri) + (length p - (ri + px)))") auto

declare intersect.simps [simp del]

fun index_all_loop :: "nat \<Rightarrow> 'v::linorder buckets \<Rightarrow> string list \<Rightarrow> 'v list option \<Rightarrow> 'v list option" where
  "index_all_loop sz array [] result = result"
| "index_all_loop sz array (key # keys) result =
     (case oget array (hash key mod sz) of
        None \<Rightarrow> Some []
      | Some p \<Rightarrow>
          index_all_loop sz array keys (Some (case result of None \<Rightarrow> p | Some r \<Rightarrow> intersect p 0 0 r)))"

definition index_all :: "nat \<Rightarrow> string list \<Rightarrow> 'v::linorder buckets \<Rightarrow> 'v list" where
  "index_all sz keys array = (case index_all_loop sz array keys None of None \<Rightarrow> [] | Some r \<Rightarrow> r)"

section \<open>The search finds the place\<close>

lemma strict_nth: "sorted_wrt (<) xs \<Longrightarrow> i < j \<Longrightarrow> j < length xs \<Longrightarrow> xs ! i < (xs ! j :: 'v::linorder)"
  by (simp add: sorted_wrt_iff_nth_less)

definition place :: "'v::linorder list \<Rightarrow> 'v \<Rightarrow> nat \<Rightarrow> bool" where
  "place arr val x \<longleftrightarrow> x \<le> length arr \<and> (\<forall>i < x. arr ! i < val) \<and> (\<forall>i < length arr. x \<le> i \<longrightarrow> val \<le> arr ! i)"

lemma search_range_place:
  assumes "sorted_wrt (<) arr" "0 \<le> low" "low \<le> high + 1" "high < int (length arr)"
    "\<forall>i < nat low. arr ! i < val" "\<forall>i < length arr. nat (high + 1) \<le> i \<longrightarrow> val < arr ! i"
  shows "place arr val (search_range arr val low high)"
  using assms
proof (induction arr val low high rule: search_range.induct)
  case (1 arr val low high)
  show ?case
  proof (cases "low \<le> high")
    case False
    then have "low = high + 1" "search_range arr val low high = nat low"
      using "1.prems"(3) by (simp_all add: search_range.simps)
    then show ?thesis using "1.prems" by (auto simp: place_def order_less_imp_le)
  next
    case True
    define mid where "mid = (low + high) div 2"
    have m: "low \<le> mid" "mid \<le> high" "0 \<le> mid" "nat mid < length arr" using True "1.prems"(2,4) by (auto simp: mid_def)
    note lt = strict_nth [OF "1.prems"(1)]
    have unfold: "search_range arr val low high =
      (if arr ! nat mid < val then search_range arr val (mid + 1) high
       else if arr ! nat mid > val then search_range arr val low (mid - 1) else nat mid)"
      using True by (subst search_range.simps) (simp add: mid_def Let_def)
    consider "arr ! nat mid < val" | "arr ! nat mid > val" | "arr ! nat mid = val" by force
    then show ?thesis
    proof cases
      case a: 1
      have "\<forall>i < nat (mid + 1). arr ! i < val"
      proof (intro allI impI)
        fix i assume "i < nat (mid + 1)"
        then have "i = nat mid \<or> i < nat mid" using m by linarith
        then show "arr ! i < val" using a lt [of i "nat mid"] m by auto
      qed
      then have "place arr val (search_range arr val (mid + 1) high)"
        using "1.IH"(1) [OF True mid_def refl a] "1.prems" m by simp
      then show ?thesis using a by (simp add: unfold)
    next
      case a: 2
      have "\<forall>i < length arr. nat mid \<le> i \<longrightarrow> val < arr ! i"
      proof (intro allI impI)
        fix i assume "i < length arr" "nat mid \<le> i"
        then have "i = nat mid \<or> nat mid < i" by linarith
        then show "val < arr ! i" using a lt [of "nat mid" i] \<open>i < length arr\<close> by auto
      qed
      then have "place arr val (search_range arr val low (mid - 1))"
        using "1.IH"(2) [OF True mid_def refl _ a] "1.prems" m a by auto
      then show ?thesis using a by (auto simp: unfold)
    next
      case a: 3
      have "place arr val (nat mid)"
        unfolding place_def
      proof (intro conjI allI impI)
        fix i assume "i < nat mid" then show "arr ! i < val" using a lt [of i "nat mid"] m by auto
      next
        fix i assume "i < length arr" "nat mid \<le> i" then show "val \<le> arr ! i"
          using a lt [of "nat mid" i] by (cases "i = nat mid") (auto simp: order_less_imp_le)
      qed (use m in simp)
      then show ?thesis using a by (simp add: unfold)
    qed
  qed
qed

lemma key_search_place: "sorted_wrt (<) arr \<Longrightarrow> place arr val (key_search arr val)"
  unfolding key_search_def by (rule search_range_place) auto

lemma insert_value_sorted:
  assumes "sorted_wrt (<) p"
  shows "sorted_wrt (<) (insert_value v p)" "set (insert_value v p) = insert v (set p)"
proof -
  let ?x = "key_search p v"
  have pl: "?x \<le> length p" "\<And>i. i < ?x \<Longrightarrow> p ! i < v" "\<And>i. i < length p \<Longrightarrow> ?x \<le> i \<Longrightarrow> v \<le> p ! i"
    using key_search_place [OF assms, of v] by (auto simp: place_def)
  show "set (insert_value v p) = insert v (set p)"
  proof (cases "?x < length p \<and> p ! ?x = v")
    case True
    then have "v \<in> set p" by (metis nth_mem)
    then show ?thesis using True by (simp add: insert_value_def Let_def insert_absorb)
  next
    case False
    have "set (take ?x p) \<union> set (drop ?x p) = set p" by (metis append_take_drop_id set_append)
    then show ?thesis using False by (auto simp: insert_value_def Let_def)
  qed
  have "\<forall>a \<in> set (take ?x p). a < v"
    using pl(1,2) by (auto simp: in_set_conv_nth)
  moreover have "\<forall>b \<in> set (drop ?x p). v < b" if "\<not> (?x < length p \<and> p ! ?x = v)"
  proof
    fix b assume "b \<in> set (drop ?x p)"
    then obtain i where i: "?x + i < length p" "b = p ! (?x + i)"
      by (auto simp: in_set_conv_nth less_diff_conv add.commute)
    then show "v < b"
      using pl(3) [of ?x] pl(3) [of "?x + i"] that strict_nth [OF assms, of ?x "?x + i"] by (cases "i = 0") (auto simp: order_le_less)
  qed
  moreover have "sorted_wrt (<) (take ?x p)" "sorted_wrt (<) (drop ?x p)"
    using assms by (simp_all add: sorted_wrt_take sorted_wrt_drop)
  ultimately show "sorted_wrt (<) (insert_value v p)"
    using assms by (cases "?x < length p \<and> p ! ?x = v") (auto simp: insert_value_def Let_def sorted_wrt_append intro: less_trans)
qed


section \<open>The loop intersects\<close>

lemma intersect_filter:
  assumes "sorted_wrt (<) result" "sorted_wrt (<) p" "ri \<le> length result"
    and "\<forall>x \<in> set (take ri result). x \<in> set p"
    and "\<forall>x \<in> set (drop ri result). \<forall>j < ri + px. j < length p \<longrightarrow> p ! j < x"
  shows "intersect p ri px result = filter (\<lambda>x. x \<in> set p) result"
  using assms
proof (induction p ri px result rule: intersect.induct)
  case (1 p ri px result)
  note sr = "1.prems"(1) and sp = "1.prems"(2) and below = "1.prems"(5)
  show ?case
  proof (cases "ri < length result")
    case False
    then have "take ri result = result" by simp
    then show ?thesis
      using "1.prems"(4) False by (subst intersect.simps) (simp add: filter_id_conv)
  next
    case True
    let ?r = "result ! ri"
    have dr: "drop ri result = ?r # drop (Suc ri) result" by (rule Cons_nth_drop_Suc [OF True, symmetric])
    have later: "?r \<le> x" if "x \<in> set (drop ri result)" for x
    proof -
      have "sorted_wrt (<) (?r # drop (Suc ri) result)" using sorted_wrt_drop [OF sr, of ri] by (simp add: dr)
      then show ?thesis using that by (auto simp: dr)
    qed
    consider (skip) "ri + px < length p" "p ! (ri + px) < ?r" | (keep) "ri + px < length p" "p ! (ri + px) = ?r"
      | (drop) "\<not> (ri + px < length p \<and> p ! (ri + px) \<le> ?r)" by (auto simp: order_le_less)
    then show ?thesis
    proof cases
      case skip
      have "\<forall>x \<in> set (drop ri result). \<forall>j < ri + (px + 1). j < length p \<longrightarrow> p ! j < x"
        using below skip later by (auto simp: less_Suc_eq intro: less_le_trans)
      then have "intersect p ri (px + 1) result = filter (\<lambda>x. x \<in> set p) result"
        using "1.IH"(1) [OF True] skip "1.prems" by simp
      then show ?thesis
        using True skip by (subst intersect.simps) simp
    next
      case keep
      then have inp: "?r \<in> set p" by (metis nth_mem)
      have "x > ?r" if "x \<in> set (drop (Suc ri) result)" for x
        using that strict_nth [OF sr, of ri] by (auto simp: in_set_conv_nth)
      then have "\<forall>x \<in> set (drop (Suc ri) result). \<forall>j < Suc ri + px. j < length p \<longrightarrow> p ! j < x"
        using below keep dr by (auto simp: less_Suc_eq)
      moreover have "take (Suc ri) result = take ri result @ [?r]" by (rule take_Suc_conv_app_nth [OF True])
      ultimately have "intersect p (ri + 1) px result = filter (\<lambda>x. x \<in> set p) result"
        using "1.IH"(2) [OF True] keep "1.prems" True inp by simp
      then show ?thesis
        using True keep by (subst intersect.simps) simp
    next
      case drop
      let ?res = "take ri result @ drop (ri + 1) result"
      have "?r \<noteq> p ! j" if "j < length p" for j
      proof (cases "j < ri + px")
        case True
        then show ?thesis using below dr that by auto
      next
        case False
        then have "?r < p ! (ri + px)" "p ! (ri + px) \<le> p ! j"
          using drop that strict_nth [OF sp, of "ri + px" j] by (cases "j = ri + px"; force)+
        then show ?thesis by auto
      qed
      then have out: "?r \<notin> set p" by (metis in_set_conv_nth)
      have split: "result = take ri result @ ?r # drop (ri + 1) result"
        using dr by (metis Suc_eq_plus1 append_take_drop_id)
      have "sorted_wrt (<) ?res" using sr by (subst (asm) split) (auto simp: sorted_wrt_append)
      moreover have "take ri ?res = take ri result" "drop ri ?res = drop (ri + 1) result" "ri \<le> length ?res"
        using True by simp_all
      moreover have "set (drop (ri + 1) result) \<subseteq> set (drop ri result)" using dr by auto
      ultimately have "intersect p ri px ?res = filter (\<lambda>x. x \<in> set p) ?res"
        using "1.IH"(3) [OF True] drop "1.prems" by (auto simp: order_le_less)
      also have "\<dots> = filter (\<lambda>x. x \<in> set p) result"
        using out by (subst (3) split) simp
      finally show ?thesis
        using True drop by (subst intersect.simps) (auto simp: order_le_less)
    qed
  qed
qed

lemma intersect_zero: "sorted_wrt (<) r \<Longrightarrow> sorted_wrt (<) p \<Longrightarrow> intersect p 0 0 r = filter (\<lambda>x. x \<in> set p) r"
  by (rule intersect_filter) auto

section \<open>The contract of an index\<close>

text \<open>
  An index into which values are put under several keys.  What was put under a key is among what is found under it, and
  what was put under all of several keys is among what is found for all of them.
\<close>

locale key_index =
  fixes blank :: 'i
    and put :: "string list \<Rightarrow> 'v \<Rightarrow> 'i \<Rightarrow> 'i"
    and find_one :: "string \<Rightarrow> 'i \<Rightarrow> 'v list"
    and find_all :: "string list \<Rightarrow> 'i \<Rightarrow> 'v list"
    and invar :: "'i \<Rightarrow> bool"
  assumes invar_blank: "invar blank"
    and invar_put: "invar ix \<Longrightarrow> invar (put ks v ix)"
    and found: "invar ix \<Longrightarrow> k \<in> set ks \<Longrightarrow> v \<in> set (find_one k (put ks v ix))"
    and kept: "invar ix \<Longrightarrow> v \<in> set (find_one k ix) \<Longrightarrow> v \<in> set (find_one k (put ks' v' ix))"
    and found_all: "invar ix \<Longrightarrow> ks \<noteq> [] \<Longrightarrow> (\<And>k. k \<in> set ks \<Longrightarrow> v \<in> set (find_one k ix)) \<Longrightarrow> v \<in> set (find_all ks ix)"
begin

definition put_all :: "('v \<times> string list) list \<Rightarrow> 'i \<Rightarrow> 'i" where
  "put_all items ix = fold (\<lambda>(v, ks). put ks v) items ix"

lemma invar_put_all: "invar ix \<Longrightarrow> invar (put_all items ix)"
  unfolding put_all_def by (induction items arbitrary: ix) (auto simp: invar_put)

lemma kept_all: "invar ix \<Longrightarrow> v \<in> set (find_one k ix) \<Longrightarrow> v \<in> set (find_one k (put_all items ix))"
  unfolding put_all_def by (induction items arbitrary: ix) (auto simp: invar_put kept)

lemma never_missed: "invar ix \<Longrightarrow> (v, ks) \<in> set items \<Longrightarrow> k \<in> set ks \<Longrightarrow> v \<in> set (find_one k (put_all items ix))"
proof (induction items arbitrary: ix)
  case (Cons item items)
  obtain w ws where item: "item = (w, ws)" by force
  show ?case
  proof (cases "(v, ks) = item")
    case True
    then have "v \<in> set (find_one k (put ks v ix))" using Cons.prems by (simp add: found)
    then show ?thesis
      using True kept_all [OF invar_put [OF Cons.prems(1)]] by (auto simp: put_all_def)
  next
    case False
    then show ?thesis
      using Cons.IH [of "put ws w ix"] Cons.prems by (auto simp: put_all_def item invar_put)
  qed
qed simp

lemma never_missed_all:
  assumes "invar ix" "(v, ks) \<in> set items" "ks' \<noteq> []" "set ks' \<subseteq> set ks"
  shows "v \<in> set (find_all ks' (put_all items ix))"
  using assms invar_put_all never_missed by (intro found_all) blast+

end

section \<open>HashIndex keeps it\<close>

definition buckets_ok :: "'v::linorder buckets \<Rightarrow> bool" where
  "buckets_ok array \<longleftrightarrow> (\<forall>i p. oget array i = Some p \<longrightarrow> sorted_wrt (<) p)"

lemma bucket_add_ok:
  assumes "buckets_ok array"
  shows "buckets_ok (bucket_add sz key v array)"
    and "set (index_get sz k (bucket_add sz key v array)) =
      (if hash k mod sz = hash key mod sz then insert v (set (index_get sz k array)) else set (index_get sz k array))"
  using assms insert_value_sorted [of "[]" v]
  by (auto simp: buckets_ok_def bucket_add_def index_get_def Let_def insert_value_sorted split: option.splits if_splits)

lemma index_add_ok:
  assumes "buckets_ok array"
  shows "buckets_ok (index_add sz keys v array)"
    and "set (index_get sz k (index_add sz keys v array)) =
      (if hash k mod sz \<in> (\<lambda>key. hash key mod sz) ` set keys then insert v (set (index_get sz k array)) else set (index_get sz k array))"
  using assms unfolding index_add_def
  by (induction keys arbitrary: array) (auto simp: bucket_add_ok)

lemma index_all_loop_finds:
  assumes "buckets_ok array" "\<And>k. k \<in> set keys \<Longrightarrow> v \<in> set (index_get sz k array)"
    "\<And>r. result = Some r \<Longrightarrow> sorted_wrt (<) r \<and> v \<in> set r"
  shows "\<forall>r. index_all_loop sz array keys result = Some r \<longrightarrow> v \<in> set r"
  using assms(2,3)
proof (induction keys arbitrary: result)
  case (Cons key keys)
  then have v: "v \<in> set (index_get sz key array)" by simp
  then obtain p where p: "oget array (hash key mod sz) = Some p" "v \<in> set p"
    by (cases "oget array (hash key mod sz)") (auto simp: index_get_def)
  then have sp: "sorted_wrt (<) p" using assms(1) by (simp add: buckets_ok_def)
  let ?next = "case result of None \<Rightarrow> p | Some r \<Rightarrow> intersect p 0 0 r"
  have next_ok: "sorted_wrt (<) ?next \<and> v \<in> set ?next"
  proof (cases result)
    case (Some r)
    then have "sorted_wrt (<) r" "v \<in> set r" using Cons.prems(2) by auto
    then show ?thesis using Some p sp by (simp add: intersect_zero sorted_wrt_filter)
  qed (use p sp in simp)
  have "index_all_loop sz array (key # keys) result = index_all_loop sz array keys (Some ?next)"
    by (simp add: p(1))
  moreover have "\<forall>r. index_all_loop sz array keys (Some ?next) = Some r \<longrightarrow> v \<in> set r"
    using Cons.prems(1) next_ok by (intro Cons.IH) simp_all
  ultimately show ?case by metis
qed auto

lemma index_all_loop_some: "keys \<noteq> [] \<or> result \<noteq> None \<Longrightarrow> index_all_loop sz array keys result \<noteq> None"
  by (induction keys arbitrary: result) (auto split: option.split)

interpretation hash_index: key_index "[]" "index_add sz" "index_get sz" "index_all sz" buckets_ok
proof
  fix ix :: "'a::linorder buckets" and ks v
  assume ok: "buckets_ok ix" "ks \<noteq> []" "\<And>k. k \<in> set ks \<Longrightarrow> v \<in> set (index_get sz k ix)"
  then obtain r where r: "index_all_loop sz ix ks None = Some r" using index_all_loop_some [of ks None sz ix] by auto
  moreover have "v \<in> set r" using index_all_loop_finds [OF ok(1), of ks v sz None] ok(3) r by auto
  ultimately show "v \<in> set (index_all sz ks ix)" by (simp add: index_all_def)
next
  show "buckets_ok ([] :: 'a buckets)" by (simp add: buckets_ok_def)
qed (auto simp: index_add_ok)

end
