(* ===== verification/Kube_Client.thy ===== *)
theory Kube_Client
  imports Kube_Index Location "HOL-Library.List_Lexorder" "HOL-Library.Char_ord"
begin

text \<open>
  The client of Kubernetes, of \<open>pkg/kubernetes/scripts/kube-client.js\<close>: the schema and the paths of resources, the
  loader that keeps the objects of its watches (\<open>kubeLoader\<close>), and the selection of objects by filters over the hash
  index (\<open>kubeSelect\<close>).  Requests and watches are other code; what the loader calls is part of its state.
\<close>

section \<open>Schema and paths\<close>

record kube_schema =
  ks_type :: string
  ks_api :: string
  ks_global :: bool
  ks_create :: int

definition kube_api :: string where "kube_api = ''/api/v1''"
definition openshift_api :: string where "openshift_api = ''/oapi/v1''"
definition kubevirt_api :: string where "kubevirt_api = ''/apis/kubevirt.io/v1alpha1''"

text \<open>The kinds of the schema: kind, type, endpoint, whether it is global, and its place among what is created.\<close>

definition schema_items :: "(string \<times> kube_schema) list" where
  "schema_items =
     (let item = (\<lambda>kind type api glob create. (kind, \<lparr>ks_type = type, ks_api = api, ks_global = glob, ks_create = create\<rparr>))
      in [item ''DeploymentConfig'' ''deploymentconfigs'' openshift_api False 0,
          item ''Endpoints'' ''endpoints'' kube_api False 0,
          item ''Group'' ''groups'' openshift_api True 0,
          item ''Image'' ''images'' openshift_api True 0,
          item ''ImageStream'' ''imagestreams'' openshift_api False 0,
          item ''ImageStreamImage'' ''imagestreamimages'' openshift_api False 0,
          item ''ImageStreamTag'' ''imagestreamtags'' openshift_api False 0,
          item ''LocalResourceAccessReview'' ''localresourceaccessreviews'' openshift_api False 0,
          item ''Namespace'' ''namespaces'' kube_api True (-100),
          item ''Node'' ''nodes'' kube_api True 0,
          item ''Pod'' ''pods'' kube_api False (-20),
          item ''PolicyBinding'' ''policybindings'' openshift_api False 0,
          item ''RoleBinding'' ''rolebindings'' openshift_api False 0,
          item ''Route'' ''routes'' openshift_api False 0,
          item ''PersistentVolume'' ''persistentvolumes'' kube_api True (-100),
          item ''PersistentVolumeClaim'' ''persistentvolumeclaims'' kube_api False (-50),
          item ''Project'' ''projects'' openshift_api True (-90),
          item ''ProjectRequest'' ''projectrequests'' openshift_api True (-90),
          item ''ReplicationController'' ''replicationcontrollers'' kube_api False (-60),
          item ''Service'' ''services'' kube_api False (-80),
          item ''SubjectAccessReview'' ''subjectaccessreviews'' openshift_api False 0,
          item ''User'' ''users'' openshift_api True 0,
          item ''VirtualMachine'' ''virtualmachines'' kubevirt_api False 0])"

text \<open>\<open>flatSchema\<close>: by type and by kind; the default has no type, which reads "undefined" in a path.\<close>

definition default_schema :: kube_schema where
  "default_schema = \<lparr>ks_type = ''undefined'', ks_api = kube_api, ks_global = False, ks_create = 0\<rparr>"

definition flat_schema :: "(string \<times> kube_schema) list \<Rightarrow> (string, kube_schema) obj" where
  "flat_schema items =
     fold (\<lambda>(kind, s) ret. oset (oset ret (ks_type s) s) kind s) items [([], default_schema)]"

definition schema_of :: "js \<Rightarrow> kube_schema" where
  "schema_of what =
     (case oget (flat_schema schema_items) (to_str what) of Some s \<Rightarrow> s | None \<Rightarrow> default_schema)"

text \<open>\<open>encodeURIComponent\<close> and \<open>decodeURIComponent\<close> on texts; what is malformed throws.\<close>

definition url_encode :: "string \<Rightarrow> string option" where
  "url_encode s = map_option (map char_of) (encode_uri_component (map of_char s))"

definition url_decode :: "string \<Rightarrow> string option" where
  "url_decode s = map_option (map char_of) (decode_uri_component (map of_char s))"

definition combined_path :: "js \<Rightarrow> js \<Rightarrow> js \<Rightarrow> string option" where
  "combined_path kind name namespace =
     (let schema = schema_of kind;
          path = ks_api schema @ (if \<not> ks_global schema \<and> truthy namespace then ''/namespaces/'' @ to_str namespace else []) @
            ''/'' @ ks_type schema
      in if truthy name then map_option (\<lambda>n. path @ ''/'' @ n) (url_encode (to_str name)) else Some path)"

text \<open>\<open>resourcePath(args)\<close>.\<close>

definition resource_path :: "js list \<Rightarrow> string option" where
  "resource_path args =
     (let arg = (\<lambda>i. if i < length args then args ! i else JUndef); one = arg 0
      in if is_object one then
           (if truthy (fld one ''metadata'') then
              (let meta = fld one ''metadata''
               in if truthy (fld meta ''selfLink'') then Some (to_str (fld meta ''selfLink''))
                  else combined_path (fld one ''kind'') (fld meta ''name'') (fld meta ''namespace''))
            else if truthy (fld one ''name'') \<and> truthy (fld one ''kind'')
            then combined_path (fld one ''kind'') (fld one ''name'') (fld one ''namespace'')
            else combined_path (arg 0) (arg 1) (arg 2))
         else (case one of
            JStr s \<Rightarrow> if take 1 s = ''/'' then Some s else combined_path (arg 0) (arg 1) (arg 2)
          | _ \<Rightarrow> combined_path (arg 0) (arg 1) (arg 2)))"

section \<open>kubeLoader\<close>

text \<open>A watch; \<open>kw_references\<close> is \<open>None\<close> when it is not a number.\<close>

record kube_watch =
  kw_what :: js
  kw_global :: bool
  kw_namespace :: js
  kw_references :: "int option"

record kube_frame =
  kf_type :: string
  kf_object :: js
  kf_check :: bool

text \<open>What a listener is called with: what was added and removed, all objects at first, or nothing when all is reset.\<close>

datatype kube_told = Changed "(string, js) obj" "(string, js) obj" | Initial "(string, js) obj" | Resetting

text \<open>
  A listener is a number; one that stopped listening leaves a hole.  \<open>kl_starts\<close> are the timers of new listeners.
  \<open>kl_told\<close> is what the listeners were called with, \<open>kl_opened\<close> and \<open>kl_cancelled\<close> the watches that were started and
  stopped, and \<open>kl_exception\<close> tells that an exception was thrown.
\<close>

record kube_loader =
  kl_objects :: "(string, js) obj"
  kl_watching :: "(string, kube_watch) obj"
  kl_namespace :: js
  kl_batch :: "kube_frame list option"
  kl_timeout :: bool
  kl_callbacks :: "nat option list"
  kl_starts :: "(nat \<times> nat) list"
  kl_next :: nat
  kl_told :: "(nat \<times> kube_told) list"
  kl_opened :: "string list"
  kl_cancelled :: "string list"
  kl_exception :: bool

definition new_loader :: kube_loader where
  "new_loader = \<lparr>kl_objects = [], kl_watching = [], kl_namespace = JNull, kl_batch = None, kl_timeout = False, kl_callbacks = [],
     kl_starts = [], kl_next = 0, kl_told = [], kl_opened = [], kl_cancelled = [], kl_exception = False\<rparr>"

definition watch_path :: "js \<Rightarrow> js \<Rightarrow> string" where
  "watch_path what namespace =
     (let schema = schema_of what
      in ks_api schema @ (if \<not> ks_global schema \<and> truthy namespace then ''/namespaces/'' @ to_str namespace else []) @ ''/'' @ ks_type schema)"

text \<open>The references of a new watch are not set: adding to them is not a number.\<close>

definition ensure_watch :: "js \<Rightarrow> js \<Rightarrow> int option \<Rightarrow> kube_loader \<Rightarrow> kube_loader" where
  "ensure_watch what namespace increment kl =
     (let path = watch_path what namespace;
          kl = (if oget (kl_watching kl) path = None
                then kl\<lparr>kl_watching := oset (kl_watching kl) path
                          \<lparr>kw_what = what, kw_global = ks_global (schema_of what), kw_namespace = namespace, kw_references = None\<rparr>,
                        kl_opened := kl_opened kl @ [path]\<rparr>
                else kl);
          add = (\<lambda>w. w\<lparr>kw_references := (case (kw_references w, increment) of (Some a, Some b) \<Rightarrow> Some (a + b) | _ \<Rightarrow> None)\<rparr>)
      in case oget (kl_watching kl) path of
           None \<Rightarrow> kl
         | Some w \<Rightarrow> kl\<lparr>kl_watching := oset (kl_watching kl) path (add w)\<rparr>)"

definition ensure_watches :: "js \<Rightarrow> int option \<Rightarrow> kube_loader \<Rightarrow> kube_loader" where
  "ensure_watches what increment kl =
     (case kl_namespace kl of
        JArr namespaces \<Rightarrow> fold (\<lambda>ns. ensure_watch what ns increment) namespaces kl
      | ns \<Rightarrow> ensure_watch what ns increment kl)"

text \<open>The \<open>cancel\<close> of a watch: one reference less, and the watch stops when none is left.\<close>

definition cancel_watch :: "string \<Rightarrow> kube_loader \<Rightarrow> kube_loader" where
  "cancel_watch path kl =
     (case oget (kl_watching kl) path of
        None \<Rightarrow> kl
      | Some w \<Rightarrow>
          (case map_option (\<lambda>n. n - 1) (kw_references w) of
             Some n \<Rightarrow> if n \<le> 0 then kl\<lparr>kl_watching := odel (kl_watching kl) path, kl_cancelled := kl_cancelled kl @ [path]\<rparr>
               else kl\<lparr>kl_watching := oset (kl_watching kl) path (w\<lparr>kw_references := Some n\<rparr>)\<rparr>
           | None \<Rightarrow> kl))"

definition resource_version :: "js \<Rightarrow> int option" where
  "resource_version resource =
     (if truthy resource \<and> truthy (fld resource ''metadata'')
      then parse_int (to_str (fld (fld resource ''metadata'') ''resourceVersion'')) else None)"

text \<open>\<open>!cVersion || !lVersion || cVersion >= lVersion\<close>.\<close>

definition newer :: "int option \<Rightarrow> int option \<Rightarrow> bool" where
  "newer c l \<longleftrightarrow> (case (c, l) of (Some cv, Some lv) \<Rightarrow> cv = 0 \<or> lv = 0 \<or> cv \<ge> lv | _ \<Rightarrow> True)"

record flush =
  fl_objects :: "(string, js) obj"
  fl_present :: "(string, js) obj"
  fl_removed :: "(string, js) obj"

definition flush_link :: "js \<Rightarrow> string option" where
  "flush_link resource = Option.bind (resource_path [resource]) url_decode"

definition flush_remove :: "string \<Rightarrow> js \<Rightarrow> flush \<Rightarrow> flush" where
  "flush_remove link object st =
     st\<lparr>fl_objects := odel (fl_objects st) link, fl_present := odel (fl_present st) link,
        fl_removed := oset (fl_removed st) link object\<rparr>"

definition flush_frame :: "kube_frame \<Rightarrow> flush \<Rightarrow> flush option" where
  "flush_frame f st =
     (if \<not> truthy (kf_object f) then Some st
      else case flush_link (kf_object f) of
        None \<Rightarrow> None
      | Some link \<Rightarrow>
          Some (if kf_type f = ''DELETED'' then flush_remove link (kf_object f) st
            else if kf_check f \<and> \<not> newer (resource_version (kf_object f)) (resource_version (opt (fl_objects st) link)) then st
            else st\<lparr>fl_present := oset (fl_present st) link (kf_object f), fl_objects := oset (fl_objects st) link (kf_object f)\<rparr>))"

text \<open>The loop of \<open>handleFlush\<close>; a link that does not decode throws, and what was done stays done.\<close>

fun flush_frames :: "kube_frame list \<Rightarrow> flush \<Rightarrow> flush \<times> bool" where
  "flush_frames [] st = (st, True)"
| "flush_frames (f # fs) st = (case flush_frame f st of None \<Rightarrow> (st, False) | Some st' \<Rightarrow> flush_frames fs st')"

datatype flush_result = NoBatch | Flushed "(string, js) obj" "(string, js) obj" | FlushThrew

text \<open>\<open>handleFlush\<close> up to its call of \<open>invoke\<close>.\<close>

definition flush_batch :: "kube_loader \<Rightarrow> kube_loader \<times> flush_result" where
  "flush_batch kl =
     (case kl_batch kl of
        None \<Rightarrow> (kl, NoBatch)
      | Some drain \<Rightarrow>
          (case flush_frames drain \<lparr>fl_objects = kl_objects kl, fl_present = [], fl_removed = []\<rparr> of
             (st, True) \<Rightarrow> (kl\<lparr>kl_batch := None, kl_objects := fl_objects st\<rparr>, Flushed (fl_present st) (fl_removed st))
           | (st, False) \<Rightarrow> (kl\<lparr>kl_batch := None, kl_objects := fl_objects st, kl_exception := True\<rparr>, FlushThrew)))"

definition invoke_callbacks :: "kube_told \<Rightarrow> kube_loader \<Rightarrow> kube_loader" where
  "invoke_callbacks t kl = kl\<lparr>kl_told := kl_told kl @ map (\<lambda>f. (the f, t)) (filter (\<lambda>f. f \<noteq> None) (kl_callbacks kl))\<rparr>"

definition handle_flush :: "kube_loader \<Rightarrow> kube_loader" where
  "handle_flush kl =
     (case flush_batch kl of (kl, Flushed present removed) \<Rightarrow> invoke_callbacks (Changed present removed) kl | (kl, _) \<Rightarrow> kl)"

definition handle_frames :: "kube_frame list \<Rightarrow> kube_loader \<Rightarrow> kube_loader" where
  "handle_frames frames kl =
     (let kl = kl\<lparr>kl_batch := Some ((case kl_batch kl of None \<Rightarrow> [] | Some b \<Rightarrow> b) @ frames)\<rparr>
      in if frames \<noteq> [] \<and> kl_timeout kl then kl
         else handle_flush (if frames \<noteq> [] then kl\<lparr>kl_timeout := True\<rparr> else kl))"

definition handle_timeout :: "kube_loader \<Rightarrow> kube_loader" where
  "handle_timeout kl = handle_flush (kl\<lparr>kl_timeout := False\<rparr>)"

text \<open>A property can be set on an object only; setting it on another value throws.\<close>

definition set_kind :: "js \<Rightarrow> js \<Rightarrow> js" where
  "set_kind kind resource =
     (if truthy kind then (case resource of JObj kvs \<Rightarrow> JObj (oset kvs ''kind'' kind) | v \<Rightarrow> v) else resource)"

definition handle_objects :: "js list \<Rightarrow> bool \<Rightarrow> js \<Rightarrow> kube_loader \<Rightarrow> kube_loader" where
  "handle_objects objects removed kind kl =
     (if truthy kind \<and> \<not> list_all is_object objects then kl\<lparr>kl_exception := True\<rparr>
      else handle_flush (handle_frames
        (map (\<lambda>r. \<lparr>kf_type = (if removed then ''DELETED'' else ''ADDED''), kf_object = set_kind kind r, kf_check = True\<rparr>) objects) kl))"

text \<open>
  The handler of a response of \<open>loadObjects\<close>: what the promise is resolved with, or \<open>None\<close> when the handler throws.
\<close>

definition list_kind :: "string \<Rightarrow> bool" where
  "list_kind kind \<longleftrightarrow> (case find_sub ''List'' kind of None \<Rightarrow> -1 | Some i \<Rightarrow> int i) = int (length kind) - 4"

definition load_response :: "js \<Rightarrow> kube_loader \<Rightarrow> kube_loader \<times> js option" where
  "load_response resource kl =
     (if \<not> truthy resource \<or> \<not> truthy (fld resource ''kind'') then (kl, Some JNull)
      else case fld resource ''kind'' of
        JStr kind \<Rightarrow>
          if list_kind kind then
            (case fld resource ''items'' of
               JArr items \<Rightarrow> (handle_objects items False (JStr (take (length kind - 4) kind)) kl, Some (JArr items))
             | _ \<Rightarrow> (kl, None))
          else (handle_objects [resource] False JUndef kl, Some resource)
      | _ \<Rightarrow> (kl, None))"

definition reset_loader :: "kube_loader \<Rightarrow> kube_loader" where
  "reset_loader kl =
     invoke_callbacks Resetting
       (kl\<lparr>kl_timeout := False, kl_batch := None, kl_cancelled := kl_cancelled kl @ okeys (kl_watching kl), kl_watching := [],
           kl_objects := [], kl_namespace := JNull\<rparr>)"

text \<open>Whether a namespace is among the ones looked at: \<open>null\<close> stands for all.\<close>

definition in_limits :: "js \<Rightarrow> js \<Rightarrow> bool" where
  "in_limits limit namespace =
     (case limit of JNull \<Rightarrow> True | JArr xs \<Rightarrow> to_str namespace \<in> set (map to_str xs) | v \<Rightarrow> to_str namespace = to_str v)"

text \<open>The loop over the objects; one without \<open>metadata\<close> throws.\<close>

fun drop_outside :: "js \<Rightarrow> (string \<times> js) list \<Rightarrow> flush \<Rightarrow> flush \<times> bool" where
  "drop_outside limit [] st = (st, True)"
| "drop_outside limit ((link, object) # rest) st =
     (let meta = fld object ''metadata''; ns = fld meta ''namespace''
      in if limit = JNull then drop_outside limit rest st
         else if meta = JUndef \<or> meta = JNull then (st, False)
         else drop_outside limit rest (if truthy ns \<and> \<not> in_limits limit ns then flush_remove link object st else st))"

definition stale_watch :: "js \<Rightarrow> kube_watch \<Rightarrow> bool" where
  "stale_watch limit w \<longleftrightarrow>
     (if limit = JNull then truthy (kw_namespace w) else \<not> kw_global w \<and> \<not> in_limits limit (kw_namespace w))"

definition adjust_namespace :: "js \<Rightarrow> kube_loader \<Rightarrow> kube_loader" where
  "adjust_namespace limit kl =
     (case flush_batch (kl\<lparr>kl_timeout := False, kl_namespace := limit\<rparr>) of
        (kl, FlushThrew) \<Rightarrow> kl
      | (kl, result) \<Rightarrow>
          let (present, removed) = (case result of Flushed present removed \<Rightarrow> (present, removed) | _ \<Rightarrow> ([], []))
          in case drop_outside limit (kl_objects kl) \<lparr>fl_objects = kl_objects kl, fl_present = present, fl_removed = removed\<rparr> of
               (st, False) \<Rightarrow> kl\<lparr>kl_objects := fl_objects st, kl_exception := True\<rparr>
             | (st, True) \<Rightarrow>
                 let stale = filter (\<lambda>(path, w). stale_watch limit w) (kl_watching kl);
                     kl = kl\<lparr>kl_objects := fl_objects st,
                             kl_watching := filter (\<lambda>(path, w). \<not> stale_watch limit w) (kl_watching kl),
                             kl_cancelled := kl_cancelled kl @ okeys stale\<rparr>
                 in fold (\<lambda>(path, w). ensure_watches (kw_what w) (kw_references w)) stale
                      (invoke_callbacks (Changed (fl_present st) (fl_removed st)) kl))"

text \<open>\<open>listen\<close>, the timer it sets, and the \<open>cancel\<close> of what it returns.\<close>

definition listen :: "nat \<Rightarrow> bool \<Rightarrow> kube_loader \<Rightarrow> kube_loader" where
  "listen callback early kl =
     kl\<lparr>kl_callbacks := (if early then Some callback # kl_callbacks kl else kl_callbacks kl @ [Some callback]),
        kl_starts := kl_starts kl @ [(kl_next kl, callback)], kl_next := kl_next kl + 1\<rparr>"

definition listen_start :: "nat \<Rightarrow> kube_loader \<Rightarrow> kube_loader" where
  "listen_start handle kl =
     (case oget (kl_starts kl) handle of
        None \<Rightarrow> kl
      | Some callback \<Rightarrow> kl\<lparr>kl_starts := odel (kl_starts kl) handle, kl_told := kl_told kl @ [(callback, Initial (kl_objects kl))]\<rparr>)"

definition listen_cancel :: "nat \<Rightarrow> nat \<Rightarrow> kube_loader \<Rightarrow> kube_loader" where
  "listen_cancel handle callback kl =
     kl\<lparr>kl_starts := odel (kl_starts kl) handle,
        kl_callbacks := map (\<lambda>f. if f = Some callback then None else f) (kl_callbacks kl)\<rparr>"

section \<open>Sequences of operations\<close>

datatype loader_op =
    LWatch js
  | LCancel string
  | LFrames "kube_frame list"
  | LTimeout
  | LHandle "js list" bool js
  | LLoaded js
  | LLimit js
  | LReset
  | LListen nat bool
  | LStart nat
  | LUnlisten nat nat

text \<open>The timer fires only while it is set.\<close>

fun loader_step :: "loader_op \<Rightarrow> kube_loader \<Rightarrow> kube_loader" where
  "loader_step (LWatch what) kl = ensure_watches what (Some 1) kl"
| "loader_step (LCancel path) kl = cancel_watch path kl"
| "loader_step (LFrames frames) kl = handle_frames frames kl"
| "loader_step LTimeout kl = (if kl_timeout kl then handle_timeout kl else kl)"
| "loader_step (LHandle objects removed kind) kl = handle_objects objects removed kind kl"
| "loader_step (LLoaded resource) kl = fst (load_response resource kl)"
| "loader_step (LLimit limit) kl = adjust_namespace limit kl"
| "loader_step LReset kl = reset_loader kl"
| "loader_step (LListen callback early) kl = listen callback early kl"
| "loader_step (LStart handle) kl = listen_start handle kl"
| "loader_step (LUnlisten handle callback) kl = listen_cancel handle callback kl"

definition loader_run :: "loader_op list \<Rightarrow> kube_loader \<Rightarrow> kube_loader" where
  "loader_run ops kl = fold loader_step ops kl"

section \<open>What a listener knows\<close>

text \<open>A listener that keeps a picture of the objects from what it is told.\<close>

definition overlay :: "(string, js) obj \<Rightarrow> (string, js) obj \<Rightarrow> (string \<rightharpoonup> js) \<Rightarrow> (string \<rightharpoonup> js)" where
  "overlay present removed m link =
     (case oget present link of Some v \<Rightarrow> Some v | None \<Rightarrow> if oget removed link \<noteq> None then None else m link)"

fun replay :: "kube_told \<Rightarrow> (string \<rightharpoonup> js) \<Rightarrow> (string \<rightharpoonup> js)" where
  "replay (Changed present removed) m = overlay present removed m"
| "replay (Initial objects) m = oget objects"
| "replay Resetting m = Map.empty"

definition told_to :: "nat \<Rightarrow> (nat \<times> kube_told) list \<Rightarrow> kube_told list" where
  "told_to callback calls = map snd (filter (\<lambda>(f, t). f = callback) calls)"

text \<open>From one state to a later one the listener's picture stays right.\<close>

definition keeps_up :: "nat \<Rightarrow> kube_loader \<Rightarrow> kube_loader \<Rightarrow> bool" where
  "keeps_up callback kl kl' \<longleftrightarrow>
     (\<exists>calls. kl_told kl' = kl_told kl @ calls \<and>
        fold replay (told_to callback calls) (oget (kl_objects kl)) = oget (kl_objects kl'))"

lemma followedI:
  "kl_told kl' = kl_told kl @ calls \<Longrightarrow>
   fold replay (told_to callback calls) (oget (kl_objects kl)) = oget (kl_objects kl') \<Longrightarrow> keeps_up callback kl kl'"
  unfolding keeps_up_def by blast

lemma followed_same: "kl_told kl' = kl_told kl \<Longrightarrow> kl_objects kl' = kl_objects kl \<Longrightarrow> keeps_up callback kl kl'"
  by (rule followedI [of _ _ "[]"]) (simp_all add: told_to_def)

lemma followed_trans: "keeps_up callback a b \<Longrightarrow> keeps_up callback b c \<Longrightarrow> keeps_up callback a c"
  unfolding keeps_up_def told_to_def by fastforce

lemma overlay_again: "overlay p r (overlay p r m) = overlay p r m"
  by (rule ext) (auto simp: overlay_def split: option.split)

lemma replay_idem: "replay t (replay t m) = replay t m"
  by (cases t) (simp_all add: overlay_again)

lemma fold_replay_replicate: "fold replay (replicate (Suc n) t) m = replay t m"
proof (induction n arbitrary: m)
  case (Suc n)
  have "fold replay (replicate (Suc (Suc n)) t) m = fold replay (replicate (Suc n) t) (replay t m)" by simp
  then show ?case by (simp only: Suc.IH replay_idem)
qed simp

lemma told_to_invoked:
  "told_to callback (map (\<lambda>f. (the f, t)) (filter (\<lambda>f. f \<noteq> None) fs)) = replicate (length (filter (\<lambda>f. f = Some callback) fs)) t"
  by (induction fs) (auto simp: told_to_def)

lemma invoke_followed:
  assumes "Some callback \<in> set (kl_callbacks kl)" "kl_told kl = kl_told kl0"
    "replay t (oget (kl_objects kl0)) = oget (kl_objects kl)"
  shows "keeps_up callback kl0 (invoke_callbacks t kl)"
proof -
  have "filter (\<lambda>f. f = Some callback) (kl_callbacks kl) \<noteq> []"
    using assms(1) by (auto simp: filter_empty_conv)
  then obtain n where n: "length (filter (\<lambda>f. f = Some callback) (kl_callbacks kl)) = Suc n"
    by (metis length_0_conv not0_implies_Suc)
  have calls: "fold replay (told_to callback (map (\<lambda>f. (the f, t)) (filter (\<lambda>f. f \<noteq> None) (kl_callbacks kl)))) m = replay t m" for m
    unfolding told_to_invoked n by (rule fold_replay_replicate)
  show ?thesis
    unfolding invoke_callbacks_def
    by (rule followedI [where calls = "map (\<lambda>f. (the f, t)) (filter (\<lambda>f. f \<noteq> None) (kl_callbacks kl))"], simp add: assms)
      (unfold calls, simp add: assms)
qed

section \<open>A flush tells exactly what it changed\<close>

definition tells :: "(string \<rightharpoonup> js) \<Rightarrow> flush \<Rightarrow> bool" where
  "tells m st \<longleftrightarrow> (\<forall>link. oget (fl_objects st) link = overlay (fl_present st) (fl_removed st) m link)"

lemma tells_start: "tells (oget objs) \<lparr>fl_objects = objs, fl_present = [], fl_removed = []\<rparr>"
  by (simp add: tells_def overlay_def)

lemma flush_remove_tells: "tells m st \<Longrightarrow> tells m (flush_remove link object st)"
  by (auto simp: tells_def overlay_def flush_remove_def split: option.split)

lemma flush_frame_tells: "flush_frame f st = Some st' \<Longrightarrow> tells m st \<Longrightarrow> tells m st'"
  by (auto simp: flush_frame_def flush_remove_tells split: if_splits option.splits) (auto simp: tells_def overlay_def)

lemma flush_frames_tells: "tells m st \<Longrightarrow> tells m (fst (flush_frames fs st))"
  by (induction fs arbitrary: st) (auto split: option.split dest: flush_frame_tells)

lemma drop_outside_tells: "tells m st \<Longrightarrow> tells m (fst (drop_outside limit objs st))"
  by (induction objs arbitrary: st) (auto simp: Let_def flush_remove_tells)

lemma flush_batch_tells:
  assumes "flush_batch kl = (kl', result)"
  shows "kl_told kl' = kl_told kl" "kl_callbacks kl' = kl_callbacks kl" "kl_watching kl' = kl_watching kl"
    "kl_namespace kl' = kl_namespace kl"
    and "result = NoBatch \<Longrightarrow> kl' = kl"
    and "result = FlushThrew \<Longrightarrow> kl_exception kl'"
    and "result = Flushed present removed \<Longrightarrow> overlay present removed (oget (kl_objects kl)) = oget (kl_objects kl')"
    and "result = Flushed present removed \<Longrightarrow> kl_exception kl' = kl_exception kl"
proof -
  have t: "tells (oget objs) (fst (flush_frames drain \<lparr>fl_objects = objs, fl_present = [], fl_removed = []\<rparr>))" for objs drain
    by (rule flush_frames_tells [OF tells_start])
  show "kl_told kl' = kl_told kl" "kl_callbacks kl' = kl_callbacks kl" "kl_watching kl' = kl_watching kl" "kl_namespace kl' = kl_namespace kl"
    "result = NoBatch \<Longrightarrow> kl' = kl" "result = FlushThrew \<Longrightarrow> kl_exception kl'"
    "result = Flushed present removed \<Longrightarrow> kl_exception kl' = kl_exception kl"
    using assms by (auto simp: flush_batch_def split: option.splits prod.splits bool.splits)
  assume r: "result = Flushed present removed"
  then obtain drain st where "kl_batch kl = Some drain"
    "flush_frames drain \<lparr>fl_objects = kl_objects kl, fl_present = [], fl_removed = []\<rparr> = (st, True)"
    "kl' = kl\<lparr>kl_batch := None, kl_objects := fl_objects st\<rparr>" "present = fl_present st" "removed = fl_removed st"
    using assms by (auto simp: flush_batch_def split: option.splits prod.splits bool.splits)
  then show "overlay present removed (oget (kl_objects kl)) = oget (kl_objects kl')"
    using t [of "kl_objects kl" drain] by (simp add: tells_def fun_eq_iff)
qed

lemma handle_flush_followed:
  assumes "Some callback \<in> set (kl_callbacks kl)" "\<not> kl_exception (handle_flush kl)"
  shows "keeps_up callback kl (handle_flush kl)"
proof -
  obtain kl' result where fb: "flush_batch kl = (kl', result)" by force
  note f = flush_batch_tells [OF fb]
  show ?thesis
  proof (cases result)
    case (Flushed present removed)
    then show ?thesis
      using fb f(1,2) f(7) [OF Flushed] assms(1) by (simp add: handle_flush_def invoke_followed)
  qed (use fb f assms in \<open>simp_all add: handle_flush_def followed_same\<close>)
qed

lemma handle_flush_frame:
  "kl_callbacks (handle_flush kl) = kl_callbacks kl" "kl_exception kl \<Longrightarrow> kl_exception (handle_flush kl)"
proof -
  obtain kl' result where fb: "flush_batch kl = (kl', result)" by force
  note f = flush_batch_tells [OF fb]
  show "kl_callbacks (handle_flush kl) = kl_callbacks kl" "kl_exception kl \<Longrightarrow> kl_exception (handle_flush kl)"
    using f by (cases result; simp add: handle_flush_def fb invoke_callbacks_def)+
qed

lemma handle_frames_frame:
  "kl_callbacks (handle_frames frames kl) = kl_callbacks kl" "kl_exception kl \<Longrightarrow> kl_exception (handle_frames frames kl)"
  by (simp_all add: handle_frames_def Let_def handle_flush_frame)

lemma handle_frames_followed:
  assumes "Some callback \<in> set (kl_callbacks kl)" "\<not> kl_exception (handle_frames frames kl)"
  shows "keeps_up callback kl (handle_frames frames kl)"
proof -
  let ?b = "kl\<lparr>kl_batch := Some ((case kl_batch kl of None \<Rightarrow> [] | Some b \<Rightarrow> b) @ frames)\<rparr>"
  show ?thesis
  proof (cases "frames \<noteq> [] \<and> kl_timeout kl")
    case False
    let ?t = "if frames \<noteq> [] then ?b\<lparr>kl_timeout := True\<rparr> else ?b"
    have eq: "handle_frames frames kl = handle_flush ?t" using False by (auto simp: handle_frames_def Let_def)
    have "keeps_up callback kl ?t" by (rule followed_same) simp_all
    moreover have "keeps_up callback ?t (handle_flush ?t)"
      using assms by (intro handle_flush_followed) (simp_all add: eq)
    ultimately show ?thesis unfolding eq by (rule followed_trans)
  qed (simp add: handle_frames_def followed_same)
qed

lemma handle_objects_followed:
  assumes "Some callback \<in> set (kl_callbacks kl)" "\<not> kl_exception (handle_objects objects removed kind kl)"
  shows "keeps_up callback kl (handle_objects objects removed kind kl)"
proof -
  obtain frames where eq: "handle_objects objects removed kind kl = handle_flush (handle_frames frames kl)"
    using assms(2) by (auto simp: handle_objects_def split: if_splits)
  then have "\<not> kl_exception (handle_frames frames kl)" using assms(2) handle_flush_frame(2) by auto
  then have "keeps_up callback kl (handle_frames frames kl)" by (rule handle_frames_followed [OF assms(1)])
  moreover have "keeps_up callback (handle_frames frames kl) (handle_flush (handle_frames frames kl))"
    using assms by (intro handle_flush_followed) (simp_all add: eq handle_frames_frame)
  ultimately show ?thesis unfolding eq by (rule followed_trans)
qed

lemma ensure_watch_frame:
  "kl_told (ensure_watch what ns i kl) = kl_told kl" "kl_objects (ensure_watch what ns i kl) = kl_objects kl"
  "kl_callbacks (ensure_watch what ns i kl) = kl_callbacks kl" "kl_exception (ensure_watch what ns i kl) = kl_exception kl"
  "kl_namespace (ensure_watch what ns i kl) = kl_namespace kl" "kl_batch (ensure_watch what ns i kl) = kl_batch kl"
  by (simp_all add: ensure_watch_def Let_def split: option.split)

lemma fold_ensure_watch_frame:
  "kl_told (fold (\<lambda>ns. ensure_watch what ns i) nss kl) = kl_told kl"
  "kl_objects (fold (\<lambda>ns. ensure_watch what ns i) nss kl) = kl_objects kl"
  "kl_callbacks (fold (\<lambda>ns. ensure_watch what ns i) nss kl) = kl_callbacks kl"
  "kl_exception (fold (\<lambda>ns. ensure_watch what ns i) nss kl) = kl_exception kl"
  "kl_namespace (fold (\<lambda>ns. ensure_watch what ns i) nss kl) = kl_namespace kl"
  by (induction nss arbitrary: kl) (simp_all add: ensure_watch_frame)

lemma ensure_watches_frame:
  "kl_told (ensure_watches what i kl) = kl_told kl" "kl_objects (ensure_watches what i kl) = kl_objects kl"
  "kl_callbacks (ensure_watches what i kl) = kl_callbacks kl" "kl_exception (ensure_watches what i kl) = kl_exception kl"
  "kl_namespace (ensure_watches what i kl) = kl_namespace kl"
  by (simp_all add: ensure_watches_def ensure_watch_frame fold_ensure_watch_frame split: js.split)

lemma reconnect_frame:
  "kl_told (fold (\<lambda>(path, w). ensure_watches (kw_what w) (kw_references w)) ws kl) = kl_told kl"
  "kl_objects (fold (\<lambda>(path, w). ensure_watches (kw_what w) (kw_references w)) ws kl) = kl_objects kl"
  "kl_callbacks (fold (\<lambda>(path, w). ensure_watches (kw_what w) (kw_references w)) ws kl) = kl_callbacks kl"
  "kl_exception (fold (\<lambda>(path, w). ensure_watches (kw_what w) (kw_references w)) ws kl) = kl_exception kl"
  by (induction ws arbitrary: kl) (auto simp: ensure_watches_frame)

text \<open>The ways the limit can go: the flush throws, an object throws, or all is done.\<close>

lemma adjust_namespace_cases:
  obtains (flush_threw) kl' where "flush_batch (kl\<lparr>kl_timeout := False, kl_namespace := limit\<rparr>) = (kl', FlushThrew)"
      "adjust_namespace limit kl = kl'"
  | (object_threw) "kl_exception (adjust_namespace limit kl)" "kl_callbacks (adjust_namespace limit kl) = kl_callbacks kl"
  | (adjusted) kl' result present removed st where
      "flush_batch (kl\<lparr>kl_timeout := False, kl_namespace := limit\<rparr>) = (kl', result)" "result \<noteq> FlushThrew"
      "(present, removed) = (case result of Flushed present removed \<Rightarrow> (present, removed) | _ \<Rightarrow> ([], []))"
      "drop_outside limit (kl_objects kl') \<lparr>fl_objects = kl_objects kl', fl_present = present, fl_removed = removed\<rparr> = (st, True)"
      "adjust_namespace limit kl =
         fold (\<lambda>(path, w). ensure_watches (kw_what w) (kw_references w)) (filter (\<lambda>(path, w). stale_watch limit w) (kl_watching kl'))
           (invoke_callbacks (Changed (fl_present st) (fl_removed st))
             (kl'\<lparr>kl_objects := fl_objects st, kl_watching := filter (\<lambda>(path, w). \<not> stale_watch limit w) (kl_watching kl'),
                  kl_cancelled := kl_cancelled kl' @ okeys (filter (\<lambda>(path, w). stale_watch limit w) (kl_watching kl'))\<rparr>))"
proof -
  obtain kl' result where fb: "flush_batch (kl\<lparr>kl_timeout := False, kl_namespace := limit\<rparr>) = (kl', result)" by force
  obtain present removed where pr: "(present, removed) = (case result of Flushed present removed \<Rightarrow> (present, removed) | _ \<Rightarrow> ([], []))"
    by (metis surj_pair)
  obtain st b where st: "drop_outside limit (kl_objects kl') \<lparr>fl_objects = kl_objects kl', fl_present = present, fl_removed = removed\<rparr> = (st, b)"
    by force
  have cb: "kl_callbacks kl' = kl_callbacks kl" using flush_batch_tells(2) [OF fb] by simp
  show ?thesis
  proof (cases "result = FlushThrew")
    case True
    then show ?thesis using fb flush_threw by (simp add: adjust_namespace_def)
  next
    case False
    then show ?thesis
      using fb pr st cb adjusted [OF fb False pr] object_threw
      by (cases result; cases b) (simp_all add: adjust_namespace_def Let_def)
  qed
qed

lemma adjust_namespace_followed:
  assumes "Some callback \<in> set (kl_callbacks kl)" "\<not> kl_exception (adjust_namespace limit kl)"
  shows "keeps_up callback kl (adjust_namespace limit kl)"
proof (cases rule: adjust_namespace_cases [of limit kl])
  case (flush_threw kl')
  then show ?thesis using assms(2) flush_batch_tells(6) [OF flush_threw(1)] by simp
next
  case object_threw
  then show ?thesis using assms(2) by simp
next
  case (adjusted kl' result present removed st)
  note f = flush_batch_tells [OF adjusted(1)]
  have "tells (oget (kl_objects kl)) \<lparr>fl_objects = kl_objects kl', fl_present = present, fl_removed = removed\<rparr>"
    using adjusted(2,3) f(5) f(7) by (cases result) (auto simp: tells_def overlay_def fun_eq_iff)
  then have "tells (oget (kl_objects kl)) st"
    using drop_outside_tells adjusted(4) by (metis fst_conv)
  then have "keeps_up callback kl (invoke_callbacks (Changed (fl_present st) (fl_removed st))
             (kl'\<lparr>kl_objects := fl_objects st, kl_watching := filter (\<lambda>(path, w). \<not> stale_watch limit w) (kl_watching kl'),
                  kl_cancelled := kl_cancelled kl' @ okeys (filter (\<lambda>(path, w). stale_watch limit w) (kl_watching kl'))\<rparr>))"
    using f(1,2) assms(1) by (intro invoke_followed) (simp_all add: tells_def fun_eq_iff)
  then show ?thesis
    unfolding adjusted(5) by (rule followed_trans) (rule followed_same; simp add: reconnect_frame)
qed

lemma adjust_namespace_frame:
  "kl_callbacks (adjust_namespace limit kl) = kl_callbacks kl" "kl_exception kl \<Longrightarrow> kl_exception (adjust_namespace limit kl)"
proof -
  have "kl_callbacks (adjust_namespace limit kl) = kl_callbacks kl \<and> (kl_exception kl \<longrightarrow> kl_exception (adjust_namespace limit kl))"
  proof (cases rule: adjust_namespace_cases [of limit kl])
    case (flush_threw kl')
    then show ?thesis using flush_batch_tells(2,6) [OF flush_threw(1)] by simp
  next
    case (adjusted kl' result present removed st)
    note f = flush_batch_tells [OF adjusted(1)]
    show ?thesis
      using f(2) f(5) f(8) adjusted(2) unfolding adjusted(5)
      by (cases result) (simp_all add: reconnect_frame invoke_callbacks_def)
  qed simp
  then show "kl_callbacks (adjust_namespace limit kl) = kl_callbacks kl" "kl_exception kl \<Longrightarrow> kl_exception (adjust_namespace limit kl)"
    by simp_all
qed

fun unlistens :: "nat \<Rightarrow> loader_op \<Rightarrow> bool" where
  "unlistens callback (LUnlisten handle f) = (f = callback)"
| "unlistens callback _ = False"

lemma load_response_shape:
  "fst (load_response resource kl) = kl \<or> (\<exists>objects removed kind. fst (load_response resource kl) = handle_objects objects removed kind kl)"
  by (auto simp: load_response_def split: js.split)

lemma handle_objects_frame:
  "kl_callbacks (handle_objects objects removed kind kl) = kl_callbacks kl"
  "kl_exception kl \<Longrightarrow> kl_exception (handle_objects objects removed kind kl)"
  by (simp_all add: handle_objects_def handle_flush_frame handle_frames_frame)

lemma load_response_frame:
  "kl_callbacks (fst (load_response resource kl)) = kl_callbacks kl" "kl_exception kl \<Longrightarrow> kl_exception (fst (load_response resource kl))"
  using load_response_shape [of resource kl] by (auto simp: handle_objects_frame)

lemmas loader_frame = ensure_watches_frame handle_frames_frame handle_timeout_def handle_flush_frame handle_objects_frame load_response_frame
  adjust_namespace_frame reset_loader_def invoke_callbacks_def listen_def

lemma loader_step_keeps:
  assumes "Some callback \<in> set (kl_callbacks kl)" "\<not> unlistens callback x"
  shows "Some callback \<in> set (kl_callbacks (loader_step x kl))"
proof (cases x)
  case (LUnlisten handle f)
  then show ?thesis using assms by (force simp: listen_cancel_def)
next
  case (LCancel path)
  then show ?thesis using assms by (simp add: cancel_watch_def split: option.split)
next
  case (LStart handle)
  then show ?thesis using assms by (simp add: listen_start_def split: option.split)
qed (use assms in \<open>simp_all add: loader_frame\<close>)

lemma loader_step_exception: "kl_exception kl \<Longrightarrow> kl_exception (loader_step x kl)"
proof (cases x)
  case (LCancel path)
  then show "kl_exception kl \<Longrightarrow> kl_exception (loader_step x kl)" by (simp add: cancel_watch_def split: option.split)
next
  case (LStart handle)
  then show "kl_exception kl \<Longrightarrow> kl_exception (loader_step x kl)" by (simp add: listen_start_def split: option.split)
qed (simp_all add: loader_frame listen_cancel_def)

lemma loader_step_followed:
  assumes "Some callback \<in> set (kl_callbacks kl)" "\<not> kl_exception (loader_step x kl)"
  shows "keeps_up callback kl (loader_step x kl)"
proof (cases x)
  case LTimeout
  have "keeps_up callback kl (kl\<lparr>kl_timeout := False\<rparr>)" by (rule followed_same) simp_all
  from followed_trans [OF this] show ?thesis
    using assms handle_flush_followed [of callback "kl\<lparr>kl_timeout := False\<rparr>"] LTimeout
    by (auto simp: handle_timeout_def followed_same)
next
  case (LLoaded r)
  then show ?thesis
    using assms load_response_shape [of r kl] handle_objects_followed [OF assms(1)] by (auto simp: followed_same)
next
  case LReset
  then show ?thesis using assms(1) by (auto simp: reset_loader_def fun_eq_iff intro!: invoke_followed)
next
  case (LStart handle)
  then show ?thesis
  proof (cases "oget (kl_starts kl) handle")
    case (Some f)
    then show ?thesis
      unfolding LStart by (intro followedI [where calls = "[(f, Initial (kl_objects kl))]"]) (simp_all add: listen_start_def told_to_def)
  qed (simp add: listen_start_def followed_same)
qed (use assms in \<open>auto simp: ensure_watches_frame cancel_watch_def listen_def listen_cancel_def handle_frames_followed
    handle_objects_followed adjust_namespace_followed split: option.split intro!: followed_same\<close>)

lemma loader_run_followed:
  assumes "Some callback \<in> set (kl_callbacks kl)" "\<forall>x \<in> set ops. \<not> unlistens callback x" "\<not> kl_exception (loader_run ops kl)"
  shows "keeps_up callback kl (loader_run ops kl)"
  using assms
proof (induction ops arbitrary: kl)
  case (Cons x ops)
  have "\<not> kl_exception (loader_step x kl)"
  proof
    assume "kl_exception (loader_step x kl)"
    then have "kl_exception (fold loader_step ops (loader_step x kl))"
      by (induction ops arbitrary: kl x) (auto simp: loader_step_exception)
    then show False using Cons.prems(3) by (simp add: loader_run_def)
  qed
  then have "keeps_up callback kl (loader_step x kl)" by (rule loader_step_followed [OF Cons.prems(1)])
  moreover have "keeps_up callback (loader_step x kl) (loader_run ops (loader_step x kl))"
    using Cons.prems by (intro Cons.IH loader_step_keeps) (simp_all add: loader_run_def)
  ultimately show ?case by (simp add: loader_run_def) (rule followed_trans)
qed (simp add: loader_run_def followed_same)

section \<open>The limit on namespaces\<close>

lemma in_limits_self: "in_limits ns ns \<or> is_array ns"
  by (cases ns) (simp_all add: in_limits_def)

lemma ensure_watch_within:
  assumes "in_limits limit ns" "\<forall>path w. oget (kl_watching kl) path = Some w \<longrightarrow> kw_global w \<or> in_limits limit (kw_namespace w)"
  shows "\<forall>path w. oget (kl_watching (ensure_watch what ns i kl)) path = Some w \<longrightarrow> kw_global w \<or> in_limits limit (kw_namespace w)"
  using assms by (auto simp: ensure_watch_def Let_def split: option.splits)

lemma fold_ensure_watch_within:
  assumes "\<forall>ns \<in> set nss. in_limits limit ns" "\<forall>path w. oget (kl_watching kl) path = Some w \<longrightarrow> kw_global w \<or> in_limits limit (kw_namespace w)"
  shows "\<forall>path w. oget (kl_watching (fold (\<lambda>ns. ensure_watch what ns i) nss kl)) path = Some w \<longrightarrow> kw_global w \<or> in_limits limit (kw_namespace w)"
  using assms
proof (induction nss arbitrary: kl)
  case (Cons ns nss)
  have "\<forall>path w. oget (kl_watching (ensure_watch what ns i kl)) path = Some w \<longrightarrow> kw_global w \<or> in_limits limit (kw_namespace w)"
    using Cons.prems by (intro ensure_watch_within) simp_all
  then show ?case using Cons.IH Cons.prems(1) by simp
qed simp

lemma ensure_watches_within:
  assumes "\<forall>path w. oget (kl_watching kl) path = Some w \<longrightarrow> kw_global w \<or> in_limits (kl_namespace kl) (kw_namespace w)"
  shows "\<forall>path w. oget (kl_watching (ensure_watches what i kl)) path = Some w \<longrightarrow> kw_global w \<or> in_limits (kl_namespace kl) (kw_namespace w)"
proof (cases "kl_namespace kl")
  case (JArr nss)
  then show ?thesis
    using assms fold_ensure_watch_within [of nss "JArr nss" kl what i] by (simp add: ensure_watches_def in_limits_def)
qed (use assms ensure_watch_within in_limits_self [of "kl_namespace kl"] in \<open>simp_all add: ensure_watches_def\<close>)

lemma reconnect_within:
  assumes "\<forall>path w. oget (kl_watching kl) path = Some w \<longrightarrow> kw_global w \<or> in_limits limit (kw_namespace w)" "kl_namespace kl = limit"
  shows "\<forall>path w. oget (kl_watching (fold (\<lambda>(path, w). ensure_watches (kw_what w) (kw_references w)) ws kl)) path = Some w \<longrightarrow>
    kw_global w \<or> in_limits limit (kw_namespace w)"
  using assms
proof (induction ws arbitrary: kl)
  case (Cons x ws)
  obtain path v where x: "x = (path, v)" by force
  show ?case
    using Cons.IH [of "ensure_watches (kw_what v) (kw_references v) kl"] Cons.prems ensure_watches_within [of kl "kw_what v" "kw_references v"]
    by (simp add: x ensure_watches_frame)
qed simp

text \<open>Objects left after the loop: each was seen, and only those outside were taken.\<close>

lemma drop_outside_within:
  assumes "drop_outside limit objs st = (st', True)" "oget (fl_objects st') link = Some object"
  shows "oget (fl_objects st) link = Some object \<and> ((link, object) \<in> set objs \<longrightarrow>
    \<not> truthy (fld (fld object ''metadata'') ''namespace'') \<or> in_limits limit (fld (fld object ''metadata'') ''namespace''))"
  using assms
proof (induction objs arbitrary: st)
  case (Cons x objs)
  obtain l ob where x: "x = (l, ob)" by force
  let ?ns = "fld (fld ob ''metadata'') ''namespace''"
  let ?st = "if limit \<noteq> JNull \<and> truthy ?ns \<and> \<not> in_limits limit ?ns then flush_remove l ob st else st"
  have rest: "drop_outside limit objs ?st = (st', True)"
    using Cons.prems by (auto simp: x Let_def split: if_splits)
  note IH = Cons.IH [OF rest Cons.prems(2)]
  then have kept: "oget (fl_objects ?st) link = Some object" by blast
  have "link \<noteq> l \<or> limit = JNull \<or> \<not> truthy ?ns \<or> in_limits limit ?ns"
    using kept by (auto simp: flush_remove_def split: if_splits)
  moreover have "oget (fl_objects st) link = Some object"
    using kept by (auto simp: flush_remove_def split: if_splits)
  ultimately show ?case
    using IH by (auto simp: x in_limits_def)
qed simp

lemma oget_in_set: "oget m k = Some v \<Longrightarrow> (k, v) \<in> set m"
  by (simp add: oget_map_of map_of_SomeD)

lemma adjust_namespace_within:
  assumes "\<not> kl_exception (adjust_namespace limit kl)"
  shows "oget (kl_objects (adjust_namespace limit kl)) link = Some object \<Longrightarrow>
      \<not> truthy (fld (fld object ''metadata'') ''namespace'') \<or> in_limits limit (fld (fld object ''metadata'') ''namespace'')"
    and "oget (kl_watching (adjust_namespace limit kl)) path = Some w \<Longrightarrow>
      kw_global w \<or> in_limits limit (kw_namespace w)"
proof -
  have "(oget (kl_objects (adjust_namespace limit kl)) link = Some object \<longrightarrow>
      \<not> truthy (fld (fld object ''metadata'') ''namespace'') \<or> in_limits limit (fld (fld object ''metadata'') ''namespace'')) \<and>
    (oget (kl_watching (adjust_namespace limit kl)) path = Some w \<longrightarrow>
      kw_global w \<or> in_limits limit (kw_namespace w))"
  proof (cases rule: adjust_namespace_cases [of limit kl])
    case (flush_threw kl')
    then show ?thesis using assms flush_batch_tells(6) [OF flush_threw(1)] by simp
  next
    case (adjusted kl' result present removed st)
    note f = flush_batch_tells [OF adjusted(1)]
    have objs: "kl_objects (adjust_namespace limit kl) = fl_objects st"
      unfolding adjusted(5) by (simp add: reconnect_frame invoke_callbacks_def)
    have inside: "\<not> truthy (fld (fld object ''metadata'') ''namespace'') \<or> in_limits limit (fld (fld object ''metadata'') ''namespace'')"
      if "oget (fl_objects st) link = Some object"
      using drop_outside_within [OF adjusted(4) that] by (auto dest: oget_in_set)
    let ?k = "invoke_callbacks (Changed (fl_present st) (fl_removed st))
      (kl'\<lparr>kl_objects := fl_objects st, kl_watching := filter (\<lambda>(path, w). \<not> stale_watch limit w) (kl_watching kl'),
           kl_cancelled := kl_cancelled kl' @ okeys (filter (\<lambda>(path, w). stale_watch limit w) (kl_watching kl'))\<rparr>)"
    have "kw_global v \<or> in_limits limit (kw_namespace v)" if "oget (kl_watching ?k) p = Some v" for p v
    proof -
      have "\<not> stale_watch limit v" using that by (auto simp: invoke_callbacks_def dest: oget_in_set)
      then show ?thesis by (auto simp: stale_watch_def in_limits_def split: if_splits)
    qed
    moreover have "kl_namespace ?k = limit" using f(4) by (simp add: invoke_callbacks_def)
    ultimately have "oget (kl_watching (adjust_namespace limit kl)) path = Some w \<Longrightarrow> kw_global w \<or> in_limits limit (kw_namespace w)"
      unfolding adjusted(5) using reconnect_within [of ?k limit] by blast
    then show ?thesis using objs inside by simp
  qed (use assms in simp)
  then show "oget (kl_objects (adjust_namespace limit kl)) link = Some object \<Longrightarrow>
      \<not> truthy (fld (fld object ''metadata'') ''namespace'') \<or> in_limits limit (fld (fld object ''metadata'') ''namespace'')"
    "oget (kl_watching (adjust_namespace limit kl)) path = Some w \<Longrightarrow> kw_global w \<or> in_limits limit (kw_namespace w)"
    by blast+
qed

section \<open>Properties of the loader\<close>

text \<open>C14: A listener that adds what it is told is present and takes away what it is told is removed knows exactly the objects
  of the loader: after any operations on the loader, with frames of watches arriving, timers, objects handed in, loads,
  changes of the namespaces, resets, and other listeners coming and going, replaying the calls on the objects that were
  there gives the objects that are there now.
\<close>

theorem listener_knows_objects:
  assumes "Some callback \<in> set (kl_callbacks kl)"
    and "\<forall>x \<in> set ops. \<not> unlistens callback x"
    and "\<not> kl_exception (loader_run ops kl)"
  shows "fold replay (told_to callback (drop (length (kl_told kl)) (kl_told (loader_run ops kl)))) (oget (kl_objects kl)) =
    oget (kl_objects (loader_run ops kl))"
  using loader_run_followed [OF assms] unfolding keeps_up_def by force

definition sample_pod :: "string \<Rightarrow> string \<Rightarrow> js" where
  "sample_pod name ns = JObj [(''kind'', JStr ''Pod''),
     (''metadata'', JObj [(''name'', JStr name), (''namespace'', JStr ns), (''selfLink'', JStr (''/'' @ ns @ ''/'' @ name))])]"

definition sample_frame :: "string \<Rightarrow> js \<Rightarrow> kube_frame" where
  "sample_frame type object = \<lparr>kf_type = type, kf_object = object, kf_check = False\<rparr>"

definition sample_ops :: "loader_op list" where
  "sample_ops = [LWatch (JStr ''pods''), LFrames [sample_frame ''ADDED'' (sample_pod ''a'' ''x'')],
     LFrames [sample_frame ''ADDED'' (sample_pod ''b'' ''y''), sample_frame ''DELETED'' (sample_pod ''a'' ''x'')], LTimeout, LLimit (JStr ''y'')]"

lemma pods_schema: "schema_of (JStr ''pods'') = \<lparr>ks_type = ''pods'', ks_api = ''/api/v1'', ks_global = False, ks_create = - 20\<rparr>"
  by code_simp

lemma pods_path: "watch_path (JStr ''pods'') JNull = ''/api/v1/pods''" "watch_path (JStr ''pods'') (JStr ''y'') = ''/api/v1/namespaces/y/pods''"
  "ks_global (schema_of (JStr ''pods'')) = False"
  by (simp_all add: watch_path_def pods_schema)

lemma sample_link_a: "flush_link (sample_pod ''a'' ''x'') = Some ''/x/a''"
  by code_simp

lemma sample_link_b: "flush_link (sample_pod ''b'' ''y'') = Some ''/y/b''"
  by code_simp

lemma sample_meta: "fld (fld (sample_pod n ns) ''metadata'') ''namespace'' = JStr ns" "fld (sample_pod n ns) ''metadata'' \<noteq> JUndef" "fld (sample_pod n ns) ''metadata'' \<noteq> JNull"
  "truthy (sample_pod n ns)"
  by (simp_all add: sample_pod_def)

lemmas loader_eval = loader_run_def listen_def new_loader_def ensure_watches_def ensure_watch_def Let_def handle_frames_def handle_flush_def flush_batch_def
  flush_frame_def flush_remove_def invoke_callbacks_def sample_frame_def handle_timeout_def adjust_namespace_def stale_watch_def in_limits_def
  pods_path sample_link_a sample_link_b sample_meta odel_def okeys_def

theorem listener_knows_objects_witness:
  "fold replay (told_to 7 (drop (length (kl_told (listen 7 False new_loader))) (kl_told (loader_run sample_ops (listen 7 False new_loader)))))
     (oget (kl_objects (listen 7 False new_loader))) = oget (kl_objects (loader_run sample_ops (listen 7 False new_loader)))"
proof (rule listener_knows_objects)
  show "Some 7 \<in> set (kl_callbacks (listen 7 False new_loader))" by (simp add: listen_def new_loader_def)
  show "\<forall>x \<in> set sample_ops. \<not> unlistens 7 x" by (simp add: sample_ops_def)
  show "\<not> kl_exception (loader_run sample_ops (listen 7 False new_loader))" by (simp add: sample_ops_def loader_eval)
qed


definition sample_loader :: kube_loader where
  "sample_loader = loader_run [LWatch (JStr ''pods''), LFrames [sample_frame ''ADDED'' (sample_pod ''a'' ''x''), sample_frame ''ADDED'' (sample_pod ''b'' ''y'')]]
     new_loader"


section \<open>What the loader does not do\<close>

text \<open>The references of a watch are never a number, so no \<open>cancel\<close> ever stops a watch.\<close>

definition unreferenced :: "kube_loader \<Rightarrow> bool" where
  "unreferenced kl \<longleftrightarrow> (\<forall>path w. oget (kl_watching kl) path = Some w \<longrightarrow> kw_references w = None)"

lemma ensure_watch_unreferenced: "unreferenced kl \<Longrightarrow> unreferenced (ensure_watch what ns i kl)"
  by (auto simp: unreferenced_def ensure_watch_def Let_def split: option.splits)

lemma cancel_never_stops: "unreferenced kl \<Longrightarrow> cancel_watch path kl = kl"
  by (auto simp: unreferenced_def cancel_watch_def split: option.split)

lemma fresh_cancel: "cancel_watch (watch_path (JStr ''pods'') JNull) (ensure_watches (JStr ''pods'') (Some 1) new_loader) =
  ensure_watches (JStr ''pods'') (Some 1) new_loader"
proof (rule cancel_never_stops)
  have "unreferenced new_loader" by (simp add: new_loader_def unreferenced_def)
  moreover have "kl_namespace new_loader = JNull" by (simp add: new_loader_def)
  ultimately show "unreferenced (ensure_watches (JStr ''pods'') (Some 1) new_loader)"
    by (simp add: ensure_watches_def ensure_watch_unreferenced)
qed

text \<open>A resource whose kind has three letters is taken for a list: a \<open>Pod\<close> cannot be loaded.\<close>

lemma load_three_letters: "length kind = 3 \<Longrightarrow> find_sub ''List'' kind = None \<Longrightarrow> list_kind kind"
  by (simp add: list_kind_def)

lemma load_pod_throws: "load_response (sample_pod name ns) kl = (kl, None)"
  by (simp add: load_response_def sample_pod_def list_kind_def)

text \<open>An older version that is handed in does not take the place of a newer one.\<close>

lemma older_ignored:
  assumes "kf_check f" "kf_type f \<noteq> ''DELETED''" "flush_link (kf_object f) = Some link"
    "resource_version (kf_object f) = Some c" "resource_version (opt (fl_objects st) link) = Some l" "0 < c" "c < l"
  shows "flush_frame f st = Some st"
  using assms by (simp add: flush_frame_def newer_def)

end
