(* ===== verification/Kube_Select.thy ===== *)
theory Kube_Select
  imports Kube_Client
begin

text \<open>
  The selection of objects of \<open>pkg/kubernetes/scripts/kube-client.js\<close> (\<open>kubeSelect\<close>): filters that are answered from a
  hash index over the keys of the objects, with caches of their results.  The index is kept up by a listener of the
  loader, and a version tells which caches are stale.  What is shown is that neither the index nor the caches can be
  seen: a filter always has exactly the objects that it describes.
\<close>

section \<open>Filters\<close>

type_synonym dict = "(string, js) obj"

text \<open>\<open>None\<close> is an exception of the function; a key is compared and put into texts.\<close>

datatype kube_filter =
    Plain "dict \<Rightarrow> js list \<Rightarrow> js"
  | Digest "js \<Rightarrow> js option"
  | Digests "js \<Rightarrow> string list option"

definition arg_of :: "js list \<Rightarrow> js" where
  "arg_of args = (case args of [] \<Rightarrow> JUndef | a # _ \<Rightarrow> a)"

definition one_filter :: "dict \<Rightarrow> js list \<Rightarrow> js" where
  "one_filter d args = (case d of [] \<Rightarrow> JNull | (link, object) # _ \<Rightarrow> object)"

definition extend_filter :: "dict \<Rightarrow> js list \<Rightarrow> js" where
  "extend_filter d args =
     (case arg_of args of JObj target \<Rightarrow> JObj (fold (\<lambda>(link, object) t. oset t link object) d target) | v \<Rightarrow> v)"

definition label_digests :: "js \<Rightarrow> string list option" where
  "label_digests arg =
     Some (if \<not> truthy arg then []
       else let meta = fld arg ''metadata'';
                labels = (if truthy meta then fld meta ''labels'' else arg)
            in case labels of JObj kvs \<Rightarrow> map (\<lambda>(i, v). i @ ''='' @ to_str v) kvs | _ \<Rightarrow> [])"

text \<open>The filters by a text or by what \<open>read\<close> takes from an object.\<close>

definition text_digest :: "(js \<Rightarrow> js) \<Rightarrow> js \<Rightarrow> js option" where
  "text_digest read arg = Some (if \<not> truthy arg then JNull else case arg of JStr s \<Rightarrow> JStr s | v \<Rightarrow> read v)"

definition meta_field :: "string \<Rightarrow> js \<Rightarrow> js" where
  "meta_field k v = (let meta = fld v ''metadata'' in if truthy meta then fld meta k else JNull)"

definition namespace_digest :: "js \<Rightarrow> js option" where
  "namespace_digest = text_digest (meta_field ''namespace'')"

definition name_digest :: "js \<Rightarrow> js option" where
  "name_digest = text_digest (meta_field ''name'')"

definition kind_digest :: "js \<Rightarrow> js option" where
  "kind_digest = text_digest (\<lambda>v. fld v ''kind'')"

definition host_digest :: "js \<Rightarrow> js option" where
  "host_digest = text_digest (\<lambda>v. let spec = fld v ''spec'' in if truthy spec then fld spec ''nodeName'' else JNull)"

definition uid_digest :: "js \<Rightarrow> js option" where
  "uid_digest = text_digest (meta_field ''uid'')"

text \<open>Reading \<open>status\<close> of \<open>undefined\<close> or \<open>null\<close> throws.\<close>

definition status_phase_digest :: "js \<Rightarrow> js option" where
  "status_phase_digest arg =
     (case arg of JStr s \<Rightarrow> Some (JStr s) | JUndef \<Rightarrow> None | JNull \<Rightarrow> None
      | v \<Rightarrow> let phase = fld (fld v ''status'') ''phase'' in Some (if truthy phase then phase else JNull))"

section \<open>State\<close>

text \<open>The dicts of objects are numbered: 0 is that of the loader, 1 the empty one.\<close>

datatype sel_result = DictResult nat | ValueResult js

record sel_cache =
  sc_version :: nat
  sc_length :: "nat option"
  sc_indexed :: bool
  sc_selection :: bool
  sc_single :: "nat option"
  sc_results :: "(string \<times> js list, sel_result) obj"

record kube_select =
  sl_filters :: "(string, kube_filter) obj"
  sl_index :: "string buckets option"
  sl_version :: nat
  sl_dicts :: "dict list"
  sl_cache :: "(nat, sel_cache) obj"

definition index_size :: nat where "index_size = 262139"

section \<open>Operations\<close>

definition index_filter :: "kube_filter \<Rightarrow> string \<Rightarrow> js \<Rightarrow> string buckets \<Rightarrow> string buckets option" where
  "index_filter f link object ix =
     (case f of
        Plain _ \<Rightarrow> Some ix
      | Digest dg \<Rightarrow> (case dg object of None \<Rightarrow> None
          | Some key \<Rightarrow> Some (if truthy key then index_add index_size [to_str key] link ix else ix))
      | Digests dg \<Rightarrow> (case dg object of None \<Rightarrow> None
          | Some keys \<Rightarrow> Some (if keys \<noteq> [] then index_add index_size keys link ix else ix)))"

text \<open>\<open>indexObjects(objects)\<close>; what throws leaves what was indexed until then.\<close>

fun index_filters :: "kube_filter list \<Rightarrow> string \<Rightarrow> js \<Rightarrow> string buckets \<Rightarrow> string buckets \<times> bool" where
  "index_filters [] link object ix = (ix, True)"
| "index_filters (f # fs) link object ix =
     (case index_filter f link object ix of None \<Rightarrow> (ix, False) | Some ix \<Rightarrow> index_filters fs link object ix)"

fun index_objects :: "kube_filter list \<Rightarrow> dict \<Rightarrow> string buckets \<Rightarrow> string buckets \<times> bool" where
  "index_objects fs [] ix = (ix, True)"
| "index_objects fs ((link, object) # objects) ix =
     (case index_filters fs link object ix of (ix, True) \<Rightarrow> index_objects fs objects ix | r \<Rightarrow> r)"

definition filter_list :: "kube_select \<Rightarrow> kube_filter list" where
  "filter_list sl = map snd (sl_filters sl)"

definition sel_listener :: "kube_told \<Rightarrow> kube_select \<Rightarrow> kube_select" where
  "sel_listener t sl =
     (let sl = sl\<lparr>sl_version := sl_version sl + 1\<rparr>;
          more_objects = (\<lambda>present. case sl_index sl of None \<Rightarrow> sl
            | Some ix \<Rightarrow> sl\<lparr>sl_index := Some (fst (index_objects (filter_list sl) present ix))\<rparr>)
      in case t of Resetting \<Rightarrow> sl\<lparr>sl_index := None\<rparr> | Changed present removed \<Rightarrow> more_objects present | Initial objects \<Rightarrow> more_objects objects)"

definition cached :: "nat \<Rightarrow> kube_select \<Rightarrow> kube_select \<times> sel_cache" where
  "cached d sl =
     (let fresh = (\<lambda>len. \<lparr>sc_version = sl_version sl, sc_length = len, sc_indexed = False, sc_selection = False, sc_single = None,
                    sc_results = []\<rparr>);
          set_data = (\<lambda>data. (sl\<lparr>sl_cache := oset (sl_cache sl) d data\<rparr>, data))
      in case oget (sl_cache sl) d of
           None \<Rightarrow> set_data (fresh None)
         | Some data \<Rightarrow> if sc_version data \<noteq> sl_version sl then set_data (fresh (sc_length data)) else (sl, data))"

text \<open>\<open>mixinSelection\<close> on a dict that is there already; the length is counted when it is not given.\<close>

definition mixin_selection :: "nat \<Rightarrow> nat option \<Rightarrow> bool \<Rightarrow> kube_select \<Rightarrow> kube_select" where
  "mixin_selection d len indexed sl =
     (let len = (case len of None \<Rightarrow> length (sl_dicts sl ! d) | Some n \<Rightarrow> n);
          (sl, data) = cached d sl
      in sl\<lparr>sl_cache := oset (sl_cache sl) d (data\<lparr>sc_length := Some len, sc_selection := True, sc_indexed := indexed\<rparr>)\<rparr>)"

definition new_dict :: "dict \<Rightarrow> kube_select \<Rightarrow> kube_select \<times> nat" where
  "new_dict objects sl = (sl\<lparr>sl_dicts := sl_dicts sl @ [objects]\<rparr>, length (sl_dicts sl))"

text \<open>The loops of \<open>digestFilter\<close> and \<open>digestsFilter\<close> over the possible links.\<close>

fun digest_matches :: "(js \<Rightarrow> js option) \<Rightarrow> js \<Rightarrow> dict \<Rightarrow> string list \<Rightarrow> dict \<Rightarrow> dict option" where
  "digest_matches dg key what [] results = Some results"
| "digest_matches dg key what (link # possible) results =
     (case oget what link of
        None \<Rightarrow> digest_matches dg key what possible results
      | Some object \<Rightarrow>
          if \<not> truthy object then digest_matches dg key what possible results
          else (case dg object of
              None \<Rightarrow> None
            | Some k \<Rightarrow> digest_matches dg key what possible (if key = k then oset results link object else results)))"

definition digest_filter :: "(js \<Rightarrow> js option) \<Rightarrow> string buckets \<Rightarrow> dict \<Rightarrow> js list \<Rightarrow> dict option" where
  "digest_filter dg ix what criteria =
     (case dg (arg_of criteria) of
        None \<Rightarrow> None
      | Some key \<Rightarrow>
          digest_matches dg key what (if key \<noteq> JNull \<and> key \<noteq> JUndef then index_get index_size (to_str key) ix else []) [])"

text \<open>The search for a run of \<open>keys\<close> in \<open>keyo\<close>, both sorted: the first key, and the others right behind it.\<close>

definition run_at :: "string list \<Rightarrow> string list \<Rightarrow> nat \<Rightarrow> bool" where
  "run_at keys keyo j \<longleftrightarrow> keys ! 0 = keyo ! j \<and> list_all (\<lambda>k. j + k < length keyo \<and> keys ! k = keyo ! (j + k)) [0..<length keys]"

definition run_match :: "string list \<Rightarrow> string list \<Rightarrow> bool" where
  "run_match keys keyo = list_ex (run_at keys keyo) [0..<length keyo]"

fun digests_matches :: "(js \<Rightarrow> string list option) \<Rightarrow> string list \<Rightarrow> dict \<Rightarrow> string list \<Rightarrow> dict \<Rightarrow> dict option" where
  "digests_matches dg keys what [] results = Some results"
| "digests_matches dg keys what (link # possible) results =
     (case oget what link of
        None \<Rightarrow> digests_matches dg keys what possible results
      | Some object \<Rightarrow>
          if \<not> truthy object then digests_matches dg keys what possible results
          else (case dg object of
              None \<Rightarrow> None
            | Some keyo \<Rightarrow> digests_matches dg keys what possible (if run_match keys (sort keyo) then oset results link object else results)))"

definition digests_filter :: "(js \<Rightarrow> string list option) \<Rightarrow> string buckets \<Rightarrow> dict \<Rightarrow> js list \<Rightarrow> dict option" where
  "digests_filter dg ix what criteria =
     (case dg (arg_of criteria) of
        None \<Rightarrow> None
      | Some keys \<Rightarrow> digests_matches dg (sort keys) what (if keys \<noteq> [] then index_all index_size keys ix else []) [])"

text \<open>\<open>indexCreate\<close>, and the indexing of a dict that is not indexed yet; the flag tells that nothing was thrown.\<close>

definition index_create :: "kube_select \<Rightarrow> kube_select \<times> bool" where
  "index_create sl =
     (case index_objects (filter_list sl) (sl_dicts sl ! 0) [] of (ix, ok) \<Rightarrow> (sl\<lparr>sl_index := Some ix\<rparr>, ok))"

definition index_dict :: "nat \<Rightarrow> kube_select \<Rightarrow> kube_select \<times> bool" where
  "index_dict d sl =
     (case sl_index sl of None \<Rightarrow> (sl, False)
      | Some ix \<Rightarrow> (case index_objects (filter_list sl) (sl_dicts sl ! d) ix of (ix, ok) \<Rightarrow> (sl\<lparr>sl_index := Some ix\<rparr>, ok)))"

definition update_cache :: "nat \<Rightarrow> (sel_cache \<Rightarrow> sel_cache) \<Rightarrow> kube_select \<Rightarrow> kube_select" where
  "update_cache d f sl = (case oget (sl_cache sl) d of None \<Rightarrow> sl | Some c \<Rightarrow> sl\<lparr>sl_cache := oset (sl_cache sl) d (f c)\<rparr>)"

definition ensure_indexed :: "nat \<Rightarrow> kube_select \<Rightarrow> kube_select \<times> bool" where
  "ensure_indexed d sl =
     (let (sl, ok) = (if sl_index sl = None then index_create sl else (sl, True));
          indexed = (case oget (sl_cache sl) d of None \<Rightarrow> False | Some c \<Rightarrow> sc_indexed c)
      in if \<not> ok then (sl, False)
         else if indexed then (sl, True)
         else (case index_dict d sl of (sl, ok) \<Rightarrow> (if ok then update_cache d (\<lambda>c. c\<lparr>sc_indexed := True\<rparr>) sl else sl, ok)))"

text \<open>What a filter that goes by the index finds.\<close>

definition filter_matches :: "kube_filter \<Rightarrow> nat \<Rightarrow> js list \<Rightarrow> kube_select \<Rightarrow> dict option" where
  "filter_matches f d args sl =
     (case sl_index sl of None \<Rightarrow> None
      | Some ix \<Rightarrow>
          (case f of
             Digest dg \<Rightarrow> digest_filter dg ix (sl_dicts sl ! d) args
           | Digests dg \<Rightarrow> digests_filter dg ix (sl_dicts sl ! d) args
           | Plain _ \<Rightarrow> None))"

text \<open>A call of the filter \<open>name\<close> on the dict \<open>d\<close> (\<open>makePrototypeCall\<close>); \<open>None\<close> when it throws.\<close>

definition select_call :: "string \<Rightarrow> nat \<Rightarrow> js list \<Rightarrow> kube_select \<Rightarrow> kube_select \<times> sel_result option" where
  "select_call name d args sl =
     (case oget (sl_filters sl) name of
        None \<Rightarrow> (sl, None)
      | Some f \<Rightarrow>
          (case cached d sl of (sl, cache) \<Rightarrow>
            (case oget (sc_results cache) (name, args) of
               Some r \<Rightarrow> (sl, Some r)
             | None \<Rightarrow>
                 let remember = (\<lambda>r sl. (update_cache d (\<lambda>c. c\<lparr>sc_results := oset (sc_results c) (name, args) r\<rparr>) sl, Some r))
                 in (case f of
                       Plain g \<Rightarrow> remember (ValueResult (g (sl_dicts sl ! d) args)) sl
                     | _ \<Rightarrow>
                         (case ensure_indexed d sl of
                            (sl, False) \<Rightarrow> (sl, None)
                          | (sl, True) \<Rightarrow>
                              (case filter_matches f d args sl of
                                 None \<Rightarrow> (sl, None)
                               | Some results \<Rightarrow>
                                   (case new_dict results sl of (sl, r) \<Rightarrow>
                                      remember (DictResult r) (mixin_selection r (Some (length results)) True sl))))))))"

text \<open>\<open>kubeSelect(arg)\<close>.\<close>

datatype sel_arg = AllObjects | NoObject | DictArg nat

definition is_single :: "dict \<Rightarrow> bool" where
  "is_single d = (case opt d ''kind'' of JStr _ \<Rightarrow> True | _ \<Rightarrow> False)"

definition single_dict :: "dict \<Rightarrow> dict" where
  "single_dict d =
     (let link = fld (opt d ''meta'') ''selfLink'' in [(if truthy link then to_str link else ''1'', JObj d)])"

definition select :: "sel_arg \<Rightarrow> kube_select \<Rightarrow> kube_select \<times> nat" where
  "select arg sl =
     (let (d, indexed) = (case arg of AllObjects \<Rightarrow> (0, True) | NoObject \<Rightarrow> (1, False) | DictArg d \<Rightarrow> (d, False));
          (sl, cache) = cached d sl
      in if sc_selection cache then (sl, d)
         else if is_single (sl_dicts sl ! d) then
           (case sc_single cache of
              Some s \<Rightarrow> (sl, s)
            | None \<Rightarrow>
                (case new_dict (single_dict (sl_dicts sl ! d)) sl of (sl, s) \<Rightarrow>
                   (update_cache d (\<lambda>c. c\<lparr>sc_single := Some s\<rparr>) (mixin_selection s None False sl), s)))
         else (mixin_selection d None indexed sl, d))"

definition register_filter :: "string \<Rightarrow> kube_filter \<Rightarrow> kube_select \<Rightarrow> kube_select" where
  "register_filter name f sl =
     sl\<lparr>sl_filters := oset (sl_filters sl) name f, sl_index := None, sl_version := sl_version sl + 1\<rparr>"

definition new_select :: kube_select where
  "new_select =
     fold (\<lambda>(name, f). register_filter name f)
       [(''one'', Plain one_filter), (''extend'', Plain extend_filter), (''label'', Digests label_digests), (''namespace'', Digest namespace_digest),
        (''name'', Digest name_digest), (''kind'', Digest kind_digest), (''host'', Digest host_digest), (''uid'', Digest uid_digest),
        (''statusPhase'', Digest status_phase_digest)]
       \<lparr>sl_filters = [], sl_index = None, sl_version = 1, sl_dicts = [[], []], sl_cache = []\<rparr>"

section \<open>What a filter describes\<close>

text \<open>An object matches when it has the key of the criteria, or a run of its keys.\<close>

fun matches :: "kube_filter \<Rightarrow> js list \<Rightarrow> js \<Rightarrow> bool" where
  "matches (Plain _) args object = False"
| "matches (Digest dg) args object =
     (case dg (arg_of args) of None \<Rightarrow> False | Some key \<Rightarrow> truthy key \<and> dg object = Some key)"
| "matches (Digests dg) args object =
     (case (dg (arg_of args), dg object) of (Some keys, Some keyo) \<Rightarrow> keys \<noteq> [] \<and> run_match (sort keys) (sort keyo) | _ \<Rightarrow> False)"

text \<open>The criteria have a key that is kept in the index, or no key at all.\<close>

fun definite :: "kube_filter \<Rightarrow> js list \<Rightarrow> bool" where
  "definite (Plain _) args = False"
| "definite (Digest dg) args = (case dg (arg_of args) of None \<Rightarrow> False | Some key \<Rightarrow> truthy key \<or> key = JNull \<or> key = JUndef)"
| "definite (Digests dg) args = (dg (arg_of args) \<noteq> None)"

definition selects :: "kube_filter \<Rightarrow> js list \<Rightarrow> dict \<Rightarrow> dict \<Rightarrow> bool" where
  "selects f args what results \<longleftrightarrow>
     (\<forall>link. oget results link = (case oget what link of None \<Rightarrow> None | Some object \<Rightarrow> if matches f args object then Some object else None))"

text \<open>A filter does not throw on an object.\<close>

fun total_filter :: "kube_filter \<Rightarrow> bool" where
  "total_filter (Plain _) = True"
| "total_filter (Digest dg) = (\<forall>v. truthy v \<longrightarrow> dg v \<noteq> None)"
| "total_filter (Digests dg) = (\<forall>v. truthy v \<longrightarrow> dg v \<noteq> None)"

definition dict_ok :: "dict \<Rightarrow> bool" where
  "dict_ok d \<longleftrightarrow> (\<forall>(link, object) \<in> set d. truthy object)"

lemma dict_ok_oget: "dict_ok d \<Longrightarrow> oget d link = Some object \<Longrightarrow> truthy object"
  by (auto simp: dict_ok_def dest: oget_in_set)

lemma dict_ok_subset: "dict_ok d \<Longrightarrow> set d' \<subseteq> set d \<Longrightarrow> dict_ok d'"
  unfolding dict_ok_def by blast

lemma set_oset: "set (oset d link object) \<subseteq> insert (link, object) (set d)"
  by (induction d) (auto split: if_splits)

lemma set_oset_subset: "set d \<subseteq> set d' \<Longrightarrow> oget d' link = Some object \<Longrightarrow> set (oset d link object) \<subseteq> set d'"
  using set_oset [of d link object] oget_in_set by fastforce

section \<open>The index has every key\<close>

definition grows :: "string buckets \<Rightarrow> string buckets \<Rightarrow> bool" where
  "grows ix ix' \<longleftrightarrow> (\<forall>k. set (index_get index_size k ix) \<subseteq> set (index_get index_size k ix'))"

lemma grows_refl [simp]: "grows ix ix"
  by (simp add: grows_def)

lemma grows_trans: "grows a b \<Longrightarrow> grows b c \<Longrightarrow> grows a c"
  unfolding grows_def by blast

lemma grows_add: "buckets_ok ix \<Longrightarrow> grows ix (index_add index_size keys v ix)"
  unfolding grows_def using hash_index.kept by blast

fun has_keys :: "string buckets \<Rightarrow> string \<Rightarrow> js \<Rightarrow> kube_filter \<Rightarrow> bool" where
  "has_keys ix link object (Plain _) = True"
| "has_keys ix link object (Digest dg) =
     (case dg object of None \<Rightarrow> True | Some key \<Rightarrow> truthy key \<longrightarrow> link \<in> set (index_get index_size (to_str key) ix))"
| "has_keys ix link object (Digests dg) =
     (case dg object of None \<Rightarrow> True | Some keys \<Rightarrow> \<forall>key \<in> set keys. link \<in> set (index_get index_size key ix))"

definition indexed_dict :: "kube_filter list \<Rightarrow> dict \<Rightarrow> string buckets \<Rightarrow> bool" where
  "indexed_dict fs d ix \<longleftrightarrow> (\<forall>(link, object) \<in> set d. \<forall>f \<in> set fs. has_keys ix link object f)"

lemma has_keys_grows: "has_keys ix link object f \<Longrightarrow> grows ix ix' \<Longrightarrow> has_keys ix' link object f"
  by (cases f) (auto simp: grows_def split: option.splits)

lemma indexed_dict_grows: "indexed_dict fs d ix \<Longrightarrow> grows ix ix' \<Longrightarrow> indexed_dict fs d ix'"
  unfolding indexed_dict_def using has_keys_grows by fast

lemma index_filter_done:
  assumes "buckets_ok ix" "total_filter f" "truthy object"
  obtains ix' where "index_filter f link object ix = Some ix'" "buckets_ok ix'" "grows ix ix'" "has_keys ix' link object f"
proof (cases f)
  case (Digest dg)
  then obtain key where "dg object = Some key" using assms by fastforce
  then show ?thesis
    using that assms Digest hash_index.found [of ix "to_str key" "[to_str key]" link index_size]
    by (simp add: index_filter_def grows_add hash_index.invar_put split: if_splits)
next
  case (Digests dg)
  then obtain keys where keys: "dg object = Some keys" using assms by fastforce
  show ?thesis
  proof (cases "keys = []")
    case True
    then show ?thesis using that assms Digests keys by (simp add: index_filter_def)
  next
    case False
    then show ?thesis
      using that assms Digests keys hash_index.found [of ix _ keys link index_size]
      by (simp add: index_filter_def grows_add hash_index.invar_put)
  qed
qed (use that assms in \<open>simp add: index_filter_def\<close>)

lemma index_filters_done:
  assumes "buckets_ok ix" "\<forall>f \<in> set fs. total_filter f" "truthy object"
  shows "\<exists>ix'. index_filters fs link object ix = (ix', True) \<and> buckets_ok ix' \<and> grows ix ix' \<and> (\<forall>f \<in> set fs. has_keys ix' link object f)"
  using assms
proof (induction fs arbitrary: ix)
  case (Cons f fs)
  obtain ix1 where s1: "index_filter f link object ix = Some ix1" "buckets_ok ix1" "grows ix ix1" "has_keys ix1 link object f"
    by (rule index_filter_done [of ix f object link]) (use Cons.prems in simp_all)
  obtain ix2 where "index_filters fs link object ix1 = (ix2, True)" "buckets_ok ix2" "grows ix1 ix2" "\<forall>f \<in> set fs. has_keys ix2 link object f"
    using Cons.IH [of ix1] s1 Cons.prems by auto
  then show ?case using s1 by (auto intro: grows_trans has_keys_grows)
qed simp

lemma index_objects_done:
  assumes "buckets_ok ix" "\<forall>f \<in> set fs. total_filter f" "dict_ok objects"
  shows "\<exists>ix'. index_objects fs objects ix = (ix', True) \<and> buckets_ok ix' \<and> grows ix ix' \<and> indexed_dict fs objects ix'"
  using assms
proof (induction objects arbitrary: ix)
  case (Cons x objects)
  obtain link object where x: "x = (link, object)" by force
  then have t: "truthy object" "dict_ok objects" using Cons.prems(3) by (simp_all add: dict_ok_def)
  obtain ix1 where s1: "index_filters fs link object ix = (ix1, True)" "buckets_ok ix1" "grows ix ix1" "\<forall>f \<in> set fs. has_keys ix1 link object f"
    using index_filters_done [OF Cons.prems(1,2) t(1)] by blast
  obtain ix2 where s2: "index_objects fs objects ix1 = (ix2, True)" "buckets_ok ix2" "grows ix1 ix2" "indexed_dict fs objects ix2"
    using Cons.IH [OF s1(2) Cons.prems(2) t(2)] by blast
  then show ?case
    using s1 by (auto simp: x indexed_dict_def intro: grows_trans has_keys_grows)
qed (simp add: indexed_dict_def)

section \<open>A filter over the index finds what it describes\<close>

lemma digest_matches_exact:
  assumes "\<forall>v. truthy v \<longrightarrow> dg v \<noteq> None" "dict_ok what" "set results \<subseteq> set what"
  shows "\<exists>r. digest_matches dg key what possible results = Some r \<and> set r \<subseteq> set what \<and>
    (\<forall>link. oget r link = (case oget what link of
       Some object \<Rightarrow> if link \<in> set possible \<and> dg object = Some key then Some object else oget results link | None \<Rightarrow> oget results link))"
  using assms(3)
proof (induction possible arbitrary: results)
  case (Cons l possible)
  show ?case
  proof (cases "oget what l")
    case None
    then show ?thesis using Cons.IH [OF Cons.prems] by (auto split: option.split)
  next
    case (Some object)
    then obtain k where k: "truthy object" "dg object = Some k" using dict_ok_oget [OF assms(2)] assms(1) by blast
    have "set (if key = k then oset results l object else results) \<subseteq> set what" using Cons.prems Some by (simp add: set_oset_subset)
    then show ?thesis
      using Cons.IH [of "if key = k then oset results l object else results"] Some k by (fastforce split: option.splits)
  qed
qed (auto split: option.split)

lemma digests_matches_exact:
  assumes "\<forall>v. truthy v \<longrightarrow> dg v \<noteq> None" "dict_ok what" "set results \<subseteq> set what"
  shows "\<exists>r. digests_matches dg keys what possible results = Some r \<and> set r \<subseteq> set what \<and>
    (\<forall>link. oget r link = (case oget what link of
       Some object \<Rightarrow> if link \<in> set possible \<and> run_match keys (sort (the (dg object))) then Some object else oget results link
     | None \<Rightarrow> oget results link))"
  using assms(3)
proof (induction possible arbitrary: results)
  case (Cons l possible)
  show ?case
  proof (cases "oget what l")
    case None
    then show ?thesis using Cons.IH [OF Cons.prems] by (auto split: option.split)
  next
    case (Some object)
    then obtain k where k: "truthy object" "dg object = Some k" using dict_ok_oget [OF assms(2)] assms(1) by blast
    let ?r = "if run_match keys (sort k) then oset results l object else results"
    have "set ?r \<subseteq> set what" using Cons.prems Some by (simp add: set_oset_subset)
    then show ?thesis using Cons.IH [of ?r] Some k by (fastforce split: option.splits)
  qed
qed (auto split: option.split)

lemma run_match_subset: "run_match keys keyo \<Longrightarrow> set keys \<subseteq> set keyo"
  by (auto simp: run_match_def run_at_def list_ex_iff list_all_iff in_set_conv_nth) (metis atLeastLessThan_iff zero_le)

lemma run_match_single: "run_match [k] keyo \<longleftrightarrow> k \<in> set keyo"
  by (auto simp: run_match_def run_at_def list_ex_iff in_set_conv_nth)

lemma digest_filter_exact:
  assumes "\<forall>v. truthy v \<longrightarrow> dg v \<noteq> None" "dict_ok what" "dg (arg_of args) = Some key"
    and keys: "\<And>link object. oget what link = Some object \<Longrightarrow> has_keys ix link object (Digest dg)"
  shows "\<exists>r. digest_filter dg ix what args = Some r \<and> set r \<subseteq> set what \<and> (definite (Digest dg) args \<longrightarrow> selects (Digest dg) args what r)"
proof -
  let ?possible = "if key \<noteq> JNull \<and> key \<noteq> JUndef then index_get index_size (to_str key) ix else []"
  obtain r where r: "digest_matches dg key what ?possible [] = Some r" "set r \<subseteq> set what"
    "\<And>link. oget r link = (case oget what link of
       Some object \<Rightarrow> if link \<in> set ?possible \<and> dg object = Some key then Some object else oget [] link | None \<Rightarrow> oget [] link)"
    using digest_matches_exact [of dg what "[]" key ?possible] assms(1,2) by auto
  have "oget r link = (case oget what link of None \<Rightarrow> None | Some object \<Rightarrow> if matches (Digest dg) args object then Some object else None)"
    if "definite (Digest dg) args" for link
  proof (cases "oget what link")
    case (Some object)
    moreover have "link \<in> set ?possible" if "dg object = Some key" "truthy key"
      using keys [OF Some] that by auto
    ultimately show ?thesis using r(3) [of link] that assms(3) by auto
  qed (use r(3) in simp)
  then show ?thesis using r(1,2) assms(3) by (simp add: digest_filter_def selects_def)
qed

lemma digests_filter_exact:
  assumes tot: "\<forall>v. truthy v \<longrightarrow> dg v \<noteq> None" and "dict_ok what" "dg (arg_of args) = Some ks" "buckets_ok ix"
    and keys: "\<And>link object. oget what link = Some object \<Longrightarrow> has_keys ix link object (Digests dg)"
  shows "\<exists>r. digests_filter dg ix what args = Some r \<and> set r \<subseteq> set what \<and> selects (Digests dg) args what r"
proof -
  let ?possible = "if ks \<noteq> [] then index_all index_size ks ix else []"
  obtain r where r: "digests_matches dg (sort ks) what ?possible [] = Some r" "set r \<subseteq> set what"
    "\<And>link. oget r link = (case oget what link of
       Some object \<Rightarrow> if link \<in> set ?possible \<and> run_match (sort ks) (sort (the (dg object))) then Some object else oget [] link
     | None \<Rightarrow> oget [] link)"
    using digests_matches_exact [OF tot assms(2), of "[]" "sort ks" ?possible] by auto
  have "oget r link = (case oget what link of None \<Rightarrow> None | Some object \<Rightarrow> if matches (Digests dg) args object then Some object else None)" for link
  proof (cases "oget what link")
    case (Some object)
    then obtain ko where ko: "dg object = Some ko" using dict_ok_oget [OF assms(2)] tot by blast
    have "link \<in> set ?possible" if "run_match (sort ks) (sort ko)" "ks \<noteq> []"
    proof -
      have "set ks \<subseteq> set ko" using run_match_subset [OF that(1)] by simp
      then have "\<And>k. k \<in> set ks \<Longrightarrow> link \<in> set (index_get index_size k ix)"
        using keys [OF Some] ko by auto
      then show ?thesis using hash_index.found_all [OF assms(4) that(2)] that(2) by simp
    qed
    then show ?thesis using r(3) [of link] assms(3) ko Some by auto
  qed (use r(3) in simp)
  then show ?thesis using r(1,2) assms(3) by (simp add: digests_filter_def selects_def)
qed

lemma filter_matches_exact:
  assumes "sl_index sl = Some ix" "buckets_ok ix" "total_filter f" "f \<in> set fs" "dict_ok (sl_dicts sl ! d)" "indexed_dict fs (sl_dicts sl ! d) ix"
  shows "definite f args \<Longrightarrow> \<exists>r. filter_matches f d args sl = Some r"
    and "filter_matches f d args sl = Some r \<Longrightarrow> set r \<subseteq> set (sl_dicts sl ! d) \<and> (definite f args \<longrightarrow> selects f args (sl_dicts sl ! d) r)"
proof -
  let ?what = "sl_dicts sl ! d"
  have keys: "\<And>link object. oget ?what link = Some object \<Longrightarrow> has_keys ix link object f"
    using assms(4,6) by (fastforce simp: indexed_dict_def dest: oget_in_set)
  have "(definite f args \<longrightarrow> (\<exists>r. filter_matches f d args sl = Some r)) \<and>
    (\<forall>r. filter_matches f d args sl = Some r \<longrightarrow> set r \<subseteq> set (sl_dicts sl ! d) \<and> (definite f args \<longrightarrow> selects f args ?what r))"
  proof (cases f)
    case (Digest dg)
    then show ?thesis
      using assms(1,3,5) keys digest_filter_exact [of dg ?what args _ ix]
      by (cases "dg (arg_of args)") (fastforce simp: filter_matches_def digest_filter_def)+
  next
    case (Digests dg)
    then show ?thesis
      using assms(1-3,5) keys digests_filter_exact [of dg ?what args _ ix]
      by (cases "dg (arg_of args)") (fastforce simp: filter_matches_def digests_filter_def)+
  qed (use assms(1) in \<open>simp add: filter_matches_def\<close>)
  then show "definite f args \<Longrightarrow> \<exists>r. filter_matches f d args sl = Some r"
    "filter_matches f d args sl = Some r \<Longrightarrow> set r \<subseteq> set (sl_dicts sl ! d) \<and> (definite f args \<longrightarrow> selects f args ?what r)" by blast+
qed

section \<open>The invariant of the selection\<close>

definition result_ok :: "kube_select \<Rightarrow> nat \<Rightarrow> string \<Rightarrow> js list \<Rightarrow> sel_result \<Rightarrow> bool" where
  "result_ok sl d name args r \<longleftrightarrow>
     (case oget (sl_filters sl) name of
        None \<Rightarrow> False
      | Some (Plain g) \<Rightarrow> r = ValueResult (g (sl_dicts sl ! d) args)
      | Some f \<Rightarrow> (\<exists>i. r = DictResult i \<and> 2 \<le> i \<and> i < length (sl_dicts sl) \<and>
          (definite f args \<longrightarrow> selects f args (sl_dicts sl ! d) (sl_dicts sl ! i))))"

definition cache_ok :: "kube_select \<Rightarrow> nat \<Rightarrow> sel_cache \<Rightarrow> bool" where
  "cache_ok sl d c \<longleftrightarrow> d < length (sl_dicts sl) \<and> sc_version c \<le> sl_version sl \<and>
     (sc_version c = sl_version sl \<longrightarrow>
        (sc_indexed c \<longrightarrow> d = 0 \<or> (\<exists>ix. sl_index sl = Some ix \<and> indexed_dict (filter_list sl) (sl_dicts sl ! d) ix)) \<and>
        (\<forall>s. sc_single c = Some s \<longrightarrow> 2 \<le> s \<and> s < length (sl_dicts sl) \<and> sl_dicts sl ! s = single_dict (sl_dicts sl ! d)) \<and>
        (\<forall>name args r. oget (sc_results c) (name, args) = Some r \<longrightarrow> result_ok sl d name args r))"

definition index_ok :: "kube_select \<Rightarrow> bool" where
  "index_ok sl \<longleftrightarrow> (\<forall>ix. sl_index sl = Some ix \<longrightarrow> buckets_ok ix \<and> indexed_dict (filter_list sl) (sl_dicts sl ! 0) ix)"

definition sel_inv :: "kube_select \<Rightarrow> bool" where
  "sel_inv sl \<longleftrightarrow> 2 \<le> length (sl_dicts sl) \<and> (\<forall>f \<in> set (filter_list sl). total_filter f) \<and> (\<forall>d \<in> set (sl_dicts sl). dict_ok d) \<and> index_ok sl \<and>
     (\<forall>d c. oget (sl_cache sl) d = Some c \<longrightarrow> cache_ok sl d c)"

text \<open>One state comes after another in which dicts and the index were only added to.\<close>

definition extends_to :: "kube_select \<Rightarrow> kube_select \<Rightarrow> bool" where
  "extends_to sl sl' \<longleftrightarrow> sl_filters sl' = sl_filters sl \<and> sl_version sl' = sl_version sl \<and> (\<exists>new. sl_dicts sl' = sl_dicts sl @ new) \<and>
     (\<forall>ix. sl_index sl = Some ix \<longrightarrow> (\<exists>ix'. sl_index sl' = Some ix' \<and> grows ix ix'))"

lemma extends_refl [simp]: "extends_to sl sl"
  by (simp add: extends_to_def)

lemma extends_trans: "extends_to a b \<Longrightarrow> extends_to b c \<Longrightarrow> extends_to a c"
  unfolding extends_to_def by (metis append.assoc grows_trans)

lemma extends_dict: "extends_to sl sl' \<Longrightarrow> d < length (sl_dicts sl) \<Longrightarrow> sl_dicts sl' ! d = sl_dicts sl ! d"
  by (auto simp: extends_to_def nth_append)

lemma extends_length: "extends_to sl sl' \<Longrightarrow> length (sl_dicts sl) \<le> length (sl_dicts sl')"
  by (auto simp: extends_to_def)

lemma result_ok_extends:
  assumes "result_ok sl d name args r" "extends_to sl sl'" "d < length (sl_dicts sl)"
  shows "result_ok sl' d name args r"
  using assms extends_dict [OF assms(2,3)] extends_dict [OF assms(2)] extends_length [OF assms(2)]
  by (auto simp: result_ok_def extends_to_def split: option.splits kube_filter.splits)

lemma cache_ok_extends:
  assumes "cache_ok sl d c" "extends_to sl sl'"
  shows "cache_ok sl' d c"
proof -
  have d: "d < length (sl_dicts sl)" "d < length (sl_dicts sl')" "sc_version c \<le> sl_version sl'"
    using assms extends_length [OF assms(2)] by (auto simp: cache_ok_def extends_to_def)
  note same = extends_dict [OF assms(2)]
  have fl: "filter_list sl' = filter_list sl" using assms(2) by (simp add: filter_list_def extends_to_def)
  show ?thesis
    unfolding cache_ok_def
  proof (intro conjI impI allI)
    assume v: "sc_version c = sl_version sl'"
    then have v': "sc_version c = sl_version sl" using assms(2) by (simp add: extends_to_def)
    {
      assume "sc_indexed c"
      then have "d = 0 \<or> (\<exists>ix. sl_index sl = Some ix \<and> indexed_dict (filter_list sl) (sl_dicts sl ! d) ix)"
        using assms(1) v' by (simp add: cache_ok_def)
      then show "d = 0 \<or> (\<exists>ix. sl_index sl' = Some ix \<and> indexed_dict (filter_list sl') (sl_dicts sl' ! d) ix)"
        using assms(2) d(1) by (auto simp: extends_to_def fl same [OF d(1)] intro: indexed_dict_grows)
    next
      fix s assume "sc_single c = Some s"
      then have "2 \<le> s \<and> s < length (sl_dicts sl) \<and> sl_dicts sl ! s = single_dict (sl_dicts sl ! d)"
        using assms(1) v' by (simp add: cache_ok_def)
      then show "2 \<le> s" "s < length (sl_dicts sl')" "sl_dicts sl' ! s = single_dict (sl_dicts sl' ! d)"
        using extends_length [OF assms(2)] d(1) by (auto simp: same)
    next
      fix name args r assume "oget (sc_results c) (name, args) = Some r"
      then have "result_ok sl d name args r" using assms(1) v' by (simp add: cache_ok_def)
      then show "result_ok sl' d name args r" using assms(2) d(1) by (rule result_ok_extends)
    }
  qed (use d in simp_all)
qed

lemma sel_invI:
  assumes "sel_inv sl" "extends_to sl sl'" "\<forall>d \<in> set (sl_dicts sl'). dict_ok d" "index_ok sl'"
    and "\<And>d c. oget (sl_cache sl') d = Some c \<Longrightarrow> oget (sl_cache sl) d = Some c \<or> cache_ok sl' d c"
  shows "sel_inv sl'"
  using assms extends_length [OF assms(2)] cache_ok_extends [OF _ assms(2)]
  by (fastforce simp: sel_inv_def filter_list_def extends_to_def)

text \<open>Writing a cache changes neither what the dicts are nor what the index has.\<close>

lemma filter_list_cache [simp]: "filter_list (sl\<lparr>sl_cache := x\<rparr>) = filter_list sl"
  by (simp add: filter_list_def)

lemma result_ok_cache [simp]: "result_ok (sl\<lparr>sl_cache := x\<rparr>) d name args r = result_ok sl d name args r"
  by (simp add: result_ok_def split: option.split kube_filter.split)

lemma cache_ok_cache [simp]: "cache_ok (sl\<lparr>sl_cache := x\<rparr>) d c = cache_ok sl d c"
  by (simp add: cache_ok_def)

lemma index_ok_cache [simp]: "index_ok (sl\<lparr>sl_cache := x\<rparr>) = index_ok sl"
  by (simp add: index_ok_def)

lemma sel_inv_dict: "sel_inv sl \<Longrightarrow> d < length (sl_dicts sl) \<Longrightarrow> dict_ok (sl_dicts sl ! d)"
  by (simp add: sel_inv_def)

text \<open>Each part of a call keeps the invariant.\<close>

lemma cached_inv:
  assumes "sel_inv sl" "d < length (sl_dicts sl)" "cached d sl = (sl', c)"
  shows "sel_inv sl'" "extends_to sl sl'" "oget (sl_cache sl') d = Some c" "sc_version c = sl_version sl'"
    "sl_dicts sl' = sl_dicts sl" "sl_index sl' = sl_index sl"
proof -
  show e: "extends_to sl sl'" "oget (sl_cache sl') d = Some c" "sc_version c = sl_version sl'" "sl_dicts sl' = sl_dicts sl" "sl_index sl' = sl_index sl"
    using assms(3) by (auto simp: cached_def Let_def extends_to_def split: option.splits if_splits)
  have fl: "filter_list sl' = filter_list sl" using e(1) by (simp add: filter_list_def extends_to_def)
  show "sel_inv sl'"
  proof (rule sel_invI [OF assms(1) e(1)])
    show "\<forall>d \<in> set (sl_dicts sl'). dict_ok d" "index_ok sl'" using assms(1) e(4,5) fl by (simp_all add: sel_inv_def index_ok_def)
    fix d' c' assume "oget (sl_cache sl') d' = Some c'"
    then show "oget (sl_cache sl) d' = Some c' \<or> cache_ok sl' d' c'"
      using assms(2,3) by (auto simp: cached_def Let_def cache_ok_def split: option.splits if_splits)
  qed
qed

lemma update_cache_inv:
  assumes "sel_inv sl" "\<And>c. oget (sl_cache sl) d = Some c \<Longrightarrow> cache_ok sl d c \<Longrightarrow> cache_ok sl d (f c)"
  shows "sel_inv (update_cache d f sl)" "extends_to sl (update_cache d f sl)"
proof -
  show e: "extends_to sl (update_cache d f sl)"
    by (simp add: update_cache_def extends_to_def split: option.split)
  have same: "cache_ok (update_cache d f sl) d' c \<longleftrightarrow> cache_ok sl d' c" "index_ok (update_cache d f sl) \<longleftrightarrow> index_ok sl"
    "sl_dicts (update_cache d f sl) = sl_dicts sl" for d' c
    by (simp_all add: update_cache_def split: option.split)
  show "sel_inv (update_cache d f sl)"
  proof (rule sel_invI [OF assms(1) e])
    fix d' c assume "oget (sl_cache (update_cache d f sl)) d' = Some c"
    then show "oget (sl_cache sl) d' = Some c \<or> cache_ok (update_cache d f sl) d' c"
      using assms by (auto simp: same update_cache_def sel_inv_def split: option.splits if_splits)
  qed (use assms(1) in \<open>simp_all add: same sel_inv_def\<close>)
qed

text \<open>Indexing more of the dicts.\<close>

lemma set_index_inv:
  assumes "sel_inv sl" "\<And>ix0. sl_index sl = Some ix0 \<Longrightarrow> grows ix0 ix" "buckets_ok ix" "indexed_dict (filter_list sl) (sl_dicts sl ! 0) ix"
  shows "sel_inv (sl\<lparr>sl_index := Some ix\<rparr>)" "extends_to sl (sl\<lparr>sl_index := Some ix\<rparr>)"
proof -
  show e: "extends_to sl (sl\<lparr>sl_index := Some ix\<rparr>)" using assms(2) by (simp add: extends_to_def)
  show "sel_inv (sl\<lparr>sl_index := Some ix\<rparr>)"
    by (rule sel_invI [OF assms(1) e]) (use assms in \<open>simp_all add: sel_inv_def index_ok_def filter_list_def\<close>)
qed

lemma index_create_inv:
  assumes "sel_inv sl" "sl_index sl = None"
  obtains ix where "index_create sl = (sl\<lparr>sl_index := Some ix\<rparr>, True)" "sel_inv (sl\<lparr>sl_index := Some ix\<rparr>)" "extends_to sl (sl\<lparr>sl_index := Some ix\<rparr>)"
proof -
  have "dict_ok (sl_dicts sl ! 0)" by (rule sel_inv_dict [OF assms(1)]) (use assms(1) in \<open>auto simp: sel_inv_def\<close>)
  then obtain ix where "index_objects (filter_list sl) (sl_dicts sl ! 0) [] = (ix, True)" "buckets_ok ix" "indexed_dict (filter_list sl) (sl_dicts sl ! 0) ix"
    using index_objects_done [OF hash_index.invar_blank, of "filter_list sl"] assms(1) by (force simp: sel_inv_def)
  then show ?thesis using that [of ix] assms set_index_inv [OF assms(1), of ix] by (simp add: index_create_def)
qed

lemma index_dict_inv:
  assumes "sel_inv sl" "sl_index sl = Some ix0" "d < length (sl_dicts sl)"
  obtains ix where "index_dict d sl = (sl\<lparr>sl_index := Some ix\<rparr>, True)" "sel_inv (sl\<lparr>sl_index := Some ix\<rparr>)" "extends_to sl (sl\<lparr>sl_index := Some ix\<rparr>)"
    "indexed_dict (filter_list sl) (sl_dicts sl ! d) ix"
proof -
  have ok: "buckets_ok ix0" "indexed_dict (filter_list sl) (sl_dicts sl ! 0) ix0" "dict_ok (sl_dicts sl ! d)" "\<forall>f \<in> set (filter_list sl). total_filter f"
    using assms by (simp_all add: sel_inv_def index_ok_def)
  obtain ix where ix: "index_objects (filter_list sl) (sl_dicts sl ! d) ix0 = (ix, True)" "buckets_ok ix" "grows ix0 ix"
    "indexed_dict (filter_list sl) (sl_dicts sl ! d) ix"
    using index_objects_done [OF ok(1,4,3)] by blast
  show ?thesis
    using that [of ix] ix assms(2) set_index_inv [OF assms(1), of ix] indexed_dict_grows [OF ok(2) ix(3)] by (simp add: index_dict_def)
qed

lemma ensure_indexed_inv:
  assumes "sel_inv sl" "d < length (sl_dicts sl)" "oget (sl_cache sl) d = Some c0" "sc_version c0 = sl_version sl"
  obtains sl' ix where "ensure_indexed d sl = (sl', True)" "sel_inv sl'" "extends_to sl sl'" "sl_index sl' = Some ix" "sl_dicts sl' = sl_dicts sl"
    "indexed_dict (filter_list sl') (sl_dicts sl' ! d) ix"
proof -
  obtain sl1 ix1 where s1: "(if sl_index sl = None then index_create sl else (sl, True)) = (sl1, True)" "sel_inv sl1" "extends_to sl sl1"
    "sl_index sl1 = Some ix1" "sl_dicts sl1 = sl_dicts sl" "sl_cache sl1 = sl_cache sl"
  proof (cases "sl_index sl")
    case None
    then show ?thesis using index_create_inv [OF assms(1) None] that by fastforce
  qed (use that assms(1) in simp)
  have v1: "sl_version sl1 = sl_version sl" using s1(3) by (simp add: extends_to_def)
  show ?thesis
  proof (cases "sc_indexed c0")
    case True
    have "cache_ok sl1 d c0" using s1(2,6) assms(3) by (simp add: sel_inv_def)
    then have "indexed_dict (filter_list sl1) (sl_dicts sl1 ! d) ix1"
      using True s1(2,4) assms(4) v1 by (auto simp: cache_ok_def sel_inv_def index_ok_def)
    then show ?thesis using that [of sl1 ix1] s1 True assms(3) by (simp add: ensure_indexed_def)
  next
    case False
    obtain ix2 where s2: "index_dict d sl1 = (sl1\<lparr>sl_index := Some ix2\<rparr>, True)" "sel_inv (sl1\<lparr>sl_index := Some ix2\<rparr>)" "extends_to sl1 (sl1\<lparr>sl_index := Some ix2\<rparr>)"
      "indexed_dict (filter_list sl1) (sl_dicts sl1 ! d) ix2"
      using index_dict_inv [OF s1(2,4), of d] assms(2) s1(5) by auto
    let ?sl2 = "sl1\<lparr>sl_index := Some ix2\<rparr>" and ?f = "\<lambda>c. c\<lparr>sc_indexed := True\<rparr>"
    have "cache_ok ?sl2 d (?f c)" if "cache_ok ?sl2 d c" for c
      using that s2(4) by (auto simp: cache_ok_def filter_list_def)
    then have u: "sel_inv (update_cache d ?f ?sl2)" "extends_to ?sl2 (update_cache d ?f ?sl2)"
      by (simp_all add: update_cache_inv [OF s2(2)])
    have eq: "ensure_indexed d sl = (update_cache d ?f ?sl2, True)"
      using s1(1,6) s2(1) False assms(3) by (simp add: ensure_indexed_def)
    have "extends_to sl (update_cache d ?f ?sl2)" by (rule extends_trans [OF s1(3) extends_trans [OF s2(3) u(2)]])
    then show ?thesis
      using that [OF eq u(1)] s1(5) s2(4) by (auto simp: update_cache_def filter_list_def split: option.splits)
  qed
qed

lemma new_dict_inv:
  assumes "sel_inv sl" "dict_ok objects" "new_dict objects sl = (sl', r)"
  shows "sel_inv sl'" "extends_to sl sl'" "r = length (sl_dicts sl)" "sl_dicts sl' = sl_dicts sl @ [objects]" "sl_cache sl' = sl_cache sl"
    "sl_index sl' = sl_index sl" "sl_filters sl' = sl_filters sl"
proof -
  show e: "extends_to sl sl'" "r = length (sl_dicts sl)" "sl_dicts sl' = sl_dicts sl @ [objects]" "sl_cache sl' = sl_cache sl" "sl_index sl' = sl_index sl"
    "sl_filters sl' = sl_filters sl"
    using assms(3) by (auto simp: new_dict_def extends_to_def)
  have "sl_dicts sl' ! 0 = sl_dicts sl ! 0" using assms(1) by (intro extends_dict [OF e(1)]) (auto simp: sel_inv_def)
  then have "index_ok sl'" using assms(1) e by (simp add: sel_inv_def index_ok_def filter_list_def)
  then show "sel_inv sl'"
    by (rule sel_invI [OF assms(1) e(1), rotated]) (use assms(1,2) e in \<open>auto simp: sel_inv_def\<close>)
qed

lemma mixin_selection_inv:
  assumes "sel_inv sl" "d < length (sl_dicts sl)"
    and "indexed \<Longrightarrow> d = 0 \<or> (\<exists>ix. sl_index sl = Some ix \<and> indexed_dict (filter_list sl) (sl_dicts sl ! d) ix)"
  shows "sel_inv (mixin_selection d len indexed sl)" "extends_to sl (mixin_selection d len indexed sl)"
    "sl_dicts (mixin_selection d len indexed sl) = sl_dicts sl"
proof -
  obtain sl1 c where c: "cached d sl = (sl1, c)" by force
  note i = cached_inv [OF assms(1,2) c]
  let ?f = "\<lambda>n c. c\<lparr>sc_length := Some n, sc_selection := True, sc_indexed := indexed\<rparr>"
  have fl: "filter_list sl1 = filter_list sl" using i(2) by (simp add: extends_to_def filter_list_def)
  obtain n where eq: "mixin_selection d len indexed sl = update_cache d (?f n) sl1"
    using c i(3) by (auto simp: mixin_selection_def update_cache_def split: option.split)
  have "cache_ok sl1 d (?f n c')" if "cache_ok sl1 d c'" for c'
    using that assms(3) fl i(5,6) by (auto simp: cache_ok_def)
  then have u: "sel_inv (update_cache d (?f n) sl1)" "extends_to sl1 (update_cache d (?f n) sl1)"
    by (simp_all add: update_cache_inv [OF i(1)])
  show "sel_inv (mixin_selection d len indexed sl)" "extends_to sl (mixin_selection d len indexed sl)"
    unfolding eq by (rule u(1), rule extends_trans [OF i(2) u(2)])
  show "sl_dicts (mixin_selection d len indexed sl) = sl_dicts sl"
    unfolding eq using i(5) by (simp add: update_cache_def split: option.split)
qed

lemma remember_inv:
  assumes "sel_inv sl" "result_ok sl d name args r"
  shows "sel_inv (update_cache d (\<lambda>c. c\<lparr>sc_results := oset (sc_results c) (name, args) r\<rparr>) sl)"
    and "extends_to sl (update_cache d (\<lambda>c. c\<lparr>sc_results := oset (sc_results c) (name, args) r\<rparr>) sl)"
proof -
  have "cache_ok sl d (c\<lparr>sc_results := oset (sc_results c) (name, args) r\<rparr>)" if "cache_ok sl d c" for c
    using that assms(2) by (auto simp: cache_ok_def)
  then show "sel_inv (update_cache d (\<lambda>c. c\<lparr>sc_results := oset (sc_results c) (name, args) r\<rparr>) sl)"
    "extends_to sl (update_cache d (\<lambda>c. c\<lparr>sc_results := oset (sc_results c) (name, args) r\<rparr>) sl)"
    by (simp_all add: update_cache_inv [OF assms(1)])
qed

section \<open>A call\<close>

text \<open>The call of a filter that goes by the index, where no result is cached.\<close>

lemma indexed_call:
  assumes "sel_inv sl" "d < length (sl_dicts sl)" "oget (sl_filters sl) name = Some f" "\<And>g. f \<noteq> Plain g"
    "oget (sl_cache sl) d = Some c" "sc_version c = sl_version sl"
  obtains sl2 where "ensure_indexed d sl = (sl2, True)" "sel_inv sl2" "extends_to sl sl2"
      "definite f args \<Longrightarrow> filter_matches f d args sl2 \<noteq> None"
      "\<And>results sl3 r sl4. filter_matches f d args sl2 = Some results \<Longrightarrow> new_dict results sl2 = (sl3, r) \<Longrightarrow>
         sl4 = mixin_selection r (Some (length results)) True sl3 \<Longrightarrow>
         sel_inv sl4 \<and> extends_to sl sl4 \<and> result_ok sl4 d name args (DictResult r)"
proof -
  obtain sl2 ix where s2: "ensure_indexed d sl = (sl2, True)" "sel_inv sl2" "extends_to sl sl2" "sl_index sl2 = Some ix"
    "sl_dicts sl2 = sl_dicts sl" "indexed_dict (filter_list sl2) (sl_dicts sl2 ! d) ix"
    by (rule ensure_indexed_inv [OF assms(1,2,5,6)])
  have fil: "oget (sl_filters sl2) name = Some f" using s2(3) assms(3) by (simp add: extends_to_def)
  then have f: "f \<in> set (filter_list sl2)" by (force simp: filter_list_def dest: oget_in_set)
  have d: "d < length (sl_dicts sl2)" using assms(2) s2(5) by simp
  have tot: "total_filter f" "buckets_ok ix" using s2(2,4) f by (simp_all add: sel_inv_def index_ok_def)
  note exact = filter_matches_exact [OF s2(4) tot(2,1) f sel_inv_dict [OF s2(2) d] s2(6), of args]
  show ?thesis
  proof (rule that [OF s2(1-3)])
    show "definite f args \<Longrightarrow> filter_matches f d args sl2 \<noteq> None" using exact(1) by auto
    fix results sl3 r sl4
    assume fm: "filter_matches f d args sl2 = Some results" and nd: "new_dict results sl2 = (sl3, r)"
      and sl4: "sl4 = mixin_selection r (Some (length results)) True sl3"
    have res: "set results \<subseteq> set (sl_dicts sl2 ! d)" "definite f args \<longrightarrow> selects f args (sl_dicts sl2 ! d) results"
      using exact(2) [OF fm] by simp_all
    have "dict_ok results" by (rule dict_ok_subset [OF sel_inv_dict [OF s2(2) d] res(1)])
    note n = new_dict_inv [OF s2(2) this nd]
    have r: "r < length (sl_dicts sl3)" "sl_dicts sl3 ! r = results" "sl_dicts sl3 ! d = sl_dicts sl2 ! d"
      using n(3,4) d by (simp_all add: nth_append)
    have "indexed_dict (filter_list sl3) (sl_dicts sl3 ! r) ix" "sl_index sl3 = Some ix"
      using s2(4,6) res(1) r(2) n(6,7) by (auto simp: indexed_dict_def filter_list_def)
    then have m: "sel_inv sl4" "extends_to sl3 sl4" "sl_dicts sl4 = sl_dicts sl3"
      unfolding sl4 by (auto intro: mixin_selection_inv [OF n(1) r(1)])
    have "sl_filters sl4 = sl_filters sl2" using m(2) n(7) by (simp add: extends_to_def)
    then have "result_ok sl4 d name args (DictResult r)"
      using fil assms(4) r res(2) m(3) n(3) s2(2) by (auto simp: result_ok_def sel_inv_def split: kube_filter.split)
    then show "sel_inv sl4 \<and> extends_to sl sl4 \<and> result_ok sl4 d name args (DictResult r)"
      using m extends_trans [OF s2(3) extends_trans [OF n(2) m(2)]] by simp
  qed
qed

lemma select_call_spec:
  assumes "sel_inv sl" "d < length (sl_dicts sl)"
  shows "sel_inv (fst (select_call name d args sl)) \<and> extends_to sl (fst (select_call name d args sl)) \<and>
    (\<forall>r. snd (select_call name d args sl) = Some r \<longrightarrow> result_ok (fst (select_call name d args sl)) d name args r) \<and>
    (\<forall>f. oget (sl_filters sl) name = Some f \<and> definite f args \<longrightarrow> snd (select_call name d args sl) \<noteq> None)"
proof (cases "oget (sl_filters sl) name")
  case (Some f)
  obtain sl1 c where c: "cached d sl = (sl1, c)" by force
  note i = cached_inv [OF assms c]
  have fil: "oget (sl_filters sl1) name = Some f" using Some i(2) by (simp add: extends_to_def)
  have d: "d < length (sl_dicts sl1)" using assms(2) i(5) by simp
  have cok: "cache_ok sl1 d c" using i(1,3) by (simp add: sel_inv_def)
  let ?remember = "\<lambda>r. update_cache d (\<lambda>c. c\<lparr>sc_results := oset (sc_results c) (name, args) r\<rparr>)"
  have remembered: "sel_inv (?remember r sl') \<and> extends_to sl (?remember r sl') \<and> result_ok (?remember r sl') d name args r"
    if "sel_inv sl'" "extends_to sl1 sl'" "result_ok sl' d name args r" for r sl'
    using remember_inv [OF that(1,3)] extends_trans [OF i(2) that(2)] extends_trans that(3) result_ok_extends
      extends_length [OF that(2)] d by (meson order_less_le_trans)
  show ?thesis
  proof (cases "oget (sc_results c) (name, args)")
    case cached: (Some r)
    then show ?thesis using Some c i cok by (auto simp: select_call_def cache_ok_def)
  next
    case None
    show ?thesis
    proof (cases "\<exists>g. f = Plain g")
      case True
      then obtain g where g: "f = Plain g" by blast
      have "result_ok sl1 d name args (ValueResult (g (sl_dicts sl1 ! d) args))" using fil g by (simp add: result_ok_def)
      from remembered [OF i(1) extends_refl this] show ?thesis
        using Some c None g by (simp add: select_call_def)
    next
      case False
      then have np: "\<And>g. f \<noteq> Plain g" by blast
      obtain sl2 where s2: "ensure_indexed d sl1 = (sl2, True)" "sel_inv sl2" "extends_to sl1 sl2"
        "definite f args \<Longrightarrow> filter_matches f d args sl2 \<noteq> None"
        "\<And>results sl3 r sl4. filter_matches f d args sl2 = Some results \<Longrightarrow> new_dict results sl2 = (sl3, r) \<Longrightarrow>
           sl4 = mixin_selection r (Some (length results)) True sl3 \<Longrightarrow>
           sel_inv sl4 \<and> extends_to sl1 sl4 \<and> result_ok sl4 d name args (DictResult r)"
        by (rule indexed_call [OF i(1) d fil np i(3,4), where args = args]) auto
      have call: "select_call name d args sl =
        (case filter_matches f d args sl2 of None \<Rightarrow> (sl2, None)
         | Some results \<Rightarrow> (case new_dict results sl2 of (sl3, r) \<Rightarrow>
             (?remember (DictResult r) (mixin_selection r (Some (length results)) True sl3), Some (DictResult r))))"
        using Some c None False s2(1) by (cases f) (simp_all add: select_call_def Let_def split: option.split prod.split)
      show ?thesis
      proof (cases "filter_matches f d args sl2")
        case None
        then show ?thesis using call s2 Some extends_trans [OF i(2) s2(3)] by auto
      next
        case found: (Some results)
        obtain sl3 r where nd: "new_dict results sl2 = (sl3, r)" by force
        show ?thesis using call found nd remembered s2(5) [OF found nd refl] by auto
      qed
    qed
  qed
qed (simp add: select_call_def assms)

section \<open>The other operations\<close>

lemma select_spec:
  assumes "sel_inv sl" "\<And>d. arg = DictArg d \<Longrightarrow> d < length (sl_dicts sl)"
  shows "sel_inv (fst (select arg sl)) \<and> extends_to sl (fst (select arg sl)) \<and> snd (select arg sl) < length (sl_dicts (fst (select arg sl)))"
proof -
  define d where "d = (case arg of AllObjects \<Rightarrow> 0 | NoObject \<Rightarrow> 1 | DictArg d \<Rightarrow> d)"
  define indexed where "indexed \<longleftrightarrow> arg = AllObjects"
  have d: "d < length (sl_dicts sl)" using assms by (cases arg) (auto simp: d_def sel_inv_def)
  have target: "(case arg of AllObjects \<Rightarrow> (0, True) | NoObject \<Rightarrow> (1, False) | DictArg d \<Rightarrow> (d, False)) = (d, indexed)"
    by (cases arg) (simp_all add: d_def indexed_def)
  have dz: "indexed \<Longrightarrow> d = 0" by (simp add: d_def indexed_def)
  obtain sl1 c where c: "cached d sl = (sl1, c)" by force
  note i = cached_inv [OF assms(1) d c]
  have d1: "d < length (sl_dicts sl1)" using d i(5) by simp
  have sel: "select arg sl =
    (if sc_selection c then (sl1, d)
     else if is_single (sl_dicts sl1 ! d) then
       (case sc_single c of
          Some s \<Rightarrow> (sl1, s)
        | None \<Rightarrow>
            (case new_dict (single_dict (sl_dicts sl1 ! d)) sl1 of (sl, s) \<Rightarrow>
               (update_cache d (\<lambda>c. c\<lparr>sc_single := Some s\<rparr>) (mixin_selection s None False sl), s)))
     else (mixin_selection d None indexed sl1, d))"
    using c target by (simp add: select_def)
  consider "sc_selection c" | (single) s where "\<not> sc_selection c" "is_single (sl_dicts sl1 ! d)" "sc_single c = Some s"
    | (fresh) "\<not> sc_selection c" "is_single (sl_dicts sl1 ! d)" "sc_single c = None" | (plain) "\<not> sc_selection c" "\<not> is_single (sl_dicts sl1 ! d)"
    by (cases "sc_single c") auto
  then show ?thesis
  proof cases
    case 1
    then show ?thesis using sel i(1,2) d1 by simp
  next
    case single
    have "cache_ok sl1 d c" using i(1,3) by (simp add: sel_inv_def)
    then show ?thesis using single sel i by (simp add: cache_ok_def)
  next
    case fresh
    obtain sl2 s where nd: "new_dict (single_dict (sl_dicts sl1 ! d)) sl1 = (sl2, s)" by force
    have "dict_ok (single_dict (sl_dicts sl1 ! d))" by (simp add: single_dict_def dict_ok_def Let_def)
    note n = new_dict_inv [OF i(1) this nd]
    have s: "s < length (sl_dicts sl2)" "sl_dicts sl2 ! s = single_dict (sl_dicts sl2 ! d)" "2 \<le> s"
      using n(3,4) d1 i(1) by (auto simp: nth_append sel_inv_def)
    let ?sl3 = "mixin_selection s None False sl2"
    have m: "sel_inv ?sl3" "extends_to sl2 ?sl3" "sl_dicts ?sl3 = sl_dicts sl2"
      using mixin_selection_inv [OF n(1) s(1), of False] by simp_all
    have "cache_ok ?sl3 d (c\<lparr>sc_single := Some s\<rparr>)" if "cache_ok ?sl3 d c" for c
      using that s m(3) by (auto simp: cache_ok_def)
    then have u: "sel_inv (update_cache d (\<lambda>c. c\<lparr>sc_single := Some s\<rparr>) ?sl3)" "extends_to ?sl3 (update_cache d (\<lambda>c. c\<lparr>sc_single := Some s\<rparr>) ?sl3)"
      by (simp_all add: update_cache_inv [OF m(1)])
    have "extends_to sl (update_cache d (\<lambda>c. c\<lparr>sc_single := Some s\<rparr>) ?sl3)"
      using i(2) n(2) m(2) u(2) by (blast intro: extends_trans)
    moreover have "s < length (sl_dicts (update_cache d (\<lambda>c. c\<lparr>sc_single := Some s\<rparr>) ?sl3))"
      using s(1) extends_length [OF u(2)] m(3) by simp
    ultimately show ?thesis using sel fresh nd u(1) by simp
  next
    case plain
    have m: "sel_inv (mixin_selection d None indexed sl1)" "extends_to sl1 (mixin_selection d None indexed sl1)"
      "sl_dicts (mixin_selection d None indexed sl1) = sl_dicts sl1"
      using mixin_selection_inv [OF i(1) d1, of indexed None] dz by auto
    then show ?thesis using plain sel d1 extends_trans [OF i(2) m(2)] by simp
  qed
qed

text \<open>The loader tells of a change: its objects have changed by what it says.\<close>

definition sel_told :: "kube_told \<Rightarrow> dict \<Rightarrow> kube_select \<Rightarrow> kube_select" where
  "sel_told t objects sl = sel_listener t (sl\<lparr>sl_dicts := (sl_dicts sl)[0 := objects]\<rparr>)"

definition told_ok :: "kube_told \<Rightarrow> dict \<Rightarrow> dict \<Rightarrow> bool" where
  "told_ok t old objects \<longleftrightarrow> owf objects \<and> dict_ok objects \<and> oget objects = replay t (oget old) \<and>
     (case t of Changed present removed \<Rightarrow> dict_ok present | Initial present \<Rightarrow> dict_ok present | Resetting \<Rightarrow> True)"

lemma index_listener:
  assumes "sel_inv sl" "sl_index sl = Some ix" "dict_ok present" "\<And>link object. (link, object) \<in> set objects \<Longrightarrow>
    (link, object) \<in> set present \<or> (link, object) \<in> set (sl_dicts sl ! 0)"
  shows "\<exists>ix'. index_objects (filter_list sl) present ix = (ix', True) \<and> buckets_ok ix' \<and> indexed_dict (filter_list sl) objects ix'"
proof -
  have ok: "buckets_ok ix" "indexed_dict (filter_list sl) (sl_dicts sl ! 0) ix" "\<forall>f \<in> set (filter_list sl). total_filter f"
    using assms(1,2) by (simp_all add: sel_inv_def index_ok_def)
  obtain ix' where ix': "index_objects (filter_list sl) present ix = (ix', True)" "buckets_ok ix'" "grows ix ix'" "indexed_dict (filter_list sl) present ix'"
    using index_objects_done [OF ok(1,3) assms(3)] by blast
  then show ?thesis
    using assms(4) indexed_dict_grows [OF ok(2) ix'(3)] by (fastforce simp: indexed_dict_def)
qed

lemma told_parts:
  assumes "told_ok t old objects" "(link, object) \<in> set objects"
  shows "case t of Changed present removed \<Rightarrow> (link, object) \<in> set present \<or> (link, object) \<in> set old
    | Initial present \<Rightarrow> (link, object) \<in> set present | Resetting \<Rightarrow> False"
proof -
  have "owf objects" using assms(1) by (simp add: told_ok_def)
  then have "oget objects link = Some object"
    using assms(2) by (simp add: owf_def okeys_def oget_map_of)
  then have "replay t (oget old) link = Some object" using assms(1) by (simp add: told_ok_def)
  then show ?thesis by (cases t) (auto simp: overlay_def dest: oget_in_set split: option.splits if_splits)
qed

lemma cache_ok_stale:
  "cache_ok sl d c \<Longrightarrow> length (sl_dicts sl') = length (sl_dicts sl) \<Longrightarrow> sl_version sl' = sl_version sl + 1 \<Longrightarrow> cache_ok sl' d c"
  by (simp add: cache_ok_def)

lemma sel_told_inv:
  assumes "sel_inv sl" "told_ok t (sl_dicts sl ! 0) objects"
  shows "sel_inv (sel_told t objects sl)" "length (sl_dicts (sel_told t objects sl)) = length (sl_dicts sl)"
proof -
  let ?sl = "sel_told t objects sl"
  have parts: "sl_dicts ?sl = (sl_dicts sl)[0 := objects]" "sl_version ?sl = sl_version sl + 1" "sl_cache ?sl = sl_cache sl" "filter_list ?sl = filter_list sl"
    by (cases t; simp add: sel_told_def sel_listener_def Let_def filter_list_def split: option.split)+
  then show "length (sl_dicts ?sl) = length (sl_dicts sl)" by simp
  have ne: "sl_dicts sl \<noteq> []" "0 < length (sl_dicts sl)" using assms(1) by (auto simp: sel_inv_def)
  have zero: "sl_dicts ?sl ! 0 = objects" using parts(1) ne by simp
  have "index_ok ?sl"
  proof (cases "sl_index sl")
    case None
    then have "sl_index ?sl = None" by (cases t) (simp_all add: sel_told_def sel_listener_def Let_def)
    then show ?thesis by (simp add: index_ok_def)
  next
    case (Some ix)
    have step: "index_ok ?sl" if "dict_ok present" "sl_index ?sl = Some (fst (index_objects (filter_list sl) present ix))"
      "\<And>link object. (link, object) \<in> set objects \<Longrightarrow> (link, object) \<in> set present \<or> (link, object) \<in> set (sl_dicts sl ! 0)" for present
    proof -
      note given = that
      obtain ix' where "index_objects (filter_list sl) present ix = (ix', True)" "buckets_ok ix'" "indexed_dict (filter_list sl) objects ix'"
        using index_listener [OF assms(1) Some given(1), of objects] given(3) by blast
      then show ?thesis using given(2) zero parts(4) by (simp add: index_ok_def)
    qed
    show ?thesis
    proof (cases t)
      case (Changed present removed)
      then show ?thesis using told_parts [OF assms(2)] assms(2) Some
        by (intro step [of present]) (simp_all add: told_ok_def sel_told_def sel_listener_def Let_def filter_list_def)
    next
      case (Initial present)
      then show ?thesis using told_parts [OF assms(2)] assms(2) Some
        by (intro step [of present]) (simp_all add: told_ok_def sel_told_def sel_listener_def Let_def filter_list_def)
    next
      case Resetting
      then show ?thesis by (simp add: index_ok_def sel_told_def sel_listener_def Let_def)
    qed
  qed
  moreover have "\<forall>d \<in> set (sl_dicts ?sl). dict_ok d"
    using assms parts(1) set_update_subset_insert [of "sl_dicts sl" 0 objects] by (auto simp: sel_inv_def told_ok_def)
  ultimately show "sel_inv ?sl"
    using assms(1) parts cache_ok_stale [of sl _ _ ?sl] by (auto simp: sel_inv_def)
qed

lemma register_filter_inv:
  assumes "sel_inv sl" "total_filter f"
  shows "sel_inv (register_filter name f sl)"
proof -
  have "set (filter_list (register_filter name f sl)) \<subseteq> insert f (set (filter_list sl))"
    using set_oset [of "sl_filters sl" name f] by (fastforce simp: filter_list_def register_filter_def)
  then show ?thesis
    using assms cache_ok_stale [of sl _ _ "register_filter name f sl"] by (auto simp: sel_inv_def index_ok_def register_filter_def)
qed

section \<open>Sequences of operations\<close>

datatype sel_op =
    SelTold kube_told dict
  | SelNew dict
  | SelRegister string kube_filter
  | SelSelect sel_arg
  | SelCall string nat "js list"

text \<open>What the surroundings keep to: the loader tells what it changed, filters do not throw on objects, and dicts hold objects.\<close>

fun sel_op_ok :: "sel_op \<Rightarrow> kube_select \<Rightarrow> bool" where
  "sel_op_ok (SelTold t objects) sl = told_ok t (sl_dicts sl ! 0) objects"
| "sel_op_ok (SelNew objects) sl = dict_ok objects"
| "sel_op_ok (SelRegister name f) sl = total_filter f"
| "sel_op_ok (SelSelect arg) sl = (case arg of DictArg d \<Rightarrow> d < length (sl_dicts sl) | _ \<Rightarrow> True)"
| "sel_op_ok (SelCall name d args) sl = (d < length (sl_dicts sl))"

fun sel_step :: "sel_op \<Rightarrow> kube_select \<Rightarrow> kube_select" where
  "sel_step (SelTold t objects) sl = sel_told t objects sl"
| "sel_step (SelNew objects) sl = fst (new_dict objects sl)"
| "sel_step (SelRegister name f) sl = register_filter name f sl"
| "sel_step (SelSelect arg) sl = fst (select arg sl)"
| "sel_step (SelCall name d args) sl = fst (select_call name d args sl)"

text \<open>The states of a selection that is used this way.\<close>

inductive sel_reachable :: "kube_select \<Rightarrow> bool" where
  sel_start: "sel_reachable new_select"
| sel_next: "sel_reachable sl \<Longrightarrow> sel_op_ok x sl \<Longrightarrow> sel_reachable (sel_step x sl)"

lemma sel_step_inv: "sel_inv sl \<Longrightarrow> sel_op_ok x sl \<Longrightarrow> sel_inv (sel_step x sl)"
proof (cases x)
  case (SelNew objects)
  assume "sel_inv sl" "sel_op_ok x sl"
  then show ?thesis using SelNew new_dict_inv(1) [of sl objects "fst (new_dict objects sl)"] by (simp add: prod_eq_iff)
next
  case (SelSelect arg)
  assume "sel_inv sl" "sel_op_ok x sl"
  then show ?thesis using SelSelect select_spec [of sl arg] by (auto split: sel_arg.splits)
qed (simp_all add: sel_told_inv register_filter_inv select_call_spec)

lemma standard_total: "total_filter (Digests label_digests)" "total_filter (Digest namespace_digest)" "total_filter (Digest name_digest)"
  "total_filter (Digest kind_digest)" "total_filter (Digest host_digest)" "total_filter (Digest uid_digest)" "total_filter (Digest status_phase_digest)"
  by (simp_all add: label_digests_def namespace_digest_def name_digest_def kind_digest_def host_digest_def uid_digest_def text_digest_def
      status_phase_digest_def Let_def split: js.split)

lemma new_select_inv: "sel_inv new_select"
proof -
  have "sel_inv \<lparr>sl_filters = [], sl_index = None, sl_version = 1, sl_dicts = [[], []], sl_cache = []\<rparr>"
    by (simp add: sel_inv_def filter_list_def dict_ok_def index_ok_def)
  then show ?thesis
    unfolding new_select_def by (simp add: register_filter_inv standard_total del: total_filter.simps(2,3))
qed

lemma sel_reachable_inv: "sel_reachable sl \<Longrightarrow> sel_inv sl"
  by (induction rule: sel_reachable.induct) (simp_all add: new_select_inv sel_step_inv)

section \<open>Properties of the selection\<close>


definition sample_dict :: dict where
  "sample_dict = [(''/x/a'', sample_pod ''a'' ''x''), (''/y/b'', sample_pod ''b'' ''y'')]"


text \<open>The filters by one key, in the words of the objects.\<close>

lemma selects_digest:
  assumes "selects (Digest dg) args what results" "dg (arg_of args) = Some key" "truthy key"
  shows "oget results link = (case oget what link of None \<Rightarrow> None | Some object \<Rightarrow> if dg object = Some key then Some object else None)"
  using assms by (simp add: selects_def split: option.split)

lemma one_label_exact:
  assumes "selects (Digests label_digests) [JObj [(k, v)]] what results" "k \<noteq> ''metadata''"
  shows "oget results link = (case oget what link of None \<Rightarrow> None
    | Some object \<Rightarrow> if k @ ''='' @ to_str v \<in> set (the (label_digests object)) then Some object else None)"
  using assms by (auto simp: selects_def label_digests_def arg_of_def run_match_single sort_key_simps split: option.split)

text \<open>
  A selector of two labels does not find an object that has both when a label of the object is between them: the loop
  looks for the keys of the selector right behind each other.
\<close>

lemma labels_between_missed:
  defines "object \<equiv> JObj [(''metadata'', JObj [(''labels'', JObj [(''app'', JStr ''x''), (''name'', JStr ''y''), (''tier'', JStr ''z'')])])]"
  shows "\<not> matches (Digests label_digests) [JObj [(''app'', JStr ''x''), (''tier'', JStr ''z'')]] object"
    and "matches (Digests label_digests) [JObj [(''app'', JStr ''x''), (''name'', JStr ''y'')]] object"
  unfolding object_def by code_simp+

end
