(* ===== verification/Kube_Methods.thy ===== *)
theory Kube_Methods
  imports Kube_Client "HOL-Library.Multiset"
begin

text \<open>
  The methods on Kubernetes objects of \<open>pkg/kubernetes/scripts/kube-client.js\<close> (\<open>kubeMethods\<close>): creating objects one after
  the other in the order their kinds ask for, deleting, patching and checking a resource.  The requests are other code:
  what is asked of them is kept, and what they answer is an argument.
\<close>

section \<open>Creating objects\<close>

text \<open>The kinds that the schema knows: reading \<open>create\<close> of another one throws, which the sort does as soon as it compares.\<close>

definition schema_knows :: "js \<Rightarrow> bool" where
  "schema_knows kind \<longleftrightarrow> oget (flat_schema schema_items) (to_str kind) \<noteq> None"

definition create_rank :: "js \<Rightarrow> int" where
  "create_rank resource = ks_create (schema_of (fld resource ''kind''))"

definition have_namespace :: "js \<Rightarrow> js list \<Rightarrow> bool" where
  "have_namespace namespace objects =
     list_ex (\<lambda>r. fld r ''kind'' \<in> {JStr ''Namespace'', JStr ''Project''} \<and> fld (fld r ''metadata'') ''name'' = namespace) objects"

definition want_namespace :: "js list \<Rightarrow> bool" where
  "want_namespace objects = list_ex (\<lambda>r. \<not> ks_global (schema_of (fld r ''kind''))) objects"

definition namespace_object :: "js \<Rightarrow> js" where
  "namespace_object namespace =
     JObj [(''apiVersion'', JStr ''v1''), (''kind'', JStr ''Namespace''), (''metadata'', JObj [(''name'', namespace)])]"

text \<open>The objects to create; \<open>None\<close> when going through them throws.\<close>

definition objects_of :: "js \<Rightarrow> js list option" where
  "objects_of what =
     (let objects = (case what of
            JArr objects \<Rightarrow> Some objects
          | _ \<Rightarrow> if fld what ''kind'' = JStr ''List'' then (case fld what ''items'' of JArr items \<Rightarrow> Some items | _ \<Rightarrow> None) else Some [what])
      in Option.bind objects (\<lambda>objects. if list_ex (\<lambda>r. r = JUndef \<or> r = JNull) objects then None else Some objects))"

definition with_namespace :: "js \<Rightarrow> js list \<Rightarrow> js list" where
  "with_namespace namespace objects =
     (if truthy namespace \<and> want_namespace objects \<and> \<not> have_namespace namespace objects
      then namespace_object namespace # objects else objects)"

text \<open>What is created and in which order; \<open>None\<close> when the sort throws.\<close>

definition create_plan :: "js \<Rightarrow> js \<Rightarrow> js list option" where
  "create_plan what namespace =
     Option.bind (objects_of what) (\<lambda>objects. let objects = with_namespace namespace objects
      in if 2 \<le> length objects \<and> list_ex (\<lambda>r. \<not> schema_knows (fld r ''kind'')) objects then None
         else Some (sort_key create_rank objects))"

record kube_request =
  kr_method :: string
  kr_path :: "string option"
  kr_body :: js

datatype outcome = Resolved | Rejected js | Failed

text \<open>
  A creation under way: what is left, the resource whose request is out, what was asked, how it ended.  \<open>Failed\<close> is an
  exception in a handler, after which nothing settles.
\<close>

record creation =
  cr_queue :: "js list"
  cr_current :: "js option"
  cr_namespace :: js
  cr_requests :: "kube_request list"
  cr_outcome :: "outcome option"

definition req_timeout :: string where "req_timeout = ''?timeout=120s''"

definition create_path :: "js \<Rightarrow> js \<Rightarrow> string option" where
  "create_path namespace resource =
     map_option (\<lambda>p. p @ req_timeout)
       (resource_path [fld resource ''kind'', JNull, if truthy namespace then namespace else JStr ''default''])"

definition create_request :: "js \<Rightarrow> js \<Rightarrow> kube_request" where
  "create_request namespace resource = \<lparr>kr_method = ''POST'', kr_path = create_path namespace resource, kr_body = resource\<rparr>"

definition create_step :: "creation \<Rightarrow> creation" where
  "create_step cr =
     (case cr_queue cr of
        [] \<Rightarrow> cr\<lparr>cr_current := None, cr_outcome := Some Resolved\<rparr>
      | resource # rest \<Rightarrow>
          if \<not> truthy resource then cr\<lparr>cr_queue := rest, cr_current := None, cr_outcome := Some Resolved\<rparr>
          else cr\<lparr>cr_queue := rest, cr_current := Some resource,
                  cr_requests := cr_requests cr @ [create_request (cr_namespace cr) resource]\<rparr>)"

definition create_objects :: "js \<Rightarrow> js \<Rightarrow> creation option" where
  "create_objects what namespace =
     map_option (\<lambda>plan. create_step \<lparr>cr_queue = plan, cr_current = None, cr_namespace = namespace, cr_requests = [], cr_outcome = None\<rparr>)
       (create_plan what namespace)"

text \<open>The answer to a request: what was created, or what came with an error and its status.\<close>

datatype response = Created js | Refused js int

text \<open>A project comes with a link that is wrong, which is taken away.\<close>

definition unlink_project :: "js \<Rightarrow> js" where
  "unlink_project resource =
     (if fld resource ''kind'' = JStr ''Project'' then
        (case (resource, fld resource ''metadata'') of
           (JObj kvs, JObj meta) \<Rightarrow> JObj (oset kvs ''metadata'' (JObj (odel meta ''selfLink'')))
         | _ \<Rightarrow> resource)
      else resource)"

definition refusal_code :: "js \<Rightarrow> int \<Rightarrow> js" where
  "refusal_code resp status = (if truthy resp \<and> truthy (fld resp ''code'') then fld resp ''code'' else JNum status)"

definition create_response :: "response \<Rightarrow> creation \<times> kube_loader \<Rightarrow> creation \<times> kube_loader" where
  "create_response answer st =
     (case st of (cr, kl) \<Rightarrow>
       (case cr_current cr of
          None \<Rightarrow> st
        | Some resource \<Rightarrow>
            (case answer of
               Created resp \<Rightarrow>
                 if resp = JUndef \<or> resp = JNull then (cr\<lparr>cr_current := None, cr_outcome := Some Failed\<rparr>, kl)
                 else (create_step cr,
                   if truthy (fld resp ''kind'') then handle_objects [unlink_project resp] False JUndef kl else kl)
             | Refused resp status \<Rightarrow>
                 if fld resource ''kind'' = JStr ''Namespace'' \<and> refusal_code resp status \<in> {JNum 409, JNum 403} then (create_step cr, kl)
                 else (cr\<lparr>cr_current := None, cr_outcome := Some (Rejected (if truthy resp then resp else JObj [(''status'', JNum status)]))\<rparr>, kl))))"

definition create_run :: "response list \<Rightarrow> creation \<times> kube_loader \<Rightarrow> creation \<times> kube_loader" where
  "create_run answers st = fold create_response answers st"

section \<open>Other methods\<close>

text \<open>\<open>deleteResource\<close>: the request, the resource it is about as the loader has it, and what the loader is told when it is done.\<close>

definition delete_request :: "js list \<Rightarrow> kube_request" where
  "delete_request args = \<lparr>kr_method = ''DELETE'', kr_path = map_option (\<lambda>p. p @ req_timeout) (resource_path args), kr_body = JUndef\<rparr>"

definition delete_target :: "js list \<Rightarrow> kube_loader \<Rightarrow> js option" where
  "delete_target args kl = Option.bind (resource_path args) (oget (kl_objects kl))"

definition deleted :: "js option \<Rightarrow> kube_loader \<Rightarrow> kube_loader" where
  "deleted target kl =
     (case target of None \<Rightarrow> kl | Some resource \<Rightarrow> if truthy resource then handle_objects [resource] True JUndef kl else kl)"

definition patch_request :: "js \<Rightarrow> js \<Rightarrow> kube_request" where
  "patch_request resource patch = \<lparr>kr_method = ''PATCH'', kr_path = map_option (\<lambda>p. p @ req_timeout) (resource_path [resource]), kr_body = patch\<rparr>"

definition patched :: "js \<Rightarrow> kube_loader \<Rightarrow> kube_loader" where
  "patched resp kl = (if truthy (fld resp ''kind'') then handle_objects [resp] False JUndef kl else kl)"

definition method_request :: "string \<Rightarrow> js \<Rightarrow> js \<Rightarrow> kube_request" where
  "method_request meth resource body =
     \<lparr>kr_method = meth, kr_path = map_option (\<lambda>p. p @ (if meth \<noteq> ''GET'' then req_timeout else [])) (resource_path [resource]), kr_body = body\<rparr>"

text \<open>The names that \<open>NAME_RE\<close> and \<open>USER_NAME_RE\<close> let pass.\<close>

definition lower :: "char \<Rightarrow> bool" where "lower c \<longleftrightarrow> c \<in> set ''abcdefghijklmnopqrstuvwxyz0123456789''"
definition upper :: "char \<Rightarrow> bool" where "upper c \<longleftrightarrow> c \<in> set ''ABCDEFGHIJKLMNOPQRSTUVWXYZ''"

definition bracketed :: "(char \<Rightarrow> bool) \<Rightarrow> (char \<Rightarrow> bool) \<Rightarrow> (char \<Rightarrow> bool) \<Rightarrow> string \<Rightarrow> bool" where
  "bracketed first middle final s =
     (case s of [] \<Rightarrow> False | c # r \<Rightarrow> first c \<and> (r = [] \<or> list_all middle (butlast r) \<and> final (List.last r)))"

definition name_re :: "string \<Rightarrow> bool" where
  "name_re = bracketed lower (\<lambda>c. lower c \<or> c \<in> set ''-_.'') lower"

definition user_name_re :: "string \<Rightarrow> bool" where
  "user_name_re =
     bracketed (\<lambda>c. lower c \<or> upper c \<or> c \<in> set ''_.'') (\<lambda>c. lower c \<or> upper c \<or> c \<in> set ''- ,=@._:'') (\<lambda>c. lower c \<or> upper c \<or> c \<in> set ''._:'')"

datatype name_problem = EmptyName | BadName | BadUserName | EmptyNamespace | BadNamespace

definition check_name :: "js \<Rightarrow> name_problem list" where
  "check_name resource =
     (let meta = fld resource ''metadata''; name = fld meta ''name'';
          user = fld resource ''kind'' \<in> {JStr ''User'', JStr ''Group''}
      in if name = JUndef then []
         else if \<not> truthy name then [EmptyName]
         else if (if user then user_name_re else name_re) (to_str name) then []
         else if user then [BadUserName] else [BadName])"

definition check_namespace :: "js \<Rightarrow> name_problem list" where
  "check_namespace resource =
     (let ns = fld (fld resource ''metadata'') ''namespace''
      in if ns = JUndef then [] else if \<not> truthy ns then [EmptyNamespace] else if name_re (to_str ns) then [] else [BadNamespace])"

text \<open>\<open>checkResource\<close>: the problems it is rejected with, none when it is resolved.\<close>

definition check_resource :: "js \<Rightarrow> name_problem list" where
  "check_resource resource = (if truthy (fld resource ''metadata'') then check_name resource @ check_namespace resource else [])"

section \<open>The order of creation\<close>

lemma create_plan_shape:
  assumes "create_plan what namespace = Some plan"
  obtains objects where "objects_of what = Some objects" "plan = sort_key create_rank (with_namespace namespace objects)"
    "length plan < 2 \<or> (\<forall>r \<in> set plan. schema_knows (fld r ''kind''))"
  using assms by (auto simp: create_plan_def Let_def list_ex_iff bind_eq_Some_conv split: if_splits)

text \<open>Going by the schema: what is in a namespace is created after namespaces are.\<close>

lemma schema_ranks: "list_all (\<lambda>(k, s). ks_global s \<or> - 100 < ks_create s) (flat_schema schema_items)"
  by code_simp

lemma rank_in_namespace: "schema_knows kind \<Longrightarrow> \<not> ks_global (schema_of kind) \<Longrightarrow> - 100 < ks_create (schema_of kind)"
  using schema_ranks oget_in_set [of "flat_schema schema_items" "to_str kind"]
  by (fastforce simp: schema_knows_def schema_of_def list_all_iff split: option.split)

lemma namespace_schema:
  "oget (flat_schema schema_items) ''Namespace'' = Some \<lparr>ks_type = ''namespaces'', ks_api = ''/api/v1'', ks_global = True, ks_create = - 100\<rparr>"
  by code_simp

lemma namespace_rank: "create_rank (namespace_object ns) = - 100" "ks_global (schema_of (fld (namespace_object ns) ''kind''))"
  by (simp_all add: create_rank_def namespace_object_def schema_of_def namespace_schema)

lemma sort_key_before:
  assumes "x \<in> set xs" "y \<in> set xs" "f x < f y" "j < length xs" "sort_key f xs ! j = y"
  shows "\<exists>i < j. sort_key f xs ! i = x"
proof -
  obtain i where i: "i < length xs" "sort_key f xs ! i = x"
    using assms(1) by (metis in_set_conv_nth length_sort set_sort)
  have "sorted (map f (sort_key f xs))" by simp
  then have "\<not> j \<le> i"
    using assms(3-5) i sorted_nth_mono [of "map f (sort_key f xs)" j i] by auto
  then show ?thesis using i(2) by (intro exI [of _ i]) simp
qed

section \<open>One request at a time\<close>

text \<open>How far the creation of a plan is.\<close>

definition creating :: "js list \<Rightarrow> creation \<Rightarrow> nat \<Rightarrow> bool" where
  "creating plan cr n \<longleftrightarrow> n \<le> length plan \<and> cr_requests cr = map (create_request (cr_namespace cr)) (take n plan) \<and>
     (case cr_outcome cr of
        None \<Rightarrow> 0 < n \<and> cr_current cr = Some (plan ! (n - 1)) \<and> cr_queue cr = drop n plan
      | Some Resolved \<Rightarrow> n = length plan \<and> cr_current cr = None
      | Some _ \<Rightarrow> cr_current cr = None)"

lemma create_step_creating:
  assumes "n \<le> length plan" "\<forall>r \<in> set plan. truthy r" "cr_requests cr = map (create_request (cr_namespace cr)) (take n plan)"
    "cr_queue cr = drop n plan" "cr_outcome cr = None"
  shows "creating plan (create_step cr) (min (n + 1) (length plan))"
    and "cr_outcome (create_step cr) = (if n = length plan then Some Resolved else None)" "cr_namespace (create_step cr) = cr_namespace cr"
proof -
  have "creating plan (create_step cr) (min (n + 1) (length plan)) \<and>
    cr_outcome (create_step cr) = (if n = length plan then Some Resolved else None) \<and> cr_namespace (create_step cr) = cr_namespace cr"
  proof (cases "n = length plan")
    case True
    then show ?thesis using assms by (simp add: create_step_def creating_def)
  next
    case False
    then have n: "n < length plan" using assms(1) by simp
    then have "cr_queue cr = plan ! n # drop (Suc n) plan" "truthy (plan ! n)"
      using assms(2,4) by (simp_all add: Cons_nth_drop_Suc)
    then show ?thesis
      using n assms(3,5) by (simp add: create_step_def creating_def take_Suc_conv_app_nth)
  qed
  then show "creating plan (create_step cr) (min (n + 1) (length plan))"
    "cr_outcome (create_step cr) = (if n = length plan then Some Resolved else None)" "cr_namespace (create_step cr) = cr_namespace cr"
    by simp_all
qed

text \<open>An answer that lets the creation go on.\<close>

definition goes_on :: "js \<Rightarrow> response \<Rightarrow> bool" where
  "goes_on resource answer =
     (case answer of
        Created resp \<Rightarrow> resp \<noteq> JUndef \<and> resp \<noteq> JNull
      | Refused resp status \<Rightarrow> fld resource ''kind'' = JStr ''Namespace'' \<and> refusal_code resp status \<in> {JNum 409, JNum 403})"

lemma create_response_creating:
  assumes "creating plan cr n" "\<forall>r \<in> set plan. truthy r" "cr_outcome cr = None"
  shows "if goes_on (plan ! (n - 1)) answer
    then creating plan (fst (create_response answer (cr, kl))) (min (n + 1) (length plan)) \<and>
      cr_outcome (fst (create_response answer (cr, kl))) = (if n = length plan then Some Resolved else None)
    else creating plan (fst (create_response answer (cr, kl))) n \<and> cr_outcome (fst (create_response answer (cr, kl))) \<notin> {None, Some Resolved}"
proof -
  have cr: "n \<le> length plan" "cr_requests cr = map (create_request (cr_namespace cr)) (take n plan)" "cr_current cr = Some (plan ! (n - 1))"
    "cr_queue cr = drop n plan"
    using assms(1,3) by (simp_all add: creating_def)
  note step = create_step_creating [OF cr(1) assms(2) cr(2,4) assms(3)]
  show ?thesis
  proof (cases answer)
    case (Created resp)
    then show ?thesis using step cr assms(3) by (simp add: create_response_def goes_on_def creating_def)
  next
    case (Refused resp status)
    then show ?thesis using step cr assms(3) by (simp add: create_response_def goes_on_def creating_def)
  qed
qed

lemma create_run_settled: "cr_current cr = None \<Longrightarrow> create_run answers (cr, kl) = (cr, kl)"
  unfolding create_run_def by (induction answers) (simp_all add: create_response_def)

text \<open>How many requests in a row were answered so that the creation went on.\<close>

definition accepted :: "js list \<Rightarrow> response list \<Rightarrow> nat" where
  "accepted plan answers = length (takeWhile (\<lambda>(r, a). goes_on r a) (zip plan answers))"

lemma create_response_namespace: "cr_namespace (fst (create_response a (cr, kl))) = cr_namespace cr"
  by (simp add: create_response_def create_step_def split: option.split response.split list.split)

lemma create_run_creating:
  assumes "creating plan cr (Suc n)" "\<forall>r \<in> set plan. truthy r" "cr_outcome cr = None"
  shows "cr_requests (fst (create_run answers (cr, kl))) = map (create_request (cr_namespace cr)) (take (n + accepted (drop n plan) answers + 1) plan) \<and>
    (if n + accepted (drop n plan) answers = length plan then cr_outcome (fst (create_run answers (cr, kl))) = Some Resolved
     else if accepted (drop n plan) answers = length answers then cr_outcome (fst (create_run answers (cr, kl))) = None
     else cr_outcome (fst (create_run answers (cr, kl))) \<notin> {None, Some Resolved})"
  using assms(1,3)
proof (induction answers arbitrary: cr kl n)
  case Nil
  then show ?case by (simp add: accepted_def create_run_def creating_def)
next
  case (Cons a answers)
  obtain cr' kl' where r: "create_response a (cr, kl) = (cr', kl')" by force
  have n: "n < length plan" using Cons.prems(1) by (simp add: creating_def)
  have rest: "drop n plan = plan ! n # drop (Suc n) plan" by (rule Cons_nth_drop_Suc [OF n, symmetric])
  have run: "create_run (a # answers) (cr, kl) = create_run answers (cr', kl')" by (simp add: create_run_def r)
  have ns: "cr_namespace cr' = cr_namespace cr" using create_response_namespace [of a cr kl] r by simp
  note resp = create_response_creating [OF Cons.prems(1) assms(2) Cons.prems(2), of a kl, unfolded r fst_conv diff_Suc_1]
  show ?case
  proof (cases "goes_on (plan ! n) a")
    case False
    then have out: "creating plan cr' (Suc n)" "cr_outcome cr' \<notin> {None, Some Resolved}" using resp by simp_all
    then have "cr_current cr' = None" by (auto simp: creating_def split: option.splits outcome.splits)
    then show ?thesis using False rest run out ns n by (simp add: accepted_def create_run_settled creating_def)
  next
    case True
    then have k: "accepted (drop n plan) (a # answers) = Suc (accepted (drop (Suc n) plan) answers)"
      by (simp add: accepted_def rest)
    show ?thesis
    proof (cases "Suc n = length plan")
      case last: True
      then have out: "creating plan cr' (length plan)" "cr_outcome cr' = Some Resolved" using True resp by simp_all
      then have "cr_current cr' = None" by (simp add: creating_def)
      then show ?thesis using out k last run ns by (simp add: create_run_settled creating_def accepted_def)
    next
      case False
      then have "creating plan cr' (Suc (Suc n))" "cr_outcome cr' = None" using True resp n by (simp_all add: min_def)
      then show ?thesis using Cons.IH [of cr' "Suc n" kl'] k run ns by (auto split: if_splits)
    qed
  qed
qed

section \<open>Properties of the methods\<close>


definition sample_service :: js where
  "sample_service = JObj [(''kind'', JStr ''Service''), (''metadata'', JObj [(''name'', JStr ''s'')])]"

definition sample_plan :: "js list" where
  "sample_plan = [namespace_object (JStr ''x''), sample_service, sample_pod ''a'' ''x'']"

lemma pod_schema: "oget (flat_schema schema_items) ''Pod'' = Some \<lparr>ks_type = ''pods'', ks_api = ''/api/v1'', ks_global = False, ks_create = - 20\<rparr>"
  by code_simp

lemma service_schema: "oget (flat_schema schema_items) ''Service'' = Some \<lparr>ks_type = ''services'', ks_api = ''/api/v1'', ks_global = False, ks_create = - 80\<rparr>"
  by code_simp

lemma user_schema: "schema_of (JStr ''User'') = \<lparr>ks_type = ''users'', ks_api = ''/oapi/v1'', ks_global = True, ks_create = 0\<rparr>"
  by code_simp

lemmas sample_kinds = schema_of_def schema_knows_def pod_schema service_schema namespace_schema

lemma sample_plan: "create_plan (JArr [sample_pod ''a'' ''x'', sample_service]) (JStr ''x'') = Some sample_plan"
proof -
  have kinds: "fld (sample_pod n ns) ''kind'' = JStr ''Pod''" "fld sample_service ''kind'' = JStr ''Service''"
    "fld (namespace_object v) ''kind'' = JStr ''Namespace''" "fld (fld (sample_pod n ns) ''metadata'') ''name'' = JStr n" for n ns v
    by (simp_all add: sample_pod_def sample_service_def namespace_object_def)
  have objects: "objects_of (JArr [sample_pod ''a'' ''x'', sample_service]) = Some [sample_pod ''a'' ''x'', sample_service]"
    by (simp add: objects_of_def sample_pod_def sample_service_def)
  show ?thesis
    by (simp add: create_plan_def objects sample_plan_def with_namespace_def want_namespace_def have_namespace_def create_rank_def kinds sample_kinds)
qed

lemma sample_plan_truthy: "\<forall>r \<in> set sample_plan. truthy r"
  by (simp add: sample_plan_def namespace_object_def sample_service_def sample_pod_def)


text \<open>When a namespace is given that is not among the objects and some object needs one, it is created as well, and its
  request comes before that of every object that lives in a namespace.
\<close>

theorem namespace_created_first:
  assumes "create_plan what namespace = Some plan" "objects_of what = Some objects"
    and "truthy namespace" "\<not> have_namespace namespace objects"
    and "j < length plan" "\<not> ks_global (schema_of (fld (plan ! j) ''kind''))"
  shows "\<exists>i < j. plan ! i = namespace_object namespace"
proof -
  let ?all = "with_namespace namespace objects"
  have plan: "plan = sort_key create_rank ?all" "length plan < 2 \<or> (\<forall>r \<in> set plan. schema_knows (fld r ''kind''))"
    by (rule create_plan_shape [OF assms(1)]; use assms(2) in simp)+
  have y: "plan ! j \<in> set ?all" using assms(5) plan(1) by (metis nth_mem set_sort)
  have "plan ! j \<noteq> namespace_object namespace" using assms(6) namespace_rank(2) by auto
  then have "plan ! j \<in> set objects" using y by (auto simp: with_namespace_def split: if_splits)
  then have want: "want_namespace objects" using assms(6) by (auto simp: want_namespace_def list_ex_iff)
  then have all: "?all = namespace_object namespace # objects" using assms(3,4) by (simp add: with_namespace_def)
  then have "2 \<le> length plan" using \<open>plan ! j \<in> set objects\<close> plan(1) by (cases objects) auto
  then have "schema_knows (fld (plan ! j) ''kind'')" using plan(2) assms(5) by auto
  then have "create_rank (namespace_object namespace) < create_rank (plan ! j)"
    using rank_in_namespace assms(6) by (simp add: namespace_rank create_rank_def [of "plan ! j"])
  then show ?thesis
    using sort_key_before [of "namespace_object namespace" ?all "plan ! j" create_rank j] y all assms(5) plan(1) by simp
qed

theorem namespace_created_first_witness:
  "\<exists>i < 2. sample_plan ! i = namespace_object (JStr ''x'')"
proof (rule namespace_created_first [OF sample_plan])
  show "objects_of (JArr [sample_pod ''a'' ''x'', sample_service]) = Some [sample_pod ''a'' ''x'', sample_service]"
    by (simp add: objects_of_def sample_pod_def sample_service_def)
  show "\<not> have_namespace (JStr ''x'') [sample_pod ''a'' ''x'', sample_service]"
    by (simp add: have_namespace_def sample_pod_def sample_service_def)
  show "\<not> ks_global (schema_of (fld (sample_plan ! 2) ''kind''))"
    by (simp add: sample_plan_def sample_pod_def sample_kinds)
qed (simp_all add: sample_plan_def)

text \<open>
  A resource is deleted by its path, in which the name is encoded, but the loader keeps its objects under decoded
  links: the loader is not told that a resource with such a name was deleted.
\<close>

lemma delete_misses_encoded:
  defines "args \<equiv> [JStr ''User'', JStr ''a b'']"
  shows "resource_path args = Some ''/oapi/v1/users/a%20b''"
    and "flush_link (JObj [(''kind'', JStr ''User''), (''metadata'', JObj [(''name'', JStr ''a b'')])]) = Some ''/oapi/v1/users/a b''"
    and "oget (kl_objects kl) ''/oapi/v1/users/a%20b'' = None \<Longrightarrow> deleted (delete_target args kl) kl = kl"
proof -
  have encoded: "url_encode ''a b'' = Some ''a%20b''"
    by (simp add: url_encode_def encode_uri_component_def surrogate_def encode_toks_def enc_char_def unreserved_def utf8_of_def hex_digit_def char_of_def bit_0)
  have decoded: "url_decode ''/oapi/v1/users/a%20b'' = Some ''/oapi/v1/users/a b''"
    by (simp add: url_decode_def decode_uri_component_def hex_val_def utf8_of_def char_of_def bit_0)
  show path: "resource_path args = Some ''/oapi/v1/users/a%20b''"
    by (simp add: args_def resource_path_def Let_def combined_path_def user_schema encoded)
  show "flush_link (JObj [(''kind'', JStr ''User''), (''metadata'', JObj [(''name'', JStr ''a b'')])]) = Some ''/oapi/v1/users/a b''"
    by (simp add: flush_link_def resource_path_def Let_def combined_path_def user_schema encoded decoded)
  show "oget (kl_objects kl) ''/oapi/v1/users/a%20b'' = None \<Longrightarrow> deleted (delete_target args kl) kl = kl" by (simp add: deleted_def delete_target_def path)
qed

text \<open>What the names let pass, against what the message says of them.\<close>

lemma name_allows_dots: "check_resource (JObj [(''kind'', JStr ''Pod''), (''metadata'', JObj [(''name'', JStr ''a_.b'')])]) = []"
  and name_refuses_letters: "check_resource (JObj [(''kind'', JStr ''Pod''), (''metadata'', JObj [(''name'', JStr ''Abc'')])]) = [BadName]"
  by code_simp+

end
