(* ===== verification/Spec2Isabelle.thy ===== *)
theory Spec2Isabelle
  imports Base64 Session Utf8 Promise_Props Events Location Format Storage Time_Series Http DBus_Mirror File_Modify Metrics
    Channel_Spec Shell_Index Nm_Settings Journal Kube_Select Kube_Methods
begin

text \<open>
  A verification library for the JavaScript of Cockpit, the web console for Linux servers.

  \<^bold>\<open>The program.\<close>  A page of Cockpit runs in the browser and talks to a bridge process on the server over one web socket.
  \<open>src/base1/cockpit.js\<close> is the library every page is written with: it multiplexes channels over the socket, and everything
  else (processes, HTTP requests, D-Bus, files, metrics) is a client of a channel.  \<open>pkg/shell/base_index.js\<close> is the outer
  page: it holds the socket, shows the components in frames and forwards their messages.  \<open>pkg/lib/journal.js\<close>,
  \<open>pkg/networkmanager\<close> and \<open>pkg/kubernetes/scripts/kube-client.js\<close> are components with logic of their own on top of the library.

  \<^bold>\<open>How code becomes definitions.\<close>  Objects with state are records; where objects refer to each other they live in a store
  and are numbers into its lists.  A method is a function from the store to the store, with what it sends, dispatches and
  warns about appended to a log, so that order is part of the result.  What the browser or the bridge does (a socket event, a
  message, a timer, an answer) is an operation of its own; an \<open>inductive\<close> reachability predicate or a \<open>run\<close> over a list of
  operations quantifies over every order of them.  Exceptions and error returns are values of an option or sum type.  The dynamic
  values of the language are the datatype \<^typ>\<open>js\<close>, its objects are insertion-ordered association lists.

  \<^bold>\<open>Foundations.\<close>
  \<^item> \<open>JS_Prelude\<close>: rule collections, string operations of the language, objects as dictionaries (locale \<open>js_object\<close>).
  \<^item> \<open>JS_Value\<close>: values, truthiness, \<open>extend\<close>, type tests, decimal numerals, \<open>trim\<close> and \<open>parseInt\<close>.
  \<^item> \<open>JSON_Codec\<close>: \<open>JSON.stringify\<close> and \<open>JSON.parse\<close>; the parser has fuel \<open>2 * length s + 1\<close>, and \<open>json_roundtrip\<close> shows that
    this is enough for every printed value: each level of the grammar takes at most two calls per character.
  \<^item> \<open>Utf8\<close>, \<open>Uri\<close>: \<open>Utf8TextEncoder\<close> and \<open>Utf8TextDecoder\<close>, and \<open>encodeURIComponent\<close> and \<open>decodeURIComponent\<close>; a text
    streamed in any chunks decodes like the whole.
  \<^item> \<open>Base64\<close>, \<open>Wire\<close>: the codec on 32-bit accumulators against RFC 4648, joining of buffers, framing and parsing of messages.

  \<^bold>\<open>Transport and channels.\<close>
  \<^item> \<open>Transport\<close>: \<open>ParentWebSocket\<close>, \<open>Transport\<close>, \<open>ensure_transport\<close>, \<open>Channel\<close>, \<open>cockpit.transport\<close>, \<open>kill\<close> and \<open>hint\<close> over one store.
  \<^item> \<open>Channel_Lifecycle\<close>: the step relation, its invariant; the close event is the last one, and closing a transport reaches
    every channel.  \<open>Channel_Queue\<close>: what is queued before the transport is ready goes out as if it had been sent then.
    \<open>Session\<close>: the handshake on all branches, delivery of frames, the health check, a transport that lost its socket.
  \<^item> \<open>Channel_Port\<close>: what the clients of a channel rely on, as locales, interpreted on the store.  \<open>Channel_Spec\<close>: an abstract
    channel that the channels of the store refine.  \<open>Channel_Buffer\<close>: \<open>Channel.buffer\<close> neither loses nor repeats data.

  \<^bold>\<open>Clients of channels.\<close>
  \<^item> \<open>Spawn\<close>, \<open>Http\<close>: processes and requests settle once, when their channel closes, by what came with it.
  \<^item> \<open>DBus\<close>, \<open>DBus_Calls\<close>, \<open>DBus_Mirror\<close>: client, cache, proxies; no call is forgotten, proxies show what the cache has.
  \<^item> \<open>File_Access\<close>, \<open>File_Modify\<close>: \<open>cockpit.file\<close>, and \<open>modify\<close> together with a file that other programs write; the bridge is
    what \<open>doc/protocol.md\<close> promises of \<open>fsread1\<close>, \<open>fsreplace1\<close> and their tags.
  \<^item> \<open>Metrics\<close>, \<open>Time_Series\<close>: metrics channels with their decompression, sinks, the cache of samples, series and grids.

  \<^bold>\<open>Other parts of the library.\<close>
  \<^item> \<open>Promise\<close>, \<open>Promise_Props\<close>: deferreds and the queue of functions to call later, with user handlers that may call back in.
  \<^item> \<open>Events\<close>, \<open>Location\<close>, \<open>Format\<close>, \<open>L10n\<close>, \<open>Storage\<close>, \<open>Account\<close>: event targets, the location of a page, formatting,
    translations, web storage and the cache windows share, the user, permissions and logout.

  \<^bold>\<open>Components.\<close>
  \<^item> \<open>Shell_Router\<close>, \<open>Shell_Index\<close>: the router composed with the transport of the shell and that of a frame, and frames,
    navigation and menu.
  \<^item> \<open>Journal\<close>: \<open>journalctl\<close> and the renderer, against a reference layout.
  \<^item> \<open>Nm_Utils\<close>, \<open>Nm_Settings\<close>: addresses, prefixes and netmasks as texts, and the settings of connections there and back.
  \<^item> \<open>Kube_Index\<close>, \<open>Kube_Client\<close>, \<open>Kube_Select\<close>, \<open>Kube_Methods\<close>: the hash index, the loader with its listeners, selection by
    filters, and creating, deleting, patching and checking of objects.

  \<^bold>\<open>What the models assume.\<close>  Numbers in messages are integers, those of formats and series rationals.  Objects have their own
  properties only.  A handler of other code does not re-enter an operation while it runs, except in \<open>Promise\<close>, where it is a
  parameter that may, and in \<open>Events\<close>, where it may change the listeners of its target.  Facts of the browser (the address of
  the page, which windows there are, how a locale writes numbers and dates), the byte order of the server and translations are arguments.
  Loops are structural or have a termination proof.  Besides the parser of JSON, only \<open>expire\<close> of \<open>Time_Series\<close> has fuel: the
  number of blocks, of which every round drops one, so that it ends at the limit (\<open>stash_expires_to_limit\<close>).

  \<^bold>\<open>Not modelled.\<close>  In \<open>cockpit.js\<close>: thenables of other promise libraries, setting a property of a proxy, the conversion of
  dates, \<open>window.onerror\<close>, and what only touches the document.  The pages of the other packages (systemd, users, storage,
  docker, software, virtual machines, the rest of NetworkManager and Kubernetes) are dialogs and document elements over React, Angular and
  jQuery, libraries that are not part of the repository.  The list of machines (\<open>pkg/lib/machines.js\<close>) has handlers that
  re-enter it synchronously.  \<open>KubeRequest\<close> and \<open>KubeWatch\<close> are inputs of the loader.  The bridge and the web service are C programs
  on the other side of the socket; fixtures and tests are data.
\<close>

end
